(* ===== verification/Prelude.thy ===== *)
theory Prelude
  imports Main "HOL-Library.Word" "HOL-Library.List_Lexorder" "HOL-Library.Char_ord"
    "HOL-Library.AList" "HOL-Library.Multiset" "HOL-Library.Sublist"
begin

text \<open>
  Shared vocabulary of the development: how Go's values are represented and the generic lemmas
  the components use.

  \<^item> A Go \<^verbatim>\<open>string\<close> or \<^verbatim>\<open>[]byte\<close> is a list of bytes, here \<^typ>\<open>string\<close> (an Isabelle
    \<^typ>\<open>char\<close> is exactly one byte); \<^verbatim>\<open><\<close> on strings is the bytewise lexicographic order,
    as in Go.
  \<^item> A Go map is an association list whose keys are distinct and whose order is the order in
    which one \<^verbatim>\<open>range\<close> over the map happens to visit it. Go leaves that order open, so a fact
    that must not depend on it is stated for every reordering.
  \<^item> A \<^verbatim>\<open>time.Time\<close> is its distance from the Unix epoch in nanoseconds, an \<^typ>\<open>int\<close>; a
    \<^verbatim>\<open>time.Duration\<close> is a number of nanoseconds. Where Go computes in 64 bits and may wrap,
    \<open>wrap64\<close> is written out.
  \<^item> Library code whose source is not in the repository, or whose tables are too large to
    restate, is a field of the record \<open>golib\<close> and is passed to whatever uses it.
\<close>

named_theorems go_simps \<open>rewrite rules for the Go library functions the source uses\<close>
named_theorems wf_intros \<open>introduction rules for well-formedness of values\<close>
named_theorems step_simps \<open>unfoldings of the state-changing operations of a component\<close>

subsection \<open>Names for the represented types\<close>

type_synonym bytes = string
type_synonym gotime = int
type_synonym duration = int
type_synonym 'v gomap = "(string \<times> 'v) list"
type_synonym u64 = "64 word"

abbreviation gomap_ok :: "('k \<times> 'v) list \<Rightarrow> bool" where
  "gomap_ok m \<equiv> distinct (map fst m)"

abbreviation byte :: "char \<Rightarrow> nat" where
  "byte c \<equiv> of_char c"

subsection \<open>Code outside the repository\<close>

text \<open>
  \<open>uni_lower\<close> is \<^verbatim>\<open>strings.ToLower\<close> on a string with a byte outside ASCII (Unicode's case
  tables); \<open>xxh64\<close> is \<^verbatim>\<open>xxhash.Sum64\<close>; \<open>re_err\<close> is the error text of \<^verbatim>\<open>regexp.Compile\<close>,
  if any, and \<open>re_find p s\<close> is \<^verbatim>\<open>MatchString\<close> of the compiled pattern; \<open>json_pair k v\<close> is
  \<^verbatim>\<open>json.Marshal\<close> of the one-entry map from \<open>k\<close> to \<open>v\<close>.
\<close>

record golib =
  uni_lower :: "string \<Rightarrow> string"
  xxh64 :: "bytes \<Rightarrow> u64"
  re_err :: "string \<Rightarrow> string option"
  re_find :: "string \<Rightarrow> string \<Rightarrow> bool"
  json_pair :: "string \<Rightarrow> string \<Rightarrow> string"

text \<open>One concrete instance, on which examples are computed: letters outside ASCII have no case, the
  hash adds the bytes up, every pattern compiles and matches where it occurs literally.\<close>

definition lib0 :: golib where
  "lib0 = \<lparr>uni_lower = id, xxh64 = (\<lambda>b. of_nat (sum_list (map of_char b))),
     re_err = (\<lambda>_. None), re_find = (\<lambda>p s. sublist p s),
     json_pair = (\<lambda>k v. ''{'' @ k @ '':'' @ v @ ''}'')\<rparr>"

subsection \<open>Integers of a fixed width\<close>

definition wrap64 :: "int \<Rightarrow> int" where
  "wrap64 x = (x + 2 ^ 63) mod 2 ^ 64 - 2 ^ 63"

definition int64_ok :: "int \<Rightarrow> bool" where
  "int64_ok x \<longleftrightarrow> - (2 ^ 63) \<le> x \<and> x < 2 ^ 63"

definition wrap16 :: "int \<Rightarrow> int" where
  "wrap16 x = (x + 2 ^ 15) mod 2 ^ 16 - 2 ^ 15"

lemma wrap64_id [go_simps]: "int64_ok x \<Longrightarrow> wrap64 x = x"
  by (simp add: wrap64_def int64_ok_def)

lemma wrap64_ok [simp]: "int64_ok (wrap64 x)"
  using pos_mod_bound[of "2 ^ 64 :: int" "x + 2 ^ 63"] pos_mod_sign[of "2 ^ 64 :: int" "x + 2 ^ 63"]
  by (simp add: wrap64_def int64_ok_def)

lemma wrap16_id [go_simps]: "- 32768 \<le> x \<Longrightarrow> x < 32768 \<Longrightarrow> wrap16 x = x"
  by (simp add: wrap16_def)

text \<open>Go's integer division truncates toward zero.\<close>

definition tdiv :: "int \<Rightarrow> int \<Rightarrow> int" where
  "tdiv a b = sgn a * sgn b * (\<bar>a\<bar> div \<bar>b\<bar>)"

definition tmod :: "int \<Rightarrow> int \<Rightarrow> int" where
  "tmod a b = a - tdiv a b * b"

lemma tmod_nonneg [go_simps]: "0 \<le> a \<Longrightarrow> 0 < b \<Longrightarrow> tmod a b = a mod b"
  by (cases "a = 0") (auto simp: tmod_def tdiv_def minus_div_mult_eq_mod)

lemma tdiv_nonneg [go_simps]: "0 \<le> a \<Longrightarrow> 0 < b \<Longrightarrow> tdiv a b = a div b"
  by (cases "a = 0") (auto simp: tdiv_def)

subsection \<open>Time\<close>

definition second :: duration where "second = 1000000000"
definition minute :: duration where "minute = 60 * second"
definition hour :: duration where "hour = 60 * minute"

lemmas duration_defs = second_def minute_def hour_def

text \<open>The zero \<^verbatim>\<open>time.Time\<close> is midnight of 1 January of the year 1.\<close>

definition zero_time :: gotime where
  "zero_time = - 62135596800 * second"

text \<open>\<^verbatim>\<open>Time.Sub\<close> saturates at the ends of the 64-bit range.\<close>

definition time_Sub :: "gotime \<Rightarrow> gotime \<Rightarrow> duration" where
  "time_Sub t u = (if t - u < - (2 ^ 63) then - (2 ^ 63) else if 2 ^ 63 \<le> t - u then 2 ^ 63 - 1 else t - u)"

subsection \<open>Decimal rendering\<close>

fun itoa :: "nat \<Rightarrow> string" where
  "itoa n = (if n < 10 then [char_of (48 + n)] else itoa (n div 10) @ [char_of (48 + n mod 10)])"

declare itoa.simps [simp del]

definition itoa_int :: "int \<Rightarrow> string" where
  "itoa_int i = (if i < 0 then CHR ''-'' # itoa (nat (- i)) else itoa (nat i))"

definition is_digit :: "char \<Rightarrow> bool" where
  "is_digit c \<longleftrightarrow> 48 \<le> byte c \<and> byte c \<le> (57::nat)"

lemma itoa_digits: "list_all is_digit (itoa n)"
proof (induction n rule: itoa.induct)
  case (1 n)
  show ?case
    by (cases "n < 10") (use 1 in \<open>simp_all add: itoa.simps[of n] is_digit_def\<close>)
qed

lemma itoa_nonempty [simp]: "itoa n \<noteq> []"
  by (subst itoa.simps) simp

text \<open>The value of a string of decimal digits.\<close>

definition dec_value :: "string \<Rightarrow> nat" where
  "dec_value s = foldl (\<lambda>v c. v * 10 + (byte c - 48)) 0 s"

definition zeros :: "nat \<Rightarrow> string" where
  "zeros n = replicate n (CHR ''0'')"

lemma dec_value_acc:
  "foldl (\<lambda>v c. v * 10 + (byte c - 48)) a s = a * 10 ^ length s + dec_value s"
proof -
  have "foldl (\<lambda>v c. v * 10 + (byte c - 48)) (a + b) s =
      a * 10 ^ length s + foldl (\<lambda>v c. v * 10 + (byte c - 48)) b s" for a b
    by (induction s arbitrary: a b) (simp_all add: algebra_simps add_mult_distrib)
  from this[of a 0] show ?thesis by (simp add: dec_value_def)
qed

lemma dec_value_Nil [simp]: "dec_value [] = 0"
  by (simp add: dec_value_def)

lemma dec_value_Cons: "dec_value (c # s) = (byte c - 48) * 10 ^ length s + dec_value s"
  using dec_value_acc[of "byte c - 48" s] by (simp add: dec_value_def)

lemma dec_value_append: "dec_value (s @ t) = dec_value s * 10 ^ length t + dec_value t"
  using dec_value_acc[of "dec_value s" t] by (simp add: dec_value_def)

lemma dec_value_less: "list_all is_digit s \<Longrightarrow> dec_value s < 10 ^ length s"
proof (induction s)
  case (Cons c s)
  then have "byte c - 48 \<le> (9::nat)" "dec_value s < 10 ^ length s" by (auto simp: is_digit_def)
  then have "(byte c - 48) * 10 ^ length s + dec_value s < 9 * 10 ^ length s + 10 ^ length s"
    by (intro add_le_less_mono mult_right_mono) auto
  then show ?case by (simp add: dec_value_Cons)
qed simp

lemma dec_value_itoa [simp]: "dec_value (itoa n) = n"
proof (induction n rule: itoa.induct)
  case (1 n)
  show ?case
    by (cases "n < 10") (use 1 in \<open>simp_all add: itoa.simps[of n] dec_value_append dec_value_Cons\<close>)
qed

lemma dec_value_zeros [simp]: "dec_value (zeros k @ s) = dec_value s"
  by (induction k) (simp_all add: zeros_def dec_value_Cons)

lemma zeros_digits [simp]: "list_all is_digit (zeros k)"
  by (simp add: zeros_def list_all_iff is_digit_def)

lemma itoa_length: "n < 10 ^ k \<Longrightarrow> 0 < k \<Longrightarrow> length (itoa n) \<le> k"
proof (induction n arbitrary: k rule: itoa.induct)
  case (1 n)
  show ?case
  proof (cases "n < 10")
    case True
    with 1 show ?thesis by (simp add: itoa.simps[of n])
  next
    case False
    with 1 have "n div 10 < 10 ^ (k - 1)" and "0 < k - 1"
      by (cases k; simp add: div_less_iff_less_mult mult.commute; cases "k - 1"; simp)+
    with 1(1)[OF False, of "k - 1"] False show ?thesis by (simp add: itoa.simps[of n])
  qed
qed

text \<open>Decimals of one length compare as strings the way they compare as numbers.\<close>

lemma dec_value_order:
  "length s = length t \<Longrightarrow> list_all is_digit s \<Longrightarrow> list_all is_digit t \<Longrightarrow> s < t \<longleftrightarrow> dec_value s < dec_value t"
proof (induction s t rule: list_induct2)
  case (Cons c s d t)
  let ?k = "10 ^ length s :: nat"
  have b: "dec_value s < ?k" "dec_value t < ?k" using Cons dec_value_less[of s] dec_value_less[of t] by auto
  show ?case
  proof (cases "c = d")
    case True
    with Cons show ?thesis by (simp add: dec_value_Cons)
  next
    case False
    have less: "x * ?k + u < y * ?k + v" if "x < y" "u < ?k" for x y u v :: nat
    proof -
      have "x * ?k + u < (x + 1) * ?k" using that by simp
      also have "\<dots> \<le> y * ?k" using that by (intro mult_right_mono) auto
      finally show ?thesis by simp
    qed
    have ne: "byte c \<noteq> (byte d :: nat)" using False by (simp add: of_char_eq_iff)
    have dig: "48 \<le> byte c" "48 \<le> (byte d :: nat)" using Cons by (auto simp: is_digit_def)
    have "c < d \<longleftrightarrow> byte c < (byte d :: nat)" by (simp add: less_char_def)
    with False have lex: "c # s < d # t \<longleftrightarrow> byte c < (byte d :: nat)" by simp
    show ?thesis
    proof (cases "byte c < (byte d :: nat)")
      case True
      with dig have "byte c - 48 < byte d - (48 :: nat)" by simp
      from less[OF this b(1)] lex True show ?thesis by (simp add: dec_value_Cons Cons.hyps)
    next
      case False
      with ne dig have "byte d - 48 < byte c - (48 :: nat)" by linarith
      from less[OF this b(2), of "dec_value s"] lex False show ?thesis by (simp add: dec_value_Cons Cons.hyps)
    qed
  qed
qed simp

subsection \<open>Lists\<close>

lemma takeWhile_dropWhile_length:
  "length (takeWhile P xs) + length (dropWhile P xs) = length xs"
  by (metis length_append takeWhile_dropWhile_id)

lemma sort_mset_cong:
  fixes xs ys :: "'a :: linorder list"
  assumes "mset xs = mset ys"
  shows "sort xs = sort ys"
  using assms by (metis mset_sort properties_for_sort sorted_sort)

lemma compact_sort:
  fixes xs :: "'a :: linorder list"
  shows "sorted_wrt (<) (remdups_adj (sort xs))"
proof -
  have "sorted ys \<Longrightarrow> sorted_wrt (<) (remdups_adj ys)" for ys :: "'a list"
    by (induction ys rule: remdups_adj.induct) (auto simp: order_less_le intro: order.trans)
  then show ?thesis by simp
qed

lemma compact_sort_cong:
  fixes xs ys :: "'a :: linorder list"
  shows "set xs = set ys \<Longrightarrow> remdups_adj (sort xs) = remdups_adj (sort ys)"
  using compact_sort[of xs] compact_sort[of ys]
  by (intro sorted_distinct_set_unique) (auto simp: strict_sorted_iff)

lemma map_of_perm:
  assumes "gomap_ok m" and "mset m = mset m'"
  shows "map_of m = map_of m'"
proof -
  have "gomap_ok m'"
    using assms by (metis mset_eq_imp_distinct_iff mset_map)
  then show ?thesis
    using assms by (intro map_of_inject_set[THEN iffD2]) (auto dest: mset_eq_setD)
qed

lemma map_fst_keys_perm: "mset m = mset m' \<Longrightarrow> sort (map fst m) = sort (map fst m')"
  by (rule sort_mset_cong) (metis mset_map)

lemma sum_list_take_drop:
  fixes xs :: "'a :: comm_monoid_add list"
  shows "sum_list (take n xs) + sum_list (drop n xs) = sum_list xs"
  by (metis append_take_drop_id sum_list_append)

subsection \<open>Reading a map\<close>

text \<open>Indexing a Go map with a missing key gives the zero value.\<close>

definition goget :: "string gomap \<Rightarrow> string \<Rightarrow> string" where
  "goget m k = (case map_of m k of None \<Rightarrow> [] | Some v \<Rightarrow> v)"

lemma goget_perm: "gomap_ok m \<Longrightarrow> mset m = mset m' \<Longrightarrow> goget m k = goget m' k"
  by (simp add: goget_def map_of_perm[of m m'])

subsection \<open>The first error of a sequence of checks\<close>

fun first_err :: "'e option list \<Rightarrow> 'e option" where
  "first_err [] = None"
| "first_err (None # es) = first_err es"
| "first_err (Some e # es) = Some e"

lemma first_err_None_iff [simp]: "first_err es = None \<longleftrightarrow> list_all (\<lambda>e. e = None) es"
  by (induction es rule: first_err.induct) auto

end
