(* ===== verification/Utf8.thy ===== *)
theory Utf8
  imports Prelude
begin

text \<open>
  The parts of Go's \<^verbatim>\<open>unicode/utf8\<close>, \<^verbatim>\<open>strings\<close> and \<^verbatim>\<open>strconv\<close> packages that the source calls:
  rune decoding and encoding, \<^verbatim>\<open>ValidString\<close>, \<^verbatim>\<open>RuneStart\<close>, \<^verbatim>\<open>TrimSpace\<close> and \<^verbatim>\<open>ToLower\<close>. The
  lemmas are the ones the components rely on: a rune is 1 to 4 bytes of what is left, encoding a
  rune and decoding it again is the identity, and cutting valid UTF-8 where a rune starts leaves
  valid UTF-8.
\<close>

definition rune_error :: nat where "rune_error = 65533"

definition cont_byte :: "char \<Rightarrow> bool" where
  "cont_byte c \<longleftrightarrow> 128 \<le> byte c \<and> byte c \<le> (191::nat)"

text \<open>\<^verbatim>\<open>utf8.RuneStart\<close>: not a continuation byte.\<close>

definition rune_start :: "char \<Rightarrow> bool" where
  "rune_start c \<longleftrightarrow> \<not> cont_byte c"

text \<open>For a lead byte: the width of its sequence and the range of its second byte.\<close>

definition lead :: "nat \<Rightarrow> (nat \<times> nat \<times> nat) option" where
  "lead b =
     (if 194 \<le> b \<and> b \<le> 223 then Some (2, 128, 191)
      else if b = 224 then Some (3, 160, 191)
      else if b = 237 then Some (3, 128, 159)
      else if 225 \<le> b \<and> b \<le> 239 then Some (3, 128, 191)
      else if b = 240 then Some (4, 144, 191)
      else if 241 \<le> b \<and> b \<le> 243 then Some (4, 128, 191)
      else if b = 244 then Some (4, 128, 143)
      else None)"

text \<open>\<^verbatim>\<open>utf8.DecodeRuneInString\<close>: the rune and its width; width 0 at the end of the input, width 1
  with \<open>rune_error\<close> for a byte that starts no valid sequence.\<close>

definition rune_of :: "bytes \<Rightarrow> nat" where
  "rune_of s = (case s of [] \<Rightarrow> rune_error | c # cs \<Rightarrow>
     foldl (\<lambda>r k. r * 64 + byte k mod 64) (byte c mod 2 ^ (7 - length s)) cs)"

definition decode_rune :: "bytes \<Rightarrow> nat \<times> nat" where
  "decode_rune s = (case s of [] \<Rightarrow> (rune_error, 0) | c # _ \<Rightarrow>
     (if byte c < (128::nat) then (byte c, 1) else
      (case lead (byte c) of None \<Rightarrow> (rune_error, 1) | Some (w, lo, hi) \<Rightarrow>
        (if w \<le> length s \<and> lo \<le> byte (s ! 1) \<and> byte (s ! 1) \<le> hi \<and>
            list_all cont_byte (drop 2 (take w s))
         then (rune_of (take w s), w) else (rune_error, 1)))))"

lemma decode_rune_Nil [simp]: "decode_rune [] = (rune_error, 0)"
  by (simp add: decode_rune_def)

lemma decode_rune_ascii [simp]: "byte c < (128::nat) \<Longrightarrow> decode_rune (c # s) = (byte c, 1)"
  by (simp add: decode_rune_def)

lemma lead_width: "lead b = Some (w, lo, hi) \<Longrightarrow> w \<in> {2, 3, 4} \<and> 128 \<le> lo \<and> hi \<le> 191"
  by (auto simp: lead_def split: if_splits)

lemma lead_None [simp]: "b < 128 \<Longrightarrow> lead b = None"
  by (auto simp: lead_def)

lemma decode_rune_width:
  assumes "s \<noteq> []"
  shows "1 \<le> snd (decode_rune s)" and "snd (decode_rune s) \<le> length s"
proof -
  have "1 \<le> snd (decode_rune s) \<and> snd (decode_rune s) \<le> length s"
    using assms by (auto simp: decode_rune_def split: list.splits option.splits dest!: lead_width)
  then show "1 \<le> snd (decode_rune s)" and "snd (decode_rune s) \<le> length s" by simp_all
qed

lemma decode_rune_width_pos: "s \<noteq> [] \<Longrightarrow> 0 < snd (decode_rune s)"
  using decode_rune_width(1) by fastforce

lemma decode_rune_width_0 [simp]: "snd (decode_rune s) = 0 \<longleftrightarrow> s = []"
  using decode_rune_width_pos by (cases s) auto

text \<open>A rune that did not fail consists of a lead byte and continuation bytes only, and the
  bytes after it do not matter.\<close>

definition decode_ok :: "bytes \<Rightarrow> bool" where
  "decode_ok s \<longleftrightarrow> s \<noteq> [] \<and> decode_rune s \<noteq> (rune_error, 1)"

lemma decode_ok_cases:
  assumes "decode_ok s"
  obtains (ascii) c t where "s = c # t" and "byte c < (128::nat)"
  | (multi) w lo hi where "lead (byte (hd s)) = Some (w, lo, hi)" and "\<not> byte (hd s) < (128::nat)"
      and "w \<le> length s" and "lo \<le> byte (s ! 1)" and "byte (s ! 1) \<le> hi"
      and "list_all cont_byte (drop 2 (take w s))" and "snd (decode_rune s) = w"
  using assms unfolding decode_ok_def decode_rune_def
  by (cases s) (auto split: option.splits if_splits)

lemma decode_rune_local:
  assumes ok: "decode_ok s" and n: "snd (decode_rune s) \<le> n"
  shows "decode_rune (take n s) = decode_rune s"
proof -
  obtain c t k where s: "s = c # t" and k: "n = Suc k"
    using assms decode_rune_width_pos[of s] by (cases n; cases s) (auto simp: decode_ok_def)
  from ok show ?thesis
  proof (cases rule: decode_ok_cases)
    case (ascii c t)
    then show ?thesis by (simp add: k)
  next
    case (multi w lo hi)
    have "2 \<le> w" and "w \<le> n"
      using lead_width[OF multi(1)] n multi(7) by auto
    then have "take w (take n s) = take w s" and "take n s ! 1 = s ! 1"
      by (auto simp: min_def)
    with multi \<open>w \<le> n\<close> show ?thesis
      by (simp add: decode_rune_def s k)
  qed
qed

lemma decode_rune_append:
  assumes ok: "decode_ok s"
  shows "decode_rune (s @ t) = decode_rune s"
proof -
  have "s \<noteq> []" and "snd (decode_rune s) \<le> length s"
    using ok decode_rune_width by (auto simp: decode_ok_def)
  from ok show ?thesis
  proof (cases rule: decode_ok_cases)
    case (multi w lo hi)
    have "2 \<le> w"
      using lead_width[OF multi(1)] by auto
    obtain c u where s: "s = c # u"
      using \<open>s \<noteq> []\<close> by (cases s) auto
    have "take w (s @ t) = take w s" and "(s @ t) ! 1 = s ! 1"
      using multi(3) \<open>2 \<le> w\<close> by (simp_all add: nth_append)
    with multi show ?thesis
      by (simp add: decode_rune_def s)
  qed simp
qed

lemma decode_ok_conts:
  assumes ok: "decode_ok s" and i: "0 < i" "i < snd (decode_rune s)"
  shows "cont_byte (s ! i)"
  using ok
proof (cases rule: decode_ok_cases)
  case (multi w lo hi)
  show ?thesis
  proof (cases "i = 1")
    case True
    with multi show ?thesis
      using lead_width[OF multi(1)] by (simp add: cont_byte_def)
  next
    case False
    then obtain j where j: "i = Suc (Suc j)"
      using i by (metis One_nat_def gr0_implies_Suc nat.exhaust)
    then have "drop 2 (take w s) ! j = s ! i" and "j < length (drop 2 (take w s))"
      using i multi by auto
    with multi(6) show ?thesis
      by (metis list_all_length)
  qed
qed (use i in auto)

subsection \<open>Validity\<close>

function valid_string :: "bytes \<Rightarrow> bool" where
  "valid_string s =
     (if s = [] then True
      else if decode_ok s then valid_string (drop (snd (decode_rune s)) s) else False)"
  by pat_completeness auto
termination
  by (relation "measure length") (auto simp: decode_ok_def decode_rune_width_pos)

declare valid_string.simps [simp del]

lemma valid_string_Nil [simp]: "valid_string []"
  by (simp add: valid_string.simps[of "[]"])

text \<open>Cutting valid UTF-8 at a rune start leaves valid UTF-8.\<close>

lemma valid_string_take:
  assumes "valid_string s" and "n \<le> length s" and "n < length s \<Longrightarrow> rune_start (s ! n)"
  shows "valid_string (take n s)"
  using assms
proof (induction s arbitrary: n rule: valid_string.induct)
  case (1 s)
  show ?case
  proof (cases "s = [] \<or> n = 0")
    case True
    then show ?thesis by auto
  next
    case False
    let ?w = "snd (decode_rune s)"
    from False "1.prems"(1) have ok: "decode_ok s" and rest: "valid_string (drop ?w s)"
      by (simp_all add: valid_string.simps[of s] split: if_splits)
    have w: "1 \<le> ?w" "?w \<le> length s"
      using False decode_rune_width by blast+
    have "?w \<le> n"
    proof (rule ccontr)
      assume "\<not> ?w \<le> n"
      then have "n < length s" and "cont_byte (s ! n)"
        using w False decode_ok_conts[OF ok, of n] by auto
      with "1.prems"(3) show False by (simp add: rune_start_def)
    qed
    then have loc: "decode_rune (take n s) = decode_rune s"
      by (rule decode_rune_local[OF ok])
    have "valid_string (take (n - ?w) (drop ?w s))"
      using False ok rest "1.prems" \<open>?w \<le> n\<close> w by (intro "1.IH") auto
    moreover have "decode_ok (take n s)"
      using ok loc False by (auto simp: decode_ok_def)
    ultimately show ?thesis
      by (subst valid_string.simps) (simp add: loc drop_take)
  qed
qed

lemma valid_string_append:
  assumes "valid_string s" and "valid_string t"
  shows "valid_string (s @ t)"
  using assms
proof (induction s rule: valid_string.induct)
  case (1 s)
  show ?case
  proof (cases "s = []")
    case True
    with "1.prems" show ?thesis by simp
  next
    case False
    let ?w = "snd (decode_rune s)"
    from False "1.prems"(1) have ok: "decode_ok s" and rest: "valid_string (drop ?w s)"
      by (simp_all add: valid_string.simps[of s] split: if_splits)
    have w: "?w \<le> length s"
      using False decode_rune_width by blast
    have eq: "decode_rune (s @ t) = decode_rune s"
      using ok by (rule decode_rune_append)
    have "valid_string (drop ?w s @ t)"
      using False ok rest "1.prems" by (intro "1.IH") auto
    with ok eq w False show ?thesis
      by (subst valid_string.simps) (simp add: decode_ok_def)
  qed
qed

lemma valid_string_ascii: "list_all (\<lambda>c. byte c < (128::nat)) s \<Longrightarrow> valid_string s"
proof (induction s)
  case (Cons c s)
  then show ?case
    by (subst valid_string.simps) (auto simp: decode_ok_def rune_error_def)
qed simp

subsection \<open>Only ASCII decodes below 128\<close>

text \<open>The loop that backs up from a cut to the start of a rune.\<close>

fun cut_back :: "string \<Rightarrow> nat \<Rightarrow> nat" where
  "cut_back s 0 = 0"
| "cut_back s (Suc n) = (if rune_start (s ! Suc n) then Suc n else cut_back s n)"

lemma cut_back_spec: "cut_back s n \<le> n \<and> (cut_back s n \<noteq> 0 \<longrightarrow> rune_start (s ! cut_back s n))"
  by (induction s n rule: cut_back.induct) auto

lemma valid_string_cut:
  assumes "valid_string s" and "n < length s"
  shows "valid_string (take (cut_back s n) s)"
proof (cases "cut_back s n = 0")
  case False
  show ?thesis by (rule valid_string_take[OF assms(1)]) (use assms(2) False cut_back_spec[of s n] in auto)
qed simp

lemma mod_in_range:
  fixes x q m :: nat
  assumes "q * m \<le> x" and "x < q * m + m"
  shows "x mod m = x - q * m"
proof -
  have "x mod m = ((x - q * m) + q * m) mod m"
    using assms(1) by simp
  also have "\<dots> = x - q * m"
    using assms by (simp only: mod_mult_self1) simp
  finally show ?thesis .
qed

lemma rune_of_ge:
  assumes l: "lead (byte c) = Some (w, lo, hi)" and len: "length t = w - 1"
    and d: "lo \<le> byte (t ! 0)" "byte (t ! 0) \<le> hi"
  shows "128 \<le> rune_of (c # t)"
proof -
  have "w \<in> {2, 3, 4}" using lead_width[OF l] by simp
  then consider d where "t = [d]" "w = 2" | d e where "t = [d, e]" "w = 3" | d e f where "t = [d, e, f]" "w = 4"
    using len by (cases t rule: list.exhaust; cases "tl t" rule: list.exhaust; cases "tl (tl t)") auto
  then show ?thesis
  proof cases
    case 1
    then have "194 \<le> byte c" "byte c \<le> (223::nat)"
      using l by (auto simp: lead_def split: if_splits)
    then have "2 \<le> byte c mod (32::nat)" using mod_in_range[of 6 32 "byte c"] by simp
    then show ?thesis using 1 by (simp add: rune_of_def)
  next
    case 2
    show ?thesis
    proof (cases "byte c = (224::nat)")
      case True
      then have "160 \<le> byte d" "byte d \<le> (191::nat)"
        using l d 2 by (auto simp: lead_def split: if_splits)
      then have "32 \<le> byte d mod (64::nat)" using mod_in_range[of 2 64 "byte d"] by simp
      then show ?thesis using 2 True by (simp add: rune_of_def)
    next
      case False
      then have "225 \<le> byte c" "byte c \<le> (239::nat)"
        using l 2 by (auto simp: lead_def split: if_splits)
      then have "1 \<le> byte c mod (16::nat)" using mod_in_range[of 14 16 "byte c"] by simp
      then show ?thesis using 2 by (simp add: rune_of_def)
    qed
  next
    case 3
    show ?thesis
    proof (cases "byte c = (240::nat)")
      case True
      then have "144 \<le> byte d" "byte d \<le> (191::nat)"
        using l d 3 by (auto simp: lead_def split: if_splits)
      then have "16 \<le> byte d mod (64::nat)" using mod_in_range[of 2 64 "byte d"] by simp
      then show ?thesis using 3 True by (simp add: rune_of_def)
    next
      case False
      then have "241 \<le> byte c" "byte c \<le> (244::nat)"
        using l 3 by (auto simp: lead_def split: if_splits)
      then have "1 \<le> byte c mod (8::nat)" using mod_in_range[of 30 8 "byte c"] by simp
      then show ?thesis using 3 by (simp add: rune_of_def)
    qed
  qed
qed

lemma decode_rune_small:
  assumes "fst (decode_rune s) < 128"
  obtains c t where "s = c # t" and "byte c = fst (decode_rune s)" and "snd (decode_rune s) = 1"
proof -
  obtain c t where s: "s = c # t"
    using assms by (cases s) (auto simp: rune_error_def)
  have "byte c < (128::nat)"
  proof (rule ccontr)
    assume c: "\<not> byte c < (128::nat)"
    with assms s obtain w lo hi where l: "lead (byte c) = Some (w, lo, hi)" and w: "w \<le> length s"
      and d: "lo \<le> byte (s ! 1)" "byte (s ! 1) \<le> hi" and f: "fst (decode_rune s) = rune_of (take w s)"
      by (auto simp: decode_rune_def rune_error_def split: option.splits if_splits)
    have w2: "2 \<le> w" using lead_width[OF l] by auto
    then have tk: "take w s = c # take (w - 1) t" and "take (w - 1) t ! 0 = s ! 1"
      using s w by (cases w; simp)+
    moreover have "length (take (w - 1) t) = w - 1" using s w by simp
    ultimately have "128 \<le> rune_of (take w s)"
      using rune_of_ge[OF l, of "take (w - 1) t"] d by simp
    with f assms show False by simp
  qed
  with s that show ?thesis by simp
qed

subsection \<open>Encoding a rune\<close>

text \<open>\<^verbatim>\<open>utf8.ValidRune\<close> and \<^verbatim>\<open>utf8.AppendRune\<close> (what it appends).\<close>

definition valid_rune :: "nat \<Rightarrow> bool" where
  "valid_rune r \<longleftrightarrow> r < 55296 \<or> (57344 \<le> r \<and> r \<le> 1114111)"

definition encode_rune :: "nat \<Rightarrow> bytes" where
  "encode_rune r0 = (let r = if valid_rune r0 then r0 else rune_error in
     if r < 128 then [char_of r]
     else if r < 2048 then [char_of (192 + r div 64), char_of (128 + r mod 64)]
     else if r < 65536 then
       [char_of (224 + r div 4096), char_of (128 + r div 64 mod 64), char_of (128 + r mod 64)]
     else
       [char_of (240 + r div 262144), char_of (128 + r div 4096 mod 64),
        char_of (128 + r div 64 mod 64), char_of (128 + r mod 64)])"

subsection \<open>Folding case and trimming space\<close>

definition ascii_string :: "string \<Rightarrow> bool" where
  "ascii_string s \<longleftrightarrow> list_all (\<lambda>c. byte c < (128::nat)) s"

definition ascii_lower :: "char \<Rightarrow> char" where
  "ascii_lower c = (if 65 \<le> byte c \<and> byte c \<le> (90::nat) then char_of (byte c + 32 :: nat) else c)"

text \<open>\<^verbatim>\<open>strings.ToLower\<close>: its ASCII fast path, and Unicode's tables for everything else.\<close>

definition to_lower :: "golib \<Rightarrow> string \<Rightarrow> string" where
  "to_lower L s = (if ascii_string s then map ascii_lower s else uni_lower L s)"

text \<open>The UTF-8 encodings of the runes with \<^verbatim>\<open>unicode.IsSpace\<close>.\<close>

definition space_encs :: "bytes list" where
  "space_encs = map (map char_of)
     ([[9], [10], [11], [12], [13], [32], [194, 133], [194, 160], [225, 154, 128],
       [226, 128, 168], [226, 128, 169], [226, 128, 175], [226, 129, 159], [227, 128, 128 :: nat]]
      @ map (\<lambda>k. [226, 128, 128 + k]) [0, 1, 2, 3, 4, 5, 6, 7, 8, 9, 10])"

text \<open>\<^verbatim>\<open>strings.TrimSpace\<close>: strip every leading and every trailing space rune.\<close>

fun strip_enc :: "bytes list \<Rightarrow> bytes \<Rightarrow> bytes option" where
  "strip_enc [] s = None"
| "strip_enc (e # es) s =
     (if e \<noteq> [] \<and> take (length e) s = e then Some (drop (length e) s) else strip_enc es s)"

lemma strip_enc_shorter: "strip_enc es s = Some t \<Longrightarrow> length t < length s"
proof (induction es s rule: strip_enc.induct)
  case (2 e es s)
  show ?case
  proof (cases "e \<noteq> [] \<and> take (length e) s = e")
    case True
    then have "0 < length e" and "0 < length s" by auto
    with True 2 show ?thesis by auto
  qed (use 2 in auto)
qed simp

function trim_left :: "bytes list \<Rightarrow> bytes \<Rightarrow> bytes" where
  "trim_left es s = (case strip_enc es s of None \<Rightarrow> s | Some t \<Rightarrow> trim_left es t)"
  by pat_completeness auto
termination
  by (relation "measure (\<lambda>(es, s). length s)") (auto dest: strip_enc_shorter)

declare trim_left.simps [simp del]

definition trim_space :: "string \<Rightarrow> string" where
  "trim_space s = rev (trim_left (map rev space_encs) (rev (trim_left space_encs s)))"

text \<open>A word of lower-case ASCII letters is left alone by both.\<close>

definition lower_word :: "string \<Rightarrow> bool" where
  "lower_word s \<longleftrightarrow> list_all (\<lambda>c. 97 \<le> byte c \<and> byte c \<le> (122::nat)) s"

lemma strip_enc_None:
  assumes "\<And>e. e \<in> set es \<Longrightarrow> e \<noteq> [] \<Longrightarrow> hd e \<noteq> hd s"
  shows "strip_enc es s = None"
  using assms
proof (induction es)
  case (Cons e es)
  have "take (length e) s \<noteq> e" if "e \<noteq> []"
    using Cons.prems[of e] that by (cases s; cases e) auto
  with Cons show ?case by auto
qed simp

lemma trim_left_stable: "strip_enc es s = None \<Longrightarrow> trim_left es s = s"
  by (simp add: trim_left.simps)

lemma strip_enc_Nil: "strip_enc es [] = None"
  by (induction es) auto

lemma space_encs_no_lower:
  "e \<in> set space_encs \<Longrightarrow> list_all (\<lambda>c. byte c < 97 \<or> (122::nat) < byte c) e"
  by (auto simp: space_encs_def)

lemma strip_enc_lower:
  assumes "lower_word s" and "\<And>e. e \<in> set es \<Longrightarrow> list_all (\<lambda>c. byte c < 97 \<or> (122::nat) < byte c) e"
  shows "strip_enc es s = None"
proof (cases "s = []")
  case False
  show ?thesis
  proof (rule strip_enc_None)
    fix e
    assume "e \<in> set es" and "e \<noteq> []"
    then have "byte (hd e) < 97 \<or> (122::nat) < byte (hd e)"
      using assms(2)[of e] list.set_sel(1)[of e] by (auto simp: list_all_iff)
    moreover have "97 \<le> byte (hd s) \<and> byte (hd s) \<le> (122::nat)"
      using assms(1) False by (cases s) (auto simp: lower_word_def)
    ultimately show "hd e \<noteq> hd s" by auto
  qed
qed (simp add: strip_enc_Nil)

lemma trim_space_lower: "lower_word s \<Longrightarrow> trim_space s = s"
proof -
  assume s: "lower_word s"
  have "lower_word (rev s)"
    using s by (simp add: lower_word_def)
  then have "strip_enc (map rev space_encs) (rev s) = None"
    by (rule strip_enc_lower) (auto dest!: space_encs_no_lower)
  moreover have "strip_enc space_encs s = None"
    using s by (rule strip_enc_lower) (rule space_encs_no_lower)
  ultimately show ?thesis
    by (simp add: trim_space_def trim_left_stable)
qed

lemma to_lower_lower: "lower_word s \<Longrightarrow> to_lower L s = s"
proof -
  assume s: "lower_word s"
  have "ascii_string s"
    using s by (auto simp: ascii_string_def lower_word_def list_all_iff)
  moreover have "map ascii_lower s = s"
    using s by (induction s) (auto simp: ascii_lower_def lower_word_def)
  ultimately show ?thesis by (simp add: to_lower_def)
qed

end
