(* ===== verification/Levels.thy ===== *)
theory Levels
  imports Utf8
begin

text \<open>
  \<^verbatim>\<open>internal/model/level.go\<close>: severities, their names and the aliases accepted for them. A
  \<^verbatim>\<open>Level\<close> is an \<^typ>\<open>int\<close> in the range of int16; the sentinel errors of \<^verbatim>\<open>internal/model\<close> are the
  datatype \<open>model_err\<close> (the wrapping message text is not kept, since callers test the sentinel).
\<close>

datatype model_err =
    ErrInvalidLevel | ErrMissingLabel | ErrReservedLabel | ErrInvalidLabelName | ErrLabelTooLong
  | ErrTooManyLabels | ErrMissingTime | ErrTimeOutOfRange | ErrMessageTooLong | ErrTooManyFields
  | ErrFieldTooLong | ErrBadTraceID | ErrBadSpanID | ErrNegativeSeq

abbreviation LevelUnspecified :: int where "LevelUnspecified \<equiv> 0"

definition levelNames :: "string list" where
  "levelNames =
     [''unspecified'', ''trace'', ''debug'', ''info'', ''warn'', ''error'', ''fatal'']"

definition levelAliases :: "int gomap" where
  "levelAliases =
     [(''unspecified'', 0),
      (''trace'', 1), (''trc'', 1), (''verbose'', 1),
      (''debug'', 2), (''dbg'', 2),
      (''info'', 3), (''inf'', 3), (''notice'', 3),
      (''warn'', 4), (''wrn'', 4), (''warning'', 4),
      (''error'', 5), (''err'', 5), (''eror'', 5),
      (''fatal'', 6), (''critical'', 6), (''crit'', 6), (''panic'', 6),
      (''emergency'', 6), (''alert'', 6)]"

definition level_Valid :: "int \<Rightarrow> bool" where
  "level_Valid l \<longleftrightarrow> LevelUnspecified \<le> l \<and> l < int (length levelNames)"

definition level_String :: "int \<Rightarrow> string" where
  "level_String l =
     (if \<not> level_Valid l then ''level('' @ itoa_int l @ '')'' else levelNames ! nat l)"

definition level_MarshalText :: "int \<Rightarrow> model_err + bytes" where
  "level_MarshalText l =
     (if \<not> level_Valid l then Inl ErrInvalidLevel else Inr (level_String l))"

definition ParseLevel :: "golib \<Rightarrow> string \<Rightarrow> model_err + int" where
  "ParseLevel L s =
     (case map_of levelAliases (to_lower L (trim_space s)) of
        None \<Rightarrow> Inl ErrInvalidLevel
      | Some lvl \<Rightarrow> Inr lvl)"

text \<open>\<^verbatim>\<open>UnmarshalText\<close> leaves the receiver alone on an error.\<close>

definition level_UnmarshalText :: "golib \<Rightarrow> int \<Rightarrow> bytes \<Rightarrow> model_err option \<times> int" where
  "level_UnmarshalText L l text =
     (case ParseLevel L text of Inl e \<Rightarrow> (Some e, l) | Inr parsed \<Rightarrow> (None, parsed))"

subsection \<open>Facts\<close>

lemma level_Valid_iff: "level_Valid l \<longleftrightarrow> l \<in> {0, 1, 2, 3, 4, 5, 6}"
  by (auto simp: level_Valid_def levelNames_def)

lemma levelAliases_Valid: "map_of levelAliases s = Some l \<Longrightarrow> level_Valid l"
  by (auto simp: levelAliases_def level_Valid_iff split: if_splits)

lemma ParseLevel_Valid: "ParseLevel L s = Inr l \<Longrightarrow> level_Valid l"
  by (auto simp: ParseLevel_def split: option.splits dest: levelAliases_Valid)

lemma levelNames_lower: "n \<in> set levelNames \<Longrightarrow> lower_word n"
  by (auto simp: levelNames_def lower_word_def)

lemma alias_of_name: "level_Valid l \<Longrightarrow> map_of levelAliases (levelNames ! nat l) = Some l"
  unfolding level_Valid_iff by (elim insertE emptyE; hypsubst; code_simp)

lemma level_name_parses:
  assumes "level_Valid l"
  shows "ParseLevel L (level_String l) = Inr l"
proof -
  have "lower_word (levelNames ! nat l)"
    using assms by (intro levelNames_lower) (auto simp: level_Valid_def)
  then show ?thesis
    using assms alias_of_name[OF assms]
    by (simp add: ParseLevel_def level_String_def trim_space_lower to_lower_lower)
qed

subsection \<open>Properties\<close>

text \<open>A level is printed and read back unchanged: the text \<^verbatim>\<open>MarshalText\<close> produces for a level is
  accepted by \<^verbatim>\<open>UnmarshalText\<close> and \<^verbatim>\<open>ParseLevel\<close> and gives the same level, an invalid level or
  text is refused and leaves the receiver as it was, and whatever \<^verbatim>\<open>ParseLevel\<close> accepts, aliases included, is a valid level that prints and parses back
  to itself.\<close>

theorem level_text_roundtrip:
  "(case level_MarshalText l of
      Inr t \<Rightarrow> level_Valid l \<and> level_UnmarshalText L old t = (None, l)
    | Inl e \<Rightarrow> \<not> level_Valid l \<and> e = ErrInvalidLevel) \<and>
   (case ParseLevel L s of
      Inr k \<Rightarrow> level_MarshalText k = Inr (level_String k) \<and> ParseLevel L (level_String k) = Inr k
    | Inl e \<Rightarrow> e = ErrInvalidLevel \<and> level_UnmarshalText L old s = (Some e, old))"
  by (auto simp: level_MarshalText_def level_UnmarshalText_def level_name_parses
      dest: ParseLevel_Valid split: sum.splits if_splits)
    (auto simp: ParseLevel_def split: option.splits)

end
