(* ===== verification/Labels.thy ===== *)
theory Labels
  imports Levels
begin

text \<open>
  \<^verbatim>\<open>internal/model/labels.go\<close>: label sets, their canonical encoding and the stream id derived from
  it, and validation. The lemmas show that the encoding does not depend on map order and is
  injective, so two label sets share an encoding exactly when they are the same label set.
\<close>

record LabelSet =
  Service :: string
  Host :: string
  Env :: string
  Extra :: "string gomap"

definition MaxExtraLabels :: nat where "MaxExtraLabels = 32"
definition MaxLabelNameLen :: nat where "MaxLabelNameLen = 128"
definition MaxLabelValueLen :: nat where "MaxLabelValueLen = 1024"

lemmas label_limits = MaxExtraLabels_def MaxLabelNameLen_def MaxLabelValueLen_def

subsection \<open>The canonical encoding\<close>

text \<open>\<^verbatim>\<open>binary.AppendUvarint\<close>: seven bits a byte, low bits first.\<close>

fun uvarint :: "nat \<Rightarrow> bytes" where
  "uvarint n = (if n < 128 then [char_of n] else char_of (n mod 128 + 128) # uvarint (n div 128))"

declare uvarint.simps [simp del]

definition appendField :: "bytes \<Rightarrow> string \<Rightarrow> bytes" where
  "appendField dst s = (dst @ uvarint (length s)) @ s"

definition canonical :: "LabelSet \<Rightarrow> bytes \<Rightarrow> bytes" where
  "canonical ls dst0 =
     (let dst1 = appendField dst0 (Service ls);
          dst2 = appendField dst1 (Host ls);
          dst3 = appendField dst2 (Env ls);
          dst4 = dst3 @ uvarint (length (Extra ls))
      in foldl (\<lambda>dst name. appendField (appendField dst name) (goget (Extra ls) name))
           dst4 (sort (map fst (Extra ls))))"

text \<open>\<^verbatim>\<open>LabelSet.ID\<close>: the 64 bits of the hash, reinterpreted as a signed integer (the bits are
  what is kept here; \<^const>\<open>sint\<close> reads them as \<^verbatim>\<open>StreamID\<close> does).\<close>

definition label_ID :: "golib \<Rightarrow> LabelSet \<Rightarrow> u64" where
  "label_ID L ls = xxh64 L (canonical ls [])"

subsection \<open>Validation\<close>

definition name_start :: "char \<Rightarrow> bool" where
  "name_start c \<longleftrightarrow> (97 \<le> byte c \<and> byte c \<le> (122::nat)) \<or> (65 \<le> byte c \<and> byte c \<le> (90::nat)) \<or>
     c = CHR ''_''"

fun name_bytes_ok :: "nat \<Rightarrow> string \<Rightarrow> bool" where
  "name_bytes_ok i [] = True"
| "name_bytes_ok i (c # cs) =
     ((name_start c \<or> (0 < i \<and> is_digit c)) \<and> name_bytes_ok (Suc i) cs)"

definition validateLabelName :: "string \<Rightarrow> model_err option" where
  "validateLabelName name =
     (if name = [] then Some ErrMissingLabel
      else if MaxLabelNameLen < length name then Some ErrLabelTooLong
      else if \<not> name_bytes_ok 0 name then Some ErrInvalidLabelName
      else None)"

definition check_promoted :: "string \<Rightarrow> model_err option" where
  "check_promoted v =
     (if v = [] then Some ErrMissingLabel
      else if MaxLabelValueLen < length v then Some ErrLabelTooLong else None)"

definition check_extra :: "string \<times> string \<Rightarrow> model_err option" where
  "check_extra nv =
     (case validateLabelName (fst nv) of Some e \<Rightarrow> Some e
      | None \<Rightarrow>
        (if fst nv \<in> {''service'', ''host'', ''env'', ''level''} then Some ErrReservedLabel
         else if MaxLabelValueLen < length (snd nv) then Some ErrLabelTooLong else None))"

definition labels_Validate :: "LabelSet \<Rightarrow> model_err option" where
  "labels_Validate ls =
     first_err (map check_promoted [Service ls, Host ls, Env ls] @
       [if MaxExtraLabels < length (Extra ls) then Some ErrTooManyLabels else None] @
       map check_extra (Extra ls))"

subsection \<open>The encoding is injective\<close>

lemma uvarint_append_inj: "uvarint a @ x = uvarint b @ y \<longleftrightarrow> a = b \<and> x = y"
proof (induction a arbitrary: b rule: uvarint.induct)
  case (1 a)
  have byte_inj: "char_of (m::nat) = (char_of n :: char) \<longleftrightarrow> m = n" if "m < 256" "n < 256" for m n
    using that by (metis of_char_of mod_less)
  show ?case
  proof (cases "a < 128 \<or> b < 128")
    case True
    then show ?thesis
      by (auto simp: uvarint.simps[of a] uvarint.simps[of b] byte_inj)
  next
    case False
    then have "uvarint a @ x = uvarint b @ y \<longleftrightarrow>
        a mod 128 = b mod 128 \<and> uvarint (a div 128) @ x = uvarint (b div 128) @ y"
      by (simp add: uvarint.simps[of a] uvarint.simps[of b] byte_inj)
    also have "\<dots> \<longleftrightarrow> a mod 128 = b mod 128 \<and> a div 128 = b div 128 \<and> x = y"
      using False "1.IH" by auto
    finally show ?thesis
      by (metis div_mod_decomp)
  qed
qed

definition field :: "string \<Rightarrow> bytes" where
  "field s = uvarint (length s) @ s"

lemma appendField_field: "appendField dst s = dst @ field s"
  by (simp add: appendField_def field_def)

lemma field_append_inj: "field s @ x = field t @ y \<longleftrightarrow> s = t \<and> x = y"
  by (auto simp: field_def uvarint_append_inj)

definition pairs_enc :: "(string \<times> string) list \<Rightarrow> bytes" where
  "pairs_enc ps = concat (map (\<lambda>(k, v). field k @ field v) ps)"

definition sorted_pairs :: "string gomap \<Rightarrow> (string \<times> string) list" where
  "sorted_pairs m = map (\<lambda>k. (k, goget m k)) (sort (map fst m))"

lemma canonical_eq:
  "canonical ls dst = dst @ field (Service ls) @ field (Host ls) @ field (Env ls) @
     uvarint (length (Extra ls)) @ pairs_enc (sorted_pairs (Extra ls))"
proof -
  have "foldl (\<lambda>dst name. appendField (appendField dst name) (goget m name)) d ks =
      d @ pairs_enc (map (\<lambda>k. (k, goget m k)) ks)" for m d ks
    by (induction ks arbitrary: d) (simp_all add: pairs_enc_def appendField_field)
  then show ?thesis
    by (simp add: canonical_def Let_def appendField_field sorted_pairs_def)
qed

lemma pairs_enc_inj:
  "length ps = length qs \<Longrightarrow> pairs_enc ps = pairs_enc qs \<longleftrightarrow> ps = qs"
  by (induction ps qs rule: list_induct2)
    (auto simp: pairs_enc_def field_append_inj split: prod.splits)

lemma map_of_sorted_pairs:
  assumes "gomap_ok m"
  shows "map_of (sorted_pairs m) = map_of m"
proof
  fix k
  have "map_of (sorted_pairs m) k = (if k \<in> set (map fst m) then Some (goget m k) else None)"
    by (simp add: sorted_pairs_def map_of_map_restrict)
  also have "\<dots> = map_of m k"
    using map_of_eq_None_iff[of m k] by (cases "map_of m k") (auto simp: goget_def)
  finally show "map_of (sorted_pairs m) k = map_of m k" .
qed

text \<open>Two label sets are the same when they agree on every label; map order is not part of it.\<close>

definition same_labels :: "LabelSet \<Rightarrow> LabelSet \<Rightarrow> bool" where
  "same_labels a b \<longleftrightarrow> Service a = Service b \<and> Host a = Host b \<and> Env a = Env b \<and>
     map_of (Extra a) = map_of (Extra b)"

lemma sorted_pairs_cong:
  assumes "gomap_ok m" and "gomap_ok m'" and "map_of m = map_of m'"
  shows "sorted_pairs m = sorted_pairs m'" and "length m = length m'"
proof -
  have dom: "set (map fst m) = set (map fst m')"
    using assms(3) by (metis dom_map_of_conv_image_fst set_map)
  then have "mset (map fst m) = mset (map fst m')"
    using assms set_eq_iff_mset_eq_distinct by blast
  then show "sorted_pairs m = sorted_pairs m'" and "length m = length m'"
    using assms(3) mset_eq_length[of "map fst m" "map fst m'"]
    by (simp_all add: sorted_pairs_def goget_def fun_eq_iff
        sort_mset_cong[of "map fst m" "map fst m'"])
qed

lemma canonical_inject:
  assumes "gomap_ok (Extra a)" and "gomap_ok (Extra b)"
  shows "canonical a [] = canonical b [] \<longleftrightarrow> same_labels a b"
proof
  assume "canonical a [] = canonical b []"
  then have "Service a = Service b" "Host a = Host b" "Env a = Env b"
    and "length (Extra a) = length (Extra b)"
    and "pairs_enc (sorted_pairs (Extra a)) = pairs_enc (sorted_pairs (Extra b))"
    by (simp_all add: canonical_eq field_append_inj uvarint_append_inj)
  moreover from this have "sorted_pairs (Extra a) = sorted_pairs (Extra b)"
    using pairs_enc_inj[of "sorted_pairs (Extra a)" "sorted_pairs (Extra b)"]
    by (simp add: sorted_pairs_def)
  ultimately show "same_labels a b"
    using assms by (metis map_of_sorted_pairs same_labels_def)
next
  assume "same_labels a b"
  then show "canonical a [] = canonical b []"
    using sorted_pairs_cong[OF assms] by (simp add: canonical_eq same_labels_def)
qed

subsection \<open>What validation accepts\<close>

text \<open>The rule validation enforces, stated without reference to the order of the checks.\<close>

definition label_name_ok :: "string \<Rightarrow> bool" where
  "label_name_ok n \<longleftrightarrow> n \<noteq> [] \<and> length n \<le> MaxLabelNameLen \<and> name_start (hd n) \<and>
     list_all (\<lambda>c. name_start c \<or> is_digit c) (tl n)"

definition labels_ok :: "LabelSet \<Rightarrow> bool" where
  "labels_ok ls \<longleftrightarrow>
     list_all (\<lambda>v. v \<noteq> [] \<and> length v \<le> MaxLabelValueLen) [Service ls, Host ls, Env ls] \<and>
     length (Extra ls) \<le> MaxExtraLabels \<and>
     list_all (\<lambda>(n, v). label_name_ok n \<and> n \<notin> {''service'', ''host'', ''env'', ''level''} \<and>
        length v \<le> MaxLabelValueLen) (Extra ls)"

lemma name_bytes_ok_Suc: "name_bytes_ok (Suc i) s \<longleftrightarrow> list_all (\<lambda>c. name_start c \<or> is_digit c) s"
  by (induction s arbitrary: i) auto

lemma validateLabelName_None: "validateLabelName n = None \<longleftrightarrow> label_name_ok n"
  by (cases n) (auto simp: validateLabelName_def label_name_ok_def name_bytes_ok_Suc)

lemma check_promoted_None: "check_promoted v = None \<longleftrightarrow> v \<noteq> [] \<and> length v \<le> MaxLabelValueLen"
  by (auto simp: check_promoted_def)

lemma check_extra_None:
  "check_extra nv = None \<longleftrightarrow> label_name_ok (fst nv) \<and>
     fst nv \<notin> {''service'', ''host'', ''env'', ''level''} \<and> length (snd nv) \<le> MaxLabelValueLen"
  by (auto simp: check_extra_def validateLabelName_None[symmetric] split: option.splits)

lemma labels_Validate_None: "labels_Validate ls = None \<longleftrightarrow> labels_ok ls"
  unfolding labels_Validate_def labels_ok_def first_err_None_iff list_all_append
  by (auto simp: check_promoted_None check_extra_None list.pred_map list_all_iff comp_def
      split: prod.splits)

subsection \<open>Properties\<close>

text \<open>C27. Stream identity. The canonical encoding of a label set determines it and is determined by
  it: two label sets, whatever order a map range visits their extra labels in, have the same
  encoding exactly when they give every label the same value. So the stream id depends on the labels
  alone, and two different label sets can only share an id when the hash itself collides on their
  (different) encodings.\<close>

theorem stream_identity:
  assumes "gomap_ok (Extra a)" and "gomap_ok (Extra b)"
  shows "(canonical a [] = canonical b [] \<longleftrightarrow> same_labels a b) \<and>
    (same_labels a b \<longrightarrow> label_ID L a = label_ID L b) \<and>
    (label_ID L a = label_ID L b \<and> \<not> same_labels a b \<longrightarrow>
       canonical a [] \<noteq> canonical b [] \<and> xxh64 L (canonical a []) = xxh64 L (canonical b []))"
  using canonical_inject[OF assms] by (auto simp: label_ID_def)

definition ls_ab :: LabelSet where
  "ls_ab = \<lparr>Service = ''api'', Host = ''h1'', Env = ''prod'', Extra = [(''a'', ''1''), (''b'', ''2'')]\<rparr>"

definition ls_ba :: LabelSet where
  "ls_ba = ls_ab\<lparr>Extra := [(''b'', ''2''), (''a'', ''1'')]\<rparr>"

text \<open>The two orders of one map, and one label set that differs from them.\<close>

theorem stream_identity_witness:
  "label_ID lib0 ls_ab = label_ID lib0 ls_ba \<and>
   canonical ls_ab [] \<noteq> canonical (ls_ab\<lparr>Host := ''h'', Env := ''1prod''\<rparr>) []"
proof -
  have ok: "gomap_ok (Extra ls_ab)" "gomap_ok (Extra ls_ba)"
      "gomap_ok (Extra (ls_ab\<lparr>Host := ''h'', Env := ''1prod''\<rparr>))"
    by (simp_all add: ls_ab_def ls_ba_def)
  have "same_labels ls_ab ls_ba" and "\<not> same_labels ls_ab (ls_ab\<lparr>Host := ''h'', Env := ''1prod''\<rparr>)"
    by (auto simp: same_labels_def ls_ab_def ls_ba_def fun_eq_iff)
  with stream_identity[OF ok(1,2), of lib0] stream_identity[OF ok(1,3), of lib0] show ?thesis by simp
qed

text \<open>\<^verbatim>\<open>LabelSet.Validate\<close> accepts a label set exactly when every promoted label is present and
  short enough, there are at most 32 extra labels, and each has a short identifier for a name that is
  none of the reserved names, and a short value; whether it accepts does not depend on map order.\<close>

theorem labels_Validate_iff:
  "(labels_Validate ls = None \<longleftrightarrow> labels_ok ls) \<and>
   (mset m = mset (Extra ls) \<longrightarrow>
      (labels_Validate (ls\<lparr>Extra := m\<rparr>) = None \<longleftrightarrow> labels_Validate ls = None))"
proof -
  have "labels_ok (ls\<lparr>Extra := m\<rparr>) \<longleftrightarrow> labels_ok ls" if m: "mset m = mset (Extra ls)"
    using mset_eq_setD[OF m] mset_eq_length[OF m] by (simp add: labels_ok_def list_all_iff)
  then show ?thesis by (simp add: labels_Validate_None)
qed

theorem labels_Validate_iff_witness:
  "labels_Validate ls_ab = None \<and> labels_Validate ls_ba = None \<and>
   labels_Validate (ls_ab\<lparr>Env := []\<rparr>) = Some ErrMissingLabel"
proof -
  have "labels_ok ls_ab"
    by (simp add: labels_ok_def ls_ab_def label_limits label_name_ok_def name_start_def)
  moreover have "mset (Extra ls_ba) = mset (Extra ls_ab)"
    by (simp add: ls_ab_def ls_ba_def)
  moreover have "ls_ab\<lparr>Extra := Extra ls_ba\<rparr> = ls_ba"
    by (simp add: ls_ab_def ls_ba_def)
  moreover have "labels_Validate (ls_ab\<lparr>Env := []\<rparr>) = Some ErrMissingLabel"
    by (simp add: labels_Validate_def ls_ab_def check_promoted_def label_limits)
  ultimately show ?thesis
    using labels_Validate_iff[of ls_ab "Extra ls_ba"] by simp
qed

end
