(* ===== verification/Query_Lexer.thy ===== *)
theory Query_Lexer
  imports Labels
begin

text \<open>
  \<^verbatim>\<open>internal/query/lexer.go\<close>: the tokens of the query language. The lexer state is the record
  \<open>lexer\<close> (source text, byte offset, line and column); every method is a function on it.
  \<^verbatim>\<open>strconv.Unquote\<close> is modelled exactly for the two kinds of literal the lexer hands it.

  The lemmas show that every token other than end of input consumes at least one byte and stays
  within the source, that end of input is repeated for ever, and that a label name accepted by
  \<^verbatim>\<open>validateLabelName\<close> is one identifier token.
\<close>

datatype tokenKind =
    tokEOF | tokIllegal | tokIdent | tokString | tokNumber | tokDuration | tokLBrace | tokRBrace
  | tokLParen | tokRParen | tokComma | tokPipe | tokEq | tokNeq | tokRe | tokNre | tokGte | tokLte
  | tokGt | tokLt | tokPipeExact | tokPipeRe

record Pos =
  Line :: nat
  Col :: nat

datatype lex_err =
    UnterminatedString | InvalidUTF8 | InvalidStringEscape | BadDurationUnit | Unexpected nat

record token =
  tkKind :: tokenKind
  tkText :: string
  tkPos :: Pos
  tkErr :: "lex_err option"

record lexer =
  lxSrc :: string
  lxOff :: nat
  lxLine :: nat
  lxCol :: nat

definition newLexer :: "string \<Rightarrow> lexer" where
  "newLexer src = \<lparr>lxSrc = src, lxOff = 0, lxLine = 1, lxCol = 1\<rparr>"

subsection \<open>Character classes\<close>

definition isSpace :: "char \<Rightarrow> bool" where
  "isSpace c \<longleftrightarrow> byte c \<in> {32, 9, 13, 10 :: nat}"

definition isDigit :: "char \<Rightarrow> bool" where
  "isDigit c \<longleftrightarrow> 48 \<le> byte c \<and> byte c \<le> (57::nat)"

definition isIdentStart :: "nat \<Rightarrow> bool" where
  "isIdentStart r \<longleftrightarrow> r = 95 \<or> (97 \<le> r \<and> r \<le> 122) \<or> (65 \<le> r \<and> r \<le> 90)"

definition isIdentChar :: "char \<Rightarrow> bool" where
  "isIdentChar c \<longleftrightarrow> isIdentStart (byte c) \<or> isDigit c"

lemmas class_defs = isSpace_def isDigit_def isIdentStart_def isIdentChar_def

subsection \<open>Moving through the source\<close>

definition lex_peek :: "lexer \<Rightarrow> nat \<times> nat" where
  "lex_peek l =
     (if length (lxSrc l) \<le> lxOff l then (rune_error, 0) else decode_rune (drop (lxOff l) (lxSrc l)))"

definition lex_advance :: "lexer \<Rightarrow> nat \<times> lexer" where
  "lex_advance l =
     (case lex_peek l of (r, w) \<Rightarrow>
       (if w = 0 then (r, l)
        else (r, if r = 10
                 then l\<lparr>lxOff := lxOff l + w, lxLine := lxLine l + 1, lxCol := 1\<rparr>
                 else l\<lparr>lxOff := lxOff l + w, lxCol := lxCol l + 1\<rparr>)))"

definition lex_eat :: "nat \<Rightarrow> lexer \<Rightarrow> bool \<times> lexer" where
  "lex_eat c l =
     (if lxOff l < length (lxSrc l) \<and> byte (lxSrc l ! lxOff l) = c
      then (True, snd (lex_advance l)) else (False, l))"

lemma lex_advance_src [simp]: "lxSrc (snd (lex_advance l)) = lxSrc l"
  by (auto simp: lex_advance_def split: prod.splits)

lemma lex_advance_off:
  assumes "lxOff l < length (lxSrc l)"
  shows "lxOff l < lxOff (snd (lex_advance l))" and "lxOff (snd (lex_advance l)) \<le> length (lxSrc l)"
proof -
  let ?s = "drop (lxOff l) (lxSrc l)"
  have "?s \<noteq> []" using assms by simp
  then have "0 < snd (decode_rune ?s)" and "snd (decode_rune ?s) \<le> length ?s"
    using decode_rune_width_pos decode_rune_width(2) by blast+
  with assms show "lxOff l < lxOff (snd (lex_advance l))"
    and "lxOff (snd (lex_advance l)) \<le> length (lxSrc l)"
    by (auto simp: lex_advance_def lex_peek_def split: prod.splits)
qed

lemma lex_advance_end: "length (lxSrc l) \<le> lxOff l \<Longrightarrow> lex_advance l = (rune_error, l)"
  by (simp add: lex_advance_def lex_peek_def)

function eatWhile :: "(char \<Rightarrow> bool) \<Rightarrow> lexer \<Rightarrow> lexer" where
  "eatWhile pred l =
     (if lxOff l < length (lxSrc l) \<and> pred (lxSrc l ! lxOff l)
      then eatWhile pred (snd (lex_advance l)) else l)"
  by pat_completeness auto
termination
  by (relation "measure (\<lambda>(pred, l). length (lxSrc l) - lxOff l)")
    (auto simp: diff_less_mono2 lex_advance_off)

declare eatWhile.simps [simp del]

subsection \<open>Unquoting string literals\<close>

definition unhex :: "char \<Rightarrow> nat option" where
  "unhex c = (let b = byte c in
     if 48 \<le> b \<and> b \<le> 57 then Some (b - 48)
     else if 97 \<le> b \<and> b \<le> 102 then Some (b - 97 + 10)
     else if 65 \<le> b \<and> b \<le> 70 then Some (b - 65 + 10) else None)"

fun hex_value :: "nat \<Rightarrow> string \<Rightarrow> nat option" where
  "hex_value v [] = Some v"
| "hex_value v (c # cs) = (case unhex c of None \<Rightarrow> None | Some x \<Rightarrow> hex_value (v * 16 + x) cs)"

definition oct_value :: "string \<Rightarrow> nat option" where
  "oct_value s =
     (if length s = 3 \<and> list_all (\<lambda>c. 48 \<le> byte c \<and> byte c \<le> (55::nat)) s
      then Some (foldl (\<lambda>v c. v * 8 + (byte c - 48)) 0 s) else None)"

text \<open>The escape after a backslash: the bytes it stands for and how much of the input it takes, in
  a double-quoted literal.\<close>

definition unquote_escape :: "string \<Rightarrow> (bytes \<times> nat) option" where
  "unquote_escape s = (case s of [] \<Rightarrow> None | c # t \<Rightarrow>
     (let hex = (\<lambda>n. if length t < n then None else hex_value 0 (take n t)) in
      case map_of (zip ''abfnrtv'' [7, 8, 12, 10, 13, 9, 11 :: nat]) c of
        Some b \<Rightarrow> Some ([char_of b], 1)
      | None \<Rightarrow>
         (if c = CHR ''x'' then map_option (\<lambda>v. ([char_of v], 3)) (hex 2)
          else if c = CHR ''u'' \<or> c = CHR ''U'' then
            (let n = if c = CHR ''u'' then 4 else 8 in
             case hex n of None \<Rightarrow> None
             | Some v \<Rightarrow> if valid_rune v then Some (encode_rune v, Suc n) else None)
          else if 48 \<le> byte c \<and> byte c \<le> (55::nat) then
            (case oct_value (take 3 s) of None \<Rightarrow> None
             | Some v \<Rightarrow> if 255 < v then None else Some ([char_of v], 3))
          else if byte c = (92::nat) \<or> byte c = (34::nat) then Some ([c], 1)
          else None)))"

text \<open>The body of a double-quoted literal up to and including its closing quote.\<close>

function unquote_body :: "string \<Rightarrow> string option" where
  "unquote_body s = (case s of [] \<Rightarrow> None | c # t \<Rightarrow>
     (if byte c = (34::nat) then (if t = [] then Some [] else None)
      else if byte c = (10::nat) then None
      else if byte c = (92::nat) then
        (case unquote_escape t of None \<Rightarrow> None
         | Some (out, n) \<Rightarrow> map_option (append out) (unquote_body (drop n t)))
      else
        (case decode_rune s of (r, w) \<Rightarrow>
          map_option (append (if decode_ok s then take w s else encode_rune rune_error))
            (unquote_body (drop w s)))))"
  by pat_completeness auto
termination
proof (relation "measure length", goal_cases)
  case 1
  then show ?case by simp
next
  case (2 s c t out n)
  then show ?case by simp
next
  case (3 s c t r w)
  from 3(5)[symmetric] 3(1) have "0 < w" using decode_rune_width_pos[of s] by (simp del: decode_rune_ascii)
  with 3 show ?case by simp
qed

declare unquote_body.simps [simp del]

text \<open>\<^verbatim>\<open>strconv.Unquote\<close> on a literal that starts with a double quote or a backquote (the lexer
  calls it on nothing else).\<close>

definition Unquote :: "string \<Rightarrow> string option" where
  "Unquote s =
     (if length s < 2 then None
      else if hd s = CHR ''`'' then
        (if last s \<noteq> CHR ''`'' \<or> CHR ''`'' \<in> set (butlast (tl s)) then None
         else Some (filter (\<lambda>c. byte c \<noteq> (13::nat)) (butlast (tl s))))
      else unquote_body (tl s))"

subsection \<open>The next token\<close>

text \<open>The loop over the inside of a literal opened by rune \<open>q\<close>: true when the closing quote was
  consumed, false when the input ended first.\<close>

function scan_string :: "nat \<Rightarrow> lexer \<Rightarrow> bool \<times> lexer" where
  "scan_string q l =
     (let c = fst (lex_peek l); l1 = snd (lex_advance l) in
      if snd (lex_peek l) = 0 then (False, l)
      else if c = q then (True, l1)
      else if c = 92 \<and> q = 34 then
        (if snd (lex_peek l1) = 0 then (False, l1) else scan_string q (snd (lex_advance l1)))
      else scan_string q l1)"
  by pat_completeness auto
termination
proof (relation "measure (\<lambda>(q, l). length (lxSrc l) - lxOff l)", goal_cases)
  case 1
  then show ?case by simp
next
  case (2 q l c l1)
  have a: "lxOff l < length (lxSrc l)" and b: "lxOff l1 < length (lxSrc l1)"
    using 2 by (auto simp: lex_peek_def split: if_splits)
  from lex_advance_off[OF a] lex_advance_off[OF b] a 2 show ?case by simp
next
  case (3 q l c l1)
  have a: "lxOff l < length (lxSrc l)"
    using 3 by (auto simp: lex_peek_def split: if_splits)
  from lex_advance_off[OF a] a 3 show ?case by simp
qed

declare scan_string.simps [simp del]

definition src_slice :: "nat \<Rightarrow> lexer \<Rightarrow> string" where
  "src_slice start l = take (lxOff l - start) (drop start (lxSrc l))"

definition mk_tok :: "nat \<Rightarrow> Pos \<Rightarrow> tokenKind \<Rightarrow> lexer \<Rightarrow> token \<times> lexer" where
  "mk_tok start pos kind l =
     (\<lparr>tkKind = kind, tkText = src_slice start l, tkPos = pos, tkErr = None\<rparr>, l)"

definition mk_illegal :: "nat \<Rightarrow> Pos \<Rightarrow> lex_err \<Rightarrow> lexer \<Rightarrow> token \<times> lexer" where
  "mk_illegal start pos err l =
     (\<lparr>tkKind = tokIllegal, tkText = src_slice start l, tkPos = pos, tkErr = Some err\<rparr>, l)"

definition next_string :: "nat \<Rightarrow> Pos \<Rightarrow> nat \<Rightarrow> lexer \<Rightarrow> token \<times> lexer" where
  "next_string start pos r l0 =
     (case scan_string r l0 of
        (False, l) \<Rightarrow> mk_illegal start pos UnterminatedString l
      | (True, l) \<Rightarrow>
         (let text = src_slice start l in
          if \<not> valid_string text then mk_illegal start pos InvalidUTF8 l
          else (case Unquote text of
             None \<Rightarrow> mk_illegal start pos InvalidStringEscape l
           | Some s \<Rightarrow> (\<lparr>tkKind = tokString, tkText = s, tkPos = pos, tkErr = None\<rparr>, l))))"

definition next_number :: "nat \<Rightarrow> Pos \<Rightarrow> lexer \<Rightarrow> token \<times> lexer" where
  "next_number start pos l0 =
     (let l1 = eatWhile isDigit l0;
          frac = (lxOff l1 + 1 < length (lxSrc l1) \<and> lxSrc l1 ! lxOff l1 = CHR ''.'' \<and>
                  isDigit (lxSrc l1 ! (lxOff l1 + 1)));
          l2 = (if frac then eatWhile isDigit (snd (lex_advance l1)) else l1);
          unitStart = lxOff l2;
          l3 = eatWhile isIdentChar l2;
          unit = src_slice unitStart l3
      in if unit = [] then mk_tok start pos tokNumber l3
         else if \<not> frac \<and> unit \<in> {''s'', ''m'', ''h'', ''d''} then mk_tok start pos tokDuration l3
         else mk_illegal start pos BadDurationUnit l3)"

definition next_op :: "nat \<Rightarrow> Pos \<Rightarrow> nat \<Rightarrow> lexer \<Rightarrow> token \<times> lexer" where
  "next_op start pos r l =
     (let tok = mk_tok start pos;
          other = (if r = rune_error \<and> lxOff l - start = 1
                   then mk_illegal start pos InvalidUTF8 l
                   else mk_illegal start pos (Unexpected r) l);
          eq = lex_eat 61 l; tilde = lex_eat 126 l
      in if r = 123 then tok tokLBrace l
         else if r = 125 then tok tokRBrace l
         else if r = 40 then tok tokLParen l
         else if r = 41 then tok tokRParen l
         else if r = 44 then tok tokComma l
         else if r = 124 then
           (if fst eq then tok tokPipeExact (snd eq)
            else if fst tilde then tok tokPipeRe (snd tilde) else tok tokPipe l)
         else if r = 61 then (if fst tilde then tok tokRe (snd tilde) else tok tokEq l)
         else if r = 33 then
           (if fst eq then tok tokNeq (snd eq)
            else if fst tilde then tok tokNre (snd tilde) else other)
         else if r = 62 then (if fst eq then tok tokGte (snd eq) else tok tokGt l)
         else if r = 60 then (if fst eq then tok tokLte (snd eq) else tok tokLt l)
         else other)"

definition lex_next :: "lexer \<Rightarrow> token \<times> lexer" where
  "lex_next l0 =
     (let l1 = eatWhile isSpace l0;
          start = lxOff l1; pos = \<lparr>Line = lxLine l1, Col = lxCol l1\<rparr>
      in if length (lxSrc l1) \<le> lxOff l1
         then (\<lparr>tkKind = tokEOF, tkText = [], tkPos = pos, tkErr = None\<rparr>, l1)
         else (case lex_advance l1 of (r, l2) \<Rightarrow>
           (if r = 34 \<or> r = 96 then next_string start pos r l2
            else if isIdentStart r then mk_tok start pos tokIdent (eatWhile isIdentChar l2)
            else if 48 \<le> r \<and> r \<le> 57 then next_number start pos l2
            else next_op start pos r l2)))"

subsection \<open>Progress\<close>

text \<open>\<open>lex_le l l'\<close>: same source, offset no smaller and still inside it.\<close>

definition lex_le :: "lexer \<Rightarrow> lexer \<Rightarrow> bool" where
  "lex_le l l' \<longleftrightarrow> lxSrc l' = lxSrc l \<and> lxOff l \<le> lxOff l' \<and>
     (lxOff l \<le> length (lxSrc l) \<longrightarrow> lxOff l' \<le> length (lxSrc l))"

lemma lex_le_refl [simp, intro]: "lex_le l l"
  by (simp add: lex_le_def)

lemma lex_le_trans [trans]: "lex_le a b \<Longrightarrow> lex_le b c \<Longrightarrow> lex_le a c"
  by (auto simp: lex_le_def)

lemma lex_le_advance [wf_intros]: "lex_le l (snd (lex_advance l))"
proof (cases "lxOff l < length (lxSrc l)")
  case True
  then show ?thesis using lex_advance_off[OF True] by (simp add: lex_le_def)
qed (simp add: lex_advance_end)

lemma lex_le_eat [wf_intros]: "lex_le l (snd (lex_eat c l))"
  by (simp add: lex_eat_def lex_le_advance)

lemma lex_le_eatWhile [wf_intros]: "lex_le l (eatWhile pred l)"
proof (induction pred l rule: eatWhile.induct)
  case (1 pred l)
  then show ?case
    by (subst eatWhile.simps) (auto intro: lex_le_trans[OF lex_le_advance])
qed

lemma eatWhile_stops:
  "lxOff (eatWhile pred l) < length (lxSrc l) \<Longrightarrow> \<not> pred (lxSrc l ! lxOff (eatWhile pred l))"
proof (induction pred l rule: eatWhile.induct)
  case (1 pred l)
  then show ?case
    by (subst (asm) (2) eatWhile.simps, subst eatWhile.simps) (auto split: if_splits)
qed

lemma lex_le_scan [wf_intros]: "lex_le l (snd (scan_string q l))"
proof (induction q l rule: scan_string.induct)
  case (1 q l)
  let ?l1 = "snd (lex_advance l)"
  have "lex_le l (snd (scan_string q (snd (lex_advance ?l1))))"
    if "snd (lex_peek l) \<noteq> 0" "fst (lex_peek l) \<noteq> q" "fst (lex_peek l) = 92 \<and> q = 34"
      "snd (lex_peek ?l1) \<noteq> 0"
    using 1(1)[OF refl refl that] by (meson lex_le_advance lex_le_trans)
  moreover have "lex_le l (snd (scan_string q ?l1))"
    if "snd (lex_peek l) \<noteq> 0" "fst (lex_peek l) \<noteq> q" "\<not> (fst (lex_peek l) = 92 \<and> q = 34)"
    using 1(2)[OF refl refl that] by (meson lex_le_advance lex_le_trans)
  ultimately show ?case
    by (subst scan_string.simps) (simp add: Let_def lex_le_advance)
qed

lemma next_string_le [wf_intros]: "lex_le l (snd (next_string start pos r l))"
  using lex_le_scan[of l r]
  by (auto simp: next_string_def mk_illegal_def Let_def split: prod.splits bool.splits option.splits)

lemma next_number_le [wf_intros]: "lex_le l (snd (next_number start pos l))"
proof -
  have "lex_le l (eatWhile isIdentChar (eatWhile isDigit l))"
    and "lex_le l (eatWhile isIdentChar (eatWhile isDigit (snd (lex_advance (eatWhile isDigit l)))))"
    by (meson lex_le_trans lex_le_eatWhile lex_le_advance)+
  then show ?thesis
    by (auto simp: next_number_def mk_illegal_def mk_tok_def Let_def)
qed

lemma next_op_le [wf_intros]: "lex_le l (snd (next_op start pos r l))"
  by (auto simp: next_op_def mk_illegal_def mk_tok_def Let_def lex_le_eat)

lemma lex_next_le: "lex_le l (snd (lex_next l))"
proof -
  let ?l1 = "eatWhile isSpace l"
  have "lex_le l (snd (lex_advance ?l1))"
    by (meson lex_le_trans lex_le_eatWhile lex_le_advance)
  then show ?thesis
    by (auto simp: lex_next_def mk_tok_def Let_def split: prod.splits
        intro: wf_intros lex_le_trans)
qed

lemma mk_kind [simp]:
  "tkKind (fst (mk_tok start pos k l)) = k" "tkKind (fst (mk_illegal start pos e l)) = tokIllegal"
  by (simp_all add: mk_tok_def mk_illegal_def)

lemma next_string_kind: "tkKind (fst (next_string start pos r l)) \<in> {tokString, tokIllegal}"
  by (simp add: next_string_def Let_def split: prod.splits bool.splits option.splits)

lemma next_number_kind:
  "tkKind (fst (next_number start pos l)) \<in> {tokNumber, tokDuration, tokIllegal}"
  by (simp add: next_number_def Let_def)

lemma next_op_kind: "tkKind (fst (next_op start pos r l)) \<noteq> tokEOF"
  by (simp add: next_op_def Let_def)

lemma next_not_EOF [simp]:
  "tkKind (fst (next_string start pos r l)) \<noteq> tokEOF"
  "tkKind (fst (next_number start pos l)) \<noteq> tokEOF"
  using next_string_kind[of start pos r l] next_number_kind[of start pos l] by auto

lemma lex_next_kind_EOF:
  "tkKind (fst (lex_next l)) = tokEOF \<longleftrightarrow> length (lxSrc l) \<le> lxOff (eatWhile isSpace l)"
  using lex_le_eatWhile[of l isSpace] next_op_kind
  by (simp add: lex_next_def lex_le_def Let_def split: prod.splits)

lemma lex_next_consumes:
  assumes "tkKind (fst (lex_next l)) \<noteq> tokEOF"
  shows "lxOff l < lxOff (snd (lex_next l))" and "lxOff (snd (lex_next l)) \<le> length (lxSrc l)"
proof -
  let ?l1 = "eatWhile isSpace l" and ?l2 = "snd (lex_advance (eatWhile isSpace l))"
  have le1: "lex_le l ?l1" by (rule lex_le_eatWhile)
  then have off: "lxOff ?l1 < length (lxSrc ?l1)"
    using assms unfolding lex_next_kind_EOF by (simp add: lex_le_def)
  have "lex_le ?l2 (snd (lex_next l))"
    using off by (auto simp: lex_next_def mk_tok_def Let_def split: prod.splits intro: wf_intros)
  with lex_advance_off[OF off] le1
  show "lxOff l < lxOff (snd (lex_next l))" and "lxOff (snd (lex_next l)) \<le> length (lxSrc l)"
    by (auto simp: lex_le_def)
qed

text \<open>A caller that asks for tokens until end of input.\<close>

function lex_all :: "lexer \<Rightarrow> token list" where
  "lex_all l = (let (t, l') = lex_next l in if tkKind t = tokEOF then [t] else t # lex_all l')"
  by pat_completeness auto
termination
proof (relation "measure (\<lambda>l. length (lxSrc l) - lxOff l)", goal_cases)
  case (2 l p t l')
  then have n: "lex_next l = (t, l')" by simp
  from 2(3) have "tkKind (fst (lex_next l)) \<noteq> tokEOF"
    by (simp add: n)
  with n lex_next_consumes[of l] lex_next_le[of l] show ?case by (simp add: lex_le_def)
qed simp

declare lex_all.simps [simp del]

lemma lex_all_length: "length (lex_all l) \<le> length (lxSrc l) - lxOff l + 1"
proof (induction l rule: lex_all.induct)
  case (1 l)
  obtain t l' where n: "lex_next l = (t, l')" by force
  show ?case
  proof (cases "tkKind t = tokEOF")
    case False
    then have "lxOff l < lxOff l'" and "lxOff l' \<le> length (lxSrc l)" and "lxSrc l' = lxSrc l"
      using lex_next_consumes[of l] lex_next_le[of l] n by (auto simp: lex_le_def)
    moreover have "length (lex_all l') \<le> length (lxSrc l') - lxOff l' + 1"
      using 1 n False by simp
    ultimately show ?thesis
      using False by (subst lex_all.simps) (simp add: n)
  qed (subst lex_all.simps, simp add: n)
qed

lemma eatWhile_idem: "length (lxSrc l) \<le> lxOff l \<Longrightarrow> eatWhile p l = l"
  by (subst eatWhile.simps) simp

lemma lex_next_EOF_stable:
  assumes "tkKind (fst (lex_next l)) = tokEOF"
  shows "lex_next (snd (lex_next l)) = lex_next l"
proof -
  let ?l1 = "eatWhile isSpace l"
  have "lxSrc ?l1 = lxSrc l" using lex_le_eatWhile[of l isSpace] by (simp add: lex_le_def)
  then have end': "length (lxSrc ?l1) \<le> lxOff ?l1"
    using assms by (simp add: lex_next_kind_EOF)
  then show ?thesis
    by (simp add: lex_next_def Let_def eatWhile_idem)
qed

subsection \<open>Runs of ASCII\<close>

text \<open>Where the class only has ASCII bytes other than newline, \<^const>\<open>eatWhile\<close> takes the longest run.\<close>

definition line_class :: "(char \<Rightarrow> bool) \<Rightarrow> bool" where
  "line_class p \<longleftrightarrow> (\<forall>c. p c \<longrightarrow> byte c < (128::nat) \<and> byte c \<noteq> (10::nat))"

lemma line_class_ident: "line_class isIdentChar" and line_class_digit: "line_class isDigit"
  by (auto simp: line_class_def class_defs)

lemma lex_advance_line_class:
  assumes "line_class p" and "drop (lxOff l) (lxSrc l) = c # t" and "p c"
  shows "lex_advance l = (byte c, l\<lparr>lxOff := lxOff l + 1, lxCol := lxCol l + 1\<rparr>)"
proof -
  have "lxOff l < length (lxSrc l)"
    using assms(2) by (metis drop_eq_Nil linorder_not_le list.distinct(1))
  then show ?thesis
    using assms by (simp add: lex_advance_def lex_peek_def line_class_def)
qed

lemma eatWhile_run:
  assumes "line_class p" and "drop (lxOff l) (lxSrc l) = s @ t" and "list_all p s"
    and "t = [] \<or> \<not> p (hd t)"
  shows "eatWhile p l = l\<lparr>lxOff := lxOff l + length s, lxCol := lxCol l + length s\<rparr>"
  using assms(2,3)
proof (induction s arbitrary: l)
  case Nil
  then have "\<not> (lxOff l < length (lxSrc l) \<and> p (lxSrc l ! lxOff l))"
    using assms(4) by (metis Cons_nth_drop_Suc append_Nil list.sel(1) drop_eq_Nil linorder_not_le)
  then show ?case
    by (subst eatWhile.simps) (simp only: if_False, simp)
next
  case (Cons c s)
  have off: "lxOff l < length (lxSrc l)"
    using Cons.prems(1) by (metis append_Cons drop_eq_Nil linorder_not_le list.distinct(1))
  then have nth: "lxSrc l ! lxOff l = c" and tl: "drop (Suc (lxOff l)) (lxSrc l) = s @ t"
    using Cons.prems(1) Cons_nth_drop_Suc[OF off] by auto
  let ?l1 = "l\<lparr>lxOff := lxOff l + 1, lxCol := lxCol l + 1\<rparr>"
  have "lex_advance l = (byte c, ?l1)"
    using Cons.prems by (intro lex_advance_line_class[OF assms(1)]) auto
  then have "eatWhile p l = eatWhile p ?l1"
    using off nth Cons.prems by (subst eatWhile.simps) simp
  also have "\<dots> = ?l1\<lparr>lxOff := lxOff ?l1 + length s, lxCol := lxCol ?l1 + length s\<rparr>"
    using tl Cons.prems by (intro Cons.IH) auto
  finally show ?case by simp
qed

lemma name_start_class: "name_start c \<longleftrightarrow> isIdentStart (byte c)"
  using of_char_eq_iff[of c "CHR ''_''", where ?'a = nat]
  by (auto simp: isIdentStart_def name_start_def)

lemma ident_class: "isIdentStart (byte c) \<or> is_digit c \<longleftrightarrow> isIdentChar c"
  by (simp add: isIdentChar_def isDigit_def is_digit_def)

subsection \<open>The shape of tokens\<close>

definition ident_ok :: "string \<Rightarrow> bool" where
  "ident_ok s \<longleftrightarrow> s \<noteq> [] \<and> isIdentStart (byte (hd s)) \<and> list_all isIdentChar (tl s)"

definition number_ok :: "string \<Rightarrow> bool" where
  "number_ok s \<longleftrightarrow> takeWhile isDigit s \<noteq> [] \<and>
     (let r = dropWhile isDigit s in
      r = [] \<or> (hd r = CHR ''.'' \<and> tl r \<noteq> [] \<and> list_all isDigit (tl r)))"

definition duration_ok :: "string \<Rightarrow> bool" where
  "duration_ok s \<longleftrightarrow> s \<noteq> [] \<and> butlast s \<noteq> [] \<and> list_all isDigit (butlast s) \<and> last s \<in> set ''smhd''"

definition token_ok :: "token \<Rightarrow> bool" where
  "token_ok t \<longleftrightarrow> (tkKind t = tokIdent \<longrightarrow> ident_ok (tkText t)) \<and>
     (tkKind t = tokNumber \<longrightarrow> number_ok (tkText t)) \<and>
     (tkKind t = tokDuration \<longrightarrow> duration_ok (tkText t))"

lemma list_all_takeWhile: "list_all p (takeWhile p xs)"
  by (induction xs) auto

lemma eatWhile_takeWhile:
  assumes "line_class p"
  defines "k \<equiv> \<lambda>l. length (takeWhile p (drop (lxOff l) (lxSrc l)))"
  shows "eatWhile p l = l\<lparr>lxOff := lxOff l + k l, lxCol := lxCol l + k l\<rparr>"
  unfolding k_def
  by (rule eatWhile_run[OF assms(1), of l _ "dropWhile p (drop (lxOff l) (lxSrc l))"])
    (use hd_dropWhile[of p "drop (lxOff l) (lxSrc l)"] in \<open>auto simp: list_all_takeWhile simp del: dropWhile_eq_Nil_conv\<close>)

text \<open>Taking a run after having taken a prefix.\<close>

lemma slice_eatWhile:
  assumes "line_class p" and "drop start (lxSrc l) = x @ y" and "lxOff l = start + length x"
  defines "z \<equiv> takeWhile p y"
  shows "src_slice start (eatWhile p l) = x @ z"
    and "lxOff (eatWhile p l) = start + length (x @ z)"
    and "drop start (lxSrc (eatWhile p l)) = (x @ z) @ dropWhile p y"
    and "lxSrc (eatWhile p l) = lxSrc l"
proof -
  have y: "drop (lxOff l) (lxSrc l) = y"
    using assms(2,3) by (metis add.commute append_eq_conv_conj drop_drop)
  have w: "eatWhile p l = l\<lparr>lxOff := lxOff l + length z, lxCol := lxCol l + length z\<rparr>"
    using eatWhile_takeWhile[OF assms(1), of l] by (simp add: y z_def)
  have "y = z @ dropWhile p y" by (simp add: z_def)
  then have d: "drop start (lxSrc l) = (x @ z) @ dropWhile p y"
    using assms(2) by (metis append.assoc)
  show "src_slice start (eatWhile p l) = x @ z"
    and "lxOff (eatWhile p l) = start + length (x @ z)"
    and "drop start (lxSrc (eatWhile p l)) = (x @ z) @ dropWhile p y"
    and "lxSrc (eatWhile p l) = lxSrc l"
    by (simp_all add: w src_slice_def d assms(3))
qed

lemma slice_unit:
  assumes "drop start (lxSrc l) = x @ y" and "lxOff l = start + length x"
  shows "src_slice (start + length x) (eatWhile isIdentChar l) = takeWhile isIdentChar y"
proof -
  have "drop (start + length x) (lxSrc l) = y"
    using assms(1) by (metis add.commute append_eq_conv_conj drop_drop)
  with slice_eatWhile(1)[OF line_class_ident, of "start + length x" l "[]" y] assms(2)
  show ?thesis by simp
qed

lemma number_token_ok:
  assumes src: "drop start (lxSrc l) = c # rest" and off: "lxOff l = start + 1" and c: "isDigit c"
  shows "token_ok (fst (next_number start pos l))"
proof -
  define d1 where "d1 = takeWhile isDigit rest"
  define r1 where "r1 = dropWhile isDigit rest"
  let ?l1 = "eatWhile isDigit l"
  have d1: "list_all isDigit d1" by (simp add: d1_def list_all_takeWhile)
  have l1: "drop start (lxSrc ?l1) = (c # d1) @ r1" "lxOff ?l1 = start + length (c # d1)"
    "lxSrc ?l1 = lxSrc l"
    using slice_eatWhile[OF line_class_digit, of start l "[c]" rest] src off
    by (simp_all add: d1_def r1_def)
  then have dr1: "drop (lxOff ?l1) (lxSrc ?l1) = r1"
    by (metis add.commute append_eq_conv_conj drop_drop)
  have r1hd: "r1 = [] \<or> \<not> isDigit (hd r1)"
    using hd_dropWhile[of isDigit rest] by (auto simp: r1_def)
  define frac where "frac \<longleftrightarrow> lxOff ?l1 + 1 < length (lxSrc ?l1) \<and>
    lxSrc ?l1 ! lxOff ?l1 = CHR ''.'' \<and> isDigit (lxSrc ?l1 ! (lxOff ?l1 + 1))"
  show ?thesis
  proof (cases frac)
    case False
    define u where "u = takeWhile isIdentChar r1"
    have "src_slice (lxOff ?l1) (eatWhile isIdentChar ?l1) = u"
      and "src_slice start (eatWhile isIdentChar ?l1) = (c # d1) @ u"
      using slice_unit[OF l1(1,2)] slice_eatWhile(1)[OF line_class_ident l1(1,2)] l1(2)
      by (simp_all add: u_def)
    then show ?thesis
      using False c d1
      by (auto simp: next_number_def Let_def frac_def mk_tok_def mk_illegal_def token_ok_def
          number_ok_def duration_ok_def butlast_append takeWhile_append2 list_all_iff)
  next
    case True
    then obtain e r2 where r1: "r1 = CHR ''.'' # e # r2" and e: "isDigit e"
      using dr1 by (metis Cons_nth_drop_Suc Suc_eq_plus1 Suc_lessD frac_def)
    let ?l1' = "snd (lex_advance ?l1)"
    have "lex_advance ?l1 = (46, ?l1\<lparr>lxOff := lxOff ?l1 + 1, lxCol := lxCol ?l1 + 1\<rparr>)"
      using lex_advance_line_class[of "\<lambda>c. c = CHR ''.''" ?l1 "CHR ''.''" "e # r2"] dr1 r1
      by (simp add: line_class_def)
    then have l1': "drop start (lxSrc ?l1') = ((c # d1) @ ''.'') @ (e # r2)"
      "lxOff ?l1' = start + length ((c # d1) @ ''.'')"
      using l1 r1 by simp_all
    define d2 where "d2 = takeWhile isDigit (e # r2)"
    let ?l2 = "eatWhile isDigit ?l1'"
    have d2: "list_all isDigit d2" "d2 \<noteq> []" using e by (simp_all add: d2_def list_all_takeWhile)
    note l2 = slice_eatWhile(3,2)[OF line_class_digit l1', folded d2_def]
    define u where "u = takeWhile isIdentChar (dropWhile isDigit (e # r2))"
    have "src_slice (lxOff ?l2) (eatWhile isIdentChar ?l2) = u"
      and "src_slice start (eatWhile isIdentChar ?l2) = (((c # d1) @ ''.'') @ d2) @ u"
      using slice_unit[OF l2] slice_eatWhile(1)[OF line_class_ident l2] l2(2)
      by (simp_all add: u_def)
    moreover have "\<not> isDigit (CHR ''.'')" by (simp add: isDigit_def)
    ultimately show ?thesis
      using True c d1 d2
      by (auto simp: next_number_def Let_def frac_def mk_tok_def mk_illegal_def token_ok_def
          number_ok_def takeWhile_append2 dropWhile_append2 list_all_iff)
  qed
qed

lemma lex_next_token_ok: "token_ok (fst (lex_next l))"
proof -
  let ?l1 = "eatWhile isSpace l"
  define r l2 where "r = fst (lex_advance ?l1)" and "l2 = snd (lex_advance ?l1)"
  have adv: "lex_advance ?l1 = (r, l2)" by (simp add: r_def l2_def)
  have small: "\<exists>c rest. drop (lxOff ?l1) (lxSrc l2) = c # rest \<and> byte c = r \<and> lxOff l2 = lxOff ?l1 + 1"
    if "r < 128" "lxOff ?l1 < length (lxSrc ?l1)"
  proof -
    have "fst (decode_rune (drop (lxOff ?l1) (lxSrc ?l1))) = r"
      using that(2) by (simp add: r_def lex_advance_def lex_peek_def split: prod.splits)
    with that(1) obtain c rest where "drop (lxOff ?l1) (lxSrc ?l1) = c # rest" and "byte c = r"
      by (metis decode_rune_small)
    with that show ?thesis
      by (auto simp: l2_def lex_advance_def lex_peek_def)
  qed
  consider (eof) "length (lxSrc ?l1) \<le> lxOff ?l1" | (ident) "lxOff ?l1 < length (lxSrc ?l1)" "isIdentStart r"
    | (num) "lxOff ?l1 < length (lxSrc ?l1)" "48 \<le> r" "r \<le> 57" "\<not> isIdentStart r"
    | (other) "lxOff ?l1 < length (lxSrc ?l1)" "\<not> isIdentStart r" "\<not> (48 \<le> r \<and> r \<le> 57)"
    by linarith
  then show ?thesis
  proof cases
    case eof
    then show ?thesis by (simp add: lex_next_def Let_def token_ok_def)
  next
    case ident
    then have "r < 128" by (auto simp: isIdentStart_def)
    with small ident obtain c rest where s: "drop (lxOff ?l1) (lxSrc l2) = [c] @ rest" "byte c = r"
      "lxOff l2 = lxOff ?l1 + length [c]" by fastforce
    have "src_slice (lxOff ?l1) (eatWhile isIdentChar l2) = [c] @ takeWhile isIdentChar rest"
      by (rule slice_eatWhile(1)[OF line_class_ident s(1,3)])
    moreover have "r \<noteq> 34" "r \<noteq> 96" using ident by (auto simp: isIdentStart_def)
    ultimately show ?thesis
      using ident s(2)
      by (simp add: lex_next_def Let_def adv mk_tok_def token_ok_def ident_ok_def list_all_takeWhile)
  next
    case num
    with small obtain c rest where s: "drop (lxOff ?l1) (lxSrc l2) = c # rest" "byte c = r"
      "lxOff l2 = lxOff ?l1 + 1" by auto
    with num have "isDigit c" by (simp add: isDigit_def)
    with number_token_ok[OF s(1,3)] num show ?thesis
      by (simp add: lex_next_def Let_def adv)
  next
    case other
    have "tkKind (fst (next_string a b r l2)) \<notin> {tokIdent, tokNumber, tokDuration}" for a b
      using next_string_kind[of a b r l2] by auto
    moreover have "tkKind (fst (next_op a b r l2)) \<notin> {tokIdent, tokNumber, tokDuration}" for a b
      by (simp add: next_op_def Let_def)
    ultimately show ?thesis
      using other by (auto simp: lex_next_def Let_def adv token_ok_def)
  qed
qed

definition at :: "string \<Rightarrow> nat \<Rightarrow> nat \<Rightarrow> nat \<Rightarrow> lexer" where
  "at s off line col = \<lparr>lxSrc = s, lxOff = off, lxLine = line, lxCol = col\<rparr>"

lemma lex_next_ident:
  assumes "label_name_ok n" and "t = [] \<or> \<not> isIdentChar (hd t)"
  shows "lex_next (newLexer (n @ t)) =
    (\<lparr>tkKind = tokIdent, tkText = n, tkPos = \<lparr>Line = 1, Col = 1\<rparr>, tkErr = None\<rparr>,
     at (n @ t) (length n) 1 (1 + length n))"
proof -
  obtain c m where n: "n = c # m" and c: "isIdentStart (byte c)" and m: "list_all isIdentChar m"
    using assms(1) by (cases n) (auto simp: label_name_ok_def name_start_class ident_class)
  let ?l = "newLexer (n @ t)" and ?l1 = "at (n @ t) 1 1 2"
  have byte_c: "byte c < (128::nat)" "byte c \<noteq> (10::nat)" "\<not> isSpace c"
    using c by (auto simp: class_defs)
  then have sp: "eatWhile isSpace ?l = ?l"
    by (subst eatWhile.simps) (simp add: newLexer_def n)
  have adv: "lex_advance ?l = (byte c, ?l1)"
    using byte_c by (simp add: lex_advance_def lex_peek_def newLexer_def n at_def)
  have run: "eatWhile isIdentChar ?l1 = at (n @ t) (length n) 1 (1 + length n)"
    using eatWhile_run[OF line_class_ident, of ?l1 m t] m assms(2) by (simp add: n at_def)
  have "byte c \<noteq> (34::nat)" and "byte c \<noteq> (96::nat)"
    using c by (auto simp: class_defs)
  then have "lex_next ?l = mk_tok 0 \<lparr>Line = 1, Col = 1\<rparr> tokIdent (eatWhile isIdentChar ?l1)"
    using c by (simp add: lex_next_def Let_def sp adv) (simp add: newLexer_def n)
  then show ?thesis
    unfolding run by (simp add: mk_tok_def src_slice_def at_def)
qed

subsection \<open>Properties\<close>

text \<open>The lexer always makes progress and terminates. From any position inside the source the
  next token is either end of input, and then asking again gives the same token for ever, or it
  consumed at least one byte without leaving the source; so a caller that reads to end of input stops
  after at most one token per source byte plus the end marker.\<close>

theorem lexer_progress:
  "(if tkKind (fst (lex_next l)) = tokEOF then lex_next (snd (lex_next l)) = lex_next l
    else lxOff l < lxOff (snd (lex_next l)) \<and> lxOff (snd (lex_next l)) \<le> length (lxSrc l)) \<and>
   lxSrc (snd (lex_next l)) = lxSrc l \<and>
   length (lex_all (newLexer src)) \<le> length src + 1"
  using lex_next_consumes[of l] lex_next_EOF_stable[of l] lex_next_le[of l]
    lex_all_length[of "newLexer src"]
  by (simp add: lex_le_def newLexer_def)

text \<open>Storage and query grammar agree on label names: a name that passed
  \<^verbatim>\<open>validateLabelName\<close>, followed by anything that cannot continue an identifier, is lexed as exactly
  one identifier token with that text, so every stored label can be named in a query.\<close>

theorem stored_labels_are_identifiers:
  assumes "validateLabelName n = None" and "t = [] \<or> \<not> isIdentChar (hd t)"
  shows "tkKind (fst (lex_next (newLexer (n @ t)))) = tokIdent \<and>
    tkText (fst (lex_next (newLexer (n @ t)))) = n \<and>
    lxOff (snd (lex_next (newLexer (n @ t)))) = length n"
  using assms by (simp add: validateLabelName_None lex_next_ident at_def)

theorem stored_labels_are_identifiers_witness:
  "tkText (fst (lex_next (newLexer (''app_v2'' @ ''=~ x'')))) = ''app_v2''"
  using stored_labels_are_identifiers[of "''app_v2''" "''=~ x''"]
  by (simp add: validateLabelName_def label_limits name_start_def is_digit_def class_defs)

text \<open>The UTF-8 check is made on the source bytes only: an escape can still denote a byte that is not
  UTF-8, and the decoded literal is passed on.\<close>

lemma escape_defeats_utf8_check:
  "let t = fst (lex_next (newLexer (CHR 0x22 # CHR 0x5C # ''xff'' @ [CHR 0x22]))) in
   tkKind t = tokString \<and> tkText t = [CHR 0xFF] \<and> \<not> valid_string (tkText t)"
proof -
  have "char_of (255::nat) = CHR 0xFF" by code_simp
  then show ?thesis
    by (simp add: lex_next_def newLexer_def eatWhile.simps isSpace_def Let_def lex_advance_def
        lex_peek_def next_string_def scan_string.simps src_slice_def valid_string.simps
        decode_ok_def rune_error_def Unquote_def unquote_body.simps unquote_escape_def unhex_def
        decode_rune_def lead_def)
qed

end
