(* ===== verification/Query_Parser.thy ===== *)
theory Query_Parser
  imports Query_Lexer
begin

text \<open>
  \<^verbatim>\<open>internal/query/ast.go\<close> and \<^verbatim>\<open>internal/query/parser.go\<close>: the syntax tree and the recursive-descent
  parser. A grammar method of \<^verbatim>\<open>*parser\<close> is a function from the parser state to either an error or a
  result with the next state; \<^verbatim>\<open>bail\<close>'s panic, which \<^verbatim>\<open>Parse\<close> recovers, is the left summand \<open>Bail\<close>, and
  a run-time panic, which \<^verbatim>\<open>Parse\<close> would raise again, is \<open>RuntimePanic\<close>. Messages are kept as
  templates with their arguments.

  The lemmas show that the parser is total, that no run-time panic can happen, and that whatever it
  returns satisfies the checks its callers rely on.
\<close>

subsection \<open>The syntax tree\<close>

datatype Op = OpEq | OpNeq | OpRe | OpNre | OpGte | OpLte | OpGt | OpLt

definition op_IsRegex :: "Op \<Rightarrow> bool" where
  "op_IsRegex o' \<longleftrightarrow> o' = OpRe \<or> o' = OpNre"

definition op_String :: "Op \<Rightarrow> string" where
  "op_String o' = (case o' of OpEq \<Rightarrow> ''='' | OpNeq \<Rightarrow> ''!='' | OpRe \<Rightarrow> ''=~'' | OpNre \<Rightarrow> ''!~''
     | OpGte \<Rightarrow> ''>='' | OpLte \<Rightarrow> ''<='' | OpGt \<Rightarrow> ''>'' | OpLt \<Rightarrow> ''<'')"

datatype LineOp = LineContains | LineNotContains | LineMatches | LineNotMatches

definition lineop_IsRegex :: "LineOp \<Rightarrow> bool" where
  "lineop_IsRegex o' \<longleftrightarrow> o' = LineMatches \<or> o' = LineNotMatches"

datatype ParserKind = ParserJSON | ParserLogfmt | ParserRegexp

datatype AggFunc = AggRate | AggCountOverTime | AggBytesOverTime

record Matcher =
  mPos :: Pos
  mLabel :: string
  mOp :: Op
  mValue :: string

record Selector =
  selPos :: Pos
  selMatchers :: "Matcher list"

record LineFilter =
  lfPos :: Pos
  lfOp :: LineOp
  lfText :: string

record LabelFilter =
  bfPos :: Pos
  bfLabel :: string
  bfOp :: Op
  bfValue :: string
  bfNumeric :: bool

record ParserStage =
  psPos :: Pos
  psKind :: ParserKind
  psPattern :: string

datatype Stage = SLine LineFilter | SLabel LabelFilter | SParser ParserStage

record Aggregation =
  agPos :: Pos
  agFunc :: AggFunc
  agRange :: duration
  agBy :: "string list"

record Query =
  qText :: string
  qSelector :: Selector
  qStages :: "Stage list"
  qAgg :: "Aggregation option"

subsection \<open>Errors and parser state\<close>

datatype parse_msg =
    MIllegal lex_err
  | MExpected string "tokenKind \<times> string option"
  | MNoMatcher
  | MLevelOp Op
  | MUnknownLevel string
  | MRegexLen nat
  | MRegexInvalid string
  | MRegexEscape char
  | MRegexFlags
  | MDuplicateLabel string
  | MDurationRange
  | MDurationZero
  | MAggNotLast

datatype parse_err = Bail Pos parse_msg | RuntimePanic

record parser =
  pLex :: lexer
  pTok :: token

definition MaxRegexLen :: nat where "MaxRegexLen = 1024"

definition describe :: "token \<Rightarrow> tokenKind \<times> string option" where
  "describe t =
     (tkKind t, if tkKind t \<in> {tokIdent, tokString, tokNumber, tokDuration} then Some (tkText t) else None)"

abbreviation kind :: "parser \<Rightarrow> tokenKind" where
  "kind p \<equiv> tkKind (pTok p)"

definition p_advance :: "parser \<Rightarrow> parse_err + parser" where
  "p_advance p = (case lex_next (pLex p) of (t, l) \<Rightarrow>
     (if tkKind t = tokIllegal
      then Inl (Bail (tkPos t) (MIllegal (case tkErr t of None \<Rightarrow> InvalidUTF8 | Some e \<Rightarrow> e)))
      else Inr \<lparr>pLex = l, pTok = t\<rparr>))"

definition p_want :: "tokenKind \<Rightarrow> string \<Rightarrow> parser \<Rightarrow> parse_err + token" where
  "p_want k what p =
     (if kind p \<noteq> k then Inl (Bail (tkPos (pTok p)) (MExpected what (describe (pTok p))))
      else Inr (pTok p))"

definition p_expect :: "tokenKind \<Rightarrow> string \<Rightarrow> parser \<Rightarrow> parse_err + token \<times> parser" where
  "p_expect k what p =
     (case p_want k what p of Inl e \<Rightarrow> Inl e
      | Inr t \<Rightarrow> (case p_advance p of Inl e \<Rightarrow> Inl e | Inr p' \<Rightarrow> Inr (t, p')))"

subsection \<open>Operators and values\<close>

fun ops :: "tokenKind \<Rightarrow> Op option" where
  "ops tokEq = Some OpEq" | "ops tokNeq = Some OpNeq" | "ops tokRe = Some OpRe"
| "ops tokNre = Some OpNre" | "ops tokGte = Some OpGte" | "ops tokLte = Some OpLte"
| "ops tokGt = Some OpGt" | "ops tokLt = Some OpLt" | "ops _ = None"

definition parseOp :: "parser \<Rightarrow> parse_err + Op \<times> parser" where
  "parseOp p = (case ops (kind p) of
     None \<Rightarrow> Inl (Bail (tkPos (pTok p)) (MExpected ''matcher operator'' (describe (pTok p))))
   | Some op \<Rightarrow> (case p_advance p of Inl e \<Rightarrow> Inl e | Inr p' \<Rightarrow> Inr (op, p')))"

definition checkLevel :: "golib \<Rightarrow> token \<Rightarrow> parse_err option" where
  "checkLevel L val = (case ParseLevel L (tkText val) of
     Inl _ \<Rightarrow> Some (Bail (tkPos val) (MUnknownLevel (tkText val))) | Inr _ \<Rightarrow> None)"

text \<open>The scan of \<^verbatim>\<open>checkRegex\<close> for syntax PostgreSQL does not have; \<open>i\<close> is the index of the rest of
  the pattern.\<close>

fun regex_scan :: "nat \<Rightarrow> string \<Rightarrow> parse_msg option" where
  "regex_scan i [] = None"
| "regex_scan i (c # cs) =
     (if byte c = (92::nat) then
        (case cs of [] \<Rightarrow> None
         | d # ds \<Rightarrow> if d \<in> set ''pPQE'' then Some (MRegexEscape d) else regex_scan (i + 2) ds)
      else if c = CHR ''('' \<and> 0 < i \<and> 2 \<le> length cs \<and> cs ! 0 = CHR ''?'' \<and> cs ! 1 \<notin> set '':P<''
      then Some MRegexFlags
      else regex_scan (i + 1) cs)"

definition regex_check :: "golib \<Rightarrow> string \<Rightarrow> parse_msg option" where
  "regex_check L re =
     (if MaxRegexLen < length re then Some (MRegexLen (length re))
      else case re_err L re of
        Some e \<Rightarrow> Some (MRegexInvalid e)
      | None \<Rightarrow> regex_scan 0 re)"

definition checkRegex :: "golib \<Rightarrow> token \<Rightarrow> parse_err option" where
  "checkRegex L val = map_option (Bail (tkPos val)) (regex_check L (tkText val))"

definition parseValue :: "golib \<Rightarrow> string \<Rightarrow> Op \<Rightarrow> Pos \<Rightarrow> parser \<Rightarrow> parse_err + string \<times> parser" where
  "parseValue L label op opPos p =
     (if label = ''level'' \<and> op_IsRegex op then Inl (Bail opPos (MLevelOp op))
      else case p_want tokString ''string'' p of Inl e \<Rightarrow> Inl e
      | Inr val \<Rightarrow>
         (case (if label = ''level'' then checkLevel L val
                else if op_IsRegex op then checkRegex L val else None) of
            Some e \<Rightarrow> Inl e
          | None \<Rightarrow> (case p_advance p of Inl e \<Rightarrow> Inl e | Inr p' \<Rightarrow> Inr (tkText val, p'))))"

definition parseMatcher :: "golib \<Rightarrow> parser \<Rightarrow> parse_err + Matcher \<times> parser" where
  "parseMatcher L p =
     (case p_expect tokIdent ''label name'' p of Inl e \<Rightarrow> Inl e
      | Inr (label, p1) \<Rightarrow>
        (case parseOp p1 of Inl e \<Rightarrow> Inl e
         | Inr (op, p2) \<Rightarrow>
           (case parseValue L (tkText label) op (tkPos (pTok p1)) p2 of Inl e \<Rightarrow> Inl e
            | Inr (v, p3) \<Rightarrow>
               Inr (\<lparr>mPos = tkPos label, mLabel = tkText label, mOp = op, mValue = v\<rparr>, p3))))"

subsection \<open>Every step consumes input\<close>

text \<open>What is left to read, counting the lookahead token.\<close>

definition p_left :: "parser \<Rightarrow> nat" where
  "p_left p = length (lxSrc (pLex p)) - lxOff (pLex p) + (if kind p = tokEOF then 0 else 1)"

lemma p_advance_left:
  assumes "p_advance p = Inr p'"
  shows "p_left p' \<le> p_left p" and "kind p \<noteq> tokEOF \<Longrightarrow> p_left p' < p_left p"
proof -
  obtain t l where n: "lex_next (pLex p) = (t, l)" by force
  then have p': "p' = \<lparr>pLex = l, pTok = t\<rparr>"
    using assms by (auto simp: p_advance_def split: if_splits)
  have "lex_le (pLex p) l" using lex_next_le[of "pLex p"] n by simp
  moreover have "tkKind t \<noteq> tokEOF \<Longrightarrow> lxOff (pLex p) < lxOff l \<and> lxOff l \<le> length (lxSrc (pLex p))"
    using lex_next_consumes[of "pLex p"] n by simp
  ultimately show "p_left p' \<le> p_left p" and "kind p \<noteq> tokEOF \<Longrightarrow> p_left p' < p_left p"
    by (auto simp: p_left_def p' lex_le_def)
qed

lemma p_expect_left:
  assumes "p_expect k what p = Inr (t, p')" and "k \<noteq> tokEOF"
  shows "p_left p' < p_left p"
  using assms p_advance_left(2)[of p p']
  by (auto simp: p_expect_def p_want_def split: sum.splits if_splits)

lemma parseOp_left: "parseOp p = Inr (op, p') \<Longrightarrow> p_left p' < p_left p"
  using p_advance_left(2)[of p p']
  by (cases "kind p") (auto simp: parseOp_def split: sum.splits option.splits)

lemma parseValue_left: "parseValue L label op pos p = Inr (v, p') \<Longrightarrow> p_left p' < p_left p"
  using p_advance_left(2)[of p p']
  by (auto simp: parseValue_def p_want_def split: sum.splits option.splits if_splits)

lemma parseMatcher_left: "parseMatcher L p = Inr (m, p') \<Longrightarrow> p_left p' < p_left p"
  by (auto simp: parseMatcher_def split: sum.splits
      dest!: p_expect_left parseOp_left parseValue_left)

subsection \<open>The selector\<close>

function parse_matchers :: "golib \<Rightarrow> Matcher list \<Rightarrow> parser \<Rightarrow> parse_err + Matcher list \<times> parser" where
  "parse_matchers L acc p =
     (case parseMatcher L p of Inl e \<Rightarrow> Inl e
      | Inr (m, p1) \<Rightarrow>
        (if kind p1 = tokComma then
           (case p_advance p1 of Inl e \<Rightarrow> Inl e
            | Inr p2 \<Rightarrow> parse_matchers L (acc @ [m]) p2)
         else (case p_expect tokRBrace ''closing brace or comma'' p1 of Inl e \<Rightarrow> Inl e
               | Inr (_, p2) \<Rightarrow> Inr (acc @ [m], p2))))"
  by pat_completeness auto
termination
proof (relation "measure (\<lambda>(L, acc, p). p_left p)", goal_cases)
  case (2 L acc p x m p1 p2)
  then have "p_left p1 < p_left p" and "p_left p2 \<le> p_left p1"
    using parseMatcher_left[of L p m p1] p_advance_left(1)[of p1 p2] by auto
  then show ?case by simp
qed simp

declare parse_matchers.simps [simp del]

definition parseSelector :: "golib \<Rightarrow> parser \<Rightarrow> parse_err + Selector \<times> parser" where
  "parseSelector L p =
     (case p_expect tokLBrace ''opening brace'' p of Inl e \<Rightarrow> Inl e
      | Inr (t, p1) \<Rightarrow>
        (if kind p1 = tokRBrace then Inl (Bail (tkPos t) MNoMatcher)
         else (case parse_matchers L [] p1 of Inl e \<Rightarrow> Inl e
               | Inr (ms, p2) \<Rightarrow> Inr (\<lparr>selPos = tkPos t, selMatchers = ms\<rparr>, p2))))"

subsection \<open>Stages\<close>

definition stageWhat :: string where
  "stageWhat = ''a stage (json, logfmt, regexp, a label filter, or an aggregation)''"

fun lineOps :: "tokenKind \<Rightarrow> LineOp" where
  "lineOps tokPipeExact = LineContains" | "lineOps tokNeq = LineNotContains"
| "lineOps tokPipeRe = LineMatches" | "lineOps tokNre = LineNotMatches"
| "lineOps _ = LineContains"

definition parseLineFilter :: "golib \<Rightarrow> parser \<Rightarrow> parse_err + LineFilter \<times> parser" where
  "parseLineFilter L p =
     (let op = lineOps (kind p) in
      case p_advance p of Inl e \<Rightarrow> Inl e
      | Inr p1 \<Rightarrow>
        (case p_want tokString ''string'' p1 of Inl e \<Rightarrow> Inl e
         | Inr val \<Rightarrow>
           (case (if lineop_IsRegex op then checkRegex L val else None) of
              Some e \<Rightarrow> Inl e
            | None \<Rightarrow> (case p_advance p1 of Inl e \<Rightarrow> Inl e
               | Inr p2 \<Rightarrow> Inr (\<lparr>lfPos = tkPos (pTok p), lfOp = op, lfText = tkText val\<rparr>, p2)))))"

definition parseLabelFilter :: "golib \<Rightarrow> token \<Rightarrow> parser \<Rightarrow> parse_err + LabelFilter \<times> parser" where
  "parseLabelFilter L label p =
     (case parseOp p of Inl e \<Rightarrow> Inl e
      | Inr (op, p1) \<Rightarrow>
        (let f = \<lparr>bfPos = tkPos label, bfLabel = tkText label, bfOp = op, bfValue = [],
                  bfNumeric = False\<rparr> in
         if kind p1 = tokNumber \<and> \<not> op_IsRegex op \<and> tkText label \<noteq> ''level'' then
           (case p_advance p1 of Inl e \<Rightarrow> Inl e
            | Inr p2 \<Rightarrow> Inr (f\<lparr>bfValue := tkText (pTok p1), bfNumeric := True\<rparr>, p2))
         else (case parseValue L (tkText label) op (tkPos (pTok p)) p1 of Inl e \<Rightarrow> Inl e
               | Inr (v, p2) \<Rightarrow> Inr (f\<lparr>bfValue := v\<rparr>, p2))))"

definition parseStage :: "golib \<Rightarrow> token \<Rightarrow> parser \<Rightarrow> parse_err + Stage \<times> parser" where
  "parseStage L kw p =
     (if tkText kw = ''json'' then
        Inr (SParser \<lparr>psPos = tkPos kw, psKind = ParserJSON, psPattern = []\<rparr>, p)
      else if tkText kw = ''logfmt'' then
        Inr (SParser \<lparr>psPos = tkPos kw, psKind = ParserLogfmt, psPattern = []\<rparr>, p)
      else if tkText kw = ''regexp'' then
        (case p_want tokString ''string'' p of Inl e \<Rightarrow> Inl e
         | Inr pat \<Rightarrow> (case checkRegex L pat of Some e \<Rightarrow> Inl e
            | None \<Rightarrow> (case p_advance p of Inl e \<Rightarrow> Inl e
               | Inr p' \<Rightarrow>
                  Inr (SParser \<lparr>psPos = tkPos kw, psKind = ParserRegexp, psPattern = tkText pat\<rparr>, p'))))
      else if ops (kind p) = None then
        Inl (Bail (tkPos kw) (MExpected stageWhat (describe kw)))
      else (case parseLabelFilter L kw p of Inl e \<Rightarrow> Inl e
            | Inr (f, p') \<Rightarrow> Inr (SLabel f, p')))"

subsection \<open>The aggregation\<close>

definition units :: "(char \<times> duration) list" where
  "units = [(CHR ''s'', second), (CHR ''m'', minute), (CHR ''h'', hour), (CHR ''d'', 24 * hour)]"

text \<open>\<^verbatim>\<open>strconv.Atoi\<close> on an unsigned decimal (the text before the unit of a duration token).\<close>

definition Atoi :: "string \<Rightarrow> int option" where
  "Atoi s = (if s \<noteq> [] \<and> list_all isDigit s \<and> dec_value s < 2 ^ 63 then Some (int (dec_value s))
     else None)"

definition parseDuration :: "parser \<Rightarrow> parse_err + duration \<times> parser" where
  "parseDuration p =
     (case p_want tokDuration ''duration'' p of Inl e \<Rightarrow> Inl e
      | Inr tok \<Rightarrow>
        (if tkText tok = [] then Inl RuntimePanic
         else case Atoi (butlast (tkText tok)) of
           None \<Rightarrow> Inl (Bail (tkPos tok) MDurationRange)
         | Some n \<Rightarrow>
           (case map_of units (last (tkText tok)) of
              None \<Rightarrow> Inl RuntimePanic
            | Some unit' \<Rightarrow>
              (let d = wrap64 (n * unit') in
               if tdiv d unit' \<noteq> n then Inl (Bail (tkPos tok) MDurationRange)
               else if d = 0 then Inl (Bail (tkPos tok) MDurationZero)
               else (case p_advance p of Inl e \<Rightarrow> Inl e | Inr p' \<Rightarrow> Inr (d, p'))))))"

function parse_by :: "string list \<Rightarrow> parser \<Rightarrow> parse_err + string list \<times> parser" where
  "parse_by By p =
     (case p_expect tokIdent ''label name'' p of Inl e \<Rightarrow> Inl e
      | Inr (label, p1) \<Rightarrow>
        (if tkText label \<in> set By then Inl (Bail (tkPos label) (MDuplicateLabel (tkText label)))
         else if kind p1 \<noteq> tokComma then Inr (By @ [tkText label], p1)
         else (case p_advance p1 of Inl e \<Rightarrow> Inl e
               | Inr p2 \<Rightarrow> parse_by (By @ [tkText label]) p2)))"
  by pat_completeness auto
termination
proof (relation "measure (\<lambda>(By, p). p_left p)", goal_cases)
  case (2 By p x label p1 p2)
  then have "p_left p1 < p_left p" and "p_left p2 \<le> p_left p1"
    using p_expect_left[of tokIdent _ p label p1] p_advance_left(1)[of p1 p2] by auto
  then show ?case by simp
qed simp

declare parse_by.simps [simp del]

definition parseAggregation :: "token \<Rightarrow> AggFunc \<Rightarrow> parser \<Rightarrow> parse_err + Aggregation \<times> parser" where
  "parseAggregation kw fn p =
     (case p_expect tokLParen ''opening parenthesis'' p of Inl e \<Rightarrow> Inl e
      | Inr (_, p1) \<Rightarrow>
        (case parseDuration p1 of Inl e \<Rightarrow> Inl e
         | Inr (rng, p2) \<Rightarrow>
           (case p_expect tokRParen ''closing parenthesis'' p2 of Inl e \<Rightarrow> Inl e
            | Inr (_, p3) \<Rightarrow>
              (let agg = \<lparr>agPos = tkPos kw, agFunc = fn, agRange = rng, agBy = []\<rparr> in
               if kind p3 \<noteq> tokIdent \<or> tkText (pTok p3) \<noteq> ''by'' then Inr (agg, p3)
               else (case p_advance p3 of Inl e \<Rightarrow> Inl e
                | Inr p4 \<Rightarrow> (case p_expect tokLParen ''opening parenthesis'' p4 of Inl e \<Rightarrow> Inl e
                  | Inr (_, p5) \<Rightarrow> (case parse_by [] p5 of Inl e \<Rightarrow> Inl e
                    | Inr (By, p6) \<Rightarrow>
                      (case p_expect tokRParen ''closing parenthesis or comma'' p6 of Inl e \<Rightarrow> Inl e
                       | Inr (_, p7) \<Rightarrow> Inr (agg\<lparr>agBy := By\<rparr>, p7)))))))))"

definition aggFuncs :: "AggFunc gomap" where
  "aggFuncs = [(''rate'', AggRate), (''count_over_time'', AggCountOverTime),
     (''bytes_over_time'', AggBytesOverTime)]"

subsection \<open>Parse\<close>

lemma parseLineFilter_left:
  "parseLineFilter L p = Inr (f, p') \<Longrightarrow> p_left p' < p_left p"
  using p_advance_left(1)[of p] p_advance_left(2)[of _ p']
  by (fastforce simp: parseLineFilter_def Let_def p_want_def
      split: sum.splits option.splits if_splits)

lemma parseLabelFilter_left: "parseLabelFilter L t p = Inr (f, p') \<Longrightarrow> p_left p' < p_left p"
  by (auto simp: parseLabelFilter_def Let_def split: sum.splits if_splits
      dest!: parseOp_left parseValue_left p_advance_left(1))

lemma parseStage_left: "parseStage L t p = Inr (st, p') \<Longrightarrow> p_left p' \<le> p_left p"
  by (auto simp: parseStage_def p_want_def split: sum.splits if_splits option.splits
      dest!: parseLabelFilter_left p_advance_left(1))

text \<open>The loop over what follows the selector: the stages and the optional aggregation.\<close>

function parse_rest ::
  "golib \<Rightarrow> Stage list \<Rightarrow> parser \<Rightarrow> parse_err + Stage list \<times> Aggregation option" where
  "parse_rest L acc p =
     (if kind p = tokEOF then Inr (acc, None)
      else if kind p \<in> {tokPipeExact, tokNeq, tokPipeRe, tokNre} then
        (case parseLineFilter L p of Inl e \<Rightarrow> Inl e
         | Inr (f, p1) \<Rightarrow> parse_rest L (acc @ [SLine f]) p1)
      else if kind p = tokPipe then
        (case p_advance p of Inl e \<Rightarrow> Inl e
         | Inr p1 \<Rightarrow>
           (case p_expect tokIdent stageWhat p1 of Inl e \<Rightarrow> Inl e
            | Inr (kw, p2) \<Rightarrow>
              (case map_of aggFuncs (tkText kw) of
                 Some fn \<Rightarrow>
                   (case parseAggregation kw fn p2 of Inl e \<Rightarrow> Inl e
                    | Inr (agg, p3) \<Rightarrow>
                      (if kind p3 \<noteq> tokEOF then Inl (Bail (tkPos (pTok p3)) MAggNotLast)
                       else Inr (acc, Some agg)))
               | None \<Rightarrow>
                   (case parseStage L kw p2 of Inl e \<Rightarrow> Inl e
                    | Inr (st, p3) \<Rightarrow> parse_rest L (acc @ [st]) p3))))
      else Inl (Bail (tkPos (pTok p))
             (MExpected ''line filter, pipe or end of input'' (describe (pTok p)))))"
  by pat_completeness auto
termination
proof (relation "measure (\<lambda>(L, acc, p). p_left p)", goal_cases)
  case (2 L acc p x f p1)
  then show ?case using parseLineFilter_left[of L p f p1] by simp
next
  case (3 L acc p p1 x kw p2 y st p3)
  then have "p_left p1 \<le> p_left p" and "p_left p2 < p_left p1" and "p_left p3 \<le> p_left p2"
    using p_advance_left(1)[of p p1] p_expect_left[of tokIdent _ p1 kw p2]
      parseStage_left[of L kw p2 st p3] by auto
  then show ?case by simp
qed simp

declare parse_rest.simps [simp del]

definition token0 :: token where
  "token0 = \<lparr>tkKind = tokEOF, tkText = [], tkPos = \<lparr>Line = 0, Col = 0\<rparr>, tkErr = None\<rparr>"

definition Parse :: "golib \<Rightarrow> string \<Rightarrow> parse_err + Query" where
  "Parse L src =
     (case p_advance \<lparr>pLex = newLexer src, pTok = token0\<rparr> of Inl e \<Rightarrow> Inl e
      | Inr p \<Rightarrow>
        (case parseSelector L p of Inl e \<Rightarrow> Inl e
         | Inr (sel, p1) \<Rightarrow>
           (case parse_rest L [] p1 of Inl e \<Rightarrow> Inl e
            | Inr (stages, agg) \<Rightarrow>
               Inr \<lparr>qText = src, qSelector = sel, qStages = stages, qAgg = agg\<rparr>)))"

subsection \<open>What a parsed query satisfies\<close>

definition value_ok :: "golib \<Rightarrow> string \<Rightarrow> Op \<Rightarrow> string \<Rightarrow> bool" where
  "value_ok L label op v \<longleftrightarrow>
     (if label = ''level'' then \<not> op_IsRegex op \<and> (case ParseLevel L v of Inl _ \<Rightarrow> False | Inr _ \<Rightarrow> True)
      else op_IsRegex op \<longrightarrow> regex_check L v = None)"

definition matcher_ok :: "golib \<Rightarrow> Matcher \<Rightarrow> bool" where
  "matcher_ok L m \<longleftrightarrow> ident_ok (mLabel m) \<and> value_ok L (mLabel m) (mOp m) (mValue m)"

definition labelfilter_ok :: "golib \<Rightarrow> LabelFilter \<Rightarrow> bool" where
  "labelfilter_ok L f \<longleftrightarrow> ident_ok (bfLabel f) \<and>
     (if bfNumeric f
      then \<not> op_IsRegex (bfOp f) \<and> bfLabel f \<noteq> ''level'' \<and> number_ok (bfValue f)
      else value_ok L (bfLabel f) (bfOp f) (bfValue f))"

fun stage_ok :: "golib \<Rightarrow> Stage \<Rightarrow> bool" where
  "stage_ok L (SLine f) = (lineop_IsRegex (lfOp f) \<longrightarrow> regex_check L (lfText f) = None)"
| "stage_ok L (SLabel f) = labelfilter_ok L f"
| "stage_ok L (SParser s) =
     (if psKind s = ParserRegexp then regex_check L (psPattern s) = None else psPattern s = [])"

definition agg_ok :: "Aggregation \<Rightarrow> bool" where
  "agg_ok a \<longleftrightarrow> 0 < agRange a \<and> int64_ok (agRange a) \<and> second dvd agRange a \<and>
     distinct (agBy a) \<and> list_all ident_ok (agBy a)"

definition query_ok :: "golib \<Rightarrow> Query \<Rightarrow> bool" where
  "query_ok L q \<longleftrightarrow> selMatchers (qSelector q) \<noteq> [] \<and>
     list_all (matcher_ok L) (selMatchers (qSelector q)) \<and> list_all (stage_ok L) (qStages q) \<and>
     (case qAgg q of None \<Rightarrow> True | Some a \<Rightarrow> agg_ok a)"

text \<open>\<open>returns P r\<close>: not a run-time panic, and a result satisfies \<open>P\<close>.\<close>

definition returns :: "('a \<Rightarrow> bool) \<Rightarrow> parse_err + 'a \<Rightarrow> bool" where
  "returns P r \<longleftrightarrow> (case r of Inl e \<Rightarrow> e \<noteq> RuntimePanic | Inr x \<Rightarrow> P x)"

lemma returns_simps [simp]:
  "returns P (Inl e) \<longleftrightarrow> e \<noteq> RuntimePanic" "returns P (Inr x) \<longleftrightarrow> P x"
  by (simp_all add: returns_def)

abbreviation p_ok :: "parser \<Rightarrow> bool" where
  "p_ok p \<equiv> token_ok (pTok p)"

lemma p_advance_returns: "returns p_ok (p_advance p)"
  using lex_next_token_ok[of "pLex p"] by (auto simp: p_advance_def split: prod.splits)

lemma p_want_returns: "returns (\<lambda>t. t = pTok p \<and> tkKind t = k) (p_want k what p)"
  by (simp add: p_want_def)

lemma returns_case:
  assumes "returns P r" and "\<And>x. r = Inr x \<Longrightarrow> P x \<Longrightarrow> returns Q (f x)"
  shows "returns Q (case r of Inl e \<Rightarrow> Inl e | Inr x \<Rightarrow> f x)"
  using assms by (cases r) auto

lemma returns_case2:
  assumes "returns (\<lambda>(a, b). P a b) r" and "\<And>a b. P a b \<Longrightarrow> returns Q (f a b)"
  shows "returns Q (case r of Inl e \<Rightarrow> Inl e | Inr (a, b) \<Rightarrow> f a b)"
  using assms by (cases r) auto

lemma returns_mono: "returns P r \<Longrightarrow> (\<And>x. P x \<Longrightarrow> Q x) \<Longrightarrow> returns Q r"
  by (cases r) auto

lemma p_expect_returns:
  "p_ok p \<Longrightarrow> returns (\<lambda>(t, p'). token_ok t \<and> tkKind t = k \<and> p_ok p') (p_expect k what p)"
  unfolding p_expect_def
  by (intro returns_case[OF p_want_returns] returns_case[OF p_advance_returns]) auto

lemma parseOp_returns: "returns (\<lambda>(op, p'). p_ok p') (parseOp p)"
  using p_advance_returns[of p] by (auto simp: parseOp_def split: option.splits sum.splits)

lemma checks_no_panic:
  "checkLevel L t \<noteq> Some RuntimePanic" "checkRegex L t \<noteq> Some RuntimePanic"
  by (auto simp: checkLevel_def checkRegex_def split: sum.splits)

lemma parseValue_returns:
  "returns (\<lambda>(v, p'). value_ok L label op v \<and> p_ok p') (parseValue L label op pos p)"
  using p_advance_returns[of p] checks_no_panic[of L "pTok p"]
  by (auto simp: parseValue_def p_want_def value_ok_def checkLevel_def checkRegex_def
      split: option.splits sum.splits if_splits)

lemma parseMatcher_returns:
  "p_ok p \<Longrightarrow> returns (\<lambda>(m, p'). matcher_ok L m \<and> p_ok p') (parseMatcher L p)"
  unfolding parseMatcher_def
  by (intro returns_case2[OF p_expect_returns] returns_case2[OF parseOp_returns]
      returns_case2[OF parseValue_returns]) (auto simp: matcher_ok_def token_ok_def)

lemma parse_matchers_returns:
  assumes "p_ok p" and "list_all (matcher_ok L) acc"
  shows "returns (\<lambda>(ms, p'). ms \<noteq> [] \<and> list_all (matcher_ok L) ms \<and> p_ok p') (parse_matchers L acc p)"
  using assms
proof (induction L acc p rule: parse_matchers.induct)
  case (1 L acc p)
  show ?case
  proof (subst parse_matchers.simps, cases "parseMatcher L p", goal_cases)
    case (1 e)
    then show ?case using parseMatcher_returns[OF "1.prems"(1), of L] by simp
  next
    case (2 mp)
    obtain m p1 where mp: "mp = (m, p1)" by force
    then have ok: "matcher_ok L m" "p_ok p1"
      using 2 parseMatcher_returns[OF "1.prems"(1), of L] by auto
    show ?case
    proof (cases "kind p1 = tokComma")
      case True
      then show ?thesis
        using 2 mp ok "1.prems" p_advance_returns[of p1] "1.IH"[OF 2 mp[symmetric] True]
        by (cases "p_advance p1") auto
    next
      case False
      then show ?thesis
        using 2 mp ok "1.prems" p_expect_returns[OF ok(2), of tokRBrace "''closing brace or comma''"]
        by (cases "p_expect tokRBrace ''closing brace or comma'' p1") auto
    qed
  qed
qed

lemma parseSelector_returns:
  assumes "p_ok p"
  shows "returns (\<lambda>(sel, p'). selMatchers sel \<noteq> [] \<and> list_all (matcher_ok L) (selMatchers sel) \<and> p_ok p')
    (parseSelector L p)"
  unfolding parseSelector_def
  by (rule returns_case2[OF p_expect_returns[OF assms]])
    (auto intro!: returns_case2[OF parse_matchers_returns])

lemma parseLineFilter_returns:
  "returns (\<lambda>(f, p'). stage_ok L (SLine f) \<and> p_ok p') (parseLineFilter L p)"
  unfolding parseLineFilter_def Let_def
  by (intro returns_case[OF p_advance_returns] returns_case[OF p_want_returns])
    (use checks_no_panic in \<open>auto simp: checkRegex_def split: option.splits
      intro!: returns_case[OF p_advance_returns]\<close>)

lemma parseLabelFilter_returns:
  assumes "ident_ok (tkText t)"
  shows "returns (\<lambda>(f, p'). stage_ok L (SLabel f) \<and> p_ok p') (parseLabelFilter L t p)"
  unfolding parseLabelFilter_def Let_def
  by (rule returns_case2[OF parseOp_returns])
    (use assms in \<open>auto simp: labelfilter_ok_def token_ok_def
      intro!: returns_case[OF p_advance_returns] returns_case2[OF parseValue_returns]\<close>)

lemma parseStage_returns:
  assumes "ident_ok (tkText t)" and "p_ok p"
  shows "returns (\<lambda>(st, p'). stage_ok L st \<and> p_ok p') (parseStage L t p)"
  using assms checks_no_panic[of L "pTok p"] unfolding parseStage_def
  by (auto simp: checkRegex_def p_want_def split: option.splits
      intro!: returns_case[OF p_advance_returns] returns_case2[OF parseLabelFilter_returns])

lemma units_cases: "map_of units c = Some u \<Longrightarrow> u \<in> {second, minute, hour, 24 * hour}"
  by (auto simp: units_def split: if_splits)

lemma units_pos: "map_of units c = Some u \<Longrightarrow> 0 < u \<and> second dvd u"
  by (auto dest!: units_cases simp: duration_defs)

text \<open>The division test is exact: it passes only when the product did not wrap.\<close>

lemma wrap_div_exact:
  assumes "0 \<le> n" and "0 < u" and "tdiv (wrap64 (n * u)) u = n"
  shows "wrap64 (n * u) = n * u"
proof (cases "n = 0")
  case False
  let ?d = "wrap64 (n * u)"
  have pos: "0 < ?d"
  proof (rule ccontr)
    assume "\<not> 0 < ?d"
    then have "tdiv ?d u \<le> 0"
      using assms(2) by (cases "?d = 0") (auto simp: tdiv_def pos_imp_zdiv_nonneg_iff)
    with assms False show False by simp
  qed
  then have "?d div u = n"
    using assms(2,3) by (simp add: tdiv_nonneg)
  then have "n * u \<le> ?d"
    by (metis assms(2) div_mult_mod_eq le_add_same_cancel1 pos_mod_sign)
  moreover have "0 \<le> n * u" using assms by simp
  ultimately have "int64_ok (n * u)"
    using wrap64_ok[of "n * u"] by (simp add: int64_ok_def)
  then show ?thesis by (rule wrap64_id)
qed (simp add: wrap64_def)

lemma parseDuration_returns:
  assumes "p_ok p"
  shows "returns (\<lambda>(d, p'). 0 < d \<and> int64_ok d \<and> second dvd d \<and> p_ok p') (parseDuration p)"
proof -
  have good: "0 < d \<and> int64_ok d \<and> second dvd d"
    if "Atoi s = Some n" "map_of units c = Some u" "tdiv (wrap64 (n * u)) u = n" "wrap64 (n * u) \<noteq> 0"
      "d = wrap64 (n * u)" for s c n u d
  proof -
    have n: "0 \<le> n" using that(1) by (auto simp: Atoi_def split: if_splits)
    note u = units_pos[OF that(2)]
    have eq: "wrap64 (n * u) = n * u" using wrap_div_exact[OF n] u that(3) by simp
    then show ?thesis
      using that(4,5) n u wrap64_ok[of "n * u"] by (auto simp: zero_less_mult_iff)
  qed
  show ?thesis
  proof (cases "kind p = tokDuration")
    case True
    then have t: "duration_ok (tkText (pTok p))" using assms by (simp add: token_ok_def)
    then have "map_of units (last (tkText (pTok p))) \<noteq> None"
      by (auto simp: duration_ok_def units_def)
    with t True show ?thesis
      unfolding parseDuration_def p_want_def
      by (auto simp: Let_def duration_ok_def split: option.splits
          intro!: returns_case[OF p_advance_returns] dest!: good)
  qed (simp add: parseDuration_def p_want_def)
qed

lemma parse_by_returns:
  assumes "p_ok p" and "distinct By" and "list_all ident_ok By"
  shows "returns (\<lambda>(by', p'). distinct by' \<and> list_all ident_ok by' \<and> p_ok p') (parse_by By p)"
  using assms
proof (induction By p rule: parse_by.induct)
  case (1 By p)
  show ?case
  proof (subst parse_by.simps, cases "p_expect tokIdent ''label name'' p", goal_cases)
    case (1 e)
    then show ?case using p_expect_returns[OF "1.prems"(1), of tokIdent "''label name''"] by simp
  next
    case (2 tp)
    obtain t p1 where tp: "tp = (t, p1)" by force
    then have ok: "ident_ok (tkText t)" "p_ok p1"
      using 2 p_expect_returns[OF "1.prems"(1), of tokIdent "''label name''"]
      by (auto simp: token_ok_def)
    show ?case
      using 2 tp ok "1.prems" p_advance_returns[of p1] "1.IH"[OF 2 tp[symmetric]]
      by (cases "p_advance p1") auto
  qed
qed

lemma parseAggregation_returns:
  assumes "p_ok p"
  shows "returns (\<lambda>(a, p'). agg_ok a \<and> p_ok p') (parseAggregation t fn p)"
  unfolding parseAggregation_def Let_def
  by (rule returns_case2[OF p_expect_returns[OF assms]])
    (auto simp: agg_ok_def intro!: returns_case2[OF parseDuration_returns]
      returns_case2[OF p_expect_returns] returns_case[OF p_advance_returns]
      returns_case2[OF parse_by_returns])

lemma parse_rest_returns:
  assumes "p_ok p" and "list_all (stage_ok L) acc"
  shows "returns (\<lambda>(st, ag). list_all (stage_ok L) st \<and> (case ag of None \<Rightarrow> True | Some a \<Rightarrow> agg_ok a))
    (parse_rest L acc p)"
  using assms
proof (induction L acc p rule: parse_rest.induct)
  case (1 L acc p)
  let ?Q = "\<lambda>(st, ag). list_all (stage_ok L) st \<and> (case ag of None \<Rightarrow> True | Some a \<Rightarrow> agg_ok a)"
  have line: "returns ?Q (case parseLineFilter L p of Inl e \<Rightarrow> Inl e
      | Inr (f, p1) \<Rightarrow> parse_rest L (acc @ [SLine f]) p1)"
    if k: "kind p \<noteq> tokEOF" "kind p \<in> {tokPipeExact, tokNeq, tokPipeRe, tokNre}"
    using parseLineFilter_returns[of L p] "1.IH"(1)[OF k] "1.prems"
    by (cases "parseLineFilter L p") auto
  have stage: "returns ?Q (case parseStage L kw p2 of Inl e \<Rightarrow> Inl e
      | Inr (st, p3) \<Rightarrow> parse_rest L (acc @ [st]) p3)"
    if k: "kind p \<noteq> tokEOF" "kind p \<notin> {tokPipeExact, tokNeq, tokPipeRe, tokNre}" "kind p = tokPipe"
      and eqs: "p_advance p = Inr p1" "p_expect tokIdent stageWhat p1 = Inr (kw, p2)"
        "map_of aggFuncs (tkText kw) = None"
      and ok: "ident_ok (tkText kw)" "p_ok p2" for p1 kw p2
    using parseStage_returns[OF ok, of L] "1.IH"(2)[OF k eqs(1,2) refl eqs(3)] "1.prems"
    by (cases "parseStage L kw p2") auto
  have pipe: "returns ?Q (case map_of aggFuncs (tkText kw) of
        Some fn \<Rightarrow> (case parseAggregation kw fn p2 of Inl e \<Rightarrow> Inl e
          | Inr (agg, p3) \<Rightarrow> (if kind p3 \<noteq> tokEOF then Inl (Bail (tkPos (pTok p3)) MAggNotLast)
             else Inr (acc, Some agg)))
      | None \<Rightarrow> (case parseStage L kw p2 of Inl e \<Rightarrow> Inl e
          | Inr (st, p3) \<Rightarrow> parse_rest L (acc @ [st]) p3))"
    if k: "kind p \<noteq> tokEOF" "kind p \<notin> {tokPipeExact, tokNeq, tokPipeRe, tokNre}" "kind p = tokPipe"
      and eqs: "p_advance p = Inr p1" "p_expect tokIdent stageWhat p1 = Inr (kw, p2)" for p1 kw p2
  proof -
    have "p_ok p1" using p_advance_returns[of p] eqs(1) by simp
    then have ok: "ident_ok (tkText kw)" "p_ok p2"
      using p_expect_returns[of p1 tokIdent stageWhat] eqs(2) by (auto simp: token_ok_def)
    show ?thesis
      using stage[OF k eqs _ ok] parseAggregation_returns[OF ok(2), of kw] "1.prems"
      by (cases "map_of aggFuncs (tkText kw)")
        (auto intro!: returns_case2[OF parseAggregation_returns[OF ok(2)]])
  qed
  have rest: "returns ?Q (case p_advance p of Inl e \<Rightarrow> Inl e | Inr p1 \<Rightarrow>
      (case p_expect tokIdent stageWhat p1 of Inl e \<Rightarrow> Inl e | Inr (kw, p2) \<Rightarrow> f kw p2))"
    if "\<And>p1 kw p2. p_advance p = Inr p1 \<Longrightarrow> p_expect tokIdent stageWhat p1 = Inr (kw, p2) \<Longrightarrow>
      returns ?Q (f kw p2)" for f
    by (rule returns_case[OF p_advance_returns], rule returns_case[OF p_expect_returns])
      (auto intro: that)
  show ?case
    using "1.prems" line rest[OF pipe]
    by (subst parse_rest.simps) simp
qed

subsection \<open>Properties\<close>

text \<open>C23. \<^verbatim>\<open>Parse\<close> is total and what it accepts is safe to hand on: on every input it returns either a
  positioned error or a query, never a run-time panic, and a returned query has a non-empty selector,
  identifiers for labels, level matchers with a known level name and no regex operator, regular
  expressions that are at most 1024 bytes, compile and avoid the syntax PostgreSQL lacks, numeric
  literals that are decimal numbers, and an aggregation window that is a positive whole number of
  seconds that did not overflow, grouped by distinct labels.\<close>

theorem Parse_query_ok:
  "case Parse L src of Inl e \<Rightarrow> e \<noteq> RuntimePanic | Inr q \<Rightarrow> query_ok L q \<and> qText q = src"
proof -
  have "returns (\<lambda>q. query_ok L q \<and> qText q = src) (Parse L src)"
    unfolding Parse_def
    by (intro returns_case[OF p_advance_returns] returns_case2[OF parseSelector_returns]
        returns_case2[OF parse_rest_returns]) (auto simp: query_ok_def)
  then show ?thesis by (simp add: returns_def)
qed

end
