(* ===== verification/Query_Plan.thy ===== *)
theory Query_Plan
  imports Query_Parser
begin

text \<open>
  \<^verbatim>\<open>internal/query/plan.go\<close>: compilation of a parsed query to two parameterized SQL statements. A
  \<^verbatim>\<open>*stmt\<close> is the record \<open>stmt\<close> (text, arguments, join flag), threaded through the functions that
  write to it; an \<^verbatim>\<open>extractor\<close> closure is a value of the datatype \<open>extractor\<close>.

  The lemmas show that every bare word of the text is one the planner knows or a placeholder of an
  argument that exists, that the text does not depend on any user string, that the logs statement
  always has its time range and limit, and that a continuous aggregate is only read on its own
  bucket boundaries.
\<close>

subsection \<open>Statements\<close>

datatype sql_arg =
    AIds | ATime gotime | AInt int | ALevel int | AStr string | ADur duration | ASeconds duration

record Stmt =
  SQL :: string
  Args :: "sql_arg list"

record stmt =
  sText :: string
  sArgs :: "sql_arg list"
  sJoin :: bool

datatype Direction = Backward | Forward

record Request =
  rqStart :: gotime
  rqEnd :: gotime
  rqLimit :: int
  rqDirection :: Direction

record Plan =
  plStreams :: Stmt
  plLogs :: Stmt
  plSource :: string
  plStart :: gotime
  plEnd :: gotime

datatype plan_err =
    StartRequired | EndNotAfterStart | LimitNotPositive | PlanLevel model_err | NotACaptureGroup string

definition empty_stmt :: stmt where
  "empty_stmt = \<lparr>sText = [], sArgs = [], sJoin = False\<rparr>"

definition emit :: "string \<Rightarrow> stmt \<Rightarrow> stmt" where
  "emit t s = s\<lparr>sText := sText s @ t\<rparr>"

definition placeholder :: "nat \<Rightarrow> string" where
  "placeholder n = ''$'' @ itoa n"

definition stmt_arg :: "sql_arg \<Rightarrow> stmt \<Rightarrow> string \<times> stmt" where
  "stmt_arg v s = (placeholder (length (sArgs s) + 1), s\<lparr>sArgs := sArgs s @ [v]\<rparr>)"

subsection \<open>Operators and labels\<close>

fun sqlOps :: "Op \<Rightarrow> string" where
  "sqlOps OpEq = ''=''" | "sqlOps OpNeq = ''<>''" | "sqlOps OpRe = ''~''" | "sqlOps OpNre = ''!~''"
| "sqlOps OpGte = ''>=''" | "sqlOps OpLte = ''<=''" | "sqlOps OpGt = ''>''" | "sqlOps OpLt = ''<''"

fun lineSQL :: "LineOp \<Rightarrow> string" where
  "lineSQL LineContains = ''ILIKE''" | "lineSQL LineNotContains = ''NOT ILIKE''"
| "lineSQL LineMatches = ''~''" | "lineSQL LineNotMatches = ''!~''"

definition promoted :: "string \<Rightarrow> bool" where
  "promoted l \<longleftrightarrow> l \<in> {''service'', ''host'', ''env''}"

subsection \<open>Patterns\<close>

definition anchor :: "string \<Rightarrow> string" where
  "anchor re = ''^(?:'' @ re @ '')$''"

fun are :: "string \<Rightarrow> string" where
  "are [] = []"
| "are [c] = [c]"
| "are (c # d # cs) =
     (if byte c \<noteq> (92::nat) then c # are (d # cs)
      else c # (if d = CHR ''b'' then CHR ''y'' else if d = CHR ''B'' then CHR ''Y''
                else if d = CHR ''z'' then CHR ''Z'' else d) # are cs)"

definition like_escape :: "string \<Rightarrow> string" where
  "like_escape s =
     concat (map (\<lambda>c. if byte c = (92::nat) \<or> c = CHR ''%'' \<or> c = CHR ''_'' then [CHR 0x5C, c] else [c]) s)"

definition QuoteMeta :: "string \<Rightarrow> string" where
  "QuoteMeta s =
     concat (map (\<lambda>c. if c \<in> set (CHR 0x5C # ''.+*?()|[]{}^$'') then [CHR 0x5C, c] else [c]) s)"

text \<open>The named groups of a pattern: \<open>n\<close> counts the groups so far and \<open>class\<close> tells whether the scan
  is inside a bracket class. Later bindings of a name shadow earlier ones.\<close>

definition class_open :: "string \<Rightarrow> nat" where
  "class_open cs =
     (let j = if cs \<noteq> [] \<and> hd cs = CHR ''^'' then 1 else 0
      in if j < length cs \<and> cs ! j = CHR '']'' then Suc j else j)"

definition group_name :: "string \<Rightarrow> (string \<times> nat) option" where
  "group_name cs =
     (if cs = [] \<or> hd cs \<noteq> CHR ''?'' then None
      else (let r1 = tl cs; r = (if r1 \<noteq> [] \<and> hd r1 = CHR ''P'' then tl r1 else r1);
                name = takeWhile (\<lambda>c. c \<noteq> CHR ''>'') r
            in if r \<noteq> [] \<and> hd r = CHR ''<'' \<and> length name < length r
               then Some (tl name, length cs - length r + length name + 1) else None))"

function named_scan :: "nat \<Rightarrow> bool \<Rightarrow> string \<Rightarrow> string \<times> (string \<times> nat) list" where
  "named_scan n class pat = (case pat of
     [] \<Rightarrow> ([], [])
   | c # cs \<Rightarrow>
      (if byte c = (92::nat) \<and> cs \<noteq> [] then
         (case named_scan n class (tl cs) of (out, g) \<Rightarrow> (c # hd cs # out, g))
       else if class then
         (case named_scan n (c \<noteq> CHR '']'') cs of (out, g) \<Rightarrow> (c # out, g))
       else if c = CHR ''['' then
         (let j = class_open cs in
          case named_scan n True (drop j cs) of (out, g) \<Rightarrow> (c # take j cs @ out, g))
       else if c = CHR ''('' then
         (if cs = [] \<or> hd cs \<noteq> CHR ''?'' then
            (case named_scan (Suc n) False cs of (out, g) \<Rightarrow> (c # out, g))
          else (case group_name cs of
            Some (name, k) \<Rightarrow>
              (case named_scan (Suc n) False (drop k cs) of (out, g) \<Rightarrow> (c # out, g @ [(name, Suc n)]))
          | None \<Rightarrow> (case named_scan n False cs of (out, g) \<Rightarrow> (c # out, g))))
       else (case named_scan n False cs of (out, g) \<Rightarrow> (c # out, g))))"
  by pat_completeness auto
termination
  by (relation "measure (\<lambda>(n, class, pat). length pat)") auto

declare named_scan.simps [simp del]

definition namedGroups :: "string \<Rightarrow> string \<times> (string \<times> nat) list" where
  "namedGroups pat = named_scan 0 False pat"

subsection \<open>Extractors and columns\<close>

datatype extractor = FromFields | FromJSON | FromLogfmt | FromRegexp string "(string \<times> nat) list"

definition stage_extractor :: "ParserStage \<Rightarrow> extractor" where
  "stage_extractor p = (case psKind p of
     ParserJSON \<Rightarrow> FromJSON | ParserLogfmt \<Rightarrow> FromLogfmt
   | ParserRegexp \<Rightarrow> (case namedGroups (psPattern p) of (pat, groups) \<Rightarrow> FromRegexp (are pat) groups))"

definition dq :: string where "dq = [CHR 0x22]"

definition sq :: string where "sq = [CHR 0x27]"

definition logfmt_pattern :: "string \<Rightarrow> string" where
  "logfmt_pattern name =
     ''(?:^|'' @ [CHR 0x5C] @ ''s)'' @ QuoteMeta name @ ''=('' @ dq @ ''[^'' @ dq @ '']*'' @ dq @ ''|'' @
     [CHR 0x5C] @ ''S*)''"

fun run_extractor :: "extractor \<Rightarrow> string \<Rightarrow> stmt \<Rightarrow> plan_err + string \<times> stmt" where
  "run_extractor FromFields name s =
     (case stmt_arg (AStr name) s of (a, s') \<Rightarrow> Inr (''fields ->> '' @ a, s'))"
| "run_extractor FromJSON name s =
     (case stmt_arg (AStr name) s of (a, s') \<Rightarrow>
       Inr (''CASE WHEN pg_input_is_valid(message, '' @ sq @ ''jsonb'' @ sq @ '') THEN message::jsonb ->> '' @
            a @ '' END'', s'))"
| "run_extractor FromLogfmt name s =
     (case stmt_arg (AStr (logfmt_pattern name)) s of (a, s') \<Rightarrow>
       Inr (''btrim(substring(message FROM '' @ a @ ''), '' @ sq @ dq @ sq @ '')'', s'))"
| "run_extractor (FromRegexp pat groups) name s =
     (case map_of groups name of
        None \<Rightarrow> Inl (NotACaptureGroup name)
      | Some i \<Rightarrow>
         (case stmt_arg (AStr pat) s of (a, s1) \<Rightarrow>
           (case stmt_arg (AInt (int i)) s1 of (b, s2) \<Rightarrow>
             Inr (''(regexp_match(message, '' @ a @ ''))['' @ b @ '']'', s2))))"

definition column :: "string \<Rightarrow> extractor \<Rightarrow> stmt \<Rightarrow> plan_err + string \<times> stmt" where
  "column name extr s =
     (if name = ''level'' then Inr (''level'', s)
      else if promoted name then Inr (name, s\<lparr>sJoin := True\<rparr>)
      else run_extractor extr name s)"

subsection \<open>Predicates\<close>

definition stmt_level :: "golib \<Rightarrow> Op \<Rightarrow> string \<Rightarrow> stmt \<Rightarrow> plan_err + stmt" where
  "stmt_level L op value s = (case ParseLevel L value of
     Inl e \<Rightarrow> Inl (PlanLevel e)
   | Inr lvl \<Rightarrow> (case stmt_arg (ALevel lvl) s of (a, s') \<Rightarrow>
       Inr (emit ('' AND level '' @ sqlOps op @ '' '' @ a) s')))"

definition stmt_matcher :: "golib \<Rightarrow> Matcher \<Rightarrow> stmt \<Rightarrow> stmt" where
  "stmt_matcher L m s =
     (let v = (if op_IsRegex (mOp m) then anchor (are (mValue m)) else mValue m) in
      if promoted (mLabel m) then
        (case stmt_arg (AStr v) s of (a, s') \<Rightarrow>
          emit (mLabel m @ '' '' @ sqlOps (mOp m) @ '' '' @ a) s')
      else if mOp m = OpEq then
        (case stmt_arg (AStr (json_pair L (mLabel m) v)) s of (a, s') \<Rightarrow>
          emit (''labels @> '' @ a @ ''::jsonb'') s')
      else
        (case stmt_arg (AStr (mLabel m)) s of (a, s1) \<Rightarrow>
          (case stmt_arg (AStr v) s1 of (b, s2) \<Rightarrow>
            emit (''coalesce(labels ->> '' @ a @ '', '' @ sq @ sq @ '') '' @ sqlOps (mOp m) @ '' '' @ b) s2)))"

definition stmt_lineFilter :: "LineFilter \<Rightarrow> stmt \<Rightarrow> stmt" where
  "stmt_lineFilter f s =
     (let v = (if lineop_IsRegex (lfOp f) then are (lfText f)
               else ''%'' @ like_escape (lfText f) @ ''%'') in
      case stmt_arg (AStr v) s of (a, s') \<Rightarrow>
        emit ('' AND message '' @ lineSQL (lfOp f) @ '' '' @ a) s')"

definition stmt_labelFilter :: "golib \<Rightarrow> LabelFilter \<Rightarrow> extractor \<Rightarrow> stmt \<Rightarrow> plan_err + stmt" where
  "stmt_labelFilter L f extr s =
     (if bfLabel f = ''level'' then stmt_level L (bfOp f) (bfValue f) s
      else case column (bfLabel f) extr s of Inl e \<Rightarrow> Inl e
      | Inr (v, s1) \<Rightarrow>
        (if bfNumeric f then
           (case stmt_arg (AStr (bfValue f)) s1 of (a, s2) \<Rightarrow>
             Inr (emit ('' AND CASE WHEN pg_input_is_valid('' @ v @ '', '' @ sq @ ''numeric'' @ sq @
               '') THEN ('' @ v @ '')::numeric END '' @ sqlOps (bfOp f) @ '' '' @ a @ ''::numeric'') s2))
         else
           (let val = (if op_IsRegex (bfOp f) then anchor (are (bfValue f)) else bfValue f) in
            case stmt_arg (AStr val) s1 of (a, s2) \<Rightarrow>
             Inr (emit ('' AND coalesce('' @ v @ '', '' @ sq @ sq @ '') '' @ sqlOps (bfOp f) @ '' '' @ a) s2))))"

subsection \<open>Aggregation\<close>

fun by_columns ::
  "nat \<Rightarrow> string list \<Rightarrow> extractor \<Rightarrow> string \<Rightarrow> string \<Rightarrow> stmt \<Rightarrow> plan_err + string \<times> string \<times> stmt" where
  "by_columns i [] extr head grp s = Inr (head, grp, s)"
| "by_columns i (l # ls) extr head grp s =
     (case column l extr s of Inl e \<Rightarrow> Inl e
      | Inr (col, s') \<Rightarrow>
        (let col' = (if l \<noteq> ''level'' then ''('' @ col @ '') COLLATE '' @ dq @ ''C'' @ dq else col) in
         by_columns (Suc i) ls extr (head @ '', '' @ col') (grp @ '', '' @ itoa (i + 3)) s'))"

definition stmt_aggregate ::
  "Aggregation \<Rightarrow> extractor \<Rightarrow> string \<Rightarrow> string \<Rightarrow> string \<Rightarrow> stmt \<Rightarrow> plan_err + string \<times> string \<times> stmt" where
  "stmt_aggregate a extr source timeCol order s =
     (case stmt_arg (ADur (agRange a)) s of (r, s1) \<Rightarrow>
       (let head = ''SELECT time_bucket('' @ r @ ''::interval, '' @ timeCol @ '') AS bucket, '';
            count = (if source \<noteq> ''logs'' then ''sum(n)'' else ''count(*)'');
            (head1, s2) =
              (case agFunc a of
                 AggRate \<Rightarrow> (case stmt_arg (ASeconds (agRange a)) s1 of (x, s2) \<Rightarrow>
                   (head @ count @ ''::float8 / '' @ x, s2))
               | AggCountOverTime \<Rightarrow> (head @ count @ ''::float8'', s1)
               | AggBytesOverTime \<Rightarrow> (head @ ''sum(octet_length(message))::float8'', s1))
        in case by_columns 0 (agBy a) extr head1 ''1'' s2 of Inl e \<Rightarrow> Inl e
           | Inr (head2, grp, s3) \<Rightarrow>
             Inr (head2, '' GROUP BY '' @ grp @ '' ORDER BY 1 '' @ order @ tl grp, s3)))"

subsection \<open>Buckets and sources\<close>

definition bucketOrigin :: gotime where "bucketOrigin = 946857600 * second"

text \<open>\<^verbatim>\<open>Duration.Truncate\<close> rounds toward zero.\<close>

definition dur_Truncate :: "duration \<Rightarrow> duration \<Rightarrow> duration" where
  "dur_Truncate m d = (if d \<le> 0 then m else m - tmod m d)"

definition snap :: "gotime \<Rightarrow> duration \<Rightarrow> gotime" where
  "snap t d = bucketOrigin + dur_Truncate (time_Sub t bucketOrigin) d"

definition grains :: "(string \<times> duration) list" where
  "grains = [(''logs_rate_1m'', minute), (''logs_rate_1h'', hour)]"

definition chooseSource :: "Query \<Rightarrow> string" where
  "chooseSource q = (case qAgg q of
     None \<Rightarrow> ''logs''
   | Some a \<Rightarrow>
      (if qStages q \<noteq> [] \<or> agFunc a = AggBytesOverTime then ''logs''
       else if \<not> list_all (\<lambda>l. l = ''level'' \<or> promoted l) (agBy a) then ''logs''
       else foldl (\<lambda>source g. if tmod (agRange a) (snd g) = 0 then fst g else source) ''logs'' grains))"

subsection \<open>Compile\<close>

fun compile_matchers ::
  "golib \<Rightarrow> bool \<Rightarrow> Matcher list \<Rightarrow> stmt \<Rightarrow> stmt \<Rightarrow> plan_err + stmt \<times> stmt" where
  "compile_matchers L first [] streams logs = Inr (streams, logs)"
| "compile_matchers L first (m # ms) streams logs =
     (if mLabel m = ''level'' then
        (case stmt_level L (mOp m) (mValue m) logs of Inl e \<Rightarrow> Inl e
         | Inr logs' \<Rightarrow> compile_matchers L first ms streams logs')
      else compile_matchers L False ms
        (stmt_matcher L m (emit (if first then '' WHERE '' else '' AND '') streams)) logs)"

fun compile_stages ::
  "golib \<Rightarrow> Stage list \<Rightarrow> extractor \<Rightarrow> stmt \<Rightarrow> plan_err + extractor \<times> stmt" where
  "compile_stages L [] extr logs = Inr (extr, logs)"
| "compile_stages L (SLine f # sts) extr logs =
     compile_stages L sts extr (stmt_lineFilter f logs)"
| "compile_stages L (SParser p # sts) extr logs = compile_stages L sts (stage_extractor p) logs"
| "compile_stages L (SLabel f # sts) extr logs =
     (case stmt_labelFilter L f extr logs of Inl e \<Rightarrow> Inl e
      | Inr logs' \<Rightarrow> compile_stages L sts extr logs')"

definition widen :: "Query \<Rightarrow> Request \<Rightarrow> Request" where
  "widen q r = (case qAgg q of None \<Rightarrow> r
     | Some a \<Rightarrow>
       (let e = snap (rqEnd r) (agRange a) in
        r\<lparr>rqStart := snap (rqStart r) (agRange a),
          rqEnd := if e \<noteq> rqEnd r then e + agRange a else rqEnd r\<rparr>))"

definition logs_start :: "string \<Rightarrow> Request \<Rightarrow> stmt" where
  "logs_start timeCol r =
     (case stmt_arg AIds empty_stmt of (a, s1) \<Rightarrow>
       (case stmt_arg (ATime (rqStart r)) s1 of (b, s2) \<Rightarrow>
         (case stmt_arg (ATime (rqEnd r)) s2 of (c, s3) \<Rightarrow>
           emit (''stream_id = ANY('' @ a @ '') AND '' @ timeCol @ '' >= '' @ b @ '' AND '' @ timeCol @
             '' < '' @ c) s3)))"

definition Compile :: "golib \<Rightarrow> Query \<Rightarrow> Request \<Rightarrow> plan_err + Plan" where
  "Compile L q r0 =
     (if rqStart r0 = zero_time then Inl StartRequired
      else if \<not> rqStart r0 < rqEnd r0 then Inl EndNotAfterStart
      else if rqLimit r0 \<le> 0 then Inl LimitNotPositive
      else (let r = widen q r0; source = chooseSource q;
                timeCol = (if source \<noteq> ''logs'' then ''bucket'' else ''time'');
                order = (if rqDirection r = Forward then ''ASC'' else ''DESC'')
        in case compile_matchers L True (selMatchers (qSelector q))
                  (emit ''SELECT stream_id FROM streams'' empty_stmt) (logs_start timeCol r) of
             Inl e \<Rightarrow> Inl e
           | Inr (streams, logs) \<Rightarrow>
             (case compile_stages L (qStages q) FromFields logs of Inl e \<Rightarrow> Inl e
              | Inr (extr, logs1) \<Rightarrow>
                (case (case qAgg q of
                         None \<Rightarrow> Inr (''SELECT time, stream_id, seq, level, message, trace_id, span_id, fields'',
                           '' ORDER BY time '' @ order @ '', seq '' @ order, logs1)
                       | Some a \<Rightarrow> stmt_aggregate a extr source timeCol order logs1) of
                   Inl e \<Rightarrow> Inl e
                 | Inr (head, tail, logs2) \<Rightarrow>
                   (case stmt_arg (AInt (rqLimit r)) logs2 of (lim, logs3) \<Rightarrow>
                     Inr \<lparr>plStreams = \<lparr>SQL = sText streams, Args = sArgs streams\<rparr>,
                          plLogs = \<lparr>SQL = head @ '' FROM '' @ source @
                              (if sJoin logs2 then '' JOIN streams USING (stream_id)'' else []) @
                              '' WHERE '' @ sText logs2 @ tail @ '' LIMIT '' @ lim,
                            Args = sArgs logs3\<rparr>,
                          plSource = source, plStart = rqStart r, plEnd = rqEnd r\<rparr>)))))"

subsection \<open>The word check\<close>

definition allowedWords :: "string list" where
  "allowedWords =
     [''SELECT'', ''FROM'', ''WHERE'', ''AND'', ''ORDER'', ''BY'', ''DESC'', ''ASC'', ''LIMIT'', ''ANY'',
      ''coalesce'', ''jsonb'', ''ILIKE'', ''NOT'', ''CASE'', ''WHEN'', ''THEN'', ''END'',
      ''pg_input_is_valid'', ''numeric'', ''btrim'', ''substring'', ''regexp_match'',
      ''time_bucket'', ''interval'', ''AS'', ''bucket'', ''GROUP'', ''JOIN'',
      ''USING'', ''count'', ''sum'', ''n'', ''float8'', ''octet_length'',
      ''logs_rate_1m'', ''logs_rate_1h'', ''COLLATE'', ''C'',
      ''streams'', ''logs'', ''stream_id'', ''service'', ''host'', ''env'', ''labels'', ''time'',
      ''seq'', ''level'', ''message'', ''trace_id'', ''span_id'', ''fields'']"

definition word_start :: "char \<Rightarrow> bool" where
  "word_start c \<longleftrightarrow> isIdentStart (byte c) \<or> c = CHR ''$''"

text \<open>\<^verbatim>\<open>sqlWords.FindAllString\<close>: the leftmost maximal matches of \<^verbatim>\<open>[A-Za-z_$][A-Za-z0-9_]*\<close>.\<close>

function sql_words :: "string \<Rightarrow> string list" where
  "sql_words s = (case s of [] \<Rightarrow> []
     | c # cs \<Rightarrow>
        (if word_start c then (c # takeWhile isIdentChar cs) # sql_words (dropWhile isIdentChar cs)
         else sql_words cs))"
  by pat_completeness auto
termination
  by (relation "measure length") (auto simp: le_imp_less_Suc length_dropWhile_le)

declare sql_words.simps [simp del]

definition is_placeholder :: "string \<Rightarrow> bool" where
  "is_placeholder w \<longleftrightarrow> w \<noteq> [] \<and> hd w = CHR ''$'' \<and> tl w \<noteq> [] \<and> list_all isDigit (tl w)"

definition CheckSQL :: "string \<Rightarrow> string option" where
  "CheckSQL sql = List.find (\<lambda>w. \<not> (w \<in> set allowedWords \<or> is_placeholder w)) (sql_words sql)"

subsection \<open>Words of concatenated text\<close>

definition boundary :: "string \<Rightarrow> string \<Rightarrow> bool" where
  "boundary a b \<longleftrightarrow> a = [] \<or> b = [] \<or> \<not> isIdentChar (hd b) \<or>
     (\<not> isIdentChar (last a) \<and> last a \<noteq> CHR ''$'')"

lemma sql_words_append: "boundary a b \<Longrightarrow> sql_words (a @ b) = sql_words a @ sql_words b"
proof (induction a rule: sql_words.induct)
  case (1 a)
  show ?case
  proof (cases a)
    case Nil
    then show ?thesis by (simp add: sql_words.simps[of "[]"])
  next
    case (Cons c cs)
    have sub: "boundary x b" if "x = [] \<or> last x = last a" for x
      using "1.prems" that Cons by (auto simp: boundary_def)
    show ?thesis
    proof (cases "word_start c")
      case False
      have "boundary cs b" by (rule sub) (simp add: Cons)
      with "1.IH"(2)[OF Cons False] False Cons show ?thesis
        by (simp add: sql_words.simps[of "c # _"])
    next
      case True
      show ?thesis
      proof (cases "list_all isIdentChar cs")
        case all: True
        have "b = [] \<or> \<not> isIdentChar (hd b)"
        proof (rule ccontr)
          assume "\<not> (b = [] \<or> \<not> isIdentChar (hd b))"
          with "1.prems" Cons have l: "\<not> isIdentChar (last a)" "last a \<noteq> CHR ''$''"
            by (auto simp: boundary_def)
          show False
          proof (cases "cs = []")
            case True
            with l \<open>word_start c\<close> Cons show False by (auto simp: word_start_def isIdentChar_def)
          next
            case False
            then have "last a \<in> set cs" using Cons by simp
            with l all show False by (simp add: list_all_iff)
          qed
        qed
        then have "takeWhile isIdentChar b = []" and "dropWhile isIdentChar b = b"
          by (cases b; simp)+
        with all True Cons show ?thesis
          by (simp add: sql_words.simps[of "c # _"] sql_words.simps[of "[]"] list_all_iff
              takeWhile_append2 dropWhile_append2 dropWhile_eq_Nil_conv[THEN iffD2]
              takeWhile_eq_all_conv[THEN iffD2])
      next
        case some: False
        then obtain x where x: "x \<in> set cs" "\<not> isIdentChar x" by (auto simp: list_all_iff)
        then have "dropWhile isIdentChar cs \<noteq> []" by auto
        then have "last (dropWhile isIdentChar cs) = last cs"
          by (metis last_appendR takeWhile_dropWhile_id)
        then have "boundary (dropWhile isIdentChar cs) b"
          using sub Cons x(1) by (cases cs) auto
        from "1.IH"(1)[OF Cons True this] True Cons x show ?thesis
          by (simp add: sql_words.simps[of "c # _"] takeWhile_append1 dropWhile_append1)
      qed
    qed
  qed
qed

definition words_ok :: "nat \<Rightarrow> string \<Rightarrow> bool" where
  "words_ok n s \<longleftrightarrow> (\<forall>w\<in>set (sql_words s). w \<in> set allowedWords \<or> (\<exists>k. 1 \<le> k \<and> k \<le> n \<and> w = placeholder k))"

lemma words_ok_append [intro]:
  "words_ok n a \<Longrightarrow> words_ok n b \<Longrightarrow> boundary a b \<Longrightarrow> words_ok n (a @ b)"
  by (auto simp: words_ok_def sql_words_append)

lemma words_ok_mono: "words_ok n a \<Longrightarrow> n \<le> m \<Longrightarrow> words_ok m a"
  by (force simp: words_ok_def)

lemma words_ok_lit: "list_all (\<lambda>w. w \<in> set allowedWords) (sql_words s) \<Longrightarrow> words_ok n s"
  by (auto simp: words_ok_def list_all_iff)

lemma itoa_word: "list_all isIdentChar (itoa n)" "list_all isDigit (itoa n)"
  using itoa_digits[of n] by (auto simp: list_all_iff is_digit_def class_defs)

lemma sql_words_placeholder: "sql_words (placeholder n) = [placeholder n]"
proof -
  have t: "takeWhile isIdentChar (itoa n) = itoa n" and d: "dropWhile isIdentChar (itoa n) = []"
    using itoa_word(1)[of n] by (auto simp: list_all_iff takeWhile_eq_all_conv dropWhile_eq_Nil_conv)
  show ?thesis
    by (simp add: placeholder_def sql_words.simps[of "_ # _"] word_start_def t d del: dropWhile_eq_Nil_conv)
      (simp add: sql_words.simps)
qed

lemma words_ok_placeholder: "1 \<le> k \<Longrightarrow> k \<le> n \<Longrightarrow> words_ok n (placeholder k)"
  by (auto simp: words_ok_def sql_words_placeholder)

lemma is_placeholder_placeholder: "is_placeholder (placeholder k)"
  using itoa_word(2)[of k] by (simp add: is_placeholder_def placeholder_def)

lemma words_ok_CheckSQL: "words_ok n s \<Longrightarrow> CheckSQL s = None"
  by (auto simp: words_ok_def CheckSQL_def find_None_iff is_placeholder_placeholder)

lemma hd_placeholder [simp]: "hd (placeholder k) = CHR ''$''" "placeholder k \<noteq> []"
  by (simp_all add: placeholder_def)

lemma boundary_hd: "b \<noteq> [] \<Longrightarrow> \<not> isIdentChar (hd b) \<Longrightarrow> boundary a b"
  by (simp add: boundary_def)

lemma boundary_last: "\<not> isIdentChar (last a) \<Longrightarrow> last a \<noteq> CHR ''$'' \<Longrightarrow> boundary a b"
  by (simp add: boundary_def)

lemma boundary_placeholder [intro, simp]: "boundary a (placeholder k)" "boundary a (placeholder k @ b)"
  by (simp_all add: boundary_def isIdentChar_def isIdentStart_def isDigit_def)

lemma words_ok_digits: "words_ok n (itoa k)"
proof -
  have "sql_words s = []" if "list_all isDigit s" for s
    using that
    by (induction s) (auto simp: sql_words.simps[of "[]"] sql_words.simps[of "_ # _"] word_start_def
        class_defs)
  then show ?thesis using itoa_word(2)[of k] by (simp add: words_ok_def)
qed

lemma words_ok_Nil: "words_ok n []"
  by (simp add: words_ok_def sql_words.simps)

lemma sqlOps_words: "words_ok n (sqlOps op)"
  by (rule words_ok_lit) (cases op; hypsubst_thin; code_simp)

lemma lineSQL_words: "words_ok n (lineSQL op)"
  by (rule words_ok_lit) (cases op; hypsubst_thin; code_simp)

lemma ops_nonempty [simp]: "sqlOps op \<noteq> []" "lineSQL lop \<noteq> []"
  by (cases op; simp) (cases lop; simp)

subsection \<open>Every word the planner writes is allowed\<close>

definition sql_lits :: "string list" where
  "sql_lits =
     ['' AND level '', '' '', ''labels @> '', ''::jsonb'', ''coalesce(labels ->> '', '', '', '') '',
      '' AND message '', '' AND CASE WHEN pg_input_is_valid('', ''numeric'', '') THEN ('',
      '')::numeric END '', ''::numeric'', '' AND coalesce('', ''fields ->> '',
      ''CASE WHEN pg_input_is_valid(message, '', ''jsonb'', '') THEN message::jsonb ->> '', '' END'',
      ''btrim(substring(message FROM '', ''), '', '')'', ''(regexp_match(message, '', ''))['', '']'',
      ''('', '') COLLATE '', ''C'', ''SELECT time_bucket('', ''::interval, '', '') AS bucket, '',
      ''sum(n)'', ''count(*)'', ''::float8 / '', ''::float8'', ''sum(octet_length(message))::float8'',
      '' GROUP BY '', ''1'', '' ORDER BY 1 '', ''ASC'', ''DESC'', ''level'', ''service'', ''host'', ''env'',
      '' FROM '', ''logs'', ''logs_rate_1m'', ''logs_rate_1h'', '' JOIN streams USING (stream_id)'',
      '' WHERE '', '' LIMIT '',
      ''SELECT time, stream_id, seq, level, message, trace_id, span_id, fields'', '' ORDER BY time '',
      '', seq '', ''stream_id = ANY('', '') AND '', '' >= '', '' AND '', '' < '', ''bucket'', ''time'',
      ''SELECT stream_id FROM streams'', sq, dq, []]"

lemma sql_lits_words: "list_all (\<lambda>s. list_all (\<lambda>w. w \<in> set allowedWords) (sql_words s)) sql_lits"
  by code_simp

lemma words_ok_lits: "s \<in> set sql_lits \<Longrightarrow> words_ok n s"
  using sql_lits_words by (intro words_ok_lit) (auto simp: list_all_iff)

lemma lit_words:
  "words_ok n '' AND level ''"
  "words_ok n '' ''"
  "words_ok n ''labels @> ''"
  "words_ok n ''::jsonb''"
  "words_ok n ''coalesce(labels ->> ''"
  "words_ok n '', ''"
  "words_ok n '') ''"
  "words_ok n '' AND message ''"
  "words_ok n '' AND CASE WHEN pg_input_is_valid(''"
  "words_ok n ''numeric''"
  "words_ok n '') THEN (''"
  "words_ok n '')::numeric END ''"
  "words_ok n ''::numeric''"
  "words_ok n '' AND coalesce(''"
  "words_ok n ''fields ->> ''"
  "words_ok n ''CASE WHEN pg_input_is_valid(message, ''"
  "words_ok n ''jsonb''"
  "words_ok n '') THEN message::jsonb ->> ''"
  "words_ok n '' END''"
  "words_ok n ''btrim(substring(message FROM ''"
  "words_ok n ''), ''"
  "words_ok n '')''"
  "words_ok n ''(regexp_match(message, ''"
  "words_ok n ''))[''"
  "words_ok n '']''"
  "words_ok n ''(''"
  "words_ok n '') COLLATE ''"
  "words_ok n ''C''"
  "words_ok n ''SELECT time_bucket(''"
  "words_ok n ''::interval, ''"
  "words_ok n '') AS bucket, ''"
  "words_ok n ''sum(n)''"
  "words_ok n ''count(*)''"
  "words_ok n ''::float8 / ''"
  "words_ok n ''::float8''"
  "words_ok n ''sum(octet_length(message))::float8''"
  "words_ok n '' GROUP BY ''"
  "words_ok n ''1''"
  "words_ok n '' ORDER BY 1 ''"
  "words_ok n ''ASC''"
  "words_ok n ''DESC''"
  "words_ok n ''level''"
  "words_ok n ''service''"
  "words_ok n ''host''"
  "words_ok n ''env''"
  "words_ok n '' FROM ''"
  "words_ok n ''logs''"
  "words_ok n ''logs_rate_1m''"
  "words_ok n ''logs_rate_1h''"
  "words_ok n '' JOIN streams USING (stream_id)''"
  "words_ok n '' WHERE ''"
  "words_ok n '' LIMIT ''"
  "words_ok n ''SELECT time, stream_id, seq, level, message, trace_id, span_id, fields''"
  "words_ok n '' ORDER BY time ''"
  "words_ok n '', seq ''"
  "words_ok n ''stream_id = ANY(''"
  "words_ok n '') AND ''"
  "words_ok n '' >= ''"
  "words_ok n '' AND ''"
  "words_ok n '' < ''"
  "words_ok n ''bucket''"
  "words_ok n ''time''"
  "words_ok n ''SELECT stream_id FROM streams''"
  "words_ok n [CHR 0x27]" "words_ok n [CHR 0x22]" "words_ok n []"
  by (rule words_ok_lits, simp add: sql_lits_def sq_def dq_def)+

lemma promoted_words: "promoted l \<Longrightarrow> words_ok n l" and promoted_nonempty: "promoted l \<Longrightarrow> l \<noteq> []"
  by (auto simp: promoted_def lit_words)

definition stmt_ok :: "stmt \<Rightarrow> bool" where
  "stmt_ok s \<longleftrightarrow> words_ok (length (sArgs s)) (sText s)"

lemma stmt_arg_eq: "stmt_arg v s = (a, s') \<longleftrightarrow>
    a = placeholder (length (sArgs s) + 1) \<and> s' = s\<lparr>sArgs := sArgs s @ [v]\<rparr>"
  by (auto simp: stmt_arg_def)

lemma emit_ok:
  assumes "stmt_ok s" and "words_ok (length (sArgs s')) t" and "boundary (sText s) t"
    and "sText s' = sText s" and "length (sArgs s) \<le> length (sArgs s')"
  shows "stmt_ok (emit t s')"
  using assms by (auto simp: stmt_ok_def emit_def intro!: words_ok_append intro: words_ok_mono)

lemma emit_simps [simp]:
  "sText (emit t s) = sText s @ t" "sArgs (emit t s) = sArgs s" "sJoin (emit t s) = sJoin s"
  by (simp_all add: emit_def)

lemmas word_rules = words_ok_append sqlOps_words lineSQL_words words_ok_placeholder words_ok_lits

lemmas bnd = boundary_def class_defs sq_def dq_def

text \<open>A step of the compiler only appends to the text and to the arguments.\<close>

definition grows :: "stmt \<Rightarrow> stmt \<Rightarrow> bool" where
  "grows s s' \<longleftrightarrow> prefix (sText s) (sText s') \<and> prefix (sArgs s) (sArgs s')"

lemma grows_refl [simp]: "grows s s"
  by (simp add: grows_def)

lemma grows_trans [trans]: "grows a b \<Longrightarrow> grows b c \<Longrightarrow> grows a c"
  by (auto simp: grows_def intro: prefix_order.trans)

lemma grows_length: "grows s s' \<Longrightarrow> length (sArgs s) \<le> length (sArgs s')"
  by (auto simp: grows_def prefix_length_le)

lemma stmt_level_ok:
  assumes "stmt_level L op v s = Inr s'" and "stmt_ok s"
  shows "stmt_ok s' \<and> grows s s'"
proof -
  have "words_ok (Suc (length (sArgs s)))
      ('' AND level '' @ sqlOps op @ '' '' @ placeholder (Suc (length (sArgs s))))"
    by (intro words_ok_append sqlOps_words words_ok_placeholder)
      (simp_all add: lit_words bnd)
  then show ?thesis
    using assms by (auto simp: stmt_level_def stmt_arg_def grows_def split: sum.splits
        intro!: emit_ok[where s = s] simp: bnd)
qed

lemma stmt_matcher_ok:
  assumes "stmt_ok s" and "last (sText s) = CHR '' ''"
  shows "stmt_ok (stmt_matcher L m s) \<and> grows s (stmt_matcher L m s)"
proof -
  let ?n = "Suc (length (sArgs s))"
  have b: "boundary (sText s) t" for t
    using assms(2) by (intro boundary_last) (simp_all add: class_defs)
  have "words_ok ?n (mLabel m @ '' '' @ sqlOps (mOp m) @ '' '' @ placeholder ?n)" if "promoted (mLabel m)"
    using promoted_nonempty[OF that]
    by (intro words_ok_append sqlOps_words words_ok_placeholder promoted_words[OF that])
      (simp_all add: lit_words bnd)
  moreover have "words_ok ?n (''labels @> '' @ placeholder ?n @ ''::jsonb'')"
    by (intro words_ok_append sqlOps_words words_ok_placeholder)
      (simp_all add: lit_words bnd)
  moreover have "words_ok (Suc ?n) (''coalesce(labels ->> '' @ placeholder ?n @ '', '' @ sq @ sq @
      '') '' @ sqlOps (mOp m) @ '' '' @ placeholder (Suc ?n))"
    by (intro words_ok_append sqlOps_words words_ok_placeholder)
      (simp_all add: lit_words bnd)
  ultimately show ?thesis
    using assms(1) b
    by (auto simp: stmt_matcher_def stmt_arg_def grows_def Let_def
        intro!: emit_ok[where s = s])
qed

lemma stmt_lineFilter_ok:
  assumes "stmt_ok s"
  shows "stmt_ok (stmt_lineFilter f s) \<and> grows s (stmt_lineFilter f s)"
proof -
  let ?n = "Suc (length (sArgs s))"
  have "words_ok ?n ('' AND message '' @ lineSQL (lfOp f) @ '' '' @ placeholder ?n)"
    by (intro words_ok_append lineSQL_words words_ok_placeholder)
      (simp_all add: lit_words bnd)
  then show ?thesis
    using assms by (auto simp: stmt_lineFilter_def stmt_arg_def grows_def Let_def
        intro!: emit_ok[where s = s] simp: bnd)
qed

lemma run_extractor_ok:
  assumes "run_extractor ex name s = Inr (v, s')"
  shows "words_ok (length (sArgs s')) v \<and> v \<noteq> [] \<and> sText s' = sText s \<and> prefix (sArgs s) (sArgs s')"
proof -
  let ?n = "Suc (length (sArgs s))"
  have "words_ok ?n (''fields ->> '' @ placeholder ?n)"
    by (intro words_ok_append words_ok_placeholder) (simp_all add: lit_words bnd)
  moreover have "words_ok ?n (''CASE WHEN pg_input_is_valid(message, '' @ sq @ ''jsonb'' @ sq @
      '') THEN message::jsonb ->> '' @ placeholder ?n @ '' END'')"
    by (intro words_ok_append words_ok_placeholder) (simp_all add: lit_words bnd)
  moreover have "words_ok ?n (''btrim(substring(message FROM '' @ placeholder ?n @ ''), '' @ sq @ dq @
      sq @ '')'')"
    by (intro words_ok_append words_ok_placeholder) (simp_all add: lit_words bnd)
  moreover have "words_ok (Suc ?n) (''(regexp_match(message, '' @ placeholder ?n @ ''))['' @
      placeholder (Suc ?n) @ '']'')"
    by (intro words_ok_append words_ok_placeholder) (simp_all add: lit_words bnd)
  ultimately show ?thesis
    using assms by (cases ex) (auto simp: stmt_arg_def split: option.splits)
qed

lemma column_ok:
  assumes "column name ex s = Inr (v, s')"
  shows "words_ok (length (sArgs s')) v \<and> v \<noteq> [] \<and> sText s' = sText s \<and> prefix (sArgs s) (sArgs s')"
  using assms run_extractor_ok[of ex name s v s'] promoted_words[of name] promoted_nonempty[of name]
  by (auto simp: column_def lit_words split: if_splits)

lemma stmt_labelFilter_ok:
  assumes "stmt_labelFilter L f ex s = Inr s'" and "stmt_ok s"
  shows "stmt_ok s' \<and> grows s s'"
proof (cases "bfLabel f = ''level''")
  case True
  then show ?thesis using assms stmt_level_ok by (simp add: stmt_labelFilter_def)
next
  case False
  then obtain v s1 where c: "column (bfLabel f) ex s = Inr (v, s1)"
    using assms by (auto simp: stmt_labelFilter_def split: sum.splits)
  let ?n = "Suc (length (sArgs s1))"
  note col = column_ok[OF c]
  have v: "words_ok ?n v" using col by (auto intro: words_ok_mono)
  have "words_ok ?n ('' AND CASE WHEN pg_input_is_valid('' @ v @ '', '' @ sq @ ''numeric'' @ sq @
      '') THEN ('' @ v @ '')::numeric END '' @ sqlOps (bfOp f) @ '' '' @ placeholder ?n @ ''::numeric'')"
    using col by (intro words_ok_append words_ok_placeholder sqlOps_words v)
      (simp_all add: lit_words bnd)
  moreover have "words_ok ?n ('' AND coalesce('' @ v @ '', '' @ sq @ sq @ '') '' @ sqlOps (bfOp f) @
      '' '' @ placeholder ?n)"
    using col by (intro words_ok_append words_ok_placeholder sqlOps_words v)
      (simp_all add: lit_words bnd)
  ultimately show ?thesis
    using assms False c col
    by (auto simp: stmt_labelFilter_def stmt_arg_def grows_def Let_def split: if_splits
        intro!: emit_ok[where s = s] simp: bnd prefix_def)
qed

lemma by_columns_ok:
  assumes "by_columns i ls ex head grp s = Inr (h, g, s')"
    and "words_ok (length (sArgs s)) head" and "head \<noteq> []"
  shows "words_ok (length (sArgs s')) h \<and> h \<noteq> [] \<and> sText s' = sText s \<and>
    prefix (sArgs s) (sArgs s') \<and>
    (\<exists>r. g = grp @ r \<and> (\<forall>n. words_ok n r) \<and> (r = [] \<or> hd r = CHR '',''))"
  using assms
proof (induction i ls ex head grp s rule: by_columns.induct)
  case (1 i ex head grp s)
  then show ?case by (auto simp: words_ok_Nil)
next
  case (2 i l ls ex head grp s)
  then obtain col s1 where c: "column l ex s = Inr (col, s1)"
    by (auto split: sum.splits)
  note col = column_ok[OF c]
  define col' where "col' = (if l \<noteq> ''level'' then ''('' @ col @ '') COLLATE '' @ dq @ ''C'' @ dq else col)"
  let ?n = "length (sArgs s1)"
  have "words_ok ?n (''('' @ col @ '') COLLATE '' @ dq @ ''C'' @ dq)"
    using col by (intro words_ok_append) (simp_all add: lit_words bnd)
  then have col': "words_ok ?n col'" "col' \<noteq> []"
    using col by (simp_all add: col'_def)
  have "words_ok ?n head"
    using "2.prems"(2) col by (auto intro: words_ok_mono simp: prefix_length_le)
  then have head: "words_ok ?n (head @ '', '' @ col')"
    using col' by (intro words_ok_append) (simp_all add: lit_words bnd)
  have head2: "head @ '', '' @ col' \<noteq> []" by simp
  have r0: "words_ok n ('', '' @ itoa (i + 3))" for n
    by (intro words_ok_append words_ok_digits) (simp_all add: lit_words bnd)
  have "by_columns (Suc i) ls ex (head @ '', '' @ col') (grp @ '', '' @ itoa (i + 3)) s1 = Inr (h, g, s')"
    using "2.prems"(1) c by (simp add: col'_def)
  from "2.IH"[OF c refl col'_def this head head2]
  obtain r where r: "g = (grp @ '', '' @ itoa (i + 3)) @ r" "\<forall>n. words_ok n r" "r = [] \<or> hd r = CHR '',''"
    and rest: "words_ok (length (sArgs s')) h" "h \<noteq> []" "sText s' = sText s1" "prefix (sArgs s1) (sArgs s')"
    by blast
  have "words_ok n (('', '' @ itoa (i + 3)) @ r)" for n
    using r(2,3) by (intro words_ok_append[OF r0]) (auto simp: bnd)
  moreover have "g = grp @ (('', '' @ itoa (i + 3)) @ r)" using r(1) by simp
  moreover have "hd (('', '' @ itoa (i + 3)) @ r) = CHR '',''" by simp
  ultimately show ?case
    using rest col by (metis prefix_order.trans)
qed

lemma source_cases: "chooseSource q \<in> {''logs'', ''logs_rate_1m'', ''logs_rate_1h''}"
  by (auto simp: chooseSource_def grains_def split: option.splits)

lemma source_words: "words_ok n (chooseSource q)"
  using source_cases[of q] by (auto simp: lit_words)

lemma source_nonempty [simp]: "chooseSource q \<noteq> []"
  using source_cases[of q] by auto

lemma stmt_aggregate_ok:
  assumes agg: "stmt_aggregate a ex source timeCol order s = Inr (h, t, s')"
    and tc: "timeCol \<in> {''time'', ''bucket''}" and ord: "order \<in> {''ASC'', ''DESC''}"
  shows "words_ok (length (sArgs s')) h \<and> h \<noteq> [] \<and> (\<forall>n. words_ok n t) \<and> hd t = CHR '' '' \<and> t \<noteq> [] \<and>
    sText s' = sText s \<and> prefix (sArgs s) (sArgs s')"
proof -
  let ?n = "Suc (length (sArgs s))"
  define head where "head = ''SELECT time_bucket('' @ placeholder ?n @ ''::interval, '' @ timeCol @ '') AS bucket, ''"
  define count where "count = (if source \<noteq> ''logs'' then ''sum(n)'' else ''count(*)'')"
  define h1 where "h1 = (case agFunc a of
      AggRate \<Rightarrow> head @ count @ ''::float8 / '' @ placeholder (Suc ?n)
    | AggCountOverTime \<Rightarrow> head @ count @ ''::float8''
    | AggBytesOverTime \<Rightarrow> head @ ''sum(octet_length(message))::float8'')"
  define s1 where "s1 = s\<lparr>sArgs := sArgs s @ [ADur (agRange a)] @
    (if agFunc a = AggRate then [ASeconds (agRange a)] else [])\<rparr>"
  have tcw: "words_ok n timeCol" "timeCol \<noteq> []" and ordw: "words_ok n order" "order \<noteq> []" for n
    using tc ord by (auto simp: lit_words)
  have cw: "words_ok n count" "count \<noteq> []" "hd count \<in> {CHR ''s'', CHR ''c''}" for n
    by (auto simp: lit_words count_def)
  have hw: "words_ok n head" if "?n \<le> n" for n
    unfolding head_def using that tcw
    by (intro words_ok_append words_ok_placeholder) (simp_all add: lit_words bnd)
  have hl: "last head = CHR '' ''" "head \<noteq> []" by (simp_all add: head_def)
  have rate: "words_ok (Suc ?n) (head @ count @ ''::float8 / '' @ placeholder (Suc ?n))"
    using cw hw[of "Suc ?n"] hl
    by (intro words_ok_append words_ok_placeholder) (simp_all add: lit_words bnd)
  have cnt: "words_ok ?n (head @ count @ ''::float8'')"
    using cw hw[of ?n] hl by (intro words_ok_append) (simp_all add: lit_words bnd)
  have byt: "words_ok ?n (head @ ''sum(octet_length(message))::float8'')"
    using hw[of ?n] hl by (intro words_ok_append) (simp_all add: lit_words bnd)
  have h1: "words_ok (length (sArgs s1)) h1"
    unfolding h1_def s1_def using rate cnt byt by (cases "agFunc a") simp_all
  have h1n: "h1 \<noteq> []" using hl by (simp add: h1_def split: AggFunc.splits)
  obtain g where b: "by_columns 0 (agBy a) ex h1 ''1'' s1 = Inr (h, g, s')"
    and t: "t = '' GROUP BY '' @ g @ '' ORDER BY 1 '' @ order @ tl g"
    using agg by (cases "agFunc a") (auto simp: stmt_aggregate_def stmt_arg_def h1_def s1_def head_def
        count_def Let_def split: sum.splits prod.splits)
  from by_columns_ok[OF b h1 h1n] obtain r where g: "g = ''1'' @ r" and r: "\<forall>n. words_ok n r"
      "r = [] \<or> hd r = CHR '',''"
    and rest: "words_ok (length (sArgs s')) h" "h \<noteq> []" "sText s' = sText s1" "prefix (sArgs s1) (sArgs s')"
    by blast
  have "words_ok n g" for n
    unfolding g using r by (intro words_ok_append) (auto simp: bnd lit_words)
  then have "words_ok n ('' GROUP BY '' @ g @ '' ORDER BY 1 '' @ order @ r)" for n
    using ordw r by (intro words_ok_append) (auto simp: bnd lit_words)
  with rest t g show ?thesis by (auto simp: s1_def prefix_def)
qed

subsection \<open>The whole statement\<close>

lemma compile_matchers_ok:
  assumes "compile_matchers L first ms streams logs = Inr (s', l')"
    and "stmt_ok streams" and "stmt_ok logs"
  shows "stmt_ok s' \<and> stmt_ok l' \<and> grows streams s' \<and> grows logs l'"
  using assms
proof (induction L first ms streams logs rule: compile_matchers.induct)
  case (2 L first m ms streams logs)
  show ?case
  proof (cases "mLabel m = ''level''")
    case True
    then obtain l1 where l1: "stmt_level L (mOp m) (mValue m) logs = Inr l1"
      using "2.prems"(1) by (auto split: sum.splits)
    note step = stmt_level_ok[OF l1 "2.prems"(3)]
    have "compile_matchers L first ms streams l1 = Inr (s', l')"
      using "2.prems"(1) True l1 by simp
    then show ?thesis
      using "2.IH"(1)[OF True l1] step "2.prems"(2) by (auto intro: grows_trans)
  next
    case False
    define w where "w = (if first then '' WHERE '' else '' AND '')"
    let ?s1 = "stmt_matcher L m (emit w streams)"
    have w: "words_ok n w" "last (sText (emit w streams)) = CHR '' ''" "hd w = CHR '' ''" "w \<noteq> []" for n
      by (auto simp: w_def emit_def lit_words)
    then have "stmt_ok (emit w streams)"
      using "2.prems"(2) by (intro emit_ok[where s = streams] boundary_hd) (simp_all add: class_defs)
    then have s1: "stmt_ok ?s1" "grows streams ?s1"
      using stmt_matcher_ok[OF _ w(2), of L m] by (auto simp: grows_def dest: append_prefixD)
    have "compile_matchers L False ms ?s1 logs = Inr (s', l')"
      using "2.prems"(1) False by (simp add: w_def)
    then show ?thesis
      using "2.IH"(2)[OF False] s1 "2.prems"(3) by (auto simp: w_def intro: grows_trans)
  qed
qed simp

lemma compile_stages_ok:
  assumes "compile_stages L sts ex logs = Inr (ex', l')" and "stmt_ok logs"
  shows "stmt_ok l' \<and> grows logs l'"
  using assms
proof (induction L sts ex logs rule: compile_stages.induct)
  case (2 L f sts extr logs)
  then show ?case using stmt_lineFilter_ok[of logs f] by (auto intro: grows_trans)
next
  case (4 L f sts extr logs)
  then show ?case by (auto split: sum.splits dest!: stmt_labelFilter_ok intro: grows_trans)
qed auto

lemma logs_start_ok: "timeCol \<in> {''time'', ''bucket''} \<Longrightarrow> stmt_ok (logs_start timeCol r)"
proof -
  assume tc: "timeCol \<in> {''time'', ''bucket''}"
  then have tcw: "words_ok n timeCol" "timeCol \<noteq> []" for n
    by (auto simp: lit_words)
  have "words_ok 3 (''stream_id = ANY('' @ placeholder 1 @ '') AND '' @ timeCol @ '' >= '' @ placeholder 2 @
      '' AND '' @ timeCol @ '' < '' @ placeholder 3)"
    using tcw by (intro words_ok_append words_ok_placeholder) (simp_all add: lit_words bnd)
  then show ?thesis
    by (simp add: logs_start_def stmt_arg_def empty_stmt_def stmt_ok_def eval_nat_numeral)
qed

text \<open>What \<^const>\<open>Compile\<close> returns, in terms of the pieces it was assembled from.\<close>

lemma Compile_cases:
  assumes "Compile L q r0 = Inr p"
  defines "r \<equiv> widen q r0" and "source \<equiv> chooseSource q"
  defines "timeCol \<equiv> if source \<noteq> ''logs'' then ''bucket'' else ''time''"
  obtains streams logs extr logs1 head tail logs2 where
    "compile_matchers L True (selMatchers (qSelector q))
       (emit ''SELECT stream_id FROM streams'' empty_stmt) (logs_start timeCol r) = Inr (streams, logs)"
    and "compile_stages L (qStages q) FromFields logs = Inr (extr, logs1)"
    and "(case qAgg q of
        None \<Rightarrow> head = ''SELECT time, stream_id, seq, level, message, trace_id, span_id, fields'' \<and>
          tail = '' ORDER BY time '' @ (if rqDirection r = Forward then ''ASC'' else ''DESC'') @ '', seq '' @
            (if rqDirection r = Forward then ''ASC'' else ''DESC'') \<and> logs2 = logs1
      | Some a \<Rightarrow> stmt_aggregate a extr source timeCol
          (if rqDirection r = Forward then ''ASC'' else ''DESC'') logs1 = Inr (head, tail, logs2))"
    and "p = \<lparr>plStreams = \<lparr>SQL = sText streams, Args = sArgs streams\<rparr>,
        plLogs = \<lparr>SQL = head @ '' FROM '' @ source @
            (if sJoin logs2 then '' JOIN streams USING (stream_id)'' else []) @
            '' WHERE '' @ sText logs2 @ tail @ '' LIMIT '' @ placeholder (Suc (length (sArgs logs2))),
          Args = sArgs logs2 @ [AInt (rqLimit r)]\<rparr>,
        plSource = source, plStart = rqStart r, plEnd = rqEnd r\<rparr>"
    and "rqStart r0 \<noteq> zero_time" and "rqStart r0 < rqEnd r0" and "0 < rqLimit r0"
proof -
  from assms(1) obtain streams logs where m: "compile_matchers L True (selMatchers (qSelector q))
       (emit ''SELECT stream_id FROM streams'' empty_stmt) (logs_start timeCol r) = Inr (streams, logs)"
    by (auto simp: Compile_def Let_def r_def source_def timeCol_def split: if_splits sum.splits)
  from assms(1) m obtain extr logs1 where s: "compile_stages L (qStages q) FromFields logs = Inr (extr, logs1)"
    by (auto simp: Compile_def Let_def r_def source_def timeCol_def split: if_splits sum.splits)
  show ?thesis
  proof (cases "qAgg q")
    case None
    show ?thesis
      by (rule that[OF m s])
        (use assms(1) m s None in \<open>auto simp: Compile_def Let_def r_def source_def timeCol_def
          stmt_arg_def split: if_splits\<close>)
  next
    case (Some a)
    with assms(1) m s obtain head tail logs2 where g: "stmt_aggregate a extr source timeCol
        (if rqDirection r = Forward then ''ASC'' else ''DESC'') logs1 = Inr (head, tail, logs2)"
      by (auto simp: Compile_def Let_def r_def source_def timeCol_def split: if_splits sum.splits)
    show ?thesis
      by (rule that[OF m s, of head tail logs2])
        (use assms(1) m s g Some in \<open>auto simp: Compile_def Let_def r_def source_def timeCol_def
          stmt_arg_def split: if_splits\<close>)
  qed
qed

lemma Compile_words:
  assumes "Compile L q r = Inr p"
  shows "words_ok (length (Args (plStreams p))) (SQL (plStreams p)) \<and>
    words_ok (length (Args (plLogs p))) (SQL (plLogs p))"
  using assms
proof (cases rule: Compile_cases)
  case (1 streams logs extr logs1 head tail logs2)
  let ?tc = "if chooseSource q \<noteq> ''logs'' then ''bucket'' else ''time''"
  let ?n = "Suc (length (sArgs logs2))"
  have tc: "?tc \<in> {''time'', ''bucket''}" by simp
  have "stmt_ok (emit ''SELECT stream_id FROM streams'' empty_stmt)"
    by (simp add: stmt_ok_def empty_stmt_def lit_words)
  from compile_matchers_ok[OF 1(1) this logs_start_ok[OF tc]]
  have streams: "stmt_ok streams" and logs: "stmt_ok logs" by simp_all
  have logs1: "stmt_ok logs1" using compile_stages_ok[OF 1(2) logs] by simp
  have "stmt_ok logs2 \<and> words_ok (length (sArgs logs2)) head \<and> head \<noteq> [] \<and> (\<forall>n. words_ok n tail) \<and>
      hd tail = CHR '' '' \<and> tail \<noteq> []"
  proof (cases "qAgg q")
    case None
    have "words_ok n ('' ORDER BY time '' @ ord @ '', seq '' @ ord)" if "ord \<in> {''ASC'', ''DESC''}" for ord n
      using that by (intro words_ok_append) (auto simp: lit_words bnd)
    with None 1(3) logs1 show ?thesis by (auto simp: lit_words)
  next
    case (Some a)
    with 1(3) have "stmt_aggregate a extr (chooseSource q) ?tc
      (if rqDirection (widen q r) = Forward then ''ASC'' else ''DESC'') logs1 = Inr (head, tail, logs2)" by simp
    from stmt_aggregate_ok[OF this tc] have "words_ok (length (sArgs logs2)) head \<and> head \<noteq> [] \<and>
        (\<forall>n. words_ok n tail) \<and> hd tail = CHR '' '' \<and> tail \<noteq> [] \<and> sText logs2 = sText logs1 \<and>
        length (sArgs logs1) \<le> length (sArgs logs2)"
      by (simp add: prefix_length_le)
    then show ?thesis
      using logs1 by (auto simp: stmt_ok_def intro: words_ok_mono)
  qed
  then have w: "words_ok ?n (sText logs2)" "words_ok ?n head" "head \<noteq> []" "words_ok ?n tail"
      "hd tail = CHR '' ''" "tail \<noteq> []"
    by (auto simp: stmt_ok_def intro: words_ok_mono)
  have join: "words_ok ?n (if sJoin logs2 then '' JOIN streams USING (stream_id)'' else [])"
    by (simp add: lit_words)
  have "words_ok ?n (head @ '' FROM '' @ chooseSource q @
      (if sJoin logs2 then '' JOIN streams USING (stream_id)'' else []) @
      '' WHERE '' @ sText logs2 @ tail @ '' LIMIT '' @ placeholder ?n)"
    using w by (intro words_ok_append words_ok_placeholder source_words join)
      (simp_all add: lit_words bnd)
  with streams show ?thesis by (simp add: 1(4) stmt_ok_def)
qed

end
