(* ===== verification/Query_Shape.thy ===== *)
theory Query_Shape
  imports Query_Plan
begin

text \<open>
  The guarantees of the planner: the text of the statements is a function of the query's shape
  alone, every word in it is known or a placeholder, the range and the limit are always there, and
  buckets and continuous aggregates are aligned.
\<close>

subsection \<open>The text depends on the shape of the query only\<close>

text \<open>The shape of a query is what is left of it when every string a user chose is forgotten: of a
  label, only whether it is the level, one of the promoted labels, or another one.\<close>

definition label_class :: "string \<Rightarrow> string option" where
  "label_class l = (if l = ''level'' \<or> promoted l then Some l else None)"

datatype shape = ShLine LineOp | ShLabel "string option" Op bool | ShParser ParserKind

fun stage_shape :: "Stage \<Rightarrow> shape" where
  "stage_shape (SLine f) = ShLine (lfOp f)"
| "stage_shape (SLabel f) = ShLabel (label_class (bfLabel f)) (bfOp f) (bfNumeric f)"
| "stage_shape (SParser p) = ShParser (psKind p)"

definition matcher_shape :: "Matcher \<Rightarrow> string option \<times> Op" where
  "matcher_shape m = (label_class (mLabel m), mOp m)"

definition agg_shape :: "Aggregation \<Rightarrow> AggFunc \<times> string option list" where
  "agg_shape a = (agFunc a, map label_class (agBy a))"

definition query_shape ::
  "Query \<Rightarrow> (string option \<times> Op) list \<times> shape list \<times> (AggFunc \<times> string option list) option" where
  "query_shape q = (map matcher_shape (selMatchers (qSelector q)), map stage_shape (qStages q),
     map_option agg_shape (qAgg q))"

definition stmt_sim :: "stmt \<Rightarrow> stmt \<Rightarrow> bool" where
  "stmt_sim s t \<longleftrightarrow> sText s = sText t \<and> length (sArgs s) = length (sArgs t) \<and> sJoin s = sJoin t"

fun extractor_kind :: "extractor \<Rightarrow> nat" where
  "extractor_kind FromFields = 0" | "extractor_kind FromJSON = 1" | "extractor_kind FromLogfmt = 2"
| "extractor_kind (FromRegexp _ _) = 3"

lemma label_class_level: "label_class l = label_class l' \<Longrightarrow> l = ''level'' \<longleftrightarrow> l' = ''level''"
  by (auto simp: label_class_def promoted_def split: if_splits)

lemma label_class_promoted: "label_class l = label_class l' \<Longrightarrow> promoted l \<longleftrightarrow> promoted l'"
  by (auto simp: label_class_def promoted_def split: if_splits)

lemma label_class_eq: "label_class l = label_class l' \<Longrightarrow> promoted l \<Longrightarrow> l = l'"
  by (auto simp: label_class_def split: if_splits)

lemma emit_sim: "stmt_sim s t \<Longrightarrow> stmt_sim (emit x s) (emit x t)"
  by (simp add: stmt_sim_def)

lemma stmt_level_sim:
  "stmt_level L op v s = Inr s' \<Longrightarrow> stmt_level L' op v' t = Inr t' \<Longrightarrow> stmt_sim s t \<Longrightarrow> stmt_sim s' t'"
  by (auto simp: stmt_level_def stmt_arg_def stmt_sim_def split: sum.splits)

lemma stmt_matcher_sim:
  assumes "matcher_shape m = matcher_shape m'" and "stmt_sim s t"
  shows "stmt_sim (stmt_matcher L m s) (stmt_matcher L' m' t)"
  using assms label_class_promoted[of "mLabel m" "mLabel m'"] label_class_eq[of "mLabel m" "mLabel m'"]
  by (auto simp: stmt_matcher_def matcher_shape_def stmt_arg_def stmt_sim_def Let_def)

lemma stmt_lineFilter_sim:
  "lfOp f = lfOp f' \<Longrightarrow> stmt_sim s t \<Longrightarrow> stmt_sim (stmt_lineFilter f s) (stmt_lineFilter f' t)"
  by (simp add: stmt_lineFilter_def stmt_arg_def stmt_sim_def Let_def)

lemma run_extractor_sim:
  assumes "run_extractor ex n s = Inr (v, s')" and "run_extractor ex' n' t = Inr (v', t')"
    and "extractor_kind ex = extractor_kind ex'" and "stmt_sim s t"
  shows "v = v' \<and> stmt_sim s' t'"
  using assms
  by (cases ex; cases ex') (auto simp: stmt_arg_def stmt_sim_def split: option.splits)

lemma column_sim:
  assumes "column n ex s = Inr (v, s')" and "column n' ex' t = Inr (v', t')"
    and "label_class n = label_class n'" and "extractor_kind ex = extractor_kind ex'" and "stmt_sim s t"
  shows "v = v' \<and> stmt_sim s' t'"
  using assms label_class_promoted[OF assms(3)] label_class_eq[OF assms(3)] label_class_level[OF assms(3)]
    run_extractor_sim[of ex n s v s' ex' n' t v' t']
  by (auto simp: column_def stmt_sim_def split: if_splits)

lemma stmt_labelFilter_sim:
  assumes "stmt_labelFilter L f ex s = Inr s'" and "stmt_labelFilter L' f' ex' t = Inr t'"
    and "stage_shape (SLabel f) = stage_shape (SLabel f')" and "extractor_kind ex = extractor_kind ex'"
    and "stmt_sim s t"
  shows "stmt_sim s' t'"
proof (cases "bfLabel f = ''level''")
  case True
  then have "bfLabel f' = ''level''"
    using assms(3) label_class_level[of "bfLabel f" "bfLabel f'"] by simp
  with True have "stmt_level L (bfOp f) (bfValue f) s = Inr s'" and "stmt_level L' (bfOp f) (bfValue f') t = Inr t'"
    using assms(1-3) by (simp_all add: stmt_labelFilter_def)
  then show ?thesis using assms(5) by (rule stmt_level_sim)
next
  case False
  then have False': "bfLabel f' \<noteq> ''level''"
    using assms(3) label_class_level[of "bfLabel f" "bfLabel f'"] by simp
  obtain v s1 v' t1 where c: "column (bfLabel f) ex s = Inr (v, s1)" "column (bfLabel f') ex' t = Inr (v', t1)"
    using assms(1,2) False False' by (auto simp: stmt_labelFilter_def split: sum.splits)
  have "v = v' \<and> stmt_sim s1 t1"
    using column_sim[OF c] assms(3-5) by simp
  then show ?thesis
    using assms(1-3) False False' c
    by (auto simp: stmt_labelFilter_def stmt_arg_def stmt_sim_def Let_def split: if_splits)
qed

lemma by_columns_sim:
  assumes "by_columns i ls ex head grp s = Inr (h, g, s')" and "by_columns i ls' ex' head grp t = Inr (h', g', t')"
    and "map label_class ls = map label_class ls'" and "extractor_kind ex = extractor_kind ex'"
    and "stmt_sim s t"
  shows "h = h' \<and> g = g' \<and> stmt_sim s' t'"
  using assms
proof (induction i ls ex head grp s arbitrary: ls' t rule: by_columns.induct)
  case (2 i l ls ex head grp s)
  then obtain l' k where ls': "ls' = l' # k" and cl: "label_class l = label_class l'"
      "map label_class ls = map label_class k" by (cases ls') auto
  obtain col s1 col' t1 where c: "column l ex s = Inr (col, s1)" "column l' ex' t = Inr (col', t1)"
    using "2.prems"(1,2) ls' by (auto split: sum.splits)
  have "col = col'" and st: "stmt_sim s1 t1"
    using column_sim[OF c cl(1) "2.prems"(4,5)] by simp_all
  moreover have "l = ''level'' \<longleftrightarrow> l' = ''level''" using label_class_level[OF cl(1)] .
  ultimately show ?case
    using "2.IH"[OF c(1) refl refl _ _ cl(2) "2.prems"(4) st] "2.prems"(1,2) c ls' by (auto split: if_splits)
qed auto

definition agg_head :: "AggFunc \<Rightarrow> string \<Rightarrow> string \<Rightarrow> nat \<Rightarrow> string" where
  "agg_head fn source tc n =
     (let head = ''SELECT time_bucket('' @ placeholder (Suc n) @ ''::interval, '' @ tc @ '') AS bucket, '';
          count = (if source \<noteq> ''logs'' then ''sum(n)'' else ''count(*)'')
      in case fn of AggRate \<Rightarrow> head @ count @ ''::float8 / '' @ placeholder (Suc (Suc n))
         | AggCountOverTime \<Rightarrow> head @ count @ ''::float8''
         | AggBytesOverTime \<Rightarrow> head @ ''sum(octet_length(message))::float8'')"

definition agg_args :: "Aggregation \<Rightarrow> stmt \<Rightarrow> stmt" where
  "agg_args a s = s\<lparr>sArgs := sArgs s @ ADur (agRange a) #
     (if agFunc a = AggRate then [ASeconds (agRange a)] else [])\<rparr>"

lemma stmt_aggregate_eq:
  "stmt_aggregate a ex source tc ord s =
     (case by_columns 0 (agBy a) ex (agg_head (agFunc a) source tc (length (sArgs s))) ''1'' (agg_args a s) of
        Inl e \<Rightarrow> Inl e
      | Inr (head2, grp, s3) \<Rightarrow> Inr (head2, '' GROUP BY '' @ grp @ '' ORDER BY 1 '' @ ord @ tl grp, s3))"
  by (cases "agFunc a")
    (simp_all add: stmt_aggregate_def stmt_arg_def agg_head_def agg_args_def Let_def)

lemma stmt_aggregate_sim:
  assumes a: "stmt_aggregate a ex source tc ord s = Inr (h, u, s')"
    and b: "stmt_aggregate a' ex' source tc ord t = Inr (h', u', t')"
    and sh: "agg_shape a = agg_shape a'" and ex: "extractor_kind ex = extractor_kind ex'" and st: "stmt_sim s t"
  shows "h = h' \<and> u = u' \<and> stmt_sim s' t'"
proof -
  let ?hd = "agg_head (agFunc a) source tc (length (sArgs s))"
  have fn: "agFunc a = agFunc a'" and by': "map label_class (agBy a) = map label_class (agBy a')"
    and n: "length (sArgs s) = length (sArgs t)" and st': "stmt_sim (agg_args a s) (agg_args a' t)"
    using sh st by (simp_all add: agg_shape_def stmt_sim_def agg_args_def)
  obtain g where g: "by_columns 0 (agBy a) ex ?hd ''1'' (agg_args a s) = Inr (h, g, s')"
      "u = '' GROUP BY '' @ g @ '' ORDER BY 1 '' @ ord @ tl g"
    using a unfolding stmt_aggregate_eq by (auto split: sum.splits)
  obtain g' where g': "by_columns 0 (agBy a') ex' ?hd ''1'' (agg_args a' t) = Inr (h', g', t')"
      "u' = '' GROUP BY '' @ g' @ '' ORDER BY 1 '' @ ord @ tl g'"
    using b unfolding stmt_aggregate_eq fn n by (auto split: sum.splits)
  from by_columns_sim[OF g(1) g'(1) by' ex st'] show ?thesis
    unfolding g(2) g'(2) by blast
qed

lemma compile_matchers_sim:
  assumes "compile_matchers L first ms streams logs = Inr (s, l)"
    and "compile_matchers L' first ms' streams' logs' = Inr (s', l')"
    and "map matcher_shape ms = map matcher_shape ms'" and "stmt_sim streams streams'" and "stmt_sim logs logs'"
  shows "stmt_sim s s' \<and> stmt_sim l l'"
  using assms
proof (induction L first ms streams logs arbitrary: ms' streams' logs' rule: compile_matchers.induct)
  case (2 L first m ms streams logs)
  then obtain m' k where ms': "ms' = m' # k" and sh: "matcher_shape m = matcher_shape m'"
    "map matcher_shape ms = map matcher_shape k" by (cases ms') auto
  have lv: "mLabel m = ''level'' \<longleftrightarrow> mLabel m' = ''level''" and op: "mOp m = mOp m'"
    using sh(1) label_class_level[of "mLabel m" "mLabel m'"] by (simp_all add: matcher_shape_def)
  show ?case
  proof (cases "mLabel m = ''level''")
    case True
    then obtain l1 l1' where l1: "stmt_level L (mOp m) (mValue m) logs = Inr l1"
        "stmt_level L' (mOp m) (mValue m') logs' = Inr l1'"
      using "2.prems"(1,2) lv ms' op by (auto split: sum.splits)
    have "stmt_sim l1 l1'" using stmt_level_sim[OF l1 "2.prems"(5)] .
    with "2.IH"(1)[OF True l1(1), of k streams' l1'] "2.prems" l1 True lv ms' op sh(2) show ?thesis by simp
  next
    case False
    let ?w = "if first then '' WHERE '' else '' AND ''"
    have "stmt_sim (stmt_matcher L m (emit ?w streams)) (stmt_matcher L' m' (emit ?w streams'))"
      by (intro stmt_matcher_sim[OF sh(1)] emit_sim "2.prems"(4))
    with "2.IH"(2)[OF False, of k _ logs'] "2.prems" False lv ms' sh(2) show ?thesis by simp
  qed
qed auto

lemma stage_extractor_kind: "psKind p = psKind p' \<Longrightarrow> extractor_kind (stage_extractor p) = extractor_kind (stage_extractor p')"
  by (auto simp: stage_extractor_def split: ParserKind.splits prod.splits)

lemma compile_stages_sim:
  assumes "compile_stages L sts ex logs = Inr (e, l)" and "compile_stages L' sts' ex' logs' = Inr (e', l')"
    and "map stage_shape sts = map stage_shape sts'" and "extractor_kind ex = extractor_kind ex'"
    and "stmt_sim logs logs'"
  shows "extractor_kind e = extractor_kind e' \<and> stmt_sim l l'"
  using assms
proof (induction L sts ex logs arbitrary: sts' ex' logs' rule: compile_stages.induct)
  case (2 L f sts ex logs)
  then obtain f' k where "sts' = SLine f' # k" and "lfOp f = lfOp f'" "map stage_shape sts = map stage_shape k"
    by (cases sts'; cases "hd sts'") auto
  with 2 stmt_lineFilter_sim[of f f' logs logs'] show ?case by simp
next
  case (3 L p sts ex logs)
  then obtain p' k where "sts' = SParser p' # k" and "psKind p = psKind p'" "map stage_shape sts = map stage_shape k"
    by (cases sts'; cases "hd sts'") auto
  with 3 stage_extractor_kind[of p p'] show ?case by simp
next
  case (4 L f sts ex logs)
  then obtain f' k where sts': "sts' = SLabel f' # k" and sh: "stage_shape (SLabel f) = stage_shape (SLabel f')"
      and k: "map stage_shape sts = map stage_shape k"
    by (cases sts'; cases "hd sts'") auto
  obtain l1 l1' where l1: "stmt_labelFilter L f ex logs = Inr l1" "stmt_labelFilter L' f' ex' logs' = Inr l1'"
    using "4.prems"(1,2) sts' by (auto split: sum.splits)
  have "stmt_sim l1 l1'" by (rule stmt_labelFilter_sim[OF l1 sh "4.prems"(4,5)])
  with "4.IH"[OF l1(1), of k ex' l1'] "4.prems" l1 sts' k show ?case by simp
qed auto

lemma Compile_sim:
  assumes p: "Compile L q r = Inr p" and p': "Compile L' q' r' = Inr p'"
    and sh: "query_shape q = query_shape q'" and src: "chooseSource q = chooseSource q'"
    and dir: "rqDirection r = rqDirection r'"
  shows "SQL (plStreams p) = SQL (plStreams p') \<and> SQL (plLogs p) = SQL (plLogs p')"
  using p
proof (cases rule: Compile_cases)
  case a: (1 streams logs extr logs1 head tail logs2)
  from p' show ?thesis
  proof (cases rule: Compile_cases)
    case b: (1 streams' logs' extr' logs1' head' tail' logs2')
    have dir': "rqDirection (widen q r) = rqDirection (widen q' r')"
      using dir by (simp add: widen_def Let_def split: option.splits)
    have "stmt_sim (logs_start tc (widen q r)) (logs_start tc (widen q' r'))" for tc
      by (simp add: logs_start_def stmt_arg_def stmt_sim_def empty_stmt_def)
    then have m: "stmt_sim streams streams'" "stmt_sim logs logs'"
      using compile_matchers_sim[OF a(1) b(1)[folded src]] sh
      by (simp_all add: query_shape_def) (simp_all add: stmt_sim_def)
    have st: "extractor_kind extr = extractor_kind extr'" "stmt_sim logs1 logs1'"
      using compile_stages_sim[OF a(2) b(2) _ refl m(2)] sh by (simp_all add: query_shape_def)
    have "head = head' \<and> tail = tail' \<and> stmt_sim logs2 logs2'"
    proof (cases "qAgg q")
      case None
      then have "qAgg q' = None" using sh by (simp add: query_shape_def)
      with None a(3) b(3) dir' st show ?thesis by simp
    next
      case (Some g)
      then obtain g' where g': "qAgg q' = Some g'" "agg_shape g = agg_shape g'"
        using sh by (cases "qAgg q'") (auto simp: query_shape_def)
      show ?thesis
        by (rule stmt_aggregate_sim[OF _ _ g'(2) st])
          (use a(3) b(3) Some g' src dir' in simp_all)
    qed
    then show ?thesis
      using m src by (simp add: a(4) b(4) stmt_sim_def)
  qed
qed

subsection \<open>Range, limit and buckets\<close>

lemma Compile_range:
  assumes "Compile L q r = Inr p"
  defines "tc \<equiv> if plSource p \<noteq> ''logs'' then ''bucket'' else ''time''"
  shows "\<exists>head join cond.
      SQL (plLogs p) = head @ '' FROM '' @ plSource p @ join @
        '' WHERE stream_id = ANY($1) AND '' @ tc @ '' >= $2 AND '' @ tc @ '' < $3'' @ cond @
        '' LIMIT '' @ placeholder (length (Args (plLogs p)))"
    and "\<exists>rest. Args (plLogs p) = [AIds, ATime (plStart p), ATime (plEnd p)] @ rest @ [AInt (rqLimit r)]"
proof -
  have "\<exists>head join cond rest. SQL (plLogs p) = head @ '' FROM '' @ plSource p @ join @
        '' WHERE stream_id = ANY($1) AND '' @ tc @ '' >= $2 AND '' @ tc @ '' < $3'' @ cond @
        '' LIMIT '' @ placeholder (length (Args (plLogs p))) \<and>
      Args (plLogs p) = [AIds, ATime (plStart p), ATime (plEnd p)] @ rest @ [AInt (rqLimit r)]"
    using assms(1)
  proof (cases rule: Compile_cases)
    case (1 streams logs extr logs1 head tail logs2)
    let ?tc = "if chooseSource q \<noteq> ''logs'' then ''bucket'' else ''time''"
    let ?l0 = "logs_start ?tc (widen q r)"
    have tc: "?tc \<in> {''time'', ''bucket''}" by simp
    have s0: "stmt_ok (emit ''SELECT stream_id FROM streams'' empty_stmt)"
      by (simp add: stmt_ok_def empty_stmt_def lit_words)
    note m = compile_matchers_ok[OF 1(1) s0 logs_start_ok[OF tc]]
    have st: "grows logs logs1" using compile_stages_ok[OF 1(2)] m by simp
    have "sText logs2 = sText logs1 \<and> prefix (sArgs logs1) (sArgs logs2)"
    proof (cases "qAgg q")
      case None
      then show ?thesis using 1(3) by simp
    next
      case (Some a)
      with 1(3) have "stmt_aggregate a extr (chooseSource q) ?tc
        (if rqDirection (widen q r) = Forward then ''ASC'' else ''DESC'') logs1 = Inr (head, tail, logs2)"
        by simp
      from stmt_aggregate_ok[OF this tc] show ?thesis by simp
    qed
    then have "grows ?l0 logs2"
      using m st by (auto simp: grows_def intro: prefix_order.trans)
    then obtain cond rest where t: "sText logs2 = sText ?l0 @ cond" and x: "sArgs logs2 = sArgs ?l0 @ rest"
      by (auto simp: grows_def prefix_def)
    have d: "char_of (49::nat) = CHR ''1''" "char_of (50::nat) = CHR ''2''" "char_of (51::nat) = CHR ''3''"
      by code_simp+
    have l0: "sText ?l0 = ''stream_id = ANY($1) AND '' @ ?tc @ '' >= $2 AND '' @ ?tc @ '' < $3''"
      "sArgs ?l0 = [AIds, ATime (rqStart (widen q r)), ATime (rqEnd (widen q r))]"
      by (simp_all add: logs_start_def stmt_arg_def empty_stmt_def placeholder_def itoa.simps d)
    have "rqLimit (widen q r) = rqLimit r"
      by (simp add: widen_def Let_def split: option.splits)
    with t x l0 show ?thesis
      by (intro exI[of _ head] exI[of _ "if sJoin logs2 then '' JOIN streams USING (stream_id)'' else []"]
          exI[of _ "cond @ tail"] exI[of _ rest]) (simp add: 1(4) tc_def)
  qed
  then show "\<exists>head join cond. SQL (plLogs p) = head @ '' FROM '' @ plSource p @ join @
        '' WHERE stream_id = ANY($1) AND '' @ tc @ '' >= $2 AND '' @ tc @ '' < $3'' @ cond @
        '' LIMIT '' @ placeholder (length (Args (plLogs p)))"
    and "\<exists>rest. Args (plLogs p) = [AIds, ATime (plStart p), ATime (plEnd p)] @ rest @ [AInt (rqLimit r)]"
    by blast+
qed

lemma snap_floor:
  assumes "bucketOrigin \<le> t" and "t - bucketOrigin < 2 ^ 63" and "0 < d"
  shows "snap t d = t - (t - bucketOrigin) mod d"
  using assms by (simp add: snap_def time_Sub_def dur_Truncate_def tmod_nonneg)

lemma snap_props:
  assumes "bucketOrigin \<le> t" and "t - bucketOrigin < 2 ^ 63" and "0 < d"
  shows "snap t d \<le> t" and "t < snap t d + d" and "d dvd (snap t d - bucketOrigin)"
proof -
  have s: "snap t d = t - (t - bucketOrigin) mod d" by (rule snap_floor[OF assms])
  show "snap t d \<le> t" and "t < snap t d + d"
    using s assms(3) pos_mod_bound[of d "t - bucketOrigin"] pos_mod_sign[of d "t - bucketOrigin"] by simp_all
  have "snap t d - bucketOrigin = (t - bucketOrigin) - (t - bucketOrigin) mod d" using s by simp
  then show "d dvd (snap t d - bucketOrigin)" by (metis dvd_minus_mod)
qed

lemma source_grain:
  assumes "(chooseSource q, w) \<in> set grains"
  shows "\<exists>a. qAgg q = Some a \<and> tmod (agRange a) w = 0 \<and> qStages q = [] \<and> agFunc a \<noteq> AggBytesOverTime \<and>
    list_all (\<lambda>l. l = ''level'' \<or> promoted l) (agBy a)"
  using assms by (auto simp: chooseSource_def grains_def split: option.splits if_splits)

subsection \<open>Properties\<close>

text \<open>C13. No statement the planner produces can contain a word of its own choosing: \<^verbatim>\<open>CheckSQL\<close>, the
  check a peer applies to a plan received over the network, accepts both statements of every compiled
  plan, and each placeholder in them refers to an argument that is there.\<close>

theorem Compile_passes_CheckSQL:
  assumes "Compile L q r = Inr p" and "st \<in> {plStreams p, plLogs p}"
  shows "CheckSQL (SQL st) = None \<and>
    (\<forall>w\<in>set (sql_words (SQL st)). hd w = CHR ''$'' \<longrightarrow>
       (\<exists>k. 1 \<le> k \<and> k \<le> length (Args st) \<and> w = placeholder k))"
proof -
  have w: "words_ok (length (Args st)) (SQL st)"
    using Compile_words[OF assms(1)] assms(2) by auto
  have "list_all (\<lambda>w. hd w \<noteq> CHR ''$'') allowedWords" by code_simp
  then show ?thesis
    using w words_ok_CheckSQL[OF w] by (auto simp: words_ok_def list_all_iff)
qed

definition q1 :: Query where
  "q1 = \<lparr>qText = [], qSelector = \<lparr>selPos = \<lparr>Line = 1, Col = 1\<rparr>, selMatchers =
        [\<lparr>mPos = \<lparr>Line = 1, Col = 2\<rparr>, mLabel = ''service'', mOp = OpEq, mValue = ''api''\<rparr>,
         \<lparr>mPos = \<lparr>Line = 1, Col = 9\<rparr>, mLabel = ''region'', mOp = OpRe, mValue = ''eu.*''\<rparr>]\<rparr>,
     qStages = [], qAgg = Some \<lparr>agPos = \<lparr>Line = 1, Col = 20\<rparr>, agFunc = AggRate, agRange = 5 * minute,
        agBy = [''level'', ''host'']\<rparr>\<rparr>"

definition q2 :: Query where
  "q2 = q1\<lparr>qSelector := (qSelector q1)\<lparr>selMatchers :=
      [\<lparr>mPos = \<lparr>Line = 1, Col = 2\<rparr>, mLabel = ''service'', mOp = OpEq, mValue = ''x; DROP''\<rparr>,
       \<lparr>mPos = \<lparr>Line = 1, Col = 9\<rparr>, mLabel = ''zone'', mOp = OpRe, mValue = ''DELETE''\<rparr>]\<rparr>\<rparr>"

definition rq1 :: Request where
  "rq1 = \<lparr>rqStart = 1700000000 * second, rqEnd = 1700003600 * second, rqLimit = 100, rqDirection = Backward\<rparr>"

lemma q1_compiles: "\<exists>p. Compile lib0 q1 rq1 = Inr p" and q2_compiles: "\<exists>p. Compile lib0 q2 rq1 = Inr p"
proof -
  have "zero_time \<noteq> 1700000000 * second" by (simp add: zero_time_def second_def)
  then show "\<exists>p. Compile lib0 q1 rq1 = Inr p" and "\<exists>p. Compile lib0 q2 rq1 = Inr p"
    by (simp_all add: Compile_def q1_def q2_def rq1_def Let_def second_def stmt_aggregate_eq column_def
        promoted_def split: prod.splits)
qed

theorem Compile_passes_CheckSQL_witness:
  "\<exists>p. Compile lib0 q1 rq1 = Inr p \<and> CheckSQL (SQL (plLogs p)) = None \<and> CheckSQL (SQL (plStreams p)) = None"
  using q1_compiles Compile_passes_CheckSQL[of lib0 q1 rq1] by blast

text \<open>C3. No user byte reaches SQL text: two queries of the same shape (the same operators, stages,
  functions and promoted labels, but any other label names, values, patterns and windows whatever)
  compile to statements with the same text, as long as they read the same relation in the same
  direction.\<close>

theorem Compile_text_is_shape:
  assumes "Compile L q r = Inr p" and "Compile L' q' r' = Inr p'"
    and "query_shape q = query_shape q'" and "chooseSource q = chooseSource q'"
    and "rqDirection r = rqDirection r'"
  shows "SQL (plStreams p) = SQL (plStreams p') \<and> SQL (plLogs p) = SQL (plLogs p')"
  using assms by (rule Compile_sim)

theorem Compile_text_is_shape_witness:
  "\<exists>p p'. Compile lib0 q1 rq1 = Inr p \<and> Compile lib0 q2 rq1 = Inr p' \<and> q1 \<noteq> q2 \<and>
     SQL (plStreams p) = SQL (plStreams p')"
proof -
  have "query_shape q1 = query_shape q2" and "chooseSource q1 = chooseSource q2" and "q1 \<noteq> q2"
    by (simp_all add: query_shape_def matcher_shape_def label_class_def promoted_def chooseSource_def
        q1_def q2_def)
  then show ?thesis
    using q1_compiles q2_compiles Compile_text_is_shape[of lib0 q1 rq1 _ lib0 q2 rq1] by blast
qed

text \<open>No query can ask for everything: the logs statement of every compiled plan filters on the
  stream ids, on the plan's start and on its end, in that order and as its first three arguments, and
  ends with a limit whose argument, the last one, is the requested positive number.\<close>

theorem Compile_bounded:
  assumes "Compile L q r = Inr p"
  shows "\<exists>head join cond rest tc.
      tc = (if plSource p \<noteq> ''logs'' then ''bucket'' else ''time'') \<and>
      SQL (plLogs p) = head @ '' FROM '' @ plSource p @ join @
        '' WHERE stream_id = ANY($1) AND '' @ tc @ '' >= $2 AND '' @ tc @ '' < $3'' @ cond @
        '' LIMIT '' @ placeholder (length (Args (plLogs p))) \<and>
      Args (plLogs p) = [AIds, ATime (plStart p), ATime (plEnd p)] @ rest @ [AInt (rqLimit r)] \<and>
      0 < rqLimit r"
proof -
  have "0 < rqLimit r" using assms by (rule Compile_cases)
  then show ?thesis using Compile_range[OF assms] by blast
qed

theorem Compile_bounded_witness:
  "\<exists>p rest. Compile lib0 q1 rq1 = Inr p \<and>
     Args (plLogs p) = [AIds, ATime (plStart p), ATime (plEnd p)] @ rest @ [AInt 100]"
proof -
  obtain p where p: "Compile lib0 q1 rq1 = Inr p" using q1_compiles by blast
  with Compile_bounded[OF p] show ?thesis by (auto simp: rq1_def)
qed

text \<open>Buckets line up. For a range that starts no earlier than the bucket origin (3 January
  2000), the planned range covers the requested one, exceeds it by less than one bucket on either
  side and starts and ends on bucket boundaries; and a continuous aggregate is read only when no
  stage, message size or unpromoted label is involved and its buckets divide the query's, so that the
  planned range starts and ends on the aggregate's boundaries too.\<close>

theorem Compile_buckets:
  assumes "Compile L q r = Inr p" and "qAgg q = Some a" and "0 < agRange a"
    and "bucketOrigin \<le> rqStart r" and "rqEnd r - bucketOrigin < 2 ^ 63"
  shows "plStart p \<le> rqStart r \<and> rqStart r < plStart p + agRange a \<and>
    rqEnd r \<le> plEnd p \<and> plEnd p < rqEnd r + agRange a \<and>
    agRange a dvd (plStart p - bucketOrigin) \<and> agRange a dvd (plEnd p - bucketOrigin) \<and>
    (\<forall>w. (plSource p, w) \<in> set grains \<longrightarrow>
       qStages q = [] \<and> agFunc a \<noteq> AggBytesOverTime \<and> list_all (\<lambda>l. l = ''level'' \<or> promoted l) (agBy a) \<and>
       w dvd agRange a \<and> w dvd (plStart p - bucketOrigin) \<and> w dvd (plEnd p - bucketOrigin))"
  using assms(1)
proof (cases rule: Compile_cases)
  case (1 streams logs extr logs1 head tail logs2)
  let ?d = "agRange a"
  have st: "bucketOrigin \<le> rqStart r" "rqStart r - bucketOrigin < 2 ^ 63"
    and en: "bucketOrigin \<le> rqEnd r" "rqEnd r - bucketOrigin < 2 ^ 63"
    using assms(4,5) 1(6) by linarith+
  note s = snap_props[OF st assms(3)] and e = snap_props[OF en assms(3)]
  have ps: "plStart p = snap (rqStart r) ?d"
    and pe: "plEnd p = (if snap (rqEnd r) ?d \<noteq> rqEnd r then snap (rqEnd r) ?d + ?d else rqEnd r)"
    and src: "plSource p = chooseSource q"
    using assms(2) by (simp_all add: 1(4) widen_def Let_def)
  have "?d dvd (snap (rqEnd r) ?d - bucketOrigin) + ?d" using e(3) by simp
  then have end_ok: "rqEnd r \<le> plEnd p" "plEnd p < rqEnd r + ?d" "?d dvd (plEnd p - bucketOrigin)"
    using e assms(3) pe by (auto simp: algebra_simps)
  have w: "w dvd ?d \<and> 0 < w" if "(plSource p, w) \<in> set grains" for w
  proof -
    from that have "0 < w" by (auto simp: grains_def duration_defs)
    moreover have "tmod ?d w = 0" using source_grain that assms(2) src by fastforce
    ultimately show ?thesis using assms(3) by (simp add: tmod_nonneg dvd_eq_mod_eq_0)
  qed
  have "qStages q = [] \<and> agFunc a \<noteq> AggBytesOverTime \<and> list_all (\<lambda>l. l = ''level'' \<or> promoted l) (agBy a)"
    if "(plSource p, w) \<in> set grains" for w
    using source_grain that assms(2) src by fastforce
  with s end_ok w ps show ?thesis by (auto intro: dvd_trans)
qed

theorem Compile_buckets_witness:
  "\<exists>p. Compile lib0 q1 rq1 = Inr p \<and> plSource p = ''logs_rate_1m'' \<and> minute dvd (plStart p - bucketOrigin)"
proof -
  obtain p where p: "Compile lib0 q1 rq1 = Inr p" using q1_compiles by blast
  have a: "qAgg q1 = Some \<lparr>agPos = \<lparr>Line = 1, Col = 20\<rparr>, agFunc = AggRate, agRange = 5 * minute,
        agBy = [''level'', ''host'']\<rparr>" by (simp add: q1_def)
  have "plSource p = chooseSource q1" using p by (cases rule: Compile_cases) simp
  also have "chooseSource q1 = ''logs_rate_1m''"
    by (simp add: chooseSource_def q1_def grains_def promoted_def duration_defs tmod_nonneg)
  finally have src: "plSource p = ''logs_rate_1m''" .
  with Compile_buckets[OF p a] p show ?thesis
    by (auto simp: rq1_def bucketOrigin_def duration_defs grains_def)
qed

text \<open>Before the origin \<^verbatim>\<open>snap\<close> rounds up, because \<^verbatim>\<open>Duration.Truncate\<close> rounds toward zero.\<close>

lemma snap_before_origin: "bucketOrigin - second < snap (bucketOrigin - second) minute"
  by (simp add: snap_def time_Sub_def dur_Truncate_def tmod_def tdiv_def duration_defs)

end
