(* ===== verification/Records.thy ===== *)
theory Records
  imports Labels
begin

text \<open>
  \<^verbatim>\<open>internal/model/record.go\<close> and \<^verbatim>\<open>internal/model/wire.go\<close>: log records, their validation against a
  clock, and the conversions from and to the protobuf messages of \<^verbatim>\<open>api/proto/logagg/v1\<close>. A nil
  slice or map and an empty one are the same value here, as the source treats them.
\<close>

definition MaxMessageLen :: nat where "MaxMessageLen = 65536"
definition MaxFields :: nat where "MaxFields = 64"
definition MaxFieldNameLen :: nat where "MaxFieldNameLen = 128"
definition MaxFieldValueLen :: nat where "MaxFieldValueLen = 8192"
definition TraceIDLen :: nat where "TraceIDLen = 16"
definition SpanIDLen :: nat where "SpanIDLen = 8"
definition MaxClockSkewFuture :: duration where "MaxClockSkewFuture = 15 * minute"
definition MaxBackfill :: duration where "MaxBackfill = 7 * 24 * hour"

lemmas record_limits = MaxMessageLen_def MaxFields_def MaxFieldNameLen_def MaxFieldValueLen_def
  TraceIDLen_def SpanIDLen_def MaxClockSkewFuture_def MaxBackfill_def

record LogRecord =
  rStreamID :: u64
  rTime :: gotime
  rSeq :: int
  rLevel :: int
  rMessage :: string
  rTraceID :: bytes
  rSpanID :: bytes
  rFields :: "string gomap"

definition validateFieldName :: "string \<Rightarrow> model_err option" where
  "validateFieldName name =
     (if name = [] then Some ErrMissingLabel
      else if MaxFieldNameLen < length name then Some ErrFieldTooLong else None)"

definition check_field :: "string \<times> string \<Rightarrow> model_err option" where
  "check_field nv =
     (case validateFieldName (fst nv) of Some e \<Rightarrow> Some e
      | None \<Rightarrow> if MaxFieldValueLen < length (snd nv) then Some ErrFieldTooLong else None)"

definition record_Validate :: "gotime \<Rightarrow> LogRecord \<Rightarrow> model_err option" where
  "record_Validate now r =
     (if rTime r = zero_time then Some ErrMissingTime
      else if now + MaxClockSkewFuture < rTime r then Some ErrTimeOutOfRange
      else if rTime r < now + (- MaxBackfill) then Some ErrTimeOutOfRange
      else if rSeq r < 0 then Some ErrNegativeSeq
      else if \<not> level_Valid (rLevel r) then Some ErrInvalidLevel
      else if MaxMessageLen < length (rMessage r) then Some ErrMessageTooLong
      else if length (rTraceID r) \<noteq> 0 \<and> length (rTraceID r) \<noteq> TraceIDLen then Some ErrBadTraceID
      else if length (rSpanID r) \<noteq> 0 \<and> length (rSpanID r) \<noteq> SpanIDLen then Some ErrBadSpanID
      else if MaxFields < length (rFields r) then Some ErrTooManyFields
      else first_err (map check_field (rFields r)))"

record Stream =
  stID :: u64
  stLabels :: LabelSet
  stFirstSeen :: gotime
  stLastSeen :: gotime

definition NewStream :: "golib \<Rightarrow> LabelSet \<Rightarrow> gotime \<Rightarrow> Stream" where
  "NewStream L labels seen =
     \<lparr>stID = label_ID L labels, stLabels = labels, stFirstSeen = seen, stLastSeen = seen\<rparr>"

subsection \<open>Wire types\<close>

record pb_LabelSet =
  pbService :: string
  pbHost :: string
  pbEnv :: string
  pbExtra :: "string gomap"

text \<open>\<open>pbTimeUnixNano\<close> and \<open>pbSeq\<close> are int64 fields; \<open>pbLevel\<close> is a protobuf enum, an int32.\<close>

record pb_LogRecord =
  pbTimeUnixNano :: int
  pbSeq :: int
  pbLevel :: int
  pbMessage :: string
  pbTraceId :: bytes
  pbSpanId :: bytes
  pbFields :: "string gomap"

record pb_LogBatch =
  pbBatchId :: string
  pbLabels :: "pb_LabelSet option"
  pbRecords :: "pb_LogRecord list"
  pbTraceContext :: "string gomap"

definition LabelSetFromProto :: "pb_LabelSet option \<Rightarrow> LabelSet" where
  "LabelSetFromProto pb = (case pb of
     None \<Rightarrow> \<lparr>Service = [], Host = [], Env = [], Extra = []\<rparr>
   | Some p \<Rightarrow> \<lparr>Service = pbService p, Host = pbHost p, Env = pbEnv p, Extra = pbExtra p\<rparr>)"

definition labels_Proto :: "LabelSet \<Rightarrow> pb_LabelSet" where
  "labels_Proto ls =
     \<lparr>pbService = Service ls, pbHost = Host ls, pbEnv = Env ls, pbExtra = Extra ls\<rparr>"

text \<open>The conversion \<^verbatim>\<open>Level(pb.GetLevel())\<close> narrows an int32 to an int16.\<close>

definition LogRecordFromProto :: "u64 \<Rightarrow> pb_LogRecord option \<Rightarrow> LogRecord" where
  "LogRecordFromProto sid pb = (case pb of
     None \<Rightarrow> \<lparr>rStreamID = sid, rTime = zero_time, rSeq = 0, rLevel = 0, rMessage = [],
             rTraceID = [], rSpanID = [], rFields = []\<rparr>
   | Some p \<Rightarrow>
       \<lparr>rStreamID = sid,
        rTime = (if pbTimeUnixNano p \<noteq> 0 then pbTimeUnixNano p else zero_time),
        rSeq = pbSeq p, rLevel = wrap16 (pbLevel p), rMessage = pbMessage p,
        rTraceID = pbTraceId p, rSpanID = pbSpanId p, rFields = pbFields p\<rparr>)"

definition record_Proto :: "LogRecord \<Rightarrow> pb_LogRecord" where
  "record_Proto r =
     \<lparr>pbTimeUnixNano = (if rTime r \<noteq> zero_time then wrap64 (rTime r) else 0),
      pbSeq = rSeq r, pbLevel = rLevel r, pbMessage = rMessage r,
      pbTraceId = rTraceID r, pbSpanId = rSpanID r, pbFields = rFields r\<rparr>"

subsection \<open>What validation accepts\<close>

definition fields_ok :: "string gomap \<Rightarrow> bool" where
  "fields_ok fs \<longleftrightarrow> length fs \<le> MaxFields \<and>
     list_all (\<lambda>(n, v). n \<noteq> [] \<and> length n \<le> MaxFieldNameLen \<and> length v \<le> MaxFieldValueLen) fs"

definition record_ok :: "gotime \<Rightarrow> LogRecord \<Rightarrow> bool" where
  "record_ok now r \<longleftrightarrow> rTime r \<noteq> zero_time \<and>
     now - MaxBackfill \<le> rTime r \<and> rTime r \<le> now + MaxClockSkewFuture \<and>
     0 \<le> rSeq r \<and> level_Valid (rLevel r) \<and> length (rMessage r) \<le> MaxMessageLen \<and>
     length (rTraceID r) \<in> {0, TraceIDLen} \<and> length (rSpanID r) \<in> {0, SpanIDLen} \<and>
     fields_ok (rFields r)"

lemma check_field_None:
  "check_field nv = None \<longleftrightarrow>
     fst nv \<noteq> [] \<and> length (fst nv) \<le> MaxFieldNameLen \<and> length (snd nv) \<le> MaxFieldValueLen"
  by (auto simp: check_field_def validateFieldName_def)

lemma record_Validate_None: "record_Validate now r = None \<longleftrightarrow> record_ok now r"
  unfolding record_Validate_def record_ok_def fields_ok_def
  by (auto simp: check_field_None list.pred_map comp_def list_all_iff split: prod.splits)

lemma record_ok_level: "record_ok now r \<Longrightarrow> wrap16 (rLevel r) = rLevel r"
  by (auto simp: record_ok_def level_Valid_iff wrap16_def)

lemma wire_record_roundtrip:
  assumes "record_ok now r" and "int64_ok (rTime r)" and "rTime r \<noteq> 0"
  shows "LogRecordFromProto (rStreamID r) (Some (record_Proto r)) = r"
  using assms
  by (auto simp: LogRecordFromProto_def record_Proto_def record_ok_level wrap64_id)

subsection \<open>Properties\<close>

text \<open>\<^verbatim>\<open>LogRecord.Validate\<close> accepts a record exactly when its time is set and between seven days
  before and fifteen minutes after the server's clock, its sequence number is not negative, its level
  is one of the seven, its message, trace id, span id and fields are within their limits; acceptance
  does not depend on the order of the field map.\<close>

theorem record_Validate_iff:
  "(record_Validate now r = None \<longleftrightarrow> record_ok now r) \<and>
   (mset m = mset (rFields r) \<longrightarrow>
      (record_Validate now (r\<lparr>rFields := m\<rparr>) = None \<longleftrightarrow> record_Validate now r = None))"
proof -
  have "record_ok now (r\<lparr>rFields := m\<rparr>) \<longleftrightarrow> record_ok now r" if m: "mset m = mset (rFields r)"
    using mset_eq_setD[OF m] mset_eq_length[OF m]
    by (simp add: record_ok_def fields_ok_def list_all_iff)
  then show ?thesis by (simp add: record_Validate_None)
qed

definition rec1 :: LogRecord where
  "rec1 = \<lparr>rStreamID = 7, rTime = 1000 * second, rSeq = 3, rLevel = 4, rMessage = ''boom'',
     rTraceID = [], rSpanID = ''01234567'', rFields = [(''a'', ''1''), (''b'', ''2'')]\<rparr>"

lemma rec1_ok: "record_ok (1000 * second) rec1"
  by (simp add: record_ok_def rec1_def fields_ok_def record_limits duration_defs zero_time_def
      level_Valid_iff)

theorem record_Validate_iff_witness:
  "record_Validate (1000 * second) rec1 = None \<and>
   record_Validate (1000 * second) (rec1\<lparr>rFields := [(''b'', ''2''), (''a'', ''1'')]\<rparr>) = None"
  using record_Validate_iff[of "1000 * second" rec1 "[(''b'', ''2''), (''a'', ''1'')]"] rec1_ok
  by (simp add: rec1_def)

text \<open>A record that passed validation survives the wire: converted to its protobuf message and
  back under the same stream id it is the same record, provided its time is representable in 64-bit
  nanoseconds and is not the Unix epoch itself (which the message cannot tell from an unset time).\<close>

theorem wire_roundtrip:
  assumes "record_Validate now r = None" and "int64_ok (rTime r)" and "rTime r \<noteq> 0"
  shows "LogRecordFromProto (rStreamID r) (Some (record_Proto r)) = r"
  using assms wire_record_roundtrip by (simp add: record_Validate_None)

theorem wire_roundtrip_witness:
  "LogRecordFromProto 7 (Some (record_Proto rec1)) = rec1"
proof -
  have "record_Validate (1000 * second) rec1 = None"
    using rec1_ok by (simp add: record_Validate_None)
  moreover have "rStreamID rec1 = 7" and "int64_ok (rTime rec1)" and "rTime rec1 \<noteq> 0"
    by (simp_all add: rec1_def int64_ok_def second_def)
  ultimately show ?thesis using wire_roundtrip by metis
qed

text \<open>The level of a wire message is narrowed from 32 to 16 bits before it is validated, so 65537
  arrives as level 1 and is accepted.\<close>

lemma level_narrowing: "rLevel (LogRecordFromProto sid (Some (p\<lparr>pbLevel := 65537\<rparr>))) = 1"
  by (simp add: LogRecordFromProto_def wrap16_def)

end
