(* ===== verification/Query_Match.thy ===== *)
theory Query_Match
  imports Query_Plan Records
begin

text \<open>
  \<^verbatim>\<open>internal/query/match.go\<close>: the in-memory evaluator live tail uses in place of the database. The
  closures of an \<^verbatim>\<open>Evaluator\<close> are functions, kept in two lists as in the source. The lemmas relate it
  to a direct reading of the query: which matchers and line filters hold of a record.
\<close>

record Evaluator =
  evStream :: "(LabelSet \<Rightarrow> bool) list"
  evRecord :: "(LogRecord \<Rightarrow> bool) list"

datatype eval_err =
    LabelFilterNeedsQuery Pos string | ParserNeedsQuery Pos ParserKind | UnsupportedStage
  | CannotAggregate Pos

definition dotall :: "string \<Rightarrow> string" where
  "dotall re = ''(?s)'' @ re"

definition textPred :: "golib \<Rightarrow> Op \<Rightarrow> string \<Rightarrow> string \<Rightarrow> bool" where
  "textPred L op value s = (case op of
     OpEq \<Rightarrow> s = value
   | OpNeq \<Rightarrow> s \<noteq> value
   | OpRe \<Rightarrow> re_find L (dotall (anchor value)) s
   | OpNre \<Rightarrow> \<not> re_find L (dotall (anchor value)) s
   | OpGte \<Rightarrow> value \<le> s
   | OpLte \<Rightarrow> s \<le> value
   | OpGt \<Rightarrow> value < s
   | OpLt \<Rightarrow> s < value)"

definition label_get :: "string \<Rightarrow> LabelSet \<Rightarrow> string \<times> bool" where
  "label_get label ls =
     (if label = ''service'' then (Service ls, True)
      else if label = ''host'' then (Host ls, True)
      else if label = ''env'' then (Env ls, True)
      else (goget (Extra ls) label, map_of (Extra ls) label \<noteq> None))"

definition labelPred :: "golib \<Rightarrow> Matcher \<Rightarrow> LabelSet \<Rightarrow> bool" where
  "labelPred L sel ls =
     (if mOp sel = OpEq then (case label_get (mLabel sel) ls of (v, ok) \<Rightarrow> ok \<and> v = mValue sel)
      else textPred L (mOp sel) (mValue sel) (fst (label_get (mLabel sel) ls)))"

definition levelPred :: "Op \<Rightarrow> int \<Rightarrow> LogRecord \<Rightarrow> bool" where
  "levelPred op want r = (case op of
     OpEq \<Rightarrow> rLevel r = want
   | OpNeq \<Rightarrow> rLevel r \<noteq> want
   | OpGte \<Rightarrow> want \<le> rLevel r
   | OpLte \<Rightarrow> rLevel r \<le> want
   | OpGt \<Rightarrow> want < rLevel r
   | _ \<Rightarrow> rLevel r < want)"

definition linePred :: "golib \<Rightarrow> LineFilter \<Rightarrow> LogRecord \<Rightarrow> bool" where
  "linePred L f r =
     (if lineop_IsRegex (lfOp f)
      then re_find L (dotall (lfText f)) (rMessage r) = (lfOp f = LineMatches)
      else sublist (to_lower L (lfText f)) (to_lower L (rMessage r)) = (lfOp f = LineContains))"

fun unsupported :: "Stage \<Rightarrow> eval_err" where
  "unsupported (SLabel f) = LabelFilterNeedsQuery (bfPos f) (bfLabel f)"
| "unsupported (SParser p) = ParserNeedsQuery (psPos p) (psKind p)"
| "unsupported (SLine f) = UnsupportedStage"

text \<open>The value \<^verbatim>\<open>ParseLevel\<close> returns beside an error is \<^verbatim>\<open>LevelUnspecified\<close>.\<close>

definition level_value :: "golib \<Rightarrow> string \<Rightarrow> int" where
  "level_value L s = (case ParseLevel L s of Inl _ \<Rightarrow> LevelUnspecified | Inr l \<Rightarrow> l)"

fun eval_matchers :: "golib \<Rightarrow> Matcher list \<Rightarrow> Evaluator \<Rightarrow> Evaluator" where
  "eval_matchers L [] m = m"
| "eval_matchers L (sel # sels) m =
     (if mLabel sel = ''level''
      then eval_matchers L sels (m\<lparr>evRecord := evRecord m @ [levelPred (mOp sel) (level_value L (mValue sel))]\<rparr>)
      else eval_matchers L sels (m\<lparr>evStream := evStream m @ [labelPred L sel]\<rparr>))"

fun eval_stages :: "golib \<Rightarrow> Stage list \<Rightarrow> Evaluator \<Rightarrow> eval_err + Evaluator" where
  "eval_stages L [] m = Inr m"
| "eval_stages L (SLine f # sts) m = eval_stages L sts (m\<lparr>evRecord := evRecord m @ [linePred L f]\<rparr>)"
| "eval_stages L (st # sts) m = Inl (unsupported st)"

definition NewEvaluator :: "golib \<Rightarrow> Query \<Rightarrow> eval_err + Evaluator" where
  "NewEvaluator L q =
     (case eval_stages L (qStages q)
             (eval_matchers L (selMatchers (qSelector q)) \<lparr>evStream = [], evRecord = []\<rparr>) of
        Inl e \<Rightarrow> Inl e
      | Inr m \<Rightarrow> (case qAgg q of Some a \<Rightarrow> Inl (CannotAggregate (agPos a)) | None \<Rightarrow> Inr m))"

definition MatchStream :: "Evaluator \<Rightarrow> LabelSet \<Rightarrow> bool" where
  "MatchStream m ls = list_all (\<lambda>p. p ls) (evStream m)"

definition MatchRecord :: "Evaluator \<Rightarrow> LogRecord \<Rightarrow> bool" where
  "MatchRecord m r = list_all (\<lambda>p. p r) (evRecord m)"

subsection \<open>The meaning of a tail query\<close>

definition is_line :: "Stage \<Rightarrow> bool" where
  "is_line st = (case st of SLine _ \<Rightarrow> True | _ \<Rightarrow> False)"

definition stage_line :: "Stage \<Rightarrow> LineFilter" where
  "stage_line st = (case st of SLine f \<Rightarrow> f | _ \<Rightarrow> \<lparr>lfPos = \<lparr>Line = 0, Col = 0\<rparr>, lfOp = LineContains, lfText = []\<rparr>)"

definition tail_query :: "Query \<Rightarrow> bool" where
  "tail_query q \<longleftrightarrow> list_all is_line (qStages q) \<and> qAgg q = None"

definition stream_sat :: "golib \<Rightarrow> Query \<Rightarrow> LabelSet \<Rightarrow> bool" where
  "stream_sat L q ls \<longleftrightarrow>
     (\<forall>m\<in>set (selMatchers (qSelector q)). mLabel m \<noteq> ''level'' \<longrightarrow> labelPred L m ls)"

definition record_sat :: "golib \<Rightarrow> Query \<Rightarrow> LogRecord \<Rightarrow> bool" where
  "record_sat L q r \<longleftrightarrow>
     (\<forall>m\<in>set (selMatchers (qSelector q)). mLabel m = ''level'' \<longrightarrow> levelPred (mOp m) (level_value L (mValue m)) r) \<and>
     (\<forall>st\<in>set (qStages q). linePred L (stage_line st) r)"

lemma eval_matchers_eq:
  "eval_matchers L ms m =
     m\<lparr>evStream := evStream m @ map (labelPred L) (filter (\<lambda>s. mLabel s \<noteq> ''level'') ms),
       evRecord := evRecord m @ map (\<lambda>s. levelPred (mOp s) (level_value L (mValue s)))
         (filter (\<lambda>s. mLabel s = ''level'') ms)\<rparr>"
  by (induction ms arbitrary: m) simp_all

lemma stage_line_simps [simp]:
  "is_line (SLine f)" "\<not> is_line (SLabel b)" "\<not> is_line (SParser p)" "stage_line (SLine f) = f"
  by (simp_all add: is_line_def stage_line_def)

lemma eval_stages_eq:
  "eval_stages L sts m =
     (if list_all is_line sts then Inr (m\<lparr>evRecord := evRecord m @ map (linePred L \<circ> stage_line) sts\<rparr>)
      else Inl (unsupported (hd (dropWhile is_line sts))))"
  by (induction L sts m rule: eval_stages.induct) simp_all

lemma NewEvaluator_ok:
  "(case NewEvaluator L q of
      Inl _ \<Rightarrow> \<not> tail_query q
    | Inr m \<Rightarrow> tail_query q \<and> (\<forall>ls. MatchStream m ls \<longleftrightarrow> stream_sat L q ls) \<and>
        (\<forall>r. MatchRecord m r \<longleftrightarrow> record_sat L q r))"
  by (auto simp: NewEvaluator_def eval_stages_eq eval_matchers_eq tail_query_def MatchStream_def
      MatchRecord_def stream_sat_def record_sat_def list_all_iff split: option.splits sum.splits)

subsection \<open>Properties\<close>


end
