(* ===== verification/Queue_Subject.thy ===== *)
theory Queue_Subject
  imports Labels
begin

text \<open>
  \<^verbatim>\<open>internal/queue/queue.go\<close>: the subject a batch is published under and the filter a live tail
  subscribes with, together with the wildcard rules of a subject (\<^verbatim>\<open>matchSubject\<close> of the in-memory
  broker in \<^verbatim>\<open>internal/queue/queuetest\<close>).
\<close>

definition MaxSubjectTokenLen :: nat where "MaxSubjectTokenLen = 64"

definition emptyToken :: string where "emptyToken = ''_''"

definition token_char :: "char \<Rightarrow> bool" where
  "token_char c \<longleftrightarrow> name_start c \<or> is_digit c \<or> c = CHR ''-''"

definition sanitizeToken :: "string \<Rightarrow> string" where
  "sanitizeToken s =
     (let b = map (\<lambda>c. if token_char c then c else CHR ''_'') (take MaxSubjectTokenLen s)
      in if b = [] then emptyToken else b)"

definition Subject :: "string \<Rightarrow> string \<Rightarrow> string \<Rightarrow> string" where
  "Subject pre env service = pre @ ''.'' @ sanitizeToken env @ ''.'' @ sanitizeToken service"

definition Filter :: "string \<Rightarrow> string \<Rightarrow> string \<Rightarrow> string" where
  "Filter pre env service =
     (let tok = (\<lambda>s. if s = [] then ''*'' else sanitizeToken s)
      in pre @ ''.'' @ tok env @ ''.'' @ tok service)"

text \<open>\<^verbatim>\<open>strings.Split(s, ".")\<close>.\<close>

fun split_dot :: "string \<Rightarrow> string list" where
  "split_dot [] = [[]]"
| "split_dot (c # cs) =
     (if c = CHR ''.'' then [] # split_dot cs
      else (case split_dot cs of [] \<Rightarrow> [[c]] | t # ts \<Rightarrow> (c # t) # ts))"

fun match_tokens :: "string list \<Rightarrow> string list \<Rightarrow> bool" where
  "match_tokens [] s = (s = [])"
| "match_tokens (tok # f) s =
     (if tok = ''>'' then s \<noteq> []
      else (case s of [] \<Rightarrow> False
            | t # ts \<Rightarrow> if tok \<noteq> ''*'' \<and> tok \<noteq> t then False else match_tokens f ts))"

definition matchSubject :: "string \<Rightarrow> string \<Rightarrow> bool" where
  "matchSubject filter' subject = match_tokens (split_dot filter') (split_dot subject)"

subsection \<open>Facts\<close>

lemma split_dot_nonempty [simp]: "split_dot s \<noteq> []"
  by (cases s) (auto split: list.splits)

lemma split_dot_append: "split_dot (p @ ''.'' @ s) = split_dot p @ split_dot s"
  by (induction p) (auto split: list.splits)

lemma split_dot_token: "CHR ''.'' \<notin> set s \<Longrightarrow> split_dot s = [s]"
  by (induction s) auto

lemma sanitizeToken_chars: "list_all token_char (sanitizeToken s)"
  by (auto simp: sanitizeToken_def Let_def emptyToken_def token_char_def name_start_def list_all_iff)

lemma sanitizeToken_nonempty [simp]: "sanitizeToken s \<noteq> []"
  by (simp add: sanitizeToken_def Let_def emptyToken_def)

lemma sanitizeToken_len: "length (sanitizeToken s) \<le> MaxSubjectTokenLen"
  by (auto simp: sanitizeToken_def Let_def emptyToken_def MaxSubjectTokenLen_def)

lemma token_char_plain: "\<not> token_char (CHR ''.'')" "\<not> token_char (CHR ''*'')" "\<not> token_char (CHR ''>'')"
  by (simp_all add: token_char_def name_start_def is_digit_def)

lemma sanitizeToken_no_dot: "CHR ''.'' \<notin> set (sanitizeToken s)"
  using sanitizeToken_chars[of s] token_char_plain by (auto simp: list_all_iff)

lemma match_tokens_prefix: "match_tokens f s \<Longrightarrow> match_tokens (p @ f) (p @ s)" if "s \<noteq> []"
  using that by (induction p) auto

lemma Subject_tokens: "split_dot (Subject p e s) = split_dot p @ [sanitizeToken e, sanitizeToken s]"
  using sanitizeToken_no_dot by (simp only: Subject_def split_dot_append split_dot_token)
    (simp add: split_dot_token)

lemma Filter_tokens:
  "split_dot (Filter p e s) = split_dot p @ [if e = [] then ''*'' else sanitizeToken e,
     if s = [] then ''*'' else sanitizeToken s]"
proof -
  have "CHR ''.'' \<notin> set (if x = [] then ''*'' else sanitizeToken x)" for x
    using sanitizeToken_no_dot by simp
  then show ?thesis
    by (simp only: Filter_def Let_def split_dot_append split_dot_token)
      (simp add: split_dot_token sanitizeToken_no_dot)
qed

lemma Filter_matches:
  assumes "env = [] \<or> env = e" and "service = [] \<or> service = s"
  shows "matchSubject (Filter p env service) (Subject p e s)"
  unfolding matchSubject_def Filter_tokens Subject_tokens
  by (rule match_tokens_prefix) (use assms in auto)

subsection \<open>Properties\<close>

text \<open>A subject is safe to publish to whatever the labels are: after the prefix it has exactly two
  more tokens, each between 1 and 64 characters from letters, digits, dash and underscore, so no label
  value can add a token or a wildcard; and a filter built from the same labels, or with either left
  open, matches it.\<close>

theorem Subject_tokens_safe:
  "\<exists>e s. split_dot (Subject p env service) = split_dot p @ [e, s] \<and>
     list_all (\<lambda>t. 0 < length t \<and> length t \<le> MaxSubjectTokenLen \<and> list_all token_char t \<and>
        t \<notin> {''*'', ''>''}) [e, s] \<and>
     matchSubject (Filter p env service) (Subject p env service) \<and>
     matchSubject (Filter p [] service) (Subject p env service) \<and>
     matchSubject (Filter p env []) (Subject p env service)"
proof -
  have "sanitizeToken x \<notin> {''*'', ''>''}" for x
    using sanitizeToken_chars[of x] token_char_plain by auto
  then show ?thesis
    using Subject_tokens[of p env service] sanitizeToken_chars sanitizeToken_len Filter_matches
    by (intro exI[of _ "sanitizeToken env"] exI[of _ "sanitizeToken service"]) auto
qed

end
