(* ===== verification/Tail.thy ===== *)
theory Tail
  imports Query_Match Queue_Subject
begin

text \<open>
  \<^verbatim>\<open>internal/tail/tail.go\<close>: live tail. A \<^verbatim>\<open>Subscription\<close> has a bounded channel that the delivery
  goroutine offers matched records to and the client drains; a \<^verbatim>\<open>Registry\<close> tracks the open
  subscriptions of a node. Channel operations are the steps that interleave, so the behaviour of a
  subscription is stated over arbitrary sequences of deliveries and receives.

  What tail relies on from the queue is the locale \<open>subject_routing\<close>; it is interpreted on the
  subjects and filters of \<^verbatim>\<open>internal/queue\<close>.
\<close>

record Subscription =
  sbEv :: Evaluator
  sbCap :: nat
  sbCh :: "(LabelSet \<times> LogRecord) list"
  sbDropped :: nat
  sbDelivered :: nat

definition new_sub :: "Evaluator \<Rightarrow> int \<Rightarrow> Subscription" where
  "new_sub ev buffer = \<lparr>sbEv = ev, sbCap = nat (max buffer 1), sbCh = [], sbDropped = 0, sbDelivered = 0\<rparr>"

fun pinned_from :: "string \<times> string \<Rightarrow> Matcher list \<Rightarrow> string \<times> string" where
  "pinned_from (env, service) [] = (env, service)"
| "pinned_from (env, service) (m # ms) =
     (if mOp m \<noteq> OpEq then pinned_from (env, service) ms
      else if mLabel m = ''env'' then pinned_from (mValue m, service) ms
      else if mLabel m = ''service'' then pinned_from (env, mValue m) ms
      else pinned_from (env, service) ms)"

definition pinned :: "Selector \<Rightarrow> string \<times> string" where
  "pinned sel = pinned_from ([], []) (selMatchers sel)"

text \<open>The \<^verbatim>\<open>select\<close> with a default: a record goes into the channel if there is room and is counted as
  dropped otherwise.\<close>

definition offer :: "LabelSet \<times> LogRecord \<Rightarrow> Subscription \<Rightarrow> Subscription" where
  "offer r s =
     (if length (sbCh s) < sbCap s
      then s\<lparr>sbCh := sbCh s @ [r], sbDelivered := sbDelivered s + 1\<rparr>
      else s\<lparr>sbDropped := sbDropped s + 1\<rparr>)"

fun offer_records :: "LabelSet \<Rightarrow> u64 \<Rightarrow> pb_LogRecord list \<Rightarrow> Subscription \<Rightarrow> Subscription" where
  "offer_records labels sid [] s = s"
| "offer_records labels sid (pb # pbs) s =
     (let r = LogRecordFromProto sid (Some pb) in
      if \<not> MatchRecord (sbEv s) r then offer_records labels sid pbs s
      else offer_records labels sid pbs (offer (labels, r) s))"

text \<open>\<^verbatim>\<open>deliver\<close>; \<open>unmarshal\<close> is \<^verbatim>\<open>proto.Unmarshal\<close> for a batch.\<close>

definition deliver :: "golib \<Rightarrow> (bytes \<Rightarrow> pb_LogBatch option) \<Rightarrow> bytes \<Rightarrow> Subscription \<Rightarrow> Subscription" where
  "deliver L unmarshal payload s = (case unmarshal payload of
     None \<Rightarrow> s
   | Some batch \<Rightarrow>
      (let labels = LabelSetFromProto (pbLabels batch) in
       if \<not> MatchStream (sbEv s) labels then s
       else offer_records labels (label_ID L labels) (pbRecords batch) s))"

text \<open>The client takes the oldest record, if there is one.\<close>

definition receive :: "Subscription \<Rightarrow> (LabelSet \<times> LogRecord) option \<times> Subscription" where
  "receive s = (case sbCh s of [] \<Rightarrow> (None, s) | r # rs \<Rightarrow> (Some r, s\<lparr>sbCh := rs\<rparr>))"

subsection \<open>The registry\<close>

record Registry =
  rgSubs :: "nat list"
  rgClosed :: bool
  rgGauge :: int

datatype tail_err = TailQuery eval_err | TailSubscribe | TailClosed

text \<open>Subscription \<open>i\<close> joins; \<open>sub_ok\<close> is whether the broker accepted the subscription.\<close>

definition reg_Subscribe :: "golib \<Rightarrow> bool \<Rightarrow> nat \<Rightarrow> Query \<Rightarrow> Registry \<Rightarrow> (tail_err + nat) \<times> Registry" where
  "reg_Subscribe L sub_ok i q r = (case NewEvaluator L q of
     Inl e \<Rightarrow> (Inl (TailQuery e), r)
   | Inr ev \<Rightarrow>
      (if \<not> sub_ok then (Inl TailSubscribe, r)
       else if rgClosed r then (Inl TailClosed, r)
       else (Inr i, r\<lparr>rgSubs := rgSubs r @ [i], rgGauge := rgGauge r + 1\<rparr>)))"

definition reg_remove :: "nat \<Rightarrow> Registry \<Rightarrow> Registry" where
  "reg_remove i r =
     (if i \<in> set (rgSubs r)
      then r\<lparr>rgSubs := filter (\<lambda>j. j \<noteq> i) (rgSubs r), rgGauge := rgGauge r - 1\<rparr> else r)"

definition reg_Close :: "Registry \<Rightarrow> Registry" where
  "reg_Close r = foldl (\<lambda>r i. reg_remove i r) (r\<lparr>rgClosed := True\<rparr>) (rgSubs r)"

definition reg_ok :: "Registry \<Rightarrow> bool" where
  "reg_ok r \<longleftrightarrow> distinct (rgSubs r) \<and> rgGauge r = int (length (rgSubs r))"

lemma length_filter_neq:
  "distinct xs \<Longrightarrow> i \<in> set xs \<Longrightarrow> length xs = Suc (length (filter (\<lambda>j. j \<noteq> i) xs))"
proof (induction xs)
  case (Cons x xs)
  show ?case
  proof (cases "x = i")
    case True
    then have "filter (\<lambda>j. j \<noteq> i) xs = xs" using Cons.prems by (auto simp: filter_id_conv)
    with True show ?thesis by simp
  qed (use Cons in auto)
qed simp

lemma reg_remove_ok [wf_intros]: "reg_ok r \<Longrightarrow> reg_ok (reg_remove i r)"
  using length_filter_neq[of "rgSubs r" i] by (auto simp: reg_ok_def reg_remove_def)

lemma reg_Subscribe_ok [wf_intros]:
  "reg_ok r \<Longrightarrow> i \<notin> set (rgSubs r) \<Longrightarrow> reg_ok (snd (reg_Subscribe L ok i q r))"
  by (auto simp: reg_ok_def reg_Subscribe_def split: sum.splits)

lemma reg_remove_set [simp]:
  "set (rgSubs (reg_remove i r)) = set (rgSubs r) - {i}" "rgClosed (reg_remove i r) = rgClosed r"
  by (auto simp: reg_remove_def)

lemma reg_remove_all:
  assumes "reg_ok r"
  shows "reg_ok (foldl (\<lambda>r i. reg_remove i r) r is) \<and>
    set (rgSubs (foldl (\<lambda>r i. reg_remove i r) r is)) = set (rgSubs r) - set is \<and>
    rgClosed (foldl (\<lambda>r i. reg_remove i r) r is) = rgClosed r"
  using assms by (induction "is" arbitrary: r) (auto simp: reg_remove_ok)

lemma reg_Close_ok:
  assumes "reg_ok r"
  shows "reg_ok (reg_Close r) \<and> rgSubs (reg_Close r) = [] \<and> rgClosed (reg_Close r) \<and> rgGauge (reg_Close r) = 0"
proof -
  have "reg_ok (r\<lparr>rgClosed := True\<rparr>)" using assms by (simp add: reg_ok_def)
  from reg_remove_all[OF this, of "rgSubs r"] show ?thesis by (simp add: reg_Close_def reg_ok_def)
qed

subsection \<open>Interleaving deliveries and receives\<close>

datatype sub_event = Deliver bytes | Receive

fun sub_run :: "golib \<Rightarrow> (bytes \<Rightarrow> pb_LogBatch option) \<Rightarrow> sub_event list \<Rightarrow> Subscription \<Rightarrow>
    (LabelSet \<times> LogRecord) list \<times> Subscription" where
  "sub_run L um [] s = ([], s)"
| "sub_run L um (Deliver p # es) s = sub_run L um es (deliver L um p s)"
| "sub_run L um (Receive # es) s =
     (case receive s of (None, s') \<Rightarrow> sub_run L um es s'
      | (Some r, s') \<Rightarrow> (case sub_run L um es s' of (rs, s'') \<Rightarrow> (r # rs, s'')))"

text \<open>The records of a payload that the query matches, labelled, in order.\<close>

definition matches :: "golib \<Rightarrow> (bytes \<Rightarrow> pb_LogBatch option) \<Rightarrow> Evaluator \<Rightarrow> bytes \<Rightarrow> (LabelSet \<times> LogRecord) list" where
  "matches L um ev payload = (case um payload of None \<Rightarrow> []
   | Some batch \<Rightarrow>
      (let labels = LabelSetFromProto (pbLabels batch) in
       if MatchStream ev labels
       then map (Pair labels) (filter (MatchRecord ev)
              (map (\<lambda>pb. LogRecordFromProto (label_ID L labels) (Some pb)) (pbRecords batch)))
       else []))"

definition all_matches :: "golib \<Rightarrow> (bytes \<Rightarrow> pb_LogBatch option) \<Rightarrow> Evaluator \<Rightarrow> sub_event list \<Rightarrow> (LabelSet \<times> LogRecord) list" where
  "all_matches L um ev es = concat (map (\<lambda>e. case e of Deliver p \<Rightarrow> matches L um ev p | Receive \<Rightarrow> []) es)"

lemma offer_ev [simp]: "sbEv (offer r s) = sbEv s" "sbCap (offer r s) = sbCap s"
  by (simp_all add: offer_def)

lemma offer_records_fold:
  "offer_records labels sid pbs s =
     fold offer (map (Pair labels) (filter (MatchRecord (sbEv s))
       (map (\<lambda>pb. LogRecordFromProto sid (Some pb)) pbs))) s"
  by (induction labels sid pbs s rule: offer_records.induct) (simp_all add: Let_def)

lemma deliver_fold: "deliver L um p s = fold offer (matches L um (sbEv s) p) s"
  by (simp add: deliver_def matches_def offer_records_fold Let_def split: option.splits)

text \<open>What one run of offers does: the channel grows by a subsequence of what was offered, it never
  exceeds its capacity, and every record is counted once.\<close>

lemma fold_offer:
  assumes "length (sbCh s) \<le> sbCap s"
  shows "\<exists>kept. subseq kept rs \<and> sbCh (fold offer rs s) = sbCh s @ kept \<and>
    length (sbCh (fold offer rs s)) \<le> sbCap s \<and>
    sbEv (fold offer rs s) = sbEv s \<and> sbCap (fold offer rs s) = sbCap s \<and>
    sbDelivered (fold offer rs s) = sbDelivered s + length kept \<and>
    sbDropped (fold offer rs s) + length kept = sbDropped s + length rs"
  using assms
proof (induction rs arbitrary: s)
  case (Cons r rs)
  have "length (sbCh (offer r s)) \<le> sbCap (offer r s)" using Cons.prems by (simp add: offer_def)
  from Cons.IH[OF this] obtain k where k: "subseq k rs" "sbCh (fold offer rs (offer r s)) = sbCh (offer r s) @ k"
    "length (sbCh (fold offer rs (offer r s))) \<le> sbCap s" "sbEv (fold offer rs (offer r s)) = sbEv s"
    "sbCap (fold offer rs (offer r s)) = sbCap s"
    "sbDelivered (fold offer rs (offer r s)) = sbDelivered (offer r s) + length k"
    "sbDropped (fold offer rs (offer r s)) + length k = sbDropped (offer r s) + length rs"
    by auto
  show ?case
  proof (cases "length (sbCh s) < sbCap s")
    case True
    with k show ?thesis by (intro exI[of _ "r # k"]) (simp add: offer_def[of r s])
  next
    case False
    with k show ?thesis by (intro exI[of _ k]) (simp add: offer_def[of r s] list_emb_Cons)
  qed
qed auto

definition sub_ok :: "Subscription \<Rightarrow> bool" where
  "sub_ok s \<longleftrightarrow> length (sbCh s) \<le> sbCap s"

lemma sub_run_spec:
  assumes "sub_ok s" and "sub_run L um es s = (got, s')"
  shows "\<exists>kept. subseq kept (all_matches L um (sbEv s) es) \<and> got @ sbCh s' = sbCh s @ kept \<and> sub_ok s' \<and>
    sbDelivered s' = sbDelivered s + length kept \<and>
    sbDropped s' + length kept = sbDropped s + length (all_matches L um (sbEv s) es)"
  using assms
proof (induction L um es s arbitrary: got rule: sub_run.induct)
  case (1 L um s)
  then show ?case by (auto simp: all_matches_def)
next
  case (2 L um p es s)
  let ?m = "matches L um (sbEv s) p" and ?s1 = "deliver L um p s"
  from fold_offer[of s ?m] obtain k where k: "subseq k ?m" "sbCh ?s1 = sbCh s @ k" "sub_ok ?s1"
      "sbEv ?s1 = sbEv s" "sbDelivered ?s1 = sbDelivered s + length k"
      "sbDropped ?s1 + length k = sbDropped s + length ?m"
    using "2.prems"(1) by (auto simp: deliver_fold sub_ok_def)
  from "2.IH"[OF k(3), of got] "2.prems"(2) obtain j where j: "subseq j (all_matches L um (sbEv s) es)"
      "got @ sbCh s' = sbCh ?s1 @ j" "sub_ok s'" "sbDelivered s' = sbDelivered ?s1 + length j"
      "sbDropped s' + length j = sbDropped ?s1 + length (all_matches L um (sbEv s) es)"
    using k(4) by auto
  have "all_matches L um (sbEv s) (Deliver p # es) = ?m @ all_matches L um (sbEv s) es"
    by (simp add: all_matches_def)
  with k j show ?case by (intro exI[of _ "k @ j"]) (auto intro: list_emb_append_mono)
next
  case (3 L um es s)
  show ?case
  proof (cases "sbCh s")
    case Nil
    with 3 show ?thesis by (simp add: receive_def all_matches_def)
  next
    case (Cons r rs)
    let ?s1 = "s\<lparr>sbCh := rs\<rparr>"
    obtain got' where g: "sub_run L um es ?s1 = (got', s')" "got = r # got'"
      using 3 Cons by (auto simp: receive_def split: prod.splits)
    have "sub_ok ?s1" using "3.prems"(1) Cons by (simp add: sub_ok_def)
    moreover have "receive s = (Some r, ?s1)" using Cons by (simp add: receive_def)
    ultimately show ?thesis using "3.IH"(2)[OF _ refl, of r ?s1 got'] g Cons
      by (auto simp: receive_def all_matches_def)
  qed
qed

subsection \<open>Relying on the queue's subjects\<close>

locale subject_routing =
  fixes subj :: "string \<Rightarrow> string \<Rightarrow> string \<Rightarrow> string"
    and filt :: "string \<Rightarrow> string \<Rightarrow> string \<Rightarrow> string"
    and routes :: "string \<Rightarrow> string \<Rightarrow> bool"
  assumes open_or_equal: "env = [] \<or> env = e \<Longrightarrow> service = [] \<or> service = s \<Longrightarrow>
    routes (filt p env service) (subj p e s)"
begin

lemma pinned_from_sat:
  assumes "\<And>m. m \<in> set ms \<Longrightarrow> mLabel m \<noteq> ''level'' \<Longrightarrow> labelPred L m ls"
    and "env = [] \<or> env = Env ls" and "service = [] \<or> service = Service ls"
    and "pinned_from (env, service) ms = (e, s)"
  shows "(e = [] \<or> e = Env ls) \<and> (s = [] \<or> s = Service ls)"
  using assms
proof (induction ms arbitrary: env service)
  case (Cons m ms)
  have "labelPred L m ls" if "mLabel m \<noteq> ''level''"
    using Cons.prems(1)[of m] that by simp
  then have "mOp m = OpEq \<Longrightarrow> mLabel m = ''env'' \<Longrightarrow> mValue m = Env ls"
    and "mOp m = OpEq \<Longrightarrow> mLabel m = ''service'' \<Longrightarrow> mValue m = Service ls"
    by (auto simp: labelPred_def label_get_def)
  with Cons show ?case by (auto split: if_splits)
qed auto

lemma pinned_routes:
  assumes "stream_sat L q ls"
  shows "routes (filt p (fst (pinned (qSelector q))) (snd (pinned (qSelector q)))) (subj p (Env ls) (Service ls))"
  using pinned_from_sat[of "selMatchers (qSelector q)" L ls "[]" "[]"] assms
  by (intro open_or_equal) (auto simp: pinned_def stream_sat_def prod_eq_iff)

end

interpretation nats: subject_routing Subject Filter matchSubject
  by unfold_locales (rule Filter_matches)

subsection \<open>Properties\<close>

text \<open>C24. A live tail never misses a matching batch: if the query accepts a batch's labels, the subject
  the batch is fanned out under matches the filter the tail subscribed with, however lossy the subject
  tokens and whatever the prefix, so the batch reaches the evaluator.\<close>

theorem tail_filter_never_undermatches:
  assumes "NewEvaluator L q = Inr ev" and "MatchStream ev ls"
  shows "matchSubject (Filter p (fst (pinned (qSelector q))) (snd (pinned (qSelector q))))
    (Subject p (Env ls) (Service ls))"
  using NewEvaluator_ok[where L = L and q = q] assms by (intro nats.pinned_routes[of L]) simp

definition tail_q :: Query where
  "tail_q = \<lparr>qText = [], qSelector = \<lparr>selPos = \<lparr>Line = 1, Col = 1\<rparr>, selMatchers =
        [\<lparr>mPos = \<lparr>Line = 1, Col = 2\<rparr>, mLabel = ''service'', mOp = OpEq, mValue = ''api''\<rparr>]\<rparr>,
     qStages = [], qAgg = None\<rparr>"

theorem tail_filter_never_undermatches_witness:
  "matchSubject (Filter ''tail'' (fst (pinned (qSelector tail_q))) (snd (pinned (qSelector tail_q))))
     (Subject ''tail'' (Env ls_ab) (Service ls_ab)) \<and> pinned (qSelector tail_q) = ([], ''api'')"
proof -
  have "NewEvaluator lib0 tail_q = Inr \<lparr>evStream = [labelPred lib0 \<lparr>mPos = \<lparr>Line = 1, Col = 2\<rparr>,
      mLabel = ''service'', mOp = OpEq, mValue = ''api''\<rparr>], evRecord = []\<rparr>" (is "_ = Inr ?ev")
    by (simp add: NewEvaluator_def tail_q_def)
  moreover have "MatchStream ?ev ls_ab"
    by (simp add: MatchStream_def labelPred_def label_get_def ls_ab_def)
  ultimately show ?thesis
    using tail_filter_never_undermatches[of lib0 tail_q ?ev ls_ab "''tail''"]
    by (simp add: pinned_def tail_q_def)
qed

text \<open>A slow tail client loses records but nothing else goes wrong: for every interleaving of
  deliveries and receives, what the client has received followed by what is still buffered is a
  subsequence, in order, of the records the query matches; the buffer never exceeds its capacity; and
  every matched record is counted exactly once, as delivered or as dropped.\<close>

theorem tail_delivery:
  assumes "sub_run L um es (new_sub ev buffer) = (got, s)"
  shows "subseq (got @ sbCh s) (all_matches L um ev es) \<and> length (sbCh s) \<le> sbCap s \<and>
    sbDelivered s = length (got @ sbCh s) \<and>
    sbDelivered s + sbDropped s = length (all_matches L um ev es)"
proof -
  have "sub_ok (new_sub ev buffer)" by (simp add: sub_ok_def new_sub_def)
  from sub_run_spec[OF this assms] obtain k where k: "subseq k (all_matches L um ev es)"
    "got @ sbCh s = k" "sub_ok s" "sbDelivered s = length k" "sbDropped s + length k = length (all_matches L um ev es)"
    by (auto simp: new_sub_def)
  then show ?thesis by (simp add: sub_ok_def)
qed

theorem tail_delivery_witness:
  "\<exists>got s. sub_run lib0 (\<lambda>_. None) [Deliver ''x'', Receive] (new_sub \<lparr>evStream = [], evRecord = []\<rparr> 4) = (got, s) \<and>
     sbDelivered s = length (got @ sbCh s)"
  using tail_delivery[of lib0 "\<lambda>_. None" "[Deliver ''x'', Receive]" "\<lparr>evStream = [], evRecord = []\<rparr>" 4]
  by (metis surj_pair)

text \<open>The registry's gauge counts the open subscriptions: subscribing and removing keep them
  distinct and counted, and closing the registry ends every one of them and refuses any later one.\<close>

theorem registry_consistent:
  assumes "reg_ok r" and "i \<notin> set (rgSubs r)"
  shows "reg_ok (snd (reg_Subscribe L ok i q r)) \<and> reg_ok (reg_remove j r) \<and> reg_ok (reg_Close r) \<and>
    rgSubs (reg_Close r) = [] \<and> rgGauge (reg_Close r) = 0 \<and>
    (\<forall>n. fst (reg_Subscribe L ok i q (reg_Close r)) \<noteq> Inr n)"
  using assms reg_Close_ok[of r]
  by (auto intro: wf_intros) (auto simp: reg_Subscribe_def split: sum.splits if_splits)

theorem registry_consistent_witness:
  "reg_ok (reg_Close \<lparr>rgSubs = [3, 5], rgClosed = False, rgGauge = 2\<rparr>) \<and>
   rgSubs (reg_Close \<lparr>rgSubs = [3, 5], rgClosed = False, rgGauge = 2\<rparr>) = []"
  using registry_consistent[of "\<lparr>rgSubs = [3, 5], rgClosed = False, rgGauge = 2\<rparr>" 7 lib0 True tail_q 3]
  by (simp add: reg_ok_def)

end
