(* ===== verification/Hash_Ring.thy ===== *)
theory Hash_Ring
  imports Prelude "HOL-Library.Product_Lexorder"
begin

text \<open>
  \<^verbatim>\<open>internal/cluster/ring.go\<close>: the consistent hash ring. A token is a pair of a 64-bit position and a
  node name; pairs are ordered by position first and name second, which is the order \<^verbatim>\<open>NewRing\<close> sorts
  by. \<^verbatim>\<open>sort.Search\<close> is the library's binary search. The stream id is used as an unsigned word, as
  the conversion in \<^verbatim>\<open>Owner\<close> does.

  The lemmas characterise the owner of a key without reference to the sorted list, and derive from
  it that a ring depends only on the set of its members, that a membership change moves only the keys
  of the node that came or went, and that \<^verbatim>\<open>Diff\<close> lists exactly the keys that move.
\<close>

type_synonym rtoken = "u64 \<times> string"

record Ring =
  rTokens :: "rtoken list"
  rNodes :: "string list"

definition DefaultVNodes :: int where "DefaultVNodes = 128"

definition tokenHash :: "golib \<Rightarrow> string \<Rightarrow> nat \<Rightarrow> u64" where
  "tokenHash L node i = xxh64 L (node @ [CHR 0x00] @ itoa i)"

definition node_tokens :: "golib \<Rightarrow> nat \<Rightarrow> string \<Rightarrow> rtoken list" where
  "node_tokens L vn n = map (\<lambda>i. (tokenHash L n i, n)) [0..<vn]"

definition NewRing :: "golib \<Rightarrow> string list \<Rightarrow> int \<Rightarrow> Ring" where
  "NewRing L nodes0 vnodes =
     (let vn = nat (if vnodes < 1 then DefaultVNodes else vnodes);
          nodes = remdups_adj (sort nodes0)
      in \<lparr>rTokens = sort (concat (map (node_tokens L vn) nodes)), rNodes = nodes\<rparr>)"

text \<open>\<^verbatim>\<open>sort.Search\<close>: the loop keeps \<open>i \<le> j\<close> and narrows the range by its midpoint.\<close>

function search_loop :: "(nat \<Rightarrow> bool) \<Rightarrow> nat \<Rightarrow> nat \<Rightarrow> nat" where
  "search_loop f i j =
     (if i < j then (let h = (i + j) div 2 in if \<not> f h then search_loop f (h + 1) j else search_loop f i h)
      else i)"
  by pat_completeness auto
termination
  by (relation "measure (\<lambda>(f, i, j). j - i)") auto

declare search_loop.simps [simp del]

definition sort_Search :: "nat \<Rightarrow> (nat \<Rightarrow> bool) \<Rightarrow> nat" where
  "sort_Search n f = search_loop f 0 n"

definition slot :: "Ring \<Rightarrow> u64 \<Rightarrow> nat" where
  "slot r h =
     (let i = sort_Search (length (rTokens r)) (\<lambda>i. h \<le> fst (rTokens r ! i))
      in if i = length (rTokens r) then 0 else i)"

definition ownerOf :: "Ring \<Rightarrow> u64 \<Rightarrow> string" where
  "ownerOf r h = (if rTokens r = [] then [] else snd (rTokens r ! slot r h))"

definition Owner :: "Ring \<Rightarrow> u64 \<Rightarrow> string" where
  "Owner r sid = (if rTokens r = [] then [] else snd (rTokens r ! slot r sid))"

definition Tokens :: "Ring \<Rightarrow> string \<Rightarrow> u64 list" where
  "Tokens r node = map fst (filter (\<lambda>t. snd t = node) (rTokens r))"

record Arc =
  aLo :: u64
  aHi :: u64
  aOwner :: string

fun arcs_from :: "u64 \<Rightarrow> rtoken list \<Rightarrow> Arc list" where
  "arcs_from prev [] = []"
| "arcs_from prev (t # ts) = \<lparr>aLo = prev, aHi = fst t, aOwner = snd t\<rparr> # arcs_from (fst t) ts"

definition Arcs :: "Ring \<Rightarrow> Arc list" where
  "Arcs r = (if rTokens r = [] then [] else arcs_from (fst (last (rTokens r))) (rTokens r))"

record Transfer =
  tLo :: u64
  tHi :: u64
  tFrom :: string
  tTo :: string

fun diff_loop :: "Ring \<Rightarrow> Ring \<Rightarrow> u64 \<Rightarrow> u64 list \<Rightarrow> Transfer list \<Rightarrow> Transfer list" where
  "diff_loop old cur prev [] out = out"
| "diff_loop old cur prev (b # bs) out =
     (let fr = ownerOf old b; to = ownerOf cur b;
          out' = (if fr \<noteq> to then
                    (if out \<noteq> [] \<and> tHi (last out) = prev \<and> tFrom (last out) = fr \<and> tTo (last out) = to
                     then butlast out @ [(last out)\<lparr>tHi := b\<rparr>]
                     else out @ [\<lparr>tLo = prev, tHi = b, tFrom = fr, tTo = to\<rparr>])
                  else out)
      in diff_loop old cur b bs out')"

definition Diff :: "Ring \<Rightarrow> Ring \<Rightarrow> Transfer list" where
  "Diff old cur =
     (let bounds = remdups_adj (sort (map fst (rTokens old) @ map fst (rTokens cur)))
      in if bounds = [] then [] else diff_loop old cur (last bounds) bounds [])"

subsection \<open>Binary search\<close>

lemma search_loop_spec:
  assumes "i \<le> j" and "\<And>a b. a \<le> b \<Longrightarrow> b < j \<Longrightarrow> f a \<Longrightarrow> f b"
  shows "i \<le> search_loop f i j \<and> search_loop f i j \<le> j \<and>
    (\<forall>k. i \<le> k \<and> k < search_loop f i j \<longrightarrow> \<not> f k) \<and> (search_loop f i j < j \<longrightarrow> f (search_loop f i j))"
  using assms
proof (induction f i j rule: search_loop.induct)
  case (1 f i j)
  show ?case
  proof (cases "i < j")
    case False
    then show ?thesis using "1.prems"(1) by (subst (1 2 3 4 5) search_loop.simps) auto
  next
    case True
    define h where "h = (i + j) div 2"
    have h: "i \<le> h" "h < j" using True by (auto simp: h_def)
    show ?thesis
    proof (cases "f h")
      case False
      then have eq: "search_loop f i j = search_loop f (h + 1) j"
        using True by (subst search_loop.simps) (simp add: h_def Let_def)
      have low: "\<not> f k" if "k \<le> h" for k
        using "1.prems"(2)[of k h] that h False by blast
      let ?s = "search_loop f (h + 1) j"
      have s: "h + 1 \<le> ?s" "?s \<le> j" "\<And>k. h + 1 \<le> k \<Longrightarrow> k < ?s \<Longrightarrow> \<not> f k" "?s < j \<Longrightarrow> f ?s"
        using "1.IH"(1)[OF True h_def False _ "1.prems"(2)] h by simp_all
      have "\<not> f k" if "k < ?s" for k
        using low[of k] s(3)[of k] that by (cases "k \<le> h") simp_all
      then show ?thesis unfolding eq using s h by auto
    next
      case t: True
      then have eq: "search_loop f i j = search_loop f i h"
        using True by (subst search_loop.simps) (simp add: h_def Let_def)
      have "i \<le> search_loop f i h \<and> search_loop f i h \<le> h \<and>
          (\<forall>k. i \<le> k \<and> k < search_loop f i h \<longrightarrow> \<not> f k) \<and> (search_loop f i h < h \<longrightarrow> f (search_loop f i h))"
        using "1.IH"(2)[OF True h_def] t h "1.prems"(2) by (meson order_le_less_trans order_less_imp_le not_not)
      then show ?thesis
        unfolding eq using h t by (metis le_neq_implies_less order_le_less_trans less_imp_le_nat)
    qed
  qed
qed

subsection \<open>The owner of a key\<close>

text \<open>The first token at or after a position, or the first of all when there is none.\<close>

definition succ_token :: "rtoken set \<Rightarrow> u64 \<Rightarrow> rtoken" where
  "succ_token T h = (let ge = {t \<in> T. h \<le> fst t} in if ge = {} then Min T else Min ge)"

lemma succ_token_none: "{t \<in> T. h \<le> fst t} = {} \<Longrightarrow> succ_token T h = Min T"
  and succ_token_some: "{t \<in> T. h \<le> fst t} \<noteq> {} \<Longrightarrow> succ_token T h = Min {t \<in> T. h \<le> fst t}"
  unfolding succ_token_def Let_def by (rule if_P, assumption, rule if_not_P, assumption)

definition owner_spec :: "rtoken set \<Rightarrow> u64 \<Rightarrow> string" where
  "owner_spec T h = (if T = {} then [] else snd (succ_token T h))"

definition ring_ok :: "Ring \<Rightarrow> bool" where
  "ring_ok r \<longleftrightarrow> sorted (rTokens r)"

lemma sorted_fst_nth:
  assumes "sorted (ts :: rtoken list)" and "i \<le> j" and "j < length ts"
  shows "fst (ts ! i) \<le> fst (ts ! j)"
  using sorted_nth_mono[OF assms(1,2,3)] by (auto simp: less_eq_prod_def)

lemma slot_spec:
  assumes "ring_ok r" and "rTokens r \<noteq> []"
  shows "rTokens r ! slot r h = succ_token (set (rTokens r)) h" and "slot r h < length (rTokens r)"
proof -
  let ?ts = "rTokens r" and ?f = "\<lambda>i. h \<le> fst (rTokens r ! i)"
  define i where "i = sort_Search (length ?ts) ?f"
  have s: "sorted ?ts" using assms(1) by (simp add: ring_ok_def)
  have mono: "?f b" if "a \<le> b" "b < length ?ts" "?f a" for a b
    using sorted_fst_nth[OF s that(1,2)] that(3) by simp
  from search_loop_spec[of 0 "length ?ts" ?f, OF _ mono]
  have i: "i \<le> length ?ts" "\<And>k. k < i \<Longrightarrow> \<not> ?f k" "i < length ?ts \<Longrightarrow> ?f i"
    by (auto simp: i_def sort_Search_def)
  show "slot r h < length ?ts"
    using i(1) assms(2) by (auto simp: slot_def Let_def i_def[symmetric])
  show "?ts ! slot r h = succ_token (set ?ts) h"
  proof (cases "i = length ?ts")
    case True
    then have "{t \<in> set ?ts. h \<le> fst t} = {}"
      using i(2) by (metis (mono_tags, lifting) empty_Collect_eq in_set_conv_nth)
    moreover have "?ts ! 0 = Min (set ?ts)"
    proof (rule Min_eqI[symmetric])
      show "?ts ! 0 \<le> t" if "t \<in> set ?ts" for t
        using that sorted_nth_mono[OF s, of 0] by (metis in_set_conv_nth le0)
    qed (use assms(2) in auto)
    ultimately show ?thesis using True by (simp add: slot_def i_def[symmetric] succ_token_def)
  next
    case False
    then have lt: "i < length ?ts" using i(1) by simp
    have "?ts ! i = Min {t \<in> set ?ts. h \<le> fst t}"
    proof (rule Min_eqI[symmetric])
      show "?ts ! i \<le> t" if "t \<in> {t \<in> set ?ts. h \<le> fst t}" for t
      proof -
        from that obtain k where k: "k < length ?ts" "t = ?ts ! k" "?f k" by (auto simp: in_set_conv_nth)
        then have "i \<le> k" using i(2) by (meson not_le)
        then show ?thesis using k sorted_nth_mono[OF s, of i k] by simp
      qed
    qed (use i(3) lt in auto)
    moreover have "{t \<in> set ?ts. h \<le> fst t} \<noteq> {}" using i(3) lt nth_mem by blast
    ultimately show ?thesis using False succ_token_some[of "set ?ts" h]
      by (simp only: slot_def i_def[symmetric] Let_def if_False not_False_eq_True simp_thms)
  qed
qed

lemma Owner_spec: "ring_ok r \<Longrightarrow> Owner r k = owner_spec (set (rTokens r)) k"
  using slot_spec(1)[of r k] by (auto simp: Owner_def owner_spec_def)

lemma ownerOf_Owner [simp]: "ownerOf r k = Owner r k"
  by (simp add: ownerOf_def Owner_def)

lemma succ_token_in: "finite T \<Longrightarrow> T \<noteq> {} \<Longrightarrow> succ_token T h \<in> T"
proof -
  assume T: "finite T" "T \<noteq> {}"
  then have "{t \<in> T. h \<le> fst t} \<noteq> {} \<Longrightarrow> Min {t \<in> T. h \<le> fst t} \<in> {t \<in> T. h \<le> fst t}"
    by (intro Min_in) auto
  with T show ?thesis by (auto simp: succ_token_def Let_def)
qed

text \<open>Adding tokens either leaves the successor of a key alone or makes it one of them.\<close>

lemma Min_union_cases: "finite A \<Longrightarrow> A \<noteq> {} \<Longrightarrow> finite B \<Longrightarrow> Min (A \<union> B) = Min A \<or> Min (A \<union> B) \<in> B"
  by (cases "B = {}") (auto simp: Min_Un min_def)

lemma succ_token_union:
  assumes "finite T" and "T \<noteq> {}" and "finite X"
  shows "succ_token (T \<union> X) h = succ_token T h \<or> succ_token (T \<union> X) h \<in> X"
proof -
  let ?g = "\<lambda>S. {t \<in> S. h \<le> fst t}"
  have u: "?g (T \<union> X) = ?g T \<union> ?g X" by auto
  show ?thesis
  proof (cases "?g T = {}")
    case True
    show ?thesis
    proof (cases "?g X = {}")
      case True
      with \<open>?g T = {}\<close> u Min_union_cases[OF assms] show ?thesis by (auto simp: succ_token_def Let_def)
    next
      case False
      have "Min (?g X) \<in> ?g X" using assms(3) False by (intro Min_in) auto
      moreover have "succ_token (T \<union> X) h = Min (?g X)"
        using succ_token_some[of "T \<union> X" h] False unfolding u True Un_empty_left by blast
      ultimately show ?thesis by simp
    qed
  next
    case False
    have "Min (?g T \<union> ?g X) = Min (?g T) \<or> Min (?g T \<union> ?g X) \<in> ?g X"
      using assms False by (intro Min_union_cases) auto
    with False u show ?thesis by (auto simp: succ_token_def Let_def)
  qed
qed

subsection \<open>Rings over a set of members\<close>

definition vnode_count :: "int \<Rightarrow> nat" where
  "vnode_count v = nat (if v < 1 then DefaultVNodes else v)"

definition token_set :: "golib \<Rightarrow> nat \<Rightarrow> string set \<Rightarrow> rtoken set" where
  "token_set L vn N = (\<Union>n\<in>N. set (node_tokens L vn n))"

lemma vnode_count_pos: "0 < vnode_count v"
  by (simp add: vnode_count_def DefaultVNodes_def)

lemma NewRing_ok [simp]: "ring_ok (NewRing L ns v)"
  by (simp add: ring_ok_def NewRing_def Let_def)

lemma NewRing_tokens: "set (rTokens (NewRing L ns v)) = token_set L (vnode_count v) (set ns)"
  by (simp add: NewRing_def Let_def token_set_def vnode_count_def)

lemma token_set_empty: "0 < vn \<Longrightarrow> token_set L vn N = {} \<longleftrightarrow> N = {}"
  by (auto simp: token_set_def node_tokens_def)

lemma token_set_node: "t \<in> token_set L vn N \<Longrightarrow> snd t \<in> N"
  by (auto simp: token_set_def node_tokens_def)

lemma token_set_insert: "token_set L vn (insert x N) = token_set L vn N \<union> set (node_tokens L vn x)"
  by (auto simp: token_set_def)

lemma Owner_NewRing: "Owner (NewRing L ns v) k = owner_spec (token_set L (vnode_count v) (set ns)) k"
  by (simp add: Owner_spec NewRing_tokens)

lemma NewRing_set:
  assumes "set ns = set ms"
  shows "NewRing L ns v = NewRing L ms v"
  using compact_sort_cong[OF assms] by (simp add: NewRing_def)

lemma finite_token_set: "finite N \<Longrightarrow> finite (token_set L vn N)"
  by (simp add: token_set_def)

lemma owner_member:
  assumes "ns \<noteq> []"
  shows "Owner (NewRing L ns v) k \<in> set ns"
proof -
  let ?T = "token_set L (vnode_count v) (set ns)"
  have "?T \<noteq> {}" using token_set_empty[OF vnode_count_pos, of L v "set ns"] assms by simp
  with succ_token_in[OF finite_token_set this, of k] show ?thesis
    by (simp add: Owner_NewRing owner_spec_def token_set_node)
qed

lemma owner_join: "Owner (NewRing L (x # ns) v) k \<in> {Owner (NewRing L ns v) k, x}"
proof (cases "ns = []")
  case True
  then show ?thesis using owner_member[of "[x]"] by simp
next
  case False
  let ?T = "token_set L (vnode_count v) (set ns)" and ?X = "set (node_tokens L (vnode_count v) x)"
  have T: "finite ?T" "?T \<noteq> {}"
    using False token_set_empty[OF vnode_count_pos, of L v "set ns"] by (auto simp: finite_token_set)
  from succ_token_union[OF T, of ?X k] have
    "succ_token (?T \<union> ?X) k = succ_token ?T k \<or> snd (succ_token (?T \<union> ?X) k) = x"
    by (auto simp: node_tokens_def)
  with T show ?thesis by (auto simp: Owner_NewRing owner_spec_def token_set_insert)
qed

subsection \<open>Ranges between consecutive boundaries\<close>

text \<open>Membership in \<open>(lo, hi]\<close> on the circle; the range from a point to itself is the whole circle.\<close>

definition in_arc :: "u64 \<Rightarrow> u64 \<Rightarrow> u64 \<Rightarrow> bool" where
  "in_arc lo hi k \<longleftrightarrow> (if lo < hi then lo < k \<and> k \<le> hi else lo < k \<or> k \<le> hi)"

definition ranges :: "u64 list \<Rightarrow> (u64 \<times> u64) list" where
  "ranges bs = zip (last bs # bs) bs"

lemma in_arc_join:
  assumes "prev < b" and "lo < prev \<or> b \<le> lo"
  shows "in_arc lo b k \<longleftrightarrow> in_arc lo prev k \<or> in_arc prev b k"
  using assms by (auto simp: in_arc_def)

lemma ranges_nth: "(p, b) \<in> set (ranges bs) \<longleftrightarrow>
    (\<exists>i<length bs. b = bs ! i \<and> p = (if i = 0 then last bs else bs ! (i - 1)))"
proof -
  have eq: "(last bs # bs) ! i = (if i = 0 then last bs else bs ! (i - 1))" for i
    by (cases i) simp_all
  have "(p, b) \<in> set (zip (last bs # bs) bs) \<longleftrightarrow>
      (\<exists>i. (last bs # bs) ! i = p \<and> bs ! i = b \<and> i < Suc (length bs) \<and> i < length bs)"
    by (simp only: in_set_zip fst_conv snd_conv list.size add_Suc_right add_0_right)
  then show ?thesis unfolding ranges_def eq by (metis less_Suc_eq)
qed

lemma strict_nth_mono:
  fixes bs :: "u64 list"
  assumes "sorted_wrt (<) bs" and "i \<le> j" and "j < length bs"
  shows "bs ! i \<le> bs ! j"
  using sorted_wrt_nth_less[OF assms(1), of i j] assms(2,3) by (cases "i = j") auto

lemma last_max:
  fixes bs :: "u64 list"
  assumes "sorted_wrt (<) bs" and "i < length bs"
  shows "bs ! i \<le> last bs"
  using strict_nth_mono[OF assms(1), of i "length bs - 1"] assms(2)
  by (cases "bs = []") (simp_all add: last_conv_nth)

lemma ranges_cover:
  assumes "sorted_wrt (<) bs" and "bs \<noteq> []"
  shows "\<exists>p b. (p, b) \<in> set (ranges bs) \<and> in_arc p b k"
proof (cases "\<exists>i<length bs. k \<le> bs ! i")
  case True
  define i where "i = (LEAST i. i < length bs \<and> k \<le> bs ! i)"
  have i: "i < length bs" "k \<le> bs ! i"
    using LeastI_ex[OF True] by (auto simp: i_def)
  show ?thesis
  proof (cases i)
    case 0
    have "bs ! 0 \<le> last bs" using last_max[OF assms(1), of 0] assms(2) by simp
    then show ?thesis
      using 0 i by (intro exI[of _ "last bs"] exI[of _ "bs ! 0"]) (auto simp: ranges_nth in_arc_def)
  next
    case (Suc j)
    have "\<not> (j < length bs \<and> k \<le> bs ! j)"
      using not_less_Least[of j "\<lambda>i. i < length bs \<and> k \<le> bs ! i"] Suc by (simp add: i_def[symmetric])
    then have "bs ! j < k" using Suc i by simp
    moreover have "(bs ! j, bs ! i) \<in> set (ranges bs)"
      unfolding ranges_nth using Suc i by (intro exI[of _ i]) simp
    ultimately show ?thesis using i by (auto simp: in_arc_def)
  qed
next
  case False
  then have "last bs < k" using assms(2) by (simp add: last_conv_nth not_le)
  moreover have "bs ! 0 \<le> last bs"
    using last_max[OF assms(1), of 0] assms(2) by simp
  ultimately show ?thesis
    using assms(2) by (intro exI[of _ "last bs"] exI[of _ "bs ! 0"]) (auto simp: ranges_nth in_arc_def)
qed

text \<open>Within one range no boundary comes between a key and the range's end.\<close>

lemma ranges_gap:
  assumes s: "sorted_wrt (<) bs" and r: "(p, b) \<in> set (ranges bs)" and k: "in_arc p b k"
  shows "b \<in> set bs \<and> ((k \<le> b \<and> (\<forall>x\<in>set bs. k \<le> x \<longrightarrow> b \<le> x)) \<or>
    ((\<forall>x\<in>set bs. x < k) \<and> (\<forall>x\<in>set bs. b \<le> x)))"
proof -
  from r obtain i where i: "i < length bs" "b = bs ! i" "p = (if i = 0 then last bs else bs ! (i - 1))"
    by (auto simp: ranges_nth)
  have mono: "bs ! x \<le> bs ! y" if "x \<le> y" "y < length bs" for x y
    by (rule strict_nth_mono[OF s that])
  have smono: "x < y" if "bs ! x < bs ! y" "x < length bs" for x y
    using mono[of y x] that by (meson leD not_le)
  show ?thesis
  proof (cases "i = 0")
    case True
    have min: "\<forall>x\<in>set bs. b \<le> x" using i True mono by (auto simp: in_set_conv_nth)
    have max: "\<forall>x\<in>set bs. x \<le> last bs"
      using last_max[OF s] by (auto simp: in_set_conv_nth)
    show ?thesis
    proof (cases "k \<le> b")
      case True
      with min i show ?thesis by auto
    next
      case False
      then have "last bs < k" using k i \<open>i = 0\<close> by (auto simp: in_arc_def split: if_splits)
      then have "\<forall>x\<in>set bs. x < k" using max by (meson order_le_less_trans)
      with min i show ?thesis by simp
    qed
  next
    case False
    then have p: "p = bs ! (i - 1)" using i by simp
    have "p < b" using sorted_wrt_nth_less[OF s, of "i - 1" i] False i p by simp
    then have "p < k" "k \<le> b" using k by (auto simp: in_arc_def)
    moreover have "b \<le> x" if "x \<in> set bs" "k \<le> x" for x
    proof -
      from that obtain j where j: "j < length bs" "x = bs ! j" by (auto simp: in_set_conv_nth)
      with that \<open>p < k\<close> p have "bs ! (i - 1) < bs ! j" by simp
      then have "i - 1 < j" using smono[of "i - 1" j] i by simp
      then have "i \<le> j" by simp
      then show ?thesis using mono j i by simp
    qed
    ultimately show ?thesis using i by auto
  qed
qed

lemma Owner_range:
  assumes r: "ring_ok r" and b: "set (map fst (rTokens r)) \<subseteq> set bs"
    and s: "sorted_wrt (<) bs" and p: "(p, b) \<in> set (ranges bs)" "in_arc p b k"
  shows "Owner r b = Owner r k"
proof -
  let ?T = "set (rTokens r)"
  have g: "fst t \<in> set bs" if "t \<in> ?T" for t using b that by auto
  have "succ_token ?T b = succ_token ?T k"
  proof (cases "k \<le> b \<and> (\<forall>x\<in>set bs. k \<le> x \<longrightarrow> b \<le> x)")
    case True
    then have "{t \<in> ?T. b \<le> fst t} = {t \<in> ?T. k \<le> fst t}" using g by fastforce
    then show ?thesis by (simp only: succ_token_def)
  next
    case False
    then have "(\<forall>x\<in>set bs. x < k) \<and> (\<forall>x\<in>set bs. b \<le> x)" using ranges_gap[OF s p] by blast
    then have "{t \<in> ?T. b \<le> fst t} = ?T" "{t \<in> ?T. k \<le> fst t} = {}" using g by fastforce+
    then show ?thesis by (simp only: succ_token_def Let_def) simp
  qed
  then show ?thesis using r by (simp add: Owner_spec owner_spec_def)
qed

subsection \<open>Diff\<close>

definition moves :: "Transfer \<Rightarrow> u64 \<Rightarrow> string \<Rightarrow> string \<Rightarrow> bool" where
  "moves t k fr to \<longleftrightarrow> in_arc (tLo t) (tHi t) k \<and> tFrom t = fr \<and> tTo t = to"

lemma diff_loop_spec:
  assumes "sorted_wrt (<) bs" and "\<forall>b\<in>set bs. b \<le> tp"
    and "prev = tp \<or> (\<forall>b\<in>set bs. prev < b)"
    and "out \<noteq> [] \<Longrightarrow> (\<forall>b\<in>set bs. prev < b) \<and> tHi (last out) \<le> prev \<and> (tHi (last out) = prev \<longrightarrow> tLo (last out) < prev \<or> tLo (last out) = tp)"
  shows "(\<exists>t\<in>set (diff_loop old cur prev bs out). moves t k fr to) \<longleftrightarrow>
    (\<exists>t\<in>set out. moves t k fr to) \<or>
    (\<exists>(p, b)\<in>set (zip (prev # bs) bs). in_arc p b k \<and> fr = Owner old b \<and> to = Owner cur b \<and> fr \<noteq> to)"
  using assms
proof (induction bs arbitrary: prev out)
  case (Cons b bs)
  let ?new = "\<lparr>tLo = prev, tHi = b, tFrom = Owner old b, tTo = Owner cur b\<rparr>"
  define out' where "out' = (if Owner old b \<noteq> Owner cur b then
      (if out \<noteq> [] \<and> tHi (last out) = prev \<and> tFrom (last out) = Owner old b \<and> tTo (last out) = Owner cur b
       then butlast out @ [(last out)\<lparr>tHi := b\<rparr>] else out @ [?new]) else out)"
  have step: "(\<exists>t\<in>set out'. moves t k fr to) \<longleftrightarrow> (\<exists>t\<in>set out. moves t k fr to) \<or>
      (in_arc prev b k \<and> fr = Owner old b \<and> to = Owner cur b \<and> fr \<noteq> to)"
  proof (cases "Owner old b \<noteq> Owner cur b \<and> out \<noteq> [] \<and> tHi (last out) = prev \<and>
      tFrom (last out) = Owner old b \<and> tTo (last out) = Owner cur b")
    case True
    then obtain o' t where out: "out = o' @ [t]" by (cases out rule: rev_cases) auto
    have "prev < b" "tLo t < prev \<or> b \<le> tLo t"
      using Cons.prems True out by auto
    then have "moves (t\<lparr>tHi := b\<rparr>) k fr to \<longleftrightarrow> moves t k fr to \<or>
        (in_arc prev b k \<and> fr = Owner old b \<and> to = Owner cur b)"
      using True out in_arc_join[of prev b "tLo t" k] by (auto simp: moves_def)
    then show ?thesis using True out by (auto simp: out'_def)
  next
    case False
    then show ?thesis by (auto simp: out'_def moves_def)
  qed
  have inv: "(\<forall>c\<in>set bs. b < c) \<and> tHi (last out') \<le> b \<and> (tHi (last out') = b \<longrightarrow> tLo (last out') < b \<or> tLo (last out') = tp)"
    if ne: "out' \<noteq> []"
  proof (cases "out = []")
    case True
    then have "out' = [?new]" using ne by (auto simp: out'_def split: if_splits)
    then show ?thesis using Cons.prems by auto
  next
    case False
    then show ?thesis using Cons.prems ne by (auto simp: out'_def split: if_splits)
  qed
  have "diff_loop old cur prev (b # bs) out = diff_loop old cur b bs out'"
    by (simp add: out'_def Let_def)
  then show ?case
    using Cons.IH[of b out'] Cons.prems inv step by auto
qed simp

lemma Diff_spec:
  assumes "ring_ok old" and "ring_ok cur"
  shows "(\<exists>t\<in>set (Diff old cur). moves t k fr to) \<longleftrightarrow> fr = Owner old k \<and> to = Owner cur k \<and> fr \<noteq> to"
proof -
  define bs where "bs = remdups_adj (sort (map fst (rTokens old) @ map fst (rTokens cur)))"
  have s: "sorted_wrt (<) bs" unfolding bs_def by (rule compact_sort)
  have sub: "set (map fst (rTokens old)) \<subseteq> set bs" "set (map fst (rTokens cur)) \<subseteq> set bs"
    by (simp_all add: bs_def)
  show ?thesis
  proof (cases "bs = []")
    case True
    then have "rTokens old = []" "rTokens cur = []" using sub by auto
    then show ?thesis by (simp add: Diff_def Owner_def)
  next
    case False
    have top: "\<forall>b\<in>set bs. b \<le> last bs" using last_max[OF s] by (auto simp: in_set_conv_nth)
    have "(\<exists>t\<in>set (Diff old cur). moves t k fr to) \<longleftrightarrow>
        (\<exists>(p, b)\<in>set (ranges bs). in_arc p b k \<and> fr = Owner old b \<and> to = Owner cur b \<and> fr \<noteq> to)"
      using diff_loop_spec[OF s top, of "last bs" "[]" old cur k fr to] False
      by (simp add: Diff_def bs_def[symmetric] ranges_def Let_def)
    also have "\<dots> \<longleftrightarrow> (\<exists>(p, b)\<in>set (ranges bs). in_arc p b k \<and> fr = Owner old k \<and> to = Owner cur k \<and> fr \<noteq> to)"
      using Owner_range[OF assms(1) sub(1) s] Owner_range[OF assms(2) sub(2) s] by fastforce
    also have "\<dots> \<longleftrightarrow> fr = Owner old k \<and> to = Owner cur k \<and> fr \<noteq> to"
      using ranges_cover[OF s False, of k] by fastforce
    finally show ?thesis .
  qed
qed

subsection \<open>Arcs\<close>

lemma arcs_from_zip:
  "arcs_from prev ts = map (\<lambda>(p, t). \<lparr>aLo = p, aHi = fst t, aOwner = snd t\<rparr>) (zip (prev # map fst ts) ts)"
  by (induction prev ts rule: arcs_from.induct) auto

lemma Arcs_spec:
  assumes r: "ring_ok r" and d: "distinct (map fst (rTokens r))" and ne: "rTokens r \<noteq> []"
  shows "(\<exists>a\<in>set (Arcs r). in_arc (aLo a) (aHi a) k \<and> aOwner a = n) \<longleftrightarrow> n = Owner r k"
proof -
  let ?ts = "rTokens r" and ?bs = "map fst (rTokens r)"
  have sd: "sorted ?bs"
    using r sorted_fst_nth[of ?ts] by (auto simp: ring_ok_def sorted_iff_nth_mono)
  then have s: "sorted_wrt (<) ?bs" using d by (simp add: strict_sorted_iff)
  have own: "Owner r (fst t) = snd t" if "t \<in> set ?ts" for t
  proof -
    have "{u \<in> set ?ts. fst t \<le> fst u} \<noteq> {}" using that by blast
    moreover have "Min {u \<in> set ?ts. fst t \<le> fst u} = t"
    proof (rule Min_eqI)
      show "t \<le> u" if u: "u \<in> {u \<in> set ?ts. fst t \<le> fst u}" for u
      proof (cases "fst t = fst u")
        case True
        then have "t = u" using d u \<open>t \<in> set ?ts\<close> by (auto simp: distinct_map inj_on_def)
        then show ?thesis by simp
      next
        case False
        then have "fst t < fst u" using u by auto
        then show ?thesis by (simp add: less_eq_prod_def)
      qed
    qed (use that in auto)
    ultimately have "succ_token (set ?ts) (fst t) = t" using succ_token_some[of "set ?ts" "fst t"] by metis
    then show ?thesis using r ne by (simp add: Owner_spec owner_spec_def)
  qed
  have "(\<exists>a\<in>set (Arcs r). in_arc (aLo a) (aHi a) k \<and> aOwner a = n) \<longleftrightarrow>
      (\<exists>(p, t)\<in>set (zip (last ?bs # ?bs) ?ts). in_arc p (fst t) k \<and> snd t = n)"
    using ne by (auto simp: Arcs_def arcs_from_zip last_map split: prod.splits)
  also have "\<dots> \<longleftrightarrow> (\<exists>(p, b)\<in>set (ranges ?bs). in_arc p b k \<and> Owner r b = n)"
  proof -
    have z: "ranges ?bs = map (\<lambda>(p, t). (p, fst t)) (zip (last ?bs # ?bs) ?ts)"
      unfolding ranges_def by (simp only: zip_map2)
    have mem: "Owner r h = m" if "(p, (h, m)) \<in> set (zip (last ?bs # ?bs) ?ts)" for p h m
      using own[of "(h, m)"] set_zip_rightD[OF that] by simp
    show ?thesis
      unfolding z set_map bex_simps(7)
      by (rule bex_cong[OF refl]) (auto dest: mem)
  qed
  also have "\<dots> \<longleftrightarrow> n = Owner r k"
    using ranges_cover[OF s, of k] ne Owner_range[OF r order_refl s] by fastforce
  finally show ?thesis .
qed

subsection \<open>Properties\<close>

text \<open>Every member agrees on ownership. A ring depends on the set of member names only, not on
  the order or repetition in which they were learnt; on a ring with members every key has an owner
  among them, namely the node of the first token at or after the key, wrapping past the top.\<close>

theorem ring_agreement:
  assumes "set ns = set ms" and "ns \<noteq> []"
  shows "NewRing L ns v = NewRing L ms v \<and> Owner (NewRing L ns v) k \<in> set ns \<and>
    Owner (NewRing L ns v) k = snd (succ_token (token_set L (vnode_count v) (set ns)) k)"
proof -
  have "token_set L (vnode_count v) (set ns) \<noteq> {}"
    using token_set_empty[OF vnode_count_pos, of L v "set ns"] assms(2) by simp
  then have "Owner (NewRing L ns v) k = snd (succ_token (token_set L (vnode_count v) (set ns)) k)"
    by (simp add: Owner_NewRing owner_spec_def)
  with NewRing_set[OF assms(1)] owner_member[OF assms(2)] show ?thesis by blast
qed

theorem ring_agreement_witness:
  "NewRing lib0 [''b'', ''a'', ''b''] 0 = NewRing lib0 [''a'', ''b''] 0 \<and>
   Owner (NewRing lib0 [''b'', ''a'', ''b''] 0) 77 \<in> {''a'', ''b''}"
  using ring_agreement[of "[''b'', ''a'', ''b'']" "[''a'', ''b'']" lib0 0 77] by auto

text \<open>Consistent hashing moves only what it must: when a node joins, a key either keeps its owner
  or goes to the new node; seen the other way round, when a node leaves, a key that was not its own
  stays where it is.\<close>

theorem ring_minimal_movement:
  "Owner (NewRing L (x # ns) v) k \<in> {Owner (NewRing L ns v) k, x} \<and>
   (Owner (NewRing L (x # ns) v) k \<noteq> x \<longrightarrow> Owner (NewRing L ns v) k = Owner (NewRing L (x # ns) v) k)"
  using owner_join[of L x ns v k] by auto

theorem ring_minimal_movement_witness:
  "Owner (NewRing lib0 [''c'', ''a'', ''b''] 1) 5 \<in> {Owner (NewRing lib0 [''a'', ''b''] 1) 5, ''c''}"
  using ring_minimal_movement[of lib0 "''c''" "[''a'', ''b'']" 1 5] by simp

text \<open>C16. \<^verbatim>\<open>Diff\<close> is exact: a key lies in a transfer range from one node to another exactly when these
  are its different owners in the two rings, so the listed ranges are all the keys that move and no
  others; merging neighbouring ranges, and the range that wraps past the top, included.\<close>

theorem Diff_exact:
  "(\<exists>t\<in>set (Diff (NewRing L ns v) (NewRing L ms w)).
      in_arc (tLo t) (tHi t) k \<and> tFrom t = fr \<and> tTo t = to) \<longleftrightarrow>
   fr = Owner (NewRing L ns v) k \<and> to = Owner (NewRing L ms w) k \<and> fr \<noteq> to"
  using Diff_spec[of "NewRing L ns v" "NewRing L ms w" k fr to] by (simp add: moves_def)

text \<open>The arcs of a ring tile the key space: when no two tokens share a position, a key lies in an
  arc owned by a node exactly when that node owns the key.\<close>

theorem Arcs_tile:
  assumes "distinct (map fst (rTokens (NewRing L ns v)))" and "ns \<noteq> []"
  shows "(\<exists>a\<in>set (Arcs (NewRing L ns v)). in_arc (aLo a) (aHi a) k \<and> aOwner a = n) \<longleftrightarrow>
    n = Owner (NewRing L ns v) k"
proof -
  have "rTokens (NewRing L ns v) \<noteq> []"
    using NewRing_tokens[of L ns v] token_set_empty[OF vnode_count_pos, of L v "set ns"] assms(2) by auto
  then show ?thesis using assms(1) by (intro Arcs_spec) simp_all
qed

lemma ring_ab: "rTokens (NewRing lib0 [''a'', ''b''] 1) = [(145, ''a''), (146, ''b'')]"
  by (simp add: NewRing_def node_tokens_def tokenHash_def lib0_def itoa.simps upt_rec insort_key_def)

theorem Arcs_tile_witness:
  "\<exists>a\<in>set (Arcs (NewRing lib0 [''a'', ''b''] 1)). in_arc (aLo a) (aHi a) 7 \<and>
     aOwner a = Owner (NewRing lib0 [''a'', ''b''] 1) 7"
  using Arcs_tile[of lib0 "[''a'', ''b'']" 1 7 "Owner (NewRing lib0 [''a'', ''b''] 1) 7"]
  by (simp add: ring_ab)

end
