(* ===== verification/Lru.thy ===== *)
theory Lru
  imports Prelude
begin

text \<open>
  \<^verbatim>\<open>internal/storage/lru.go\<close>: the least-recently-used cache, with its doubly linked list modelled
  pointer by pointer. A node lives at an address of an explicit store; \<^verbatim>\<open>nil\<close> is \<^const>\<open>None\<close>. The
  mutex makes every exported method atomic, so a method is one function on the state.

  The lemmas show that the pointers always form a list from head to tail indexed by key, and that
  the cache refines a plain list of entries, most recently used first.
\<close>

record ('k, 'v) node =
  nKey :: 'k
  nValue :: 'v
  nPrev :: "nat option"
  nNext :: "nat option"

record ('k, 'v) lru =
  cCap :: nat
  cIndex :: "'k \<Rightarrow> nat option"
  cLen :: nat
  cHead :: "nat option"
  cTail :: "nat option"
  cStore :: "nat \<Rightarrow> ('k, 'v) node option"
  cFresh :: nat

text \<open>\<open>cLen\<close> is \<^verbatim>\<open>len(c.index)\<close>; \<open>cFresh\<close> is the next address to allocate.\<close>

definition newLRU :: "int \<Rightarrow> ('k, 'v) lru" where
  "newLRU capacity = \<lparr>cCap = nat (if capacity < 1 then 1 else capacity), cIndex = (\<lambda>_. None), cLen = 0,
     cHead = None, cTail = None, cStore = (\<lambda>_. None), cFresh = 0\<rparr>"

definition upd :: "nat \<Rightarrow> (('k, 'v) node \<Rightarrow> ('k, 'v) node) \<Rightarrow> ('k, 'v) lru \<Rightarrow> ('k, 'v) lru" where
  "upd a f c = c\<lparr>cStore := (cStore c)(a := map_option f (cStore c a))\<rparr>"

definition getNode :: "('k, 'v) lru \<Rightarrow> nat \<Rightarrow> ('k, 'v) node" where
  "getNode c a = the (cStore c a)"

definition pushFront :: "nat \<Rightarrow> ('k, 'v) lru \<Rightarrow> ('k, 'v) lru" where
  "pushFront n c0 =
     (let c1 = upd n (\<lambda>x. x\<lparr>nPrev := None, nNext := cHead c0\<rparr>) c0;
          c2 = (case cHead c1 of None \<Rightarrow> c1 | Some h \<Rightarrow> upd h (\<lambda>x. x\<lparr>nPrev := Some n\<rparr>) c1);
          c3 = c2\<lparr>cHead := Some n\<rparr>
      in if cTail c3 = None then c3\<lparr>cTail := Some n\<rparr> else c3)"

definition unlink :: "nat \<Rightarrow> ('k, 'v) lru \<Rightarrow> ('k, 'v) lru" where
  "unlink n c0 =
     (let p = nPrev (getNode c0 n);
          c1 = (case p of
                  Some a \<Rightarrow> upd a (\<lambda>x. x\<lparr>nNext := nNext (getNode c0 n)\<rparr>) c0
                | None \<Rightarrow> if cHead c0 = Some n then c0\<lparr>cHead := nNext (getNode c0 n)\<rparr> else c0);
          c2 = (case nNext (getNode c1 n) of
                  Some b \<Rightarrow> upd b (\<lambda>x. x\<lparr>nPrev := nPrev (getNode c1 n)\<rparr>) c1
                | None \<Rightarrow> if cTail c1 = Some n then c1\<lparr>cTail := nPrev (getNode c1 n)\<rparr> else c1)
      in upd n (\<lambda>x. x\<lparr>nPrev := None, nNext := None\<rparr>) c2)"

definition moveToFront :: "nat \<Rightarrow> ('k, 'v) lru \<Rightarrow> ('k, 'v) lru" where
  "moveToFront n c = (if cHead c = Some n then c else pushFront n (unlink n c))"

definition lru_Get :: "'k \<Rightarrow> ('k, 'v) lru \<Rightarrow> 'v option \<times> ('k, 'v) lru" where
  "lru_Get key c = (case cIndex c key of
     None \<Rightarrow> (None, c)
   | Some n \<Rightarrow> (let c' = moveToFront n c in (Some (nValue (getNode c' n)), c')))"

definition lru_insert :: "'k \<Rightarrow> 'v \<Rightarrow> ('k, 'v) lru \<Rightarrow> ('k, 'v) lru" where
  "lru_insert key value c =
     (let n = cFresh c in
      pushFront n (c\<lparr>cStore := (cStore c)(n \<mapsto> \<lparr>nKey = key, nValue = value, nPrev = None, nNext = None\<rparr>),
        cFresh := Suc n, cIndex := (cIndex c)(key \<mapsto> n), cLen := Suc (cLen c)\<rparr>))"

definition lru_evict :: "('k, 'v) lru \<Rightarrow> ('k, 'v) lru" where
  "lru_evict c = (case cTail c of None \<Rightarrow> c
     | Some oldest \<Rightarrow>
        (let c' = unlink oldest c in
         c'\<lparr>cIndex := (cIndex c')(nKey (getNode c' oldest) := None), cLen := cLen c' - 1\<rparr>))"

definition lru_Put :: "'k \<Rightarrow> 'v \<Rightarrow> ('k, 'v) lru \<Rightarrow> ('k, 'v) lru" where
  "lru_Put key value c = (case cIndex c key of
     Some n \<Rightarrow> moveToFront n (upd n (\<lambda>x. x\<lparr>nValue := value\<rparr>) c)
   | None \<Rightarrow>
      (let c' = lru_insert key value c in if cCap c' < cLen c' then lru_evict c' else c'))"

definition lru_Len :: "('k, 'v) lru \<Rightarrow> nat" where
  "lru_Len c = cLen c"

subsection \<open>The linked list\<close>

text \<open>\<open>dll s p as q\<close>: the addresses \<open>as\<close> are linked in order, with \<open>p\<close> before the first and \<open>q\<close> after
  the last.\<close>

fun dll :: "(nat \<Rightarrow> ('k, 'v) node option) \<Rightarrow> nat option \<Rightarrow> nat list \<Rightarrow> nat option \<Rightarrow> bool" where
  "dll s p [] q = True"
| "dll s p (a # as) q = (\<exists>x. s a = Some x \<and> nPrev x = p \<and>
     nNext x = (if as = [] then q else Some (hd as)) \<and> dll s (Some a) as q)"

abbreviation first_of :: "nat list \<Rightarrow> nat option \<Rightarrow> nat option" where
  "first_of as q \<equiv> (if as = [] then q else Some (hd as))"

abbreviation last_of :: "nat option \<Rightarrow> nat list \<Rightarrow> nat option" where
  "last_of p as \<equiv> (if as = [] then p else Some (last as))"

lemma dll_append: "dll s p (xs @ ys) q \<longleftrightarrow> dll s p xs (first_of ys q) \<and> dll s (last_of p xs) ys q"
  by (induction xs arbitrary: p) auto

lemma dll_frame: "a \<notin> set as \<Longrightarrow> dll (s(a := x)) p as q \<longleftrightarrow> dll s p as q"
  by (induction as arbitrary: p) auto

lemma dll_alloc: "dll s p as q \<Longrightarrow> a \<in> set as \<Longrightarrow> s a \<noteq> None"
  by (induction as arbitrary: p) auto

lemma dll_set_last:
  assumes "dll s p xs q" and "xs \<noteq> []" and "distinct xs"
  shows "dll (s(last xs := map_option (\<lambda>x. x\<lparr>nNext := q'\<rparr>) (s (last xs)))) p xs q'"
  using assms
proof (induction xs arbitrary: p)
  case (Cons a xs)
  show ?case
  proof (cases "xs = []")
    case True
    with Cons.prems show ?thesis by auto
  next
    case False
    with Cons.prems have "last xs \<noteq> a" by auto
    with False Cons show ?thesis by auto
  qed
qed simp

lemma dll_set_first:
  assumes "dll s p ys q" and "ys \<noteq> []" and "distinct ys"
  shows "dll (s(hd ys := map_option (\<lambda>x. x\<lparr>nPrev := p'\<rparr>) (s (hd ys)))) p' ys q"
  using assms by (cases ys) (auto simp: dll_frame)

text \<open>The list of entries a store holds at a list of addresses.\<close>

definition entries :: "(nat \<Rightarrow> ('k, 'v) node option) \<Rightarrow> nat list \<Rightarrow> ('k \<times> 'v) list" where
  "entries s as = map (\<lambda>a. (nKey (the (s a)), nValue (the (s a)))) as"

lemma entries_simps [simp]:
  "entries s [] = []" "entries s (a # as) = (nKey (the (s a)), nValue (the (s a))) # entries s as"
  "entries s (as @ bs) = entries s as @ entries s bs" "length (entries s as) = length as"
  by (simp_all add: entries_def)

lemma entries_cong:
  "(\<And>a. a \<in> set as \<Longrightarrow> map_option (\<lambda>x. (nKey x, nValue x)) (s' a) = map_option (\<lambda>x. (nKey x, nValue x)) (s a)) \<Longrightarrow>
   (\<And>a. a \<in> set as \<Longrightarrow> s a \<noteq> None) \<Longrightarrow> entries s' as = entries s as"
  by (fastforce simp: entries_def)

subsection \<open>The invariant\<close>

definition lru_ok :: "('k, 'v) lru \<Rightarrow> nat list \<Rightarrow> bool" where
  "lru_ok c as \<longleftrightarrow> distinct as \<and> dll (cStore c) None as None \<and>
     cHead c = first_of as None \<and> cTail c = last_of None as \<and>
     distinct (map fst (entries (cStore c) as)) \<and>
     (\<forall>k a. cIndex c k = Some a \<longleftrightarrow> a \<in> set as \<and> nKey (the (cStore c a)) = k) \<and>
     cLen c = length as \<and> 1 \<le> cCap c \<and> (\<forall>a\<in>set as. a < cFresh c)"

lemma upd_simps [simp]:
  "cHead (upd a f c) = cHead c" "cTail (upd a f c) = cTail c" "cIndex (upd a f c) = cIndex c"
  "cLen (upd a f c) = cLen c" "cCap (upd a f c) = cCap c" "cFresh (upd a f c) = cFresh c"
  "cStore (upd a f c) = (cStore c)(a := map_option f (cStore c a))"
  by (simp_all add: upd_def)

definition same_keys :: "('k, 'v) lru \<Rightarrow> ('k, 'v) lru \<Rightarrow> bool" where
  "same_keys c c' \<longleftrightarrow> cIndex c' = cIndex c \<and> cLen c' = cLen c \<and> cCap c' = cCap c \<and> cFresh c' = cFresh c \<and>
     (\<forall>a. map_option (\<lambda>x. (nKey x, nValue x)) (cStore c' a) = map_option (\<lambda>x. (nKey x, nValue x)) (cStore c a))"

lemma same_keys_refl [simp]: "same_keys c c"
  by (simp add: same_keys_def)

lemma same_keys_trans: "same_keys a b \<Longrightarrow> same_keys b c \<Longrightarrow> same_keys a c"
  by (simp add: same_keys_def)

lemma same_keys_upd:
  "(\<And>x. nKey (f x) = nKey x \<and> nValue (f x) = nValue x) \<Longrightarrow> same_keys c (upd a f c)"
  by (auto simp: same_keys_def option.map_comp comp_def)

text \<open>\<^verbatim>\<open>pushFront\<close> links a node that is not in the list in front of it.\<close>

lemma pushFront_spec:
  assumes "dll (cStore c) None as None" and "distinct as" and "n \<notin> set as"
    and "cHead c = first_of as None" and "cTail c = last_of None as" and "cStore c n \<noteq> None"
  shows "dll (cStore (pushFront n c)) None (n # as) None \<and> cHead (pushFront n c) = Some n \<and>
    cTail (pushFront n c) = last_of None (n # as) \<and> same_keys c (pushFront n c)"
proof (cases as)
  case Nil
  then show ?thesis
    using assms by (auto simp: pushFront_def Let_def same_keys_def option.map_comp comp_def)
next
  case (Cons h t)
  let ?c1 = "upd n (\<lambda>x. x\<lparr>nPrev := None, nNext := cHead c\<rparr>) c"
  let ?c2 = "upd h (\<lambda>x. x\<lparr>nPrev := Some n\<rparr>) ?c1"
  have eq: "pushFront n c = ?c2\<lparr>cHead := Some n\<rparr>"
    using assms Cons by (simp add: pushFront_def Let_def)
  have "dll (cStore ?c1) None as None" using assms(1,3) by (simp add: dll_frame)
  from dll_set_first[OF this _ assms(2), of "Some n"] have "dll (cStore ?c2) (Some n) as None"
    using Cons by simp
  moreover have "n \<noteq> h" using assms(3) Cons by auto
  moreover have "same_keys c ?c2"
    by (intro same_keys_trans[OF same_keys_upd same_keys_upd]) simp_all
  ultimately show ?thesis
    using assms Cons unfolding eq by (auto simp: same_keys_def)
qed

lemma unlink_spec:
  assumes d: "dll (cStore c) None (l @ n # r) None" and dist: "distinct (l @ n # r)"
    and hd: "cHead c = first_of (l @ n # r) None" and tl: "cTail c = last_of None (l @ n # r)"
  shows "dll (cStore (unlink n c)) None (l @ r) None \<and> cHead (unlink n c) = first_of (l @ r) None \<and>
    cTail (unlink n c) = last_of None (l @ r) \<and> same_keys c (unlink n c)"
proof -
  from d obtain x where x: "cStore c n = Some x" "nPrev x = last_of None l" "nNext x = first_of r None"
    and dl: "dll (cStore c) None l (Some n)" and dr: "dll (cStore c) (Some n) r None"
    by (auto simp: dll_append)
  define c1 where "c1 = (if l \<noteq> [] then upd (last l) (\<lambda>y. y\<lparr>nNext := first_of r None\<rparr>) c
      else c\<lparr>cHead := first_of r None\<rparr>)"
  have n: "n \<notin> set l" "n \<notin> set r" "set l \<inter> set r = {}" "distinct l" "distinct r" using dist by auto
  have c1: "cStore c1 n = Some x" "dll (cStore c1) None l (first_of r None)" "dll (cStore c1) (Some n) r None"
      "cHead c1 = first_of (l @ r) None" "cTail c1 = cTail c" "same_keys c c1"
  proof -
    have ln: "last l \<noteq> n \<and> last l \<notin> set r" if "l \<noteq> []" using that n last_in_set[OF that] by (metis disjoint_iff)
    show "cStore c1 n = Some x" using x ln by (auto simp: c1_def)
    show "dll (cStore c1) None l (first_of r None)"
      using dll_set_last[OF dl _ n(4), of "first_of r None"] by (cases "l = []") (simp_all add: c1_def)
    show "dll (cStore c1) (Some n) r None" using dr ln by (auto simp: c1_def dll_frame)
    show "cHead c1 = first_of (l @ r) None" using hd by (auto simp: c1_def)
    show "cTail c1 = cTail c" by (simp add: c1_def)
    show "same_keys c c1" unfolding c1_def by (auto simp: same_keys_def option.map_comp comp_def)
  qed
  define c2 where "c2 = (if r \<noteq> [] then upd (hd r) (\<lambda>y. y\<lparr>nPrev := last_of None l\<rparr>) c1
      else c1\<lparr>cTail := last_of None l\<rparr>)"
  have c2: "cStore c2 n = Some x" "dll (cStore c2) None l (first_of r None)"
      "dll (cStore c2) (last_of None l) r None" "cHead c2 = first_of (l @ r) None"
      "cTail c2 = last_of None (l @ r)" "same_keys c1 c2"
  proof -
    have hn: "hd r \<noteq> n \<and> hd r \<notin> set l" if "r \<noteq> []" using that n hd_in_set[OF that] by auto
    show "cStore c2 n = Some x" using c1(1) hn by (auto simp: c2_def)
    show "dll (cStore c2) None l (first_of r None)" using c1(2) hn by (auto simp: c2_def dll_frame)
    show "dll (cStore c2) (last_of None l) r None"
      using dll_set_first[OF c1(3) _ n(5), of "last_of None l"] by (cases "r = []") (simp_all add: c2_def)
    show "cHead c2 = first_of (l @ r) None" using c1(4) by (simp add: c2_def)
    show "cTail c2 = last_of None (l @ r)" using c1(5) tl by (auto simp: c2_def)
    show "same_keys c1 c2" unfolding c2_def by (auto simp: same_keys_def option.map_comp comp_def)
  qed
  have g: "getNode c n = x" "getNode c1 n = x" using x(1) c1(1) by (simp_all add: getNode_def)
  have h1: "cHead c = Some n" if "l = []" using hd that by simp
  have t1: "cTail c1 = Some n" if "r = []" using tl that c1(5) by simp
  have eq: "unlink n c = upd n (\<lambda>y. y\<lparr>nPrev := None, nNext := None\<rparr>) c2"
  proof -
    have e1: "c1 = (case nPrev (getNode c n) of
        Some a \<Rightarrow> upd a (\<lambda>y. y\<lparr>nNext := nNext (getNode c n)\<rparr>) c
      | None \<Rightarrow> if cHead c = Some n then c\<lparr>cHead := nNext (getNode c n)\<rparr> else c)"
      using x g h1 by (simp add: c1_def)
    have e2: "c2 = (case nNext (getNode c1 n) of
        Some b \<Rightarrow> upd b (\<lambda>y. y\<lparr>nPrev := nPrev (getNode c1 n)\<rparr>) c1
      | None \<Rightarrow> if cTail c1 = Some n then c1\<lparr>cTail := nPrev (getNode c1 n)\<rparr> else c1)"
      using x g t1 by (simp add: c2_def)
    show ?thesis unfolding unlink_def Let_def by (simp only: e1[symmetric] e2[symmetric])
  qed
  have "same_keys c2 (unlink n c)" unfolding eq by (rule same_keys_upd) simp
  then have "same_keys c (unlink n c)" using c1(6) c2(6) same_keys_trans by blast
  moreover have "dll (cStore (unlink n c)) None (l @ r) None"
    using c2(2,3) n by (simp add: eq dll_append dll_frame)
  ultimately show ?thesis using c2(4,5) by (simp add: eq)
qed

lemma same_keys_entries:
  assumes "same_keys c c'" and "dll (cStore c) None as None" and "set bs \<subseteq> set as"
  shows "entries (cStore c') bs = entries (cStore c) bs"
  using assms dll_alloc[OF assms(2)] by (intro entries_cong) (auto simp: same_keys_def)

lemma same_keys_key:
  assumes "same_keys c c'" and "cStore c a = Some x"
  shows "nKey (the (cStore c' a)) = nKey x" and "nValue (the (cStore c' a)) = nValue x" and "cStore c' a \<noteq> None"
proof -
  have "map_option (\<lambda>x. (nKey x, nValue x)) (cStore c' a) = Some (nKey x, nValue x)"
    using assms by (simp add: same_keys_def)
  then show "nKey (the (cStore c' a)) = nKey x" "nValue (the (cStore c' a)) = nValue x" "cStore c' a \<noteq> None"
    by auto
qed

text \<open>Reordering the list of a well-formed cache, keys and values untouched.\<close>

lemma lru_ok_permute:
  assumes ok: "lru_ok c as" and sk: "same_keys c c'" and set: "mset bs = mset as"
    and "dll (cStore c') None bs None" "cHead c' = first_of bs None" "cTail c' = last_of None bs"
  shows "lru_ok c' bs"
proof -
  have d: "dll (cStore c) None as None" using ok by (simp add: lru_ok_def)
  have e: "entries (cStore c') bs = entries (cStore c) bs"
    using same_keys_entries[OF sk d] mset_eq_setD[OF set] by simp
  have "mset (entries (cStore c) bs) = mset (entries (cStore c) as)"
    by (simp add: entries_def set)
  then have "distinct (map fst (entries (cStore c') bs))"
    using ok e by (metis lru_ok_def mset_eq_imp_distinct_iff mset_map)
  moreover have "nKey (the (cStore c' a)) = nKey (the (cStore c a))" if "a \<in> set as" for a
    using same_keys_key(1)[OF sk] dll_alloc[OF d that] by fastforce
  ultimately show ?thesis
    using ok sk assms(4-6) mset_eq_setD[OF set] mset_eq_length[OF set] mset_eq_imp_distinct_iff[OF set]
    by (auto simp: lru_ok_def same_keys_def)
qed

lemma moveToFront_spec:
  assumes ok: "lru_ok c as" and n: "n \<in> set as"
  shows "lru_ok (moveToFront n c) (n # remove1 n as) \<and> same_keys c (moveToFront n c)"
proof -
  obtain l r where as: "as = l @ n # r" and nl: "n \<notin> set l"
    using split_list_first[OF n] by auto
  then have rm: "remove1 n as = l @ r" by (simp add: remove1_append)
  have d: "dll (cStore c) None (l @ n # r) None" "distinct (l @ n # r)"
      "cHead c = first_of (l @ n # r) None" "cTail c = last_of None (l @ n # r)"
    using ok as by (simp_all add: lru_ok_def)
  show ?thesis
  proof (cases "l = []")
    case True
    then show ?thesis using ok as d(3) rm by (simp add: moveToFront_def)
  next
    case False
    then have "cHead c \<noteq> Some n" using d(2,3) nl by (cases l) auto
    then have eq: "moveToFront n c = pushFront n (unlink n c)" by (simp add: moveToFront_def)
    note u = unlink_spec[OF d]
    have "cStore (unlink n c) n \<noteq> None"
      using u same_keys_key(3) dll_alloc[OF d(1), of n] by fastforce
    with pushFront_spec[of "unlink n c" "l @ r" n] u d(2)
    have p: "dll (cStore (moveToFront n c)) None (n # l @ r) None" "cHead (moveToFront n c) = Some n"
        "cTail (moveToFront n c) = last_of None (n # l @ r)" "same_keys (unlink n c) (moveToFront n c)"
      unfolding eq by auto
    then have sk: "same_keys c (moveToFront n c)" using u same_keys_trans by blast
    have "lru_ok (moveToFront n c) (n # l @ r)"
      by (rule lru_ok_permute[OF ok sk]) (use p as in auto)
    with sk rm show ?thesis by simp
  qed
qed

subsection \<open>Refinement of a list of entries\<close>

text \<open>The abstract cache: entries, most recently used first.\<close>

definition touch :: "'k \<Rightarrow> 'v \<Rightarrow> ('k \<times> 'v) list \<Rightarrow> ('k \<times> 'v) list" where
  "touch k v xs = (k, v) # filter (\<lambda>e. fst e \<noteq> k) xs"

definition abs_get :: "'k \<Rightarrow> ('k \<times> 'v) list \<Rightarrow> 'v option \<times> ('k \<times> 'v) list" where
  "abs_get k xs = (case map_of xs k of None \<Rightarrow> (None, xs) | Some v \<Rightarrow> (Some v, touch k v xs))"

definition abs_put :: "nat \<Rightarrow> 'k \<Rightarrow> 'v \<Rightarrow> ('k \<times> 'v) list \<Rightarrow> ('k \<times> 'v) list" where
  "abs_put cap k v xs = take cap (touch k v xs)"

definition lru_rel :: "('k, 'v) lru \<Rightarrow> ('k \<times> 'v) list \<Rightarrow> bool" where
  "lru_rel c xs \<longleftrightarrow> (\<exists>as. lru_ok c as \<and> entries (cStore c) as = xs \<and> length xs \<le> cCap c)"

lemma index_map_of:
  assumes "lru_ok c as"
  shows "map_of (entries (cStore c) as) k = map_option (\<lambda>a. nValue (the (cStore c a))) (cIndex c k)"
proof (cases "cIndex c k")
  case None
  have "cIndex c (nKey (the (cStore c a))) = Some a" if "a \<in> set as" for a
    using assms that unfolding lru_ok_def by blast
  with None have "\<not> (\<exists>a\<in>set as. nKey (the (cStore c a)) = k)" by fastforce
  then have "k \<notin> fst ` set (entries (cStore c) as)" by (auto simp: entries_def)
  with None show ?thesis by (simp add: map_of_eq_None_iff)
next
  case (Some a)
  then have "a \<in> set as" "nKey (the (cStore c a)) = k" using assms by (auto simp: lru_ok_def)
  then have "(k, nValue (the (cStore c a))) \<in> set (entries (cStore c) as)" by (force simp: entries_def)
  moreover have "distinct (map fst (entries (cStore c) as))" using assms by (simp add: lru_ok_def)
  ultimately have "map_of (entries (cStore c) as) k = Some (nValue (the (cStore c a)))"
    by (simp add: map_of_is_SomeI)
  with Some show ?thesis by simp
qed

lemma entries_remove1:
  assumes "lru_ok c as" and "n \<in> set as"
  shows "entries (cStore c) (remove1 n as) = filter (\<lambda>e. fst e \<noteq> nKey (the (cStore c n))) (entries (cStore c) as)"
proof -
  obtain l r where as: "as = l @ n # r" and nl: "n \<notin> set l" using split_list_first[OF assms(2)] by auto
  let ?k = "nKey (the (cStore c n))"
  have "distinct (map fst (entries (cStore c) (l @ n # r)))" using assms(1) as by (simp add: lru_ok_def)
  then have "\<forall>e\<in>set (entries (cStore c) (l @ r)). fst e \<noteq> ?k" by force
  then have "filter (\<lambda>e. fst e \<noteq> ?k) (entries (cStore c) (l @ r)) = entries (cStore c) (l @ r)"
    by (simp only: filter_id_conv)
  with as nl show ?thesis by (simp add: remove1_append)
qed

lemma moveToFront_entries:
  assumes ok: "lru_ok c as" and n: "n \<in> set as"
  shows "entries (cStore (moveToFront n c)) (n # remove1 n as) =
    touch (nKey (the (cStore c n))) (nValue (the (cStore c n))) (entries (cStore c) as)"
proof -
  have sk: "same_keys c (moveToFront n c)" using moveToFront_spec[OF assms] by simp
  have d: "dll (cStore c) None as None" using ok by (simp add: lru_ok_def)
  have "entries (cStore (moveToFront n c)) (n # remove1 n as) = entries (cStore c) (n # remove1 n as)"
    using n set_remove1_subset[of n as] by (intro same_keys_entries[OF sk d]) auto
  then show ?thesis using entries_remove1[OF assms] by (simp add: touch_def)
qed

lemma lru_Get_refines:
  assumes "lru_rel c xs"
  shows "fst (lru_Get k c) = fst (abs_get k xs) \<and> lru_rel (snd (lru_Get k c)) (snd (abs_get k xs)) \<and>
    cCap (snd (lru_Get k c)) = cCap c"
proof -
  obtain as where ok: "lru_ok c as" and xs: "entries (cStore c) as = xs" and cap: "length xs \<le> cCap c"
    using assms by (auto simp: lru_rel_def)
  show ?thesis
  proof (cases "cIndex c k")
    case None
    then have "map_of xs k = None" using index_map_of[OF ok, of k] xs by simp
    with None assms show ?thesis by (simp add: lru_Get_def abs_get_def)
  next
    case (Some n)
    then have n: "n \<in> set as" and key: "nKey (the (cStore c n)) = k" using ok by (auto simp: lru_ok_def)
    note m = moveToFront_spec[OF ok n]
    obtain x where x: "cStore c n = Some x"
      using dll_alloc[of "cStore c" None as None n] ok n by (auto simp: lru_ok_def)
    have v: "nValue (getNode (moveToFront n c) n) = nValue x"
      using same_keys_key(2) m x unfolding getNode_def by blast
    have e: "entries (cStore (moveToFront n c)) (n # remove1 n as) = touch k (nValue x) xs"
      using moveToFront_entries[OF ok n] key x xs by simp
    have "length (touch k (nValue x) xs) = length xs"
      using arg_cong[OF e, of length] n xs by (auto simp: length_remove1 dest: length_pos_if_in_set)
    moreover have "map_of xs k = Some (nValue x)" using index_map_of[OF ok, of k] Some x xs by simp
    moreover have "cCap (moveToFront n c) = cCap c" using m by (simp add: same_keys_def)
    ultimately show ?thesis
      using Some v e m cap by (auto simp: lru_Get_def abs_get_def lru_rel_def Let_def intro!: exI[of _ "n # remove1 n as"])
  qed
qed

lemma dll_upd_value:
  assumes "\<And>x. nPrev (f x) = nPrev x \<and> nNext (f x) = nNext x"
  shows "dll s p as q \<Longrightarrow> dll (s(n := map_option f (s n))) p as q"
  using assms by (induction as arbitrary: p) auto

lemma set_value_ok:
  fixes v :: 'v
  assumes ok: "lru_ok c as" and n: "n \<in> set as"
  defines "c' \<equiv> upd n (\<lambda>x. x\<lparr>nValue := v\<rparr>) c"
  shows "lru_ok c' as" and "nValue (the (cStore c' n)) = v" and "nKey (the (cStore c' n)) = nKey (the (cStore c n))"
    and "filter (\<lambda>e. fst e \<noteq> nKey (the (cStore c n))) (entries (cStore c') as) =
      filter (\<lambda>e. fst e \<noteq> nKey (the (cStore c n))) (entries (cStore c) as)"
proof -
  have d: "dll (cStore c) None as None" using ok by (simp add: lru_ok_def)
  obtain x where x: "cStore c n = Some x" using dll_alloc[OF d n] by auto
  have k: "nKey (the (cStore c' a)) = nKey (the (cStore c a))" for a
    using x by (simp add: c'_def)
  then have "map fst (entries (cStore c') as) = map fst (entries (cStore c) as)"
    by (simp add: entries_def)
  moreover have "dll (cStore c') None as None"
    using dll_upd_value[OF _ d, of "\<lambda>x. x\<lparr>nValue := v\<rparr>" n] by (simp add: c'_def)
  ultimately show "lru_ok c' as" using ok k by (simp add: lru_ok_def c'_def)
  show "nValue (the (cStore c' n)) = v" "nKey (the (cStore c' n)) = nKey (the (cStore c n))"
    using x by (simp_all add: c'_def)
  have ne: "nKey (the (cStore c a)) \<noteq> nKey (the (cStore c n)) \<or> a = n" if "a \<in> set as" for a
    using ok that n unfolding lru_ok_def by (metis option.inject)
  show "filter (\<lambda>e. fst e \<noteq> nKey (the (cStore c n))) (entries (cStore c') as) =
      filter (\<lambda>e. fst e \<noteq> nKey (the (cStore c n))) (entries (cStore c) as)"
    unfolding entries_def filter_map comp_def fst_conv
    by (intro map_cong filter_cong refl) (use x in \<open>auto simp: c'_def\<close>)
qed

lemma lru_insert_ok:
  assumes ok: "lru_ok c as" and k: "cIndex c k = None"
  shows "lru_ok (lru_insert k v c) (cFresh c # as) \<and>
    entries (cStore (lru_insert k v c)) (cFresh c # as) = (k, v) # entries (cStore c) as \<and>
    cCap (lru_insert k v c) = cCap c"
proof -
  let ?n = "cFresh c"
  define c0 where "c0 = c\<lparr>cStore := (cStore c)(?n \<mapsto> \<lparr>nKey = k, nValue = v, nPrev = None, nNext = None\<rparr>),
        cFresh := Suc ?n, cIndex := (cIndex c)(k \<mapsto> ?n), cLen := Suc (cLen c)\<rparr>"
  have n: "?n \<notin> set as" using ok by (auto simp: lru_ok_def)
  have d: "dll (cStore c0) None as None" using ok n by (simp add: c0_def lru_ok_def dll_frame)
  have eq: "lru_insert k v c = pushFront ?n c0" by (simp add: lru_insert_def c0_def Let_def)
  note p = pushFront_spec[of c0 as ?n, folded eq]
  have p': "dll (cStore (lru_insert k v c)) None (?n # as) None" "cHead (lru_insert k v c) = Some ?n"
      "cTail (lru_insert k v c) = last_of None (?n # as)" "same_keys c0 (lru_insert k v c)"
    using p d n ok by (auto simp: c0_def lru_ok_def)
  have keys: "nKey (the (cStore (lru_insert k v c) a)) = nKey (the (cStore c0 a)) \<and>
      nValue (the (cStore (lru_insert k v c) a)) = nValue (the (cStore c0 a))" if "a \<in> set (?n # as)" for a
    using same_keys_key(1,2)[OF p'(4)] that dll_alloc[OF d, of a] by (cases "cStore c0 a") (auto simp: c0_def)
  have c0k: "cStore c0 a = cStore c a" if "a \<in> set as" for a using that n by (auto simp: c0_def)
  have e: "entries (cStore (lru_insert k v c)) (?n # as) = (k, v) # entries (cStore c) as"
  proof -
    have "entries (cStore (lru_insert k v c)) as = entries (cStore c) as"
      unfolding entries_def using keys c0k by (intro map_cong) auto
    moreover have "nKey (the (cStore (lru_insert k v c) ?n)) = k \<and> nValue (the (cStore (lru_insert k v c) ?n)) = v"
      using keys[of ?n] by (simp add: c0_def)
    ultimately show ?thesis by simp
  qed
  have "k \<notin> fst ` set (entries (cStore c) as)"
    using index_map_of[OF ok, of k] k by (simp add: map_of_eq_None_iff)
  then have "distinct (map fst (entries (cStore (lru_insert k v c)) (?n # as)))"
    unfolding e using ok by (simp add: lru_ok_def)
  moreover have idx: "cIndex (lru_insert k v c) = (cIndex c)(k \<mapsto> ?n)" "cLen (lru_insert k v c) = Suc (cLen c)"
      "cCap (lru_insert k v c) = cCap c" "cFresh (lru_insert k v c) = Suc ?n"
    using p'(4) by (simp_all add: same_keys_def c0_def)
  moreover have "(cIndex (lru_insert k v c) j = Some a) \<longleftrightarrow>
      a \<in> set (?n # as) \<and> nKey (the (cStore (lru_insert k v c) a)) = j" for j a
  proof -
    have old: "cIndex c j = Some a \<longleftrightarrow> a \<in> set as \<and> nKey (the (cStore c a)) = j" for j a
      using ok unfolding lru_ok_def by blast
    have "nKey (the (cStore (lru_insert k v c) ?n)) = k" using keys[of ?n] by (simp add: c0_def)
    moreover have "nKey (the (cStore (lru_insert k v c) a)) = nKey (the (cStore c a))" if "a \<in> set as" for a
      using keys[of a] c0k[OF that] that by simp
    ultimately show ?thesis
      using old[of j a] old[of k a] k n by (auto simp: idx)
  qed
  ultimately show ?thesis
    using ok n p' e by (auto simp: lru_ok_def)
qed

lemma lru_evict_ok:
  assumes ok: "lru_ok c (as @ [z])"
  shows "lru_ok (lru_evict c) as \<and> entries (cStore (lru_evict c)) as = entries (cStore c) as \<and>
    cCap (lru_evict c) = cCap c"
proof -
  have d: "dll (cStore c) None (as @ [z]) None" and dist: "distinct (as @ [z])" and tl: "cTail c = Some z"
    and kd: "distinct (map fst (entries (cStore c) (as @ [z])))"
    and idx: "\<And>k a. cIndex c k = Some a \<longleftrightarrow> a \<in> set (as @ [z]) \<and> nKey (the (cStore c a)) = k"
    using ok unfolding lru_ok_def by auto
  define c' where "c' = unlink z c"
  have u: "dll (cStore c') None as None" "cHead c' = first_of as None" "cTail c' = last_of None as" "same_keys c c'"
    using unlink_spec[OF d dist] ok by (auto simp: lru_ok_def c'_def)
  have eq: "lru_evict c = c'\<lparr>cIndex := (cIndex c')(nKey (getNode c' z) := None), cLen := cLen c' - 1\<rparr>"
    using tl by (simp add: lru_evict_def c'_def Let_def)
  have k: "nKey (the (cStore c' a)) = nKey (the (cStore c a))" if "a \<in> set (as @ [z])" for a
    using same_keys_key(1)[OF u(4)] dll_alloc[OF d that] by fastforce
  have e: "entries (cStore c') as = entries (cStore c) as"
    by (rule same_keys_entries[OF u(4) d]) auto
  have ix: "cIndex (lru_evict c) j = Some a \<longleftrightarrow> a \<in> set as \<and> nKey (the (cStore (lru_evict c) a)) = j" for j a
  proof -
    have zk: "nKey (the (cStore c a)) \<noteq> nKey (the (cStore c z))" if "a \<in> set as" for a
      using idx[of "nKey (the (cStore c z))" a] idx[of "nKey (the (cStore c z))" z] that dist by auto
    have "cIndex (lru_evict c) j = (if j = nKey (the (cStore c z)) then None else cIndex c j)"
      using u(4) k[of z] by (simp add: eq getNode_def same_keys_def)
    moreover have "cStore (lru_evict c) = cStore c'" by (simp add: eq)
    ultimately show ?thesis
      using idx[of j a] zk[of a] k[of a] by (auto simp: fun_upd_def)
  qed
  have st: "cStore (lru_evict c) = cStore c'" "cHead (lru_evict c) = cHead c'" "cTail (lru_evict c) = cTail c'"
      "cCap (lru_evict c) = cCap c" "cFresh (lru_evict c) = cFresh c" "cLen (lru_evict c) = length as"
    using u(4) ok by (simp_all add: eq same_keys_def lru_ok_def)
  have "lru_ok (lru_evict c) as"
    unfolding lru_ok_def
    by (intro conjI allI ix) (use ok u e kd dist in \<open>simp_all add: st lru_ok_def\<close>)
  with e st show ?thesis by simp
qed

lemma touch_length_new: "map_of xs k = None \<Longrightarrow> touch k v xs = (k, v) # xs"
  by (auto simp: touch_def map_of_eq_None_iff filter_id_conv)

lemma lru_Put_refines:
  assumes "lru_rel c xs"
  shows "lru_rel (lru_Put k v c) (abs_put (cCap c) k v xs) \<and> cCap (lru_Put k v c) = cCap c"
proof -
  obtain as where ok: "lru_ok c as" and xs: "entries (cStore c) as = xs" and cap: "length xs \<le> cCap c"
    using assms by (auto simp: lru_rel_def)
  show ?thesis
  proof (cases "cIndex c k")
    case (Some n)
    then have n: "n \<in> set as" and key: "nKey (the (cStore c n)) = k" using ok by (auto simp: lru_ok_def)
    let ?c' = "upd n (\<lambda>x. x\<lparr>nValue := v\<rparr>) c"
    note sv = set_value_ok[OF ok n, of v]
    note m = moveToFront_spec[OF sv(1) n]
    have e: "entries (cStore (moveToFront n ?c')) (n # remove1 n as) = touch k v xs"
      using moveToFront_entries[OF sv(1) n] sv(2-4) key xs unfolding touch_def by simp
    have len: "length (touch k v xs) = length xs"
      using arg_cong[OF e, of length] n xs by (auto simp: length_remove1 dest: length_pos_if_in_set)
    moreover have "cCap (moveToFront n ?c') = cCap c" using m by (simp add: same_keys_def)
    ultimately show ?thesis
      using Some m e cap by (auto simp: lru_Put_def abs_put_def lru_rel_def intro!: exI[of _ "n # remove1 n as"])
  next
    case None
    let ?c = "lru_insert k v c" and ?as = "cFresh c # as"
    note i = lru_insert_ok[OF ok None, of v]
    have t: "touch k v xs = (k, v) # xs"
      using index_map_of[OF ok, of k] None xs by (intro touch_length_new) simp
    have len: "cLen ?c = Suc (length xs)" and cp: "cCap ?c = cCap c" using i xs by (auto simp: lru_ok_def)
    show ?thesis
    proof (cases "cCap ?c < cLen ?c")
      case False
      then show ?thesis
        using None i t xs len cp by (auto simp: lru_Put_def Let_def abs_put_def lru_rel_def intro!: exI[of _ ?as])
    next
      case True
      then have full: "length xs = cCap c" using len cp cap by simp
      obtain bs z where bz: "?as = bs @ [z]" by (metis list.distinct(1) rev_exhaust)
      have "lru_ok ?c (bs @ [z])" using i bz by simp
      note ev = lru_evict_ok[OF this]
      have "entries (cStore (lru_evict ?c)) bs = butlast (entries (cStore ?c) (bs @ [z]))"
        using ev by (simp add: entries_def)
      also have "\<dots> = butlast ((k, v) # xs)" using i bz xs by simp
      also have "\<dots> = take (cCap c) ((k, v) # xs)" using full by (simp add: butlast_conv_take)
      finally have "entries (cStore (lru_evict ?c)) bs = abs_put (cCap c) k v xs" by (simp add: abs_put_def t)
      then show ?thesis
        using None True ev cp by (auto simp: lru_Put_def Let_def lru_rel_def abs_put_def intro!: exI[of _ bs])
    qed
  qed
qed

lemma newLRU_rel: "lru_rel (newLRU n) []"
  by (auto simp: lru_rel_def lru_ok_def newLRU_def intro!: exI[of _ "[]"])

lemma lru_rel_unique: "lru_rel c xs \<Longrightarrow> distinct (map fst xs) \<and> length xs \<le> cCap c \<and> lru_Len c = length xs"
  by (auto simp: lru_rel_def lru_ok_def lru_Len_def)

subsection \<open>The interface clients rely on\<close>

text \<open>A cache, seen from a client: \<open>sees c k\<close> is the value a lookup would return. A lookup changes
  nothing a client can see; after a store, the stored key has its value and every other key has its
  old value or none.\<close>

locale cache =
  fixes get :: "'k \<Rightarrow> 'c \<Rightarrow> 'v option \<times> 'c" and put :: "'k \<Rightarrow> 'v \<Rightarrow> 'c \<Rightarrow> 'c" and ok :: "'c \<Rightarrow> bool"
    and sees :: "'c \<Rightarrow> 'k \<Rightarrow> 'v option"
  assumes get_result: "ok c \<Longrightarrow> fst (get k c) = sees c k"
    and get_keeps: "ok c \<Longrightarrow> ok (snd (get k c)) \<and> sees (snd (get k c)) = sees c"
    and put_keeps: "ok c \<Longrightarrow> ok (put k v c)"
    and put_same: "ok c \<Longrightarrow> sees (put k v c) k = Some v"
    and put_other: "ok c \<Longrightarrow> j \<noteq> k \<Longrightarrow> sees (put k v c) j \<in> {None, sees c j}"
begin

lemma put_sound: "ok c \<Longrightarrow> sees (put k v c) j = Some w \<Longrightarrow> (j = k \<and> w = v) \<or> sees c j = Some w"
  using put_same[of c k v] put_other[of c j k v] by (cases "j = k") auto

lemma get_put: "ok c \<Longrightarrow> fst (get k (put k v c)) = Some v"
  using get_result[of "put k v c" k] put_same put_keeps by simp

end

definition lru_inv :: "('k, 'v) lru \<Rightarrow> bool" where
  "lru_inv c \<longleftrightarrow> (\<exists>xs. lru_rel c xs)"

definition lru_sees :: "('k, 'v) lru \<Rightarrow> 'k \<Rightarrow> 'v option" where
  "lru_sees c k = map_option (\<lambda>a. nValue (the (cStore c a))) (cIndex c k)"

lemma lru_sees_map_of: "lru_rel c xs \<Longrightarrow> lru_sees c = map_of xs"
  by (auto simp: lru_rel_def lru_sees_def index_map_of fun_eq_iff)

lemma map_of_touch: "map_of (touch k v xs) j = (if j = k then Some v else map_of xs j)"
  by (induction xs) (auto simp: touch_def)

lemma abs_put_first: "1 \<le> cap \<Longrightarrow> map_of (abs_put cap k v xs) k = Some v"
  by (cases cap) (simp_all add: abs_put_def touch_def)

lemma map_of_take: "distinct (map fst xs) \<Longrightarrow> map_of (take n xs) j \<in> {None, map_of xs j}"
proof -
  assume d: "distinct (map fst xs)"
  have "map_of (take n xs) j = Some v \<Longrightarrow> map_of xs j = Some v" for v
    using d by (meson in_set_takeD map_of_SomeD map_of_is_SomeI)
  then show ?thesis by (cases "map_of (take n xs) j") auto
qed

lemma distinct_touch: "distinct (map fst xs) \<Longrightarrow> distinct (map fst (touch k v xs))"
  by (auto simp: touch_def distinct_map_filter)

interpretation lru_cache: cache lru_Get lru_Put lru_inv lru_sees
proof unfold_locales
  fix c :: "('a, 'b) lru" and k j :: 'a and v :: 'b
  assume "lru_inv c"
  then obtain xs where r: "lru_rel c xs" by (auto simp: lru_inv_def)
  note s = lru_sees_map_of[OF r] and g = lru_Get_refines[OF r, of k] and p = lru_Put_refines[OF r, of k v]
  have cap: "1 \<le> cCap c" using r by (auto simp: lru_rel_def lru_ok_def)
  have d: "distinct (map fst xs)" using lru_rel_unique[OF r] by simp
  show "fst (lru_Get k c) = lru_sees c k" using g s by (simp add: abs_get_def split: option.splits)
  have "map_of (snd (abs_get k xs)) = map_of xs"
    by (auto simp: abs_get_def map_of_touch fun_eq_iff split: option.splits)
  then show "lru_inv (snd (lru_Get k c)) \<and> lru_sees (snd (lru_Get k c)) = lru_sees c"
    using g s lru_sees_map_of[of "snd (lru_Get k c)" "snd (abs_get k xs)"] by (auto simp: lru_inv_def)
  show "lru_inv (lru_Put k v c)" using p by (auto simp: lru_inv_def)
  have ps: "lru_sees (lru_Put k v c) = map_of (abs_put (cCap c) k v xs)" using p lru_sees_map_of by blast
  show "lru_sees (lru_Put k v c) k = Some v" using ps abs_put_first[OF cap] by simp
  show "lru_sees (lru_Put k v c) j \<in> {None, lru_sees c j}" if "j \<noteq> k"
    using map_of_take[OF distinct_touch[OF d], of "cCap c" k v j] that by (simp add: ps s abs_put_def map_of_touch)
qed

subsection \<open>Properties\<close>

datatype ('k, 'v) lru_op = Get 'k | Put 'k 'v

fun lru_run :: "('k, 'v) lru_op list \<Rightarrow> ('k, 'v) lru \<Rightarrow> 'v option list \<times> ('k, 'v) lru" where
  "lru_run [] c = ([], c)"
| "lru_run (Get k # ops) c =
     (case lru_Get k c of (v, c1) \<Rightarrow> (case lru_run ops c1 of (vs, c2) \<Rightarrow> (v # vs, c2)))"
| "lru_run (Put k v # ops) c = lru_run ops (lru_Put k v c)"

fun abs_run :: "nat \<Rightarrow> ('k, 'v) lru_op list \<Rightarrow> ('k \<times> 'v) list \<Rightarrow> 'v option list \<times> ('k \<times> 'v) list" where
  "abs_run cap [] xs = ([], xs)"
| "abs_run cap (Get k # ops) xs =
     (case abs_get k xs of (v, xs1) \<Rightarrow> (case abs_run cap ops xs1 of (vs, xs2) \<Rightarrow> (v # vs, xs2)))"
| "abs_run cap (Put k v # ops) xs = abs_run cap ops (abs_put cap k v xs)"

lemma lru_run_refines:
  assumes "lru_rel c xs"
  shows "fst (lru_run ops c) = fst (abs_run (cCap c) ops xs) \<and>
    lru_rel (snd (lru_run ops c)) (snd (abs_run (cCap c) ops xs)) \<and> cCap (snd (lru_run ops c)) = cCap c"
  using assms
proof (induction ops c arbitrary: xs rule: lru_run.induct)
  case (1 c)
  then show ?case by simp
next
  case (2 k ops c)
  have "fst (lru_Get k c) = fst (abs_get k xs)" "lru_rel (snd (lru_Get k c)) (snd (abs_get k xs))"
    "cCap (snd (lru_Get k c)) = cCap c"
    using lru_Get_refines[OF "2.prems", of k] by simp_all
  with "2.IH"[OF prod.collapse this(2)] show ?case by (simp add: case_prod_beta)
next
  case (3 k v ops c)
  from lru_Put_refines[OF "3.prems", of k v] "3.IH" show ?case by fastforce
qed

text \<open>C25. The pointer structure implements least-recently-used caching: for every sequence of lookups and
  stores on a new cache, the results are those of a plain list of entries kept most recently used first
  and cut to the capacity; the number of entries never exceeds the capacity and is what \<^verbatim>\<open>Len\<close> reports.\<close>

theorem lru_refines_list:
  "fst (lru_run ops (newLRU capacity)) = fst (abs_run (nat (max 1 capacity)) ops []) \<and>
    lru_Len (snd (lru_run ops (newLRU capacity))) = length (snd (abs_run (nat (max 1 capacity)) ops [])) \<and>
    length (snd (abs_run (nat (max 1 capacity)) ops [])) \<le> nat (max 1 capacity)"
proof -
  have c: "cCap (newLRU capacity) = nat (max 1 capacity)" by (simp add: newLRU_def max_def)
  from lru_run_refines[OF newLRU_rel, of ops capacity] lru_rel_unique show ?thesis
    unfolding c by fastforce
qed

end
