(* ===== verification/Streams.thy ===== *)
theory Streams
  imports Lru Records
begin

text \<open>
  \<^verbatim>\<open>internal/storage/streams.go\<close>: the cache of streams already written to the dimension table, and the
  arrays an upsert binds. The cache is a client of the interface \<open>cache\<close>, so what it guarantees is
  proved against that interface and obtained for the linked-list cache by interpretation.
\<close>

record streamCache =
  scEntries :: "(u64, gotime) lru"
  scRefreshAfter :: duration
  scHits :: nat
  scMisses :: nat
  scGauge :: nat

definition newStreamCache :: "int \<Rightarrow> duration \<Rightarrow> streamCache" where
  "newStreamCache capacity refreshAfter = \<lparr>scEntries = newLRU capacity, scRefreshAfter = refreshAfter,
     scHits = 0, scMisses = 0, scGauge = 0\<rparr>"

definition needsUpsert :: "u64 \<Rightarrow> gotime \<Rightarrow> streamCache \<Rightarrow> bool \<times> streamCache" where
  "needsUpsert sid now c =
     (case lru_Get sid (scEntries c) of (r, e) \<Rightarrow>
       (let c' = c\<lparr>scEntries := e\<rparr> in
        case r of
          None \<Rightarrow> (True, c'\<lparr>scMisses := scMisses c + 1\<rparr>)
        | Some refreshed \<Rightarrow>
           (if scRefreshAfter c \<le> time_Sub now refreshed
            then (True, c'\<lparr>scMisses := scMisses c + 1\<rparr>)
            else (False, c'\<lparr>scHits := scHits c + 1\<rparr>))))"

definition markUpserted :: "u64 \<Rightarrow> gotime \<Rightarrow> streamCache \<Rightarrow> streamCache" where
  "markUpserted sid at' c =
     (let e = lru_Put sid at' (scEntries c) in c\<lparr>scEntries := e, scGauge := lru_Len e\<rparr>)"

text \<open>The arrays of one upsert, row by row; \<open>json\<close> is \<^verbatim>\<open>json.Marshal\<close> of a string map.\<close>

definition encodeLabels :: "(string gomap \<Rightarrow> string) \<Rightarrow> LabelSet \<Rightarrow> string" where
  "encodeLabels json ls = (if Extra ls = [] then ''{}'' else json (Extra ls))"

type_synonym stream_row = "int \<times> string \<times> string \<times> string \<times> string \<times> gotime \<times> gotime"

definition upsert_rows :: "(string gomap \<Rightarrow> string) \<Rightarrow> Stream list \<Rightarrow> stream_row list option" where
  "upsert_rows json streams =
     (if streams = [] then None
      else Some (map (\<lambda>s. (sint (stID s), Service (stLabels s), Host (stLabels s), Env (stLabels s),
        encodeLabels json (stLabels s), stFirstSeen s, stLastSeen s)) streams))"

subsection \<open>What the cache remembers\<close>

text \<open>For any implementation of the cache interface: whatever is visible was stored, at some point of the
  history of stores.\<close>

context cache
begin

lemma history_sound:
  assumes "ok c" and "\<And>k v. sees c k = Some v \<Longrightarrow> (k, v) \<in> H"
  shows "sees (put k v c) j = Some w \<Longrightarrow> (j, w) \<in> insert (k, v) H"
  using put_sound[OF assms(1)] assms(2) by fastforce

end

datatype sc_event = Needs u64 gotime | Mark u64 gotime

fun sc_step :: "sc_event \<Rightarrow> streamCache \<Rightarrow> streamCache" where
  "sc_step (Needs i t) c = snd (needsUpsert i t c)"
| "sc_step (Mark i t) c = markUpserted i t c"

definition marks :: "sc_event list \<Rightarrow> (u64 \<times> gotime) set" where
  "marks es = {(i, t). Mark i t \<in> set es}"

lemma needsUpsert_cache:
  assumes "lru_inv (scEntries c)"
  shows "lru_inv (scEntries (snd (needsUpsert i now c))) \<and>
    lru_sees (scEntries (snd (needsUpsert i now c))) = lru_sees (scEntries c) \<and>
    scRefreshAfter (snd (needsUpsert i now c)) = scRefreshAfter c \<and>
    (\<not> fst (needsUpsert i now c) \<longleftrightarrow>
       (\<exists>at'. lru_sees (scEntries c) i = Some at' \<and> time_Sub now at' < scRefreshAfter c))"
proof -
  obtain r e where g: "lru_Get i (scEntries c) = (r, e)" by fastforce
  with lru_cache.get_result[OF assms, of i] lru_cache.get_keeps[OF assms, of i]
  have "r = lru_sees (scEntries c) i" "lru_inv e" "lru_sees e = lru_sees (scEntries c)" by simp_all
  with g show ?thesis by (cases "lru_sees (scEntries c) i") (auto simp: needsUpsert_def Let_def)
qed

lemma sc_run_inv:
  fixes capacity :: int and after :: duration
  defines "run \<equiv> \<lambda>es. fold sc_step es (newStreamCache capacity after)"
  shows "lru_inv (scEntries (run es)) \<and> scRefreshAfter (run es) = after \<and>
    (\<forall>i t. lru_sees (scEntries (run es)) i = Some t \<longrightarrow> (i, t) \<in> marks es)"
proof (induction es rule: rev_induct)
  case Nil
  have "lru_inv (newLRU capacity :: (u64, gotime) lru)" using newLRU_rel by (auto simp: lru_inv_def)
  then show ?case by (simp add: run_def newStreamCache_def lru_sees_def newLRU_def)
next
  case (snoc e es)
  then have ok: "lru_inv (scEntries (run es))" by simp
  have r: "run (es @ [x]) = sc_step x (run es)" for x by (simp add: run_def)
  show ?case
  proof (cases e)
    case (Needs i t)
    with snoc needsUpsert_cache[OF ok, of i t] show ?thesis by (simp add: r Needs marks_def)
  next
    case (Mark i t)
    have "marks (es @ [e]) = insert (i, t) (marks es)" by (auto simp: marks_def Mark)
    moreover have "lru_inv (scEntries (markUpserted i t (run es)))"
      using lru_cache.put_keeps[OF ok] by (simp add: markUpserted_def Let_def)
    moreover have "(j, w) \<in> insert (i, t) (marks es)"
      if "lru_sees (scEntries (markUpserted i t (run es))) j = Some w" for j w
      using lru_cache.history_sound[OF ok, of "marks es" i t j w] snoc that by (auto simp: markUpserted_def Let_def)
    ultimately show ?thesis using snoc by (simp add: r Mark markUpserted_def Let_def)
  qed
qed

subsection \<open>Properties\<close>

text \<open>The stream cache never claims too much. After any history of questions and marks, a stream is
  reported as not needing an upsert only if an earlier mark recorded that it was written, less than
  the refresh interval before now; eviction can only cause an unnecessary write, never a missing one;
  and a stream just marked needs no upsert until the interval has passed.\<close>

theorem streamCache_sound:
  "(fst (needsUpsert i now (fold sc_step es (newStreamCache capacity after))) = False \<longrightarrow>
      (\<exists>t. Mark i t \<in> set es \<and> time_Sub now t < after)) \<and>
    fst (needsUpsert i now (markUpserted i t (fold sc_step es (newStreamCache capacity after)))) =
      (after \<le> time_Sub now t)"
proof -
  define run where "run = (\<lambda>es. fold sc_step es (newStreamCache capacity after))"
  have inv: "lru_inv (scEntries (run es))" "scRefreshAfter (run es) = after"
      "\<And>i t. lru_sees (scEntries (run es)) i = Some t \<Longrightarrow> (i, t) \<in> marks es"
    using sc_run_inv[where es = es and capacity = capacity and after = after] unfolding run_def by auto
  have "lru_inv (scEntries (markUpserted i t (run es)))"
    and "lru_sees (scEntries (markUpserted i t (run es))) i = Some t"
    using lru_cache.put_keeps[OF inv(1)] lru_cache.put_same[OF inv(1)] by (simp_all add: markUpserted_def Let_def)
  from needsUpsert_cache[OF this(1), of i now] this(2)
  have "fst (needsUpsert i now (markUpserted i t (run es))) = (after \<le> time_Sub now t)"
    using inv(2) by (auto simp: markUpserted_def Let_def not_less[symmetric])
  then show ?thesis
    using needsUpsert_cache[OF inv(1), of i now] inv(2,3) by (auto simp: marks_def run_def)
qed

theorem streamCache_sound_witness:
  "fst (needsUpsert 7 (90 * second) (markUpserted 7 (80 * second)
     (fold sc_step [Needs 7 0] (newStreamCache 4 (60 * second))))) = False"
  using streamCache_sound[of 7 "90 * second" "[Needs 7 0]" 4 "60 * second" "80 * second"]
  by (simp add: time_Sub_def second_def)

end
