(* ===== verification/Disk.thy ===== *)
theory Disk
  imports Prelude
begin

text \<open>
  One directory of a file system, as far as the agent uses it, and \<^verbatim>\<open>writeAtomic\<close> of
  \<^verbatim>\<open>internal/agent/checkpoint.go\<close>.

  \<^item> \<open>dNow\<close> is the directory as running processes see it. A regular file carries its contents and
    whether those contents are known to be on stable storage.
  \<^item> \<open>dSafe\<close> is the directory as of the last directory sync. After a power loss an entry is either
    the one of \<open>dSafe\<close> or the one of \<open>dNow\<close>, and a file that was not synced holds anything.
  \<^item> Every system call may fail. Which ones do is the argument \<open>io\<close> of an operation, so a fact
    proved for all \<open>io\<close> holds under every combination of failures.
\<close>

datatype dnode = Folder | File bytes bool

record disk =
  dNow :: "dnode gomap"
  dSafe :: "dnode gomap"

datatype iocall =
    MkdirAll
  | ReadDir
  | Info string
  | Open string
  | Stat string
  | Read string
  | ReadFile string
  | Truncate string
  | Remove string
  | Create string
  | Append_handle string
  | Write string
  | Close string
  | TempCreate
  | TempWrite
  | TempSync
  | TempClose
  | TempRemove
  | Rename
  | DirOpen
  | DirSync

text \<open>\<open>fails\<close> says which calls fail; a failing \<^verbatim>\<open>Write\<close> has still written the first \<open>partial\<close> bytes;
  \<open>random\<close> is the number \<^verbatim>\<open>os.CreateTemp\<close> puts at the end of the name it makes up.\<close>

record io =
  fails :: "iocall \<Rightarrow> bool"
  partial :: nat
  random :: nat

definition io_ok :: io where
  "io_ok = \<lparr>fails = (\<lambda>_. False), partial = 0, random = 0\<rparr>"

lemma io_ok_fails [simp]: "\<not> fails io_ok c"
  by (simp add: io_ok_def)

definition disk_get :: "disk \<Rightarrow> string \<Rightarrow> dnode option" where
  "disk_get d p = map_of (dNow d) p"

definition disk_put :: "string \<Rightarrow> dnode \<Rightarrow> disk \<Rightarrow> disk" where
  "disk_put p f d = d\<lparr>dNow := AList.update p f (dNow d)\<rparr>"

definition disk_del :: "string \<Rightarrow> disk \<Rightarrow> disk" where
  "disk_del p d = d\<lparr>dNow := AList.delete p (dNow d)\<rparr>"

lemma disk_get_put [simp]: "disk_get (disk_put p f d) q = (if q = p then Some f else disk_get d q)"
  by (simp add: disk_get_def disk_put_def update_conv')

lemma disk_get_del [simp]: "disk_get (disk_del p d) q = (if q = p then None else disk_get d q)"
  by (simp add: disk_get_def disk_del_def delete_conv')

lemma dSafe_put_del [simp]: "dSafe (disk_put p f d) = dSafe d" "dSafe (disk_del p d) = dSafe d"
  by (simp_all add: disk_put_def disk_del_def)

text \<open>The names are distinct, as in any directory.\<close>

abbreviation disk_ok :: "disk \<Rightarrow> bool" where
  "disk_ok d \<equiv> gomap_ok (dNow d)"

lemma disk_ok_put [simp]: "disk_ok d \<Longrightarrow> disk_ok (disk_put p f d)"
  by (simp add: disk_put_def distinct_update)

lemma disk_ok_del [simp]: "disk_ok d \<Longrightarrow> disk_ok (disk_del p d)"
  by (simp add: disk_del_def distinct_delete)

text \<open>Removing a name, where a failure is ignored by the caller.\<close>

definition os_Remove :: "io \<Rightarrow> string \<Rightarrow> disk \<Rightarrow> disk" where
  "os_Remove io p d = (if fails io (Remove p) then d else disk_del p d)"

definition file_bytes :: "disk \<Rightarrow> string \<Rightarrow> bytes option" where
  "file_bytes d p = (case disk_get d p of Some (File c _) \<Rightarrow> Some c | _ \<Rightarrow> None)"

lemma file_bytes_put [simp]:
  "file_bytes (disk_put p (File c s) d) q = (if q = p then Some c else file_bytes d q)"
  by (simp add: file_bytes_def)

lemma file_bytes_del [simp]: "file_bytes (disk_del p d) q = (if q = p then None else file_bytes d q)"
  by (simp add: file_bytes_def)

lemma file_bytes_Remove: "file_bytes (os_Remove io p d) q \<in> {file_bytes d q, None}"
  by (simp add: os_Remove_def)

lemma file_bytes_Remove_other [simp]: "q \<noteq> p \<Longrightarrow> file_bytes (os_Remove io p d) q = file_bytes d q"
  by (simp add: os_Remove_def)

lemma disk_ok_Remove [simp]: "disk_ok d \<Longrightarrow> disk_ok (os_Remove io p d)"
  by (simp add: os_Remove_def)

subsection \<open>writeAtomic\<close>

datatype disk_err = ErrTemp | ErrTempWrite | ErrTempSync | ErrTempClose | ErrRename

text \<open>
  The result of \<^verbatim>\<open>writeAtomic\<close> is its error together with the directories it passes through, first to
  last: a process that dies during the call leaves one of them behind. The deferred clean-up removes the
  temporary file on every error.
\<close>

definition temp_name :: "io \<Rightarrow> string \<Rightarrow> string" where
  "temp_name io p = p @ ''.tmp-'' @ itoa (random io)"

lemma temp_name_neq [simp]: "temp_name io p \<noteq> p" "p \<noteq> temp_name io p"
  by (simp_all add: temp_name_def)

definition tmp_cleanup :: "io \<Rightarrow> string \<Rightarrow> disk list \<Rightarrow> disk list" where
  "tmp_cleanup io tmp ds = (if fails io TempRemove then ds else ds @ [disk_del tmp (last ds)])"

definition tmp_rename :: "string \<Rightarrow> string \<Rightarrow> dnode \<Rightarrow> disk \<Rightarrow> disk" where
  "tmp_rename tmp p f d = disk_put p f (disk_del tmp d)"

definition sync_dir :: "disk \<Rightarrow> disk" where
  "sync_dir d = d\<lparr>dSafe := dNow d\<rparr>"

definition writeAtomic :: "io \<Rightarrow> string \<Rightarrow> bytes \<Rightarrow> bool \<Rightarrow> disk \<Rightarrow> disk_err option \<times> disk list" where
  "writeAtomic io p data sync d =
     (if fails io TempCreate then (Some ErrTemp, [d])
      else
        let tmp = temp_name io p; d1 = disk_put tmp (File [] False) d in
        if fails io TempWrite then
          (Some ErrTempWrite, tmp_cleanup io tmp [d, d1, disk_put tmp (File (take (partial io) data) False) d])
        else
          let d2 = disk_put tmp (File data False) d in
          if sync \<and> fails io TempSync then (Some ErrTempSync, tmp_cleanup io tmp [d, d1, d2])
          else
            let d3 = disk_put tmp (File data sync) d in
            if fails io TempClose then (Some ErrTempClose, tmp_cleanup io tmp [d, d1, d2, d3])
            else if fails io Rename then (Some ErrRename, tmp_cleanup io tmp [d, d1, d2, d3])
            else
              let d4 = tmp_rename tmp p (File data sync) d3 in
              if sync \<and> \<not> fails io DirOpen \<and> \<not> fails io DirSync
              then (None, [d, d1, d2, d3, d4, sync_dir d4])
              else (None, [d, d1, d2, d3, d4]))"

text \<open>What a power loss may leave under the name \<open>p\<close>: \<open>None\<close> when the name is gone; a file that was
  not synced may hold any bytes.\<close>

fun node_survives :: "dnode option \<Rightarrow> bytes option \<Rightarrow> bool" where
  "node_survives (Some (File c True)) x \<longleftrightarrow> x = Some c"
| "node_survives (Some (File c False)) x \<longleftrightarrow> x \<noteq> None"
| "node_survives _ x \<longleftrightarrow> x = None"

definition survives :: "disk \<Rightarrow> string \<Rightarrow> bytes option \<Rightarrow> bool" where
  "survives d p x \<longleftrightarrow> node_survives (map_of (dSafe d) p) x \<or> node_survives (disk_get d p) x"

definition settled :: "disk \<Rightarrow> string \<Rightarrow> bytes option \<Rightarrow> bool" where
  "settled d p old \<longleftrightarrow> (\<forall>x. survives d p x \<longrightarrow> x = old)"

lemma writeAtomic_result:
  assumes "writeAtomic io p data sync d = (e, ds)"
  shows "ds \<noteq> []" and "q \<notin> {temp_name io p, p} \<Longrightarrow> disk_get (last ds) q = disk_get d q"
    and "e = None \<Longrightarrow> disk_get (last ds) p = Some (File data sync) \<and> disk_get (last ds) (temp_name io p) = None"
    and "e \<noteq> None \<Longrightarrow> disk_get (last ds) p = disk_get d p"
  using assms
  by (auto simp: writeAtomic_def tmp_cleanup_def tmp_rename_def sync_dir_def disk_get_def[of "_\<lparr>dSafe := _\<rparr>"]
      disk_get_def[symmetric] Let_def split: if_splits)

text \<open>What a process that dies inside the call leaves behind: the old contents or the new ones.\<close>

lemma writeAtomic_visible:
  assumes "writeAtomic io p data sync d = (e, ds)" and "d' \<in> set ds"
  shows "file_bytes d' p \<in> {file_bytes d p, Some data}"
  using assms
  by (auto simp: writeAtomic_def tmp_cleanup_def tmp_rename_def sync_dir_def file_bytes_def
      disk_get_def[of "_\<lparr>dSafe := _\<rparr>"] disk_get_def[symmetric] Let_def split: if_splits)

text \<open>What a power loss during or after a synced call leaves behind.\<close>

lemma writeAtomic_survives:
  assumes "writeAtomic io p data True d = (e, ds)" and "d' \<in> set ds"
    and "settled d p old" and "survives d' p x"
  shows "x = old \<or> x = Some data"
proof -
  have s: "dSafe d' = dSafe d \<or> dSafe d' = dNow d' \<and> disk_get d' p = Some (File data True)"
    and g: "disk_get d' p = disk_get d p \<or> disk_get d' p = Some (File data True)"
    using assms(1,2)
    by (auto simp: writeAtomic_def tmp_cleanup_def tmp_rename_def sync_dir_def
        disk_get_def[of "_\<lparr>dSafe := _\<rparr>"] disk_get_def[symmetric] Let_def split: if_splits)
  from s g assms(3,4) show ?thesis
    by (auto simp: settled_def survives_def disk_get_def)
qed

subsection \<open>Properties\<close>

text \<open>C32. \<^verbatim>\<open>writeAtomic\<close> is atomic. Whichever system calls fail and wherever the process dies, a reader of
  the target finds the old contents or the complete new ones; with \<^verbatim>\<open>sync\<close> this holds even after a
  power loss at any moment, provided the old file was itself on stable storage; and success means the
  target holds the new contents, failure that it still holds the old ones.\<close>

theorem writeAtomic_atomic:
  assumes "writeAtomic io p data sync d = (e, ds)"
  shows "(\<forall>d' \<in> set ds. file_bytes d' p \<in> {file_bytes d p, Some data}) \<and>
    (\<forall>old. sync \<and> settled d p old \<longrightarrow> (\<forall>d' \<in> set ds. \<forall>x. survives d' p x \<longrightarrow> x = old \<or> x = Some data)) \<and>
    file_bytes (last ds) p = (if e = None then Some data else file_bytes d p)"
  using assms writeAtomic_visible[OF assms] writeAtomic_survives[of io p data d e ds] writeAtomic_result(3,4)[OF assms]
  by (fastforce simp: file_bytes_def)

definition crashed_disk :: disk where
  "crashed_disk = \<lparr>dNow = [(''f'', File ''old'' True)], dSafe = [(''f'', File ''old'' True)]\<rparr>"

theorem writeAtomic_atomic_witness:
  "fst (writeAtomic io_ok ''f'' ''new'' True crashed_disk) = None \<and>
   file_bytes (last (snd (writeAtomic io_ok ''f'' ''new'' True crashed_disk))) ''f'' = Some ''new'' \<and>
   \<not> survives (last (snd (writeAtomic io_ok ''f'' ''new'' True crashed_disk))) ''f'' (Some ''ne'')"
proof -
  obtain ds where w: "writeAtomic io_ok ''f'' ''new'' True crashed_disk = (None, ds)"
    by (simp add: writeAtomic_def Let_def)
  have "settled crashed_disk ''f'' (Some ''old'')"
    by (simp add: settled_def survives_def disk_get_def crashed_disk_def)
  moreover have "last ds \<in> set ds" using writeAtomic_result(1)[OF w] by simp
  ultimately show ?thesis using writeAtomic_atomic[OF w] unfolding w by fastforce
qed

end
