(* ===== verification/Spool_Entry.thy ===== *)
theory Spool_Entry
  imports Prelude
begin

text \<open>
  The on-disk format of the agent's spool (\<^verbatim>\<open>internal/agent/spool.go\<close>): big-endian integers, the CRC-32
  of \<^verbatim>\<open>hash/crc32\<close>, \<^verbatim>\<open>encodeEntry\<close>, the scan of a segment, and the names of segment files.
\<close>

unbundle bit_operations_syntax

subsection \<open>CRC-32, IEEE polynomial, reflected\<close>

definition crc_poly :: "32 word" where "crc_poly = 0xEDB88320"

definition crc_bit :: "32 word \<Rightarrow> 32 word" where
  "crc_bit c = (if bit c 0 then drop_bit 1 c XOR crc_poly else drop_bit 1 c)"

definition crc_byte :: "32 word \<Rightarrow> char \<Rightarrow> 32 word" where
  "crc_byte c b = (crc_bit ^^ 8) (c XOR of_char b)"

definition crc32 :: "bytes \<Rightarrow> 32 word" where
  "crc32 p = NOT (foldl crc_byte (NOT 0) p)"

lemma crc_byte_unroll:
  "crc_byte c b = crc_bit (crc_bit (crc_bit (crc_bit (crc_bit (crc_bit (crc_bit (crc_bit (c XOR of_char b))))))))"
  by (simp add: crc_byte_def numeral_eq_Suc)

lemmas crc_eval = crc32_def crc_byte_unroll crc_bit_def crc_poly_def

lemma crc32_check_value: "crc32 ''123456789'' = 0xCBF43926"
  by (simp add: crc_eval)

subsection \<open>Big-endian 32-bit integers\<close>

definition PutUint32 :: "32 word \<Rightarrow> bytes" where
  "PutUint32 w = map char_of [unat w div 16777216, unat w div 65536, unat w div 256, unat w]"

definition Uint32 :: "bytes \<Rightarrow> 32 word" where
  "Uint32 b = of_nat (foldl (\<lambda>v c. v * 256 + byte c) 0 (take 4 b))"

lemma PutUint32_length [simp]: "length (PutUint32 w) = 4"
  by (simp add: PutUint32_def)

lemma Uint32_PutUint32 [simp]: "Uint32 (PutUint32 w @ rest) = w"
proof -
  define n where "n = unat w"
  have n: "n < 4294967296" using unsigned_less[of w, where ?'a = nat] by (simp add: n_def)
  have "((n div 16777216 mod 256 * 256 + n div 65536 mod 256) * 256 + n div 256 mod 256) * 256 + n mod 256 = n"
  proof -
    have "n div 65536 = n div 256 div 256" "n div 16777216 = n div 256 div 256 div 256"
      by (simp_all add: div_mult2_eq[symmetric])
    moreover have "n div 256 div 256 div 256 mod 256 = n div 256 div 256 div 256" using n by simp
    ultimately show ?thesis by (simp add: div_mult_mod_eq)
  qed
  moreover have "foldl (\<lambda>v c. v * 256 + byte c) 0 (take 4 (PutUint32 w @ rest)) =
      ((n div 16777216 mod 256 * 256 + n div 65536 mod 256) * 256 + n div 256 mod 256) * 256 + n mod 256"
    by (simp add: PutUint32_def n_def)
  ultimately have "Uint32 (PutUint32 w @ rest) = of_nat n"
    by (simp only: Uint32_def)
  then show ?thesis by (simp add: n_def)
qed

subsection \<open>Entries\<close>

definition entryHeaderSize :: nat where "entryHeaderSize = 8"
definition maxEntryPayloadBytes :: nat where "maxEntryPayloadBytes = 268435456"

definition encodeEntry :: "bytes \<Rightarrow> bytes" where
  "encodeEntry payload = PutUint32 (of_nat (length payload)) @ PutUint32 (crc32 payload) @ payload"

text \<open>One turn of the loop of \<^verbatim>\<open>scanEntries\<close>: the payload of the entry at the head of what is left of the
  file, or \<open>None\<close> where the loop breaks.\<close>

definition next_entry :: "bytes \<Rightarrow> bytes option" where
  "next_entry rest =
     (if length rest < entryHeaderSize then None
      else
        let len = unat (Uint32 rest); wantCRC = Uint32 (drop 4 rest); body = drop entryHeaderSize rest in
        if len > maxEntryPayloadBytes \<or> len > length body then None
        else if crc32 (take len body) \<noteq> wantCRC then None
        else Some (take len body))"

text \<open>The scan of a file with contents \<open>f\<close> up to \<open>limit\<close> bytes: how many entries and where the last one
  ends. The loop variables are \<open>n\<close> and \<open>offset\<close>.\<close>

function scan_loop :: "bytes \<Rightarrow> int \<Rightarrow> nat \<Rightarrow> nat \<Rightarrow> nat \<times> nat" where
  "scan_loop f limit n offset =
     (if \<not> int offset < limit then (n, offset)
      else case next_entry (drop offset f) of
             None \<Rightarrow> (n, offset)
           | Some p \<Rightarrow> scan_loop f limit (n + 1) (offset + (entryHeaderSize + length p)))"
  by pat_completeness auto
termination
  by (relation "measure (\<lambda>(f, limit, n, offset). nat (limit - int offset))")
    (auto simp: entryHeaderSize_def)

declare scan_loop.simps [simp del]

definition scanEntries :: "bytes \<Rightarrow> int \<Rightarrow> nat \<times> nat" where
  "scanEntries f limit =
     (let size = int (length f); limit' = (if limit < 0 \<or> limit > size then size else limit) in
      scan_loop f limit' 0 0)"

text \<open>The entries themselves, as a list; the reference the scan is compared with.\<close>

function entries_of :: "bytes \<Rightarrow> bytes list" where
  "entries_of f = (case next_entry f of None \<Rightarrow> [] | Some p \<Rightarrow> p # entries_of (drop (entryHeaderSize + length p) f))"
  by pat_completeness auto
termination
  by (relation "measure length") (auto simp: next_entry_def entryHeaderSize_def Let_def split: if_splits)

declare entries_of.simps [simp del]

abbreviation segment_of :: "bytes list \<Rightarrow> bytes" where
  "segment_of ps \<equiv> concat (map encodeEntry ps)"

definition payload_ok :: "bytes \<Rightarrow> bool" where
  "payload_ok p \<longleftrightarrow> length p \<le> maxEntryPayloadBytes"

lemma encodeEntry_length [simp]: "length (encodeEntry p) = entryHeaderSize + length p"
  by (simp add: encodeEntry_def entryHeaderSize_def)

lemma unat_payload_length: "payload_ok p \<Longrightarrow> unat (of_nat (length p) :: 32 word) = length p"
  by (simp add: payload_ok_def maxEntryPayloadBytes_def unsigned_of_nat take_bit_nat_eq_self)

lemma next_entry_encode [simp]: "payload_ok p \<Longrightarrow> next_entry (encodeEntry p @ rest) = Some p"
  by (simp add: next_entry_def encodeEntry_def Let_def unat_payload_length)
    (simp add: entryHeaderSize_def payload_ok_def)

lemma next_entry_Some:
  assumes "next_entry f = Some p"
  shows "payload_ok p \<and> entryHeaderSize + length p \<le> length f"
  using assms by (auto simp: next_entry_def payload_ok_def entryHeaderSize_def Let_def split: if_splits)

lemma next_entry_Nil [simp]: "next_entry [] = None"
  by (simp add: next_entry_def entryHeaderSize_def)

lemma entries_of_payload_ok: "list_all payload_ok (entries_of f)"
proof (induction f rule: entries_of.induct)
  case (1 f)
  then show ?case by (subst entries_of.simps) (auto dest: next_entry_Some split: option.splits)
qed

text \<open>A torn entry, of which only a proper prefix reached the file, is not taken for an entry.\<close>

lemma next_entry_torn:
  assumes "payload_ok p" and "n < length (encodeEntry p)"
  shows "next_entry (take n (encodeEntry p)) = None"
proof (cases "n < entryHeaderSize")
  case True
  with assms show ?thesis by (simp add: next_entry_def)
next
  case False
  then have "n \<ge> 8" by (simp add: entryHeaderSize_def)
  then obtain m where n: "n = 4 + (4 + m)" by (metis add.assoc le_Suc_ex numeral_Bit0)
  have "take n (encodeEntry p) = PutUint32 (of_nat (length p)) @ PutUint32 (crc32 p) @ take m p"
    by (simp add: encodeEntry_def n)
  moreover have "m < length p" using assms(2) n by (simp add: entryHeaderSize_def)
  ultimately show ?thesis
    using assms(1) by (simp add: next_entry_def unat_payload_length Let_def entryHeaderSize_def)
qed

lemma entries_of_segment:
  assumes "list_all payload_ok ps" and "next_entry rest = None"
  shows "entries_of (segment_of ps @ rest) = ps"
  using assms(1)
proof (induction ps)
  case Nil
  show ?case using assms(2) by (simp add: entries_of.simps[of rest])
next
  case (Cons p ps)
  then show ?case by (subst entries_of.simps) simp
qed

lemmas entries_of_segment0 = entries_of_segment[where rest = "[]", simplified]

lemma scan_loop_entries:
  assumes "list_all payload_ok ps" "list_all payload_ok qs" "next_entry rest = None"
    and "f = segment_of ps @ segment_of qs @ rest"
    and "int (length (segment_of ps)) \<le> limit" "limit \<le> int (length f)"
    and "n = length ps"
  shows "\<exists>k \<le> length qs. scan_loop f limit n (length (segment_of ps)) =
      (n + k, length (segment_of ps) + length (segment_of (take k qs))) \<and>
    (k < length qs \<longrightarrow> limit \<le> int (length (segment_of ps) + length (segment_of (take k qs)))) \<and>
    (0 < k \<longrightarrow> int (length (segment_of ps) + length (segment_of (take (k - 1) qs))) < limit)"
  using assms
proof (induction qs arbitrary: ps n)
  case Nil
  then have "scan_loop f limit n (length (segment_of ps)) = (n, length (segment_of ps))"
    by (subst scan_loop.simps) simp
  then show ?case by simp
next
  case (Cons q qs)
  let ?o = "length (segment_of ps)"
  have d: "next_entry (drop ?o f) = Some q" using Cons.prems by simp
  show ?case
  proof (cases "int ?o < limit")
    case False
    then have "scan_loop f limit n ?o = (n, ?o)" by (subst scan_loop.simps) simp
    with False show ?thesis by (intro exI[of _ 0]) simp
  next
    case True
    have step: "scan_loop f limit n ?o = scan_loop f limit (n + 1) (length (segment_of (ps @ [q])))"
      using True d by (subst scan_loop.simps) simp
    show ?thesis
    proof (cases "int (length (segment_of (ps @ [q]))) \<le> limit")
      case True2: True
      from Cons.IH[of "ps @ [q]" "n + 1"] Cons.prems True2
      obtain k where "k \<le> length qs" and "scan_loop f limit (n + 1) (length (segment_of (ps @ [q]))) =
          (n + 1 + k, length (segment_of (ps @ [q])) + length (segment_of (take k qs)))"
        and "k < length qs \<longrightarrow> limit \<le> int (length (segment_of (ps @ [q])) + length (segment_of (take k qs)))"
        and "0 < k \<longrightarrow> int (length (segment_of (ps @ [q])) + length (segment_of (take (k - 1) qs))) < limit"
        by auto
      then show ?thesis using True step
        by (intro exI[of _ "Suc k"]) (cases k; simp add: step algebra_simps)
    next
      case False
      then have "scan_loop f limit (n + 1) (length (segment_of (ps @ [q]))) = (n + 1, length (segment_of (ps @ [q])))"
        by (subst scan_loop.simps) simp
      with True False step show ?thesis by (intro exI[of _ 1]) simp
    qed
  qed
qed

text \<open>Every file is a sequence of entries followed by bytes that hold none.\<close>

lemma be32_digits:
  fixes w x y z :: nat
  assumes "w < 256" "x < 256" "y < 256" "z < 256" and "n = ((w * 256 + x) * 256 + y) * 256 + z"
  shows "n < 4294967296 \<and> n div 16777216 = w \<and> n div 65536 mod 256 = x \<and> n div 256 mod 256 = y \<and> n mod 256 = z"
proof -
  have digit: "(a * 256 + d) div 256 = a \<and> (a * 256 + d) mod 256 = d" if "d < 256" for a d :: nat
    using that by simp
  have e: "n div 65536 = n div 256 div 256" "n div 16777216 = n div 256 div 256 div 256"
    by (simp_all add: div_mult2_eq[symmetric])
  have y: "n div 256 = (w * 256 + x) * 256 + y" "n mod 256 = z"
    using digit[OF assms(4)] unfolding assms(5) by blast+
  have x: "n div 256 div 256 = w * 256 + x" "n div 256 mod 256 = y"
    using digit[OF assms(3)] unfolding y by blast+
  have "n div 256 div 256 div 256 = w" "n div 256 div 256 mod 256 = x"
    using digit[OF assms(2)] unfolding x by blast+
  moreover have "n < 4294967296"
  proof -
    have step: "a \<le> k \<Longrightarrow> d < 256 \<Longrightarrow> a * 256 + d \<le> k * 256 + 255" for a d k :: nat by simp
    from step[OF step[OF step[of w 255 x]], of y z] assms show ?thesis by simp
  qed
  ultimately show ?thesis unfolding e using x y by blast
qed

lemma PutUint32_Uint32:
  assumes "4 \<le> length b"
  shows "PutUint32 (Uint32 b) = take 4 b"
proof -
  obtain w x y z r where b: "b = w # x # y # z # r"
    using assms by (auto simp: numeral_eq_Suc Suc_le_length_iff)
  define n where "n = ((byte w * 256 + byte x) * 256 + byte y) * 256 + (byte z :: nat)"
  note d = be32_digits[OF nat_of_char_less_256 nat_of_char_less_256 nat_of_char_less_256 nat_of_char_less_256 n_def]
  have "Uint32 b = of_nat n" by (simp add: b Uint32_def n_def)
  then have "unat (Uint32 b) = n"
    using d by (simp add: unsigned_of_nat take_bit_nat_eq_self)
  moreover have "char_of (n div 16777216) = w" "char_of (n div 65536) = x" "char_of (n div 256) = y" "char_of n = z"
    using d by (metis char_of_mod_256 char_of_char)+
  ultimately show ?thesis by (simp add: PutUint32_def b)
qed

lemma next_entry_inv:
  assumes "next_entry f = Some p"
  shows "f = encodeEntry p @ drop (entryHeaderSize + length p) f"
proof -
  from assms have len: "8 \<le> length f" and le: "unat (Uint32 f) \<le> length f - 8"
    and crc: "crc32 (take (unat (Uint32 f)) (drop 8 f)) = Uint32 (drop 4 f)"
    and p: "p = take (unat (Uint32 f)) (drop 8 f)"
    by (auto simp: next_entry_def entryHeaderSize_def Let_def split: if_splits)
  have l: "length p = unat (Uint32 f)" using p le by simp
  have "encodeEntry p = take 4 f @ take 4 (drop 4 f) @ take (length p) (drop 8 f)"
    using PutUint32_Uint32[of f] PutUint32_Uint32[of "drop 4 f"] len l crc p
    by (simp add: encodeEntry_def)
  also have "\<dots> = take (4 + (4 + length p)) f" by (simp only: take_add) simp
  finally show ?thesis by (simp add: entryHeaderSize_def)
qed

lemma file_split:
  obtains rest where "f = segment_of (entries_of f) @ rest" and "next_entry rest = None"
proof -
  have "\<exists>rest. f = segment_of (entries_of f) @ rest \<and> next_entry rest = None"
  proof (induction f rule: entries_of.induct)
    case (1 f)
    show ?case
    proof (cases "next_entry f")
      case None
      then show ?thesis by (subst entries_of.simps) simp
    next
      case (Some p)
      with 1 obtain rest where "drop (entryHeaderSize + length p) f =
          segment_of (entries_of (drop (entryHeaderSize + length p) f)) @ rest" "next_entry rest = None"
        by blast
      moreover have "entries_of f = p # entries_of (drop (entryHeaderSize + length p) f)"
        using Some by (subst entries_of.simps) simp
      ultimately show ?thesis using next_entry_inv[OF Some] by (intro exI[of _ rest]) simp
    qed
  qed
  with that show ?thesis by blast
qed

lemma segment_of_take_mono:
  assumes "a < b" and "b \<le> length ps"
  shows "length (segment_of (take a ps)) < length (segment_of (take b ps))"
proof -
  obtain c where b: "b = a + Suc c" using assms(1) less_iff_Suc_add by auto
  obtain q qs where "take (Suc c) (drop a ps) = q # qs" using assms(2) b by (cases "take (Suc c) (drop a ps)") auto
  moreover have "take b ps = take a ps @ take (Suc c) (drop a ps)" unfolding b by (rule take_add)
  ultimately show ?thesis by (simp add: entryHeaderSize_def)
qed

lemma scan_loop_segment:
  assumes "list_all payload_ok ps" and "next_entry rest = None" and "f = segment_of ps @ rest"
    and "0 \<le> limit" "limit \<le> int (length f)"
  obtains j where "j \<le> length ps" and "scan_loop f limit 0 0 = (j, length (segment_of (take j ps)))"
    and "j < length ps \<Longrightarrow> limit \<le> int (length (segment_of (take j ps)))"
    and "0 < j \<Longrightarrow> int (length (segment_of (take (j - 1) ps))) < limit"
  using scan_loop_entries[where ps = "[]" and qs = ps, OF _ assms(1,2), of f limit 0] assms(3-5) by auto

lemma scanEntries_limit:
  assumes "list_all payload_ok ps" and "next_entry rest = None" and "k \<le> length ps"
  shows "scanEntries (segment_of ps @ rest) (int (length (segment_of (take k ps)))) =
    (k, length (segment_of (take k ps)))"
proof -
  let ?f = "segment_of ps @ rest" and ?l = "length (segment_of (take k ps))"
  have "?f = segment_of (take k ps) @ segment_of (drop k ps) @ rest"
    by (metis append_take_drop_id append.assoc concat_append map_append)
  then have le: "int ?l \<le> int (length ?f)" by simp
  obtain j where j: "j \<le> length ps" "scan_loop ?f (int ?l) 0 0 = (j, length (segment_of (take j ps)))"
    "j < length ps \<Longrightarrow> int ?l \<le> int (length (segment_of (take j ps)))"
    "0 < j \<Longrightarrow> int (length (segment_of (take (j - 1) ps))) < int ?l"
    using le by (rule scan_loop_segment[OF assms(1,2) refl, rotated]) auto
  have "j = k"
  proof (cases j k rule: linorder_cases)
    case less
    with j(3) segment_of_take_mono[of j k ps] assms(3) show ?thesis by simp
  next
    case greater
    show ?thesis
    proof (cases "k = j - 1")
      case True
      with j(4) greater show ?thesis by simp
    next
      case False
      with greater have "k < j - 1" by linarith
      with j(1,4) segment_of_take_mono[of k "j - 1" ps] show ?thesis by fastforce
    qed
  qed simp
  with j(2) le show ?thesis by (simp add: scanEntries_def)
qed

text \<open>A scan of the whole file finds exactly the entries of the file, whatever the file holds.\<close>

lemma scanEntries_all: "scanEntries f (- 1) = (length (entries_of f), length (segment_of (entries_of f)))"
proof -
  let ?ps = "entries_of f"
  obtain rest where f: "f = segment_of ?ps @ rest" and r: "next_entry rest = None" by (rule file_split)
  obtain j where j: "j \<le> length ?ps" "scan_loop f (int (length f)) 0 0 = (j, length (segment_of (take j ?ps)))"
    "j < length ?ps \<Longrightarrow> int (length f) \<le> int (length (segment_of (take j ?ps)))"
    by (rule scan_loop_segment[OF entries_of_payload_ok r f, of "int (length f)"]) auto
  have "length (segment_of ?ps) \<le> length f" by (subst (2) f) simp
  with j segment_of_take_mono[of j "length ?ps" ?ps] have "j = length ?ps" by fastforce
  with j(2) show ?thesis by (simp add: scanEntries_def)
qed

subsection \<open>What the checksum detects\<close>

lemma word_xor_cancel:
  fixes c d p :: "32 word"
  shows "c XOR p = d XOR p \<longleftrightarrow> c = d" and "p XOR c = p XOR d \<longleftrightarrow> c = d"
proof -
  show "c XOR p = d XOR p \<longleftrightarrow> c = d"
  proof
    assume "c XOR p = d XOR p"
    then have "(c XOR p) XOR p = (d XOR p) XOR p" by (rule arg_cong)
    then show "c = d" by (simp add: xor.assoc)
  qed simp
  then show "p XOR c = p XOR d \<longleftrightarrow> c = d" by (simp add: xor.commute)
qed

lemma crc_bit_top: "bit (crc_bit c) 31 = bit c 0"
  using bit_imp_le_length[of c 32] by (auto simp: crc_bit_def bit_xor_iff bit_drop_bit_eq crc_poly_def)

lemma crc_bit_inj: "crc_bit c = crc_bit d \<longleftrightarrow> c = d"
proof
  assume eq: "crc_bit c = crc_bit d"
  then have low: "bit c 0 = bit d 0" using crc_bit_top by metis
  with eq have "drop_bit 1 c = drop_bit 1 d" by (auto simp: crc_bit_def word_xor_cancel split: if_splits)
  then have "bit c (Suc n) = bit d (Suc n)" for n by (metis bit_drop_bit_eq comp_apply plus_1_eq_Suc)
  with low show "c = d" by (intro bit_eqI) (metis not0_implies_Suc)
qed simp

lemma crc_byte_inj: "crc_byte c b = crc_byte d b \<longleftrightarrow> c = d"
  by (simp add: crc_byte_unroll crc_bit_inj word_xor_cancel)

lemma crc_byte_inj_byte: "crc_byte c a = crc_byte c b \<longleftrightarrow> a = b"
proof -
  have "(of_char a :: 32 word) = of_char b \<longleftrightarrow> a = b"
  proof
    assume "(of_char a :: 32 word) = of_char b"
    then have "(of_nat (byte a) :: 32 word) = of_nat (byte b)" by (simp add: of_nat_of_char)
    then have "take_bit 32 (byte a :: nat) = take_bit 32 (byte b)" by (simp add: word_of_nat_eq_iff)
    moreover have "byte x < (2 ^ 32 :: nat)" for x using nat_of_char_less_256[of x] by (rule order.strict_trans) simp
    ultimately show "a = b" by (simp add: take_bit_nat_eq_self)
  qed simp
  then show ?thesis by (simp add: crc_byte_unroll crc_bit_inj word_xor_cancel)
qed

lemma crc_fold_inj: "foldl crc_byte c s = foldl crc_byte d s \<longleftrightarrow> c = d"
  by (induction s arbitrary: c d) (simp_all add: crc_byte_inj)

lemma crc32_one_byte: "crc32 (xs @ a # ys) = crc32 (xs @ b # ys) \<longleftrightarrow> a = b"
  by (simp add: crc32_def crc_fold_inj crc_byte_inj_byte)

lemma next_entry_header:
  assumes "payload_ok p" and "length b = length p" and "length c = 4"
    and "next_entry (PutUint32 (of_nat (length p)) @ c @ b @ rest) = Some q"
  shows "crc32 b = Uint32 c"
proof -
  have "Uint32 (c @ b @ rest) = Uint32 c" using assms(3) by (simp add: Uint32_def)
  with assms show ?thesis
    by (auto simp: next_entry_def Let_def unat_payload_length entryHeaderSize_def split: if_splits)
qed

text \<open>An entry in which one byte of the checksum or of the payload was changed is not taken for an entry.\<close>

lemma next_entry_corrupt:
  assumes "payload_ok p" and "4 \<le> i" and "i < length (encodeEntry p)" and "x \<noteq> encodeEntry p ! i"
  shows "next_entry ((encodeEntry p)[i := x] @ rest) = None"
proof (rule ccontr)
  assume "next_entry ((encodeEntry p)[i := x] @ rest) \<noteq> None"
  then obtain q where q: "next_entry ((encodeEntry p)[i := x] @ rest) = Some q" by blast
  show False
  proof (cases "i < 8")
    case True
    let ?c = "(PutUint32 (crc32 p))[i - 4 := x]"
    have "(encodeEntry p)[i := x] = PutUint32 (of_nat (length p)) @ ?c @ p"
    proof -
      have "i - 4 < 4" using assms(2) True by linarith
      with assms(2) show ?thesis by (simp add: encodeEntry_def list_update_append)
    qed
    with q next_entry_header[OF assms(1) refl, of ?c rest q] have "crc32 p = Uint32 ?c" by simp
    then have "PutUint32 (crc32 p) = ?c" using PutUint32_Uint32[of ?c] by simp
    then have "x = PutUint32 (crc32 p) ! (i - 4)" using True assms(2) by (metis PutUint32_length add_diff_inverse_nat leD nat_add_left_cancel_less nth_list_update_eq numeral_Bit0)
    with assms(2,4) True show False by (auto simp: encodeEntry_def nth_append split: if_splits)
  next
    case False
    define j where "j = i - 8"
    have j: "j < length p" "i = 8 + j" using assms(3) False by (auto simp: j_def entryHeaderSize_def)
    have "(encodeEntry p)[i := x] = PutUint32 (of_nat (length p)) @ PutUint32 (crc32 p) @ p[j := x]"
      using j by (simp add: encodeEntry_def list_update_append)
    with q next_entry_header[OF assms(1), of "p[j := x]" "PutUint32 (crc32 p)" rest q]
    have "crc32 (p[j := x]) = crc32 p" using Uint32_PutUint32[of "crc32 p" "[]"] by simp
    then have "x = p ! j" using crc32_one_byte[of "take j p" x "drop (Suc j) p" "p ! j"] j(1)
      by (simp add: upd_conv_take_nth_drop id_take_nth_drop[symmetric])
    with assms(4) j show False by (simp add: encodeEntry_def nth_append)
  qed
qed

subsection \<open>Segment file names\<close>

definition segmentDigits :: nat where "segmentDigits = 12"
definition segmentSuffix :: string where "segmentSuffix = ''.seg''"
definition cursorFileName :: string where "cursorFileName = ''cursor.json''"

definition segmentFileName :: "u64 \<Rightarrow> string" where
  "segmentFileName n = zeros (segmentDigits - length (itoa (unat n))) @ itoa (unat n) @ segmentSuffix"

text \<open>\<^verbatim>\<open>strings.CutSuffix\<close> and \<^verbatim>\<open>strconv.ParseUint\<close> in base 10.\<close>

definition cut_suffix :: "string \<Rightarrow> string \<Rightarrow> string option" where
  "cut_suffix s x = (if suffix x s then Some (take (length s - length x) s) else None)"

definition ParseUint :: "string \<Rightarrow> u64 option" where
  "ParseUint s = (if s \<noteq> [] \<and> list_all is_digit s \<and> dec_value s < 2 ^ 64 then Some (of_nat (dec_value s)) else None)"

definition parseSegmentSeq :: "string \<Rightarrow> u64 option" where
  "parseSegmentSeq name =
     (case cut_suffix name segmentSuffix of
        None \<Rightarrow> None
      | Some digits \<Rightarrow> (if length digits \<noteq> segmentDigits then None else ParseUint digits))"

definition seq_ok :: "u64 \<Rightarrow> bool" where
  "seq_ok n \<longleftrightarrow> unat n < 10 ^ segmentDigits"

lemma segmentFileName_split:
  assumes "seq_ok n"
  obtains ds where "segmentFileName n = ds @ segmentSuffix" and "length ds = segmentDigits"
    and "list_all is_digit ds" and "dec_value ds = unat n"
proof (rule that[of "zeros (segmentDigits - length (itoa (unat n))) @ itoa (unat n)"])
  show "length (zeros (segmentDigits - length (itoa (unat n))) @ itoa (unat n)) = segmentDigits"
    using itoa_length[of "unat n" segmentDigits] assms by (simp add: seq_ok_def zeros_def segmentDigits_def)
qed (simp_all add: segmentFileName_def itoa_digits)

lemma parse_segmentFileName: "seq_ok n \<Longrightarrow> parseSegmentSeq (segmentFileName n) = Some n"
proof -
  assume n: "seq_ok n"
  then obtain ds where ds: "segmentFileName n = ds @ segmentSuffix" "length ds = segmentDigits"
    "list_all is_digit ds" "dec_value ds = unat n" by (rule segmentFileName_split)
  have "ds \<noteq> []" using ds(2) by (auto simp: segmentDigits_def)
  moreover have "unat n < 2 ^ 64" using unsigned_less[of n, where ?'a = nat] by simp
  ultimately show ?thesis using ds by (simp add: parseSegmentSeq_def cut_suffix_def ParseUint_def suffix_def)
qed

lemma segmentFileName_order:
  "seq_ok m \<Longrightarrow> seq_ok n \<Longrightarrow> segmentFileName m < segmentFileName n \<longleftrightarrow> m < n"
proof -
  assume "seq_ok m" "seq_ok n"
  then obtain ds es where "segmentFileName m = ds @ segmentSuffix" "length ds = segmentDigits"
      "list_all is_digit ds" "dec_value ds = unat m"
    and "segmentFileName n = es @ segmentSuffix" "length es = segmentDigits"
      "list_all is_digit es" "dec_value es = unat n" by (metis segmentFileName_split)
  moreover have "ds @ t < es @ t \<longleftrightarrow> ds < es" if "length ds = length es" for ds es t :: string
    using that by (induction ds es rule: list_induct2) auto
  ultimately show ?thesis by (simp add: dec_value_order word_less_nat_alt)
qed

lemma cursorFileName_no_segment: "parseSegmentSeq cursorFileName = None"
  by code_simp

subsection \<open>Properties\<close>

text \<open>The segment format survives crashes and corruption. Whatever follows whole entries in a file, a
  scan that stops at the first byte it cannot trust returns exactly the entries written when the file ends
  after them or was cut anywhere inside the next one; and an entry one of whose checksum or payload bytes
  was altered is never accepted, so the scan stops in front of it.\<close>

theorem scan_roundtrip:
  assumes "list_all payload_ok ps" and "payload_ok p"
  shows "scanEntries (segment_of ps) (- 1) = (length ps, length (segment_of ps)) \<and>
    (\<forall>n < length (encodeEntry p).
       scanEntries (segment_of ps @ take n (encodeEntry p)) (- 1) = (length ps, length (segment_of ps))) \<and>
    (\<forall>i x rest. 4 \<le> i \<and> i < length (encodeEntry p) \<and> x \<noteq> encodeEntry p ! i \<longrightarrow>
       scanEntries (segment_of ps @ (encodeEntry p)[i := x] @ rest) (- 1) = (length ps, length (segment_of ps)))"
  using assms entries_of_segment0[of ps] entries_of_segment[of ps]
  by (simp add: scanEntries_all next_entry_torn next_entry_corrupt)

theorem scan_roundtrip_witness:
  "scanEntries (segment_of [''ab'', ''c''] @ take 9 (encodeEntry ''def'')) (- 1) =
     (length [''ab'', ''c''], length (segment_of [''ab'', ''c'']))"
  using scan_roundtrip[of "[''ab'', ''c'']" "''def''"]
  by (simp add: payload_ok_def maxEntryPayloadBytes_def entryHeaderSize_def)

text \<open>Segment names order and identify segments: below a trillion segments a name parses back to its
  number, and names sort as their numbers do, so a directory listing is in chronological order; the cursor
  file is no segment.\<close>

theorem segment_names:
  "(seq_ok m \<longrightarrow> parseSegmentSeq (segmentFileName m) = Some m) \<and>
   (seq_ok m \<and> seq_ok n \<longrightarrow> (segmentFileName m < segmentFileName n \<longleftrightarrow> m < n)) \<and>
   parseSegmentSeq cursorFileName = None"
  by (simp add: parse_segmentFileName segmentFileName_order cursorFileName_no_segment)

theorem segment_names_witness:
  "parseSegmentSeq (segmentFileName 7) = Some 7 \<and> segmentFileName 7 < segmentFileName 12"
  using segment_names[of 7 12] by (simp add: seq_ok_def segmentDigits_def)

end
