(* ===== verification/Spool.thy ===== *)
theory Spool
  imports Disk Spool_Entry
begin

text \<open>
  The agent's disk buffer, \<^verbatim>\<open>internal/agent/spool.go\<close>: the state of \<^verbatim>\<open>Spool\<close> and every operation on it,
  over the directory model of theory Disk. Paths are names inside the spool's directory. Sizes are natural
  numbers: a segment of more than \<open>2 ^ 63\<close> bytes does not exist. \<open>js\<close> is \<^verbatim>\<open>json.Unmarshal\<close> into a
  \<^verbatim>\<open>spoolCursorFile\<close>. Locks have no counterpart: each operation is one atomic step.
\<close>

record segmentInfo =
  sgSeq :: u64
  sgPath :: string
  sgEntries :: nat
  sgBytes :: nat

record spool =
  spMaxBytes :: int
  spSegmentBytes :: int
  spSegments :: "segmentInfo list"
  spConsumedEntries :: nat
  spConsumedBytes :: nat
  spNextSeq :: u64
  spTail :: "string option"
  spReleases :: nat
  spDropped :: int

record spool_config =
  cfgDir :: string
  cfgMaxBytes :: int
  cfgSegmentBytes :: int

record spoolCursorFile =
  cfVersion :: int
  cfSegment :: u64
  cfOffset :: int

datatype spool_err =
    ErrDirEmpty
  | ErrMaxBytes int
  | ErrSegmentBytes int
  | ErrMkdir
  | ErrReadDir
  | ErrStat string
  | ErrScan string
  | ErrTruncate string
  | ErrReadCursor
  | ErrReopenTail string
  | ErrPayloadTooLarge nat
  | ErrCloseTail
  | ErrCreateSegment string
  | ErrAppend
  | ErrOpen string
  | ErrReadHeader string
  | ErrReadPayload string
  | ErrChecksum string nat
  | ErrCursor disk_err
  | ErrClose "spool_err option" "spool_err option"

type_synonym spool_st = "spool \<times> disk"

definition cursorVersion :: int where "cursorVersion = 1"
definition cursorDurableInterval :: nat where "cursorDurableInterval = 8"

subsection \<open>The cursor file\<close>

definition json_key :: "string \<Rightarrow> string" where
  "json_key k = CHR 0x22 # k @ [CHR 0x22, CHR '':'']"

definition encodeCursor :: "u64 \<Rightarrow> int \<Rightarrow> bytes" where
  "encodeCursor segment offset =
     ''{'' @ json_key ''version'' @ itoa_int cursorVersion @ '','' @ json_key ''segment'' @ itoa (unat segment) @
     '','' @ json_key ''offset'' @ itoa_int offset @ ''}''"

definition loadCursorFile ::
  "(bytes \<Rightarrow> spoolCursorFile option) \<Rightarrow> io \<Rightarrow> disk \<Rightarrow> spool_err + spoolCursorFile option" where
  "loadCursorFile js io d =
     (case disk_get d cursorFileName of
        None \<Rightarrow> Inr None
      | Some Folder \<Rightarrow> Inl ErrReadCursor
      | Some (File data _) \<Rightarrow>
         (if fails io (ReadFile cursorFileName) then Inl ErrReadCursor
          else case js data of
                 None \<Rightarrow> Inr None
               | Some cf \<Rightarrow> (if cfVersion cf \<noteq> cursorVersion \<or> cfOffset cf < 0 then Inr None else Inr (Some cf))))"

definition pendingCursorLocked :: "spool \<Rightarrow> u64 \<times> nat" where
  "pendingCursorLocked s =
     (case spSegments s of [] \<Rightarrow> (spNextSeq s, 0) | g # _ \<Rightarrow> (sgSeq g, spConsumedBytes s))"

subsection \<open>Eviction\<close>

definition totalBytesLocked :: "spool \<Rightarrow> int" where
  "totalBytesLocked s = int (sum_list (map sgBytes (spSegments s)))"

function enforceMaxBytesLocked :: "io \<Rightarrow> spool \<Rightarrow> disk \<Rightarrow> int \<times> spool \<times> disk" where
  "enforceMaxBytesLocked io s d =
     (if totalBytesLocked s > spMaxBytes s \<and> length (spSegments s) > 1 then
        let victim = hd (spSegments s);
            lost = int (sgEntries victim) - int (spConsumedEntries s);
            s' = s\<lparr>spDropped := spDropped s + lost, spSegments := tl (spSegments s),
                   spConsumedEntries := 0, spConsumedBytes := 0\<rparr>;
            (evicted, s2, d2) = enforceMaxBytesLocked io s' (os_Remove io (sgPath victim) d)
        in (lost + evicted, s2, d2)
      else (0, s, d))"
  by pat_completeness auto
termination
  by (relation "measure (\<lambda>(io, s, d). length (spSegments s))") auto

declare enforceMaxBytesLocked.simps [simp del]

subsection \<open>Append\<close>

definition openNewTailLocked :: "io \<Rightarrow> spool \<Rightarrow> disk \<Rightarrow> spool_err option \<times> spool \<times> disk" where
  "openNewTailLocked io s d =
     (if (case spTail s of Some t \<Rightarrow> fails io (Close t) | None \<Rightarrow> False) then (Some ErrCloseTail, s, d)
      else
        let s1 = s\<lparr>spTail := None\<rparr>; sq = spNextSeq s; path = segmentFileName sq in
        if fails io (Create path) \<or> disk_get d path \<noteq> None then (Some (ErrCreateSegment path), s1, d)
        else (None, s1\<lparr>spTail := Some path, spNextSeq := sq + 1,
                spSegments := spSegments s @ [\<lparr>sgSeq = sq, sgPath = path, sgEntries = 0, sgBytes = 0\<rparr>]\<rparr>,
              disk_put path (File [] False) d))"

text \<open>Writing to an open handle; a handle whose file was removed accepts the bytes and they are gone.\<close>

definition file_append :: "string \<Rightarrow> bytes \<Rightarrow> disk \<Rightarrow> disk" where
  "file_append t x d = (case disk_get d t of Some (File c _) \<Rightarrow> disk_put t (File (c @ x) False) d | _ \<Rightarrow> d)"

definition tail_Write :: "io \<Rightarrow> bytes \<Rightarrow> spool \<Rightarrow> disk \<Rightarrow> bool \<times> disk" where
  "tail_Write io entry s d =
     (case spTail s of
        None \<Rightarrow> (False, d)
      | Some t \<Rightarrow> (if fails io (Write t) then (False, file_append t (take (partial io) entry) d)
                   else (True, file_append t entry d)))"

definition needNew :: "bytes \<Rightarrow> spool \<Rightarrow> bool" where
  "needNew entry s \<longleftrightarrow> spSegments s = [] \<or>
     (let g = last (spSegments s) in
      sgBytes g > 0 \<and> int (sgBytes g) + int (length entry) > spSegmentBytes s)"

definition count_entry :: "bytes \<Rightarrow> spool \<Rightarrow> spool" where
  "count_entry entry s = s\<lparr>spSegments :=
     butlast (spSegments s) @ [(last (spSegments s))\<lparr>sgBytes := sgBytes (last (spSegments s)) + length entry,
       sgEntries := sgEntries (last (spSegments s)) + 1\<rparr>]\<rparr>"

definition spool_Append :: "io \<Rightarrow> bytes \<Rightarrow> spool_st \<Rightarrow> (spool_err + int) \<times> spool_st" where
  "spool_Append io payload = (\<lambda>(s, d).
     if length payload > maxEntryPayloadBytes then (Inl (ErrPayloadTooLarge (length payload)), s, d)
     else
       let entry = encodeEntry payload;
           (e, s1, d1) = (if needNew entry s then openNewTailLocked io s d else (None, s, d)) in
       case e of
         Some err \<Rightarrow> (Inl err, s1, d1)
       | None \<Rightarrow>
         (case tail_Write io entry s1 d1 of
            (False, d2) \<Rightarrow> (Inl ErrAppend, s1, d2)
          | (True, d2) \<Rightarrow>
             (case enforceMaxBytesLocked io (count_entry entry s1) d2 of
                (evicted, s3, d3) \<Rightarrow> (Inr evicted, s3, d3))))"

subsection \<open>Peek and Release\<close>

definition peekEntryLocked :: "io \<Rightarrow> spool_st \<Rightarrow> spool_err + (bytes \<times> nat) option" where
  "peekEntryLocked io = (\<lambda>(s, d).
     case spSegments s of
       [] \<Rightarrow> Inr None
     | seg # _ \<Rightarrow>
        (let path = sgPath seg in
         if spConsumedBytes s \<ge> sgBytes seg then Inr None
         else if fails io (Open path) then Inl (ErrOpen path)
         else case file_bytes d path of
           None \<Rightarrow> Inl (ErrOpen path)
         | Some c \<Rightarrow>
            (let rest = drop (spConsumedBytes s) c in
             if fails io (Read path) \<or> length rest < entryHeaderSize then Inl (ErrReadHeader path)
             else
               let len = unat (Uint32 rest); wantCRC = Uint32 (drop 4 rest);
                   body = take len (drop entryHeaderSize rest) in
               if length body < len then Inl (ErrReadPayload path)
               else if crc32 body \<noteq> wantCRC then Inl (ErrChecksum path (spConsumedBytes s))
               else Inr (Some (body, entryHeaderSize + len)))))"

definition spool_Peek :: "io \<Rightarrow> spool_st \<Rightarrow> spool_err + bytes option" where
  "spool_Peek io st = (case peekEntryLocked io st of Inl e \<Rightarrow> Inl e | Inr r \<Rightarrow> Inr (map_option fst r))"

definition release_step :: "io \<Rightarrow> nat \<Rightarrow> spool \<Rightarrow> disk \<Rightarrow> bool \<times> spool \<times> disk" where
  "release_step io sz s d =
     (let seg = hd (spSegments s);
          consumed = spConsumedBytes s + sz;
          boundary = consumed \<ge> sgBytes seg;
          s1 = (if boundary
                then s\<lparr>spSegments := tl (spSegments s), spConsumedEntries := 0, spConsumedBytes := 0\<rparr>
                else s\<lparr>spConsumedEntries := spConsumedEntries s + 1, spConsumedBytes := consumed\<rparr>);
          d1 = (if boundary then os_Remove io (sgPath seg) d else d);
          durable = (boundary \<or> spReleases s + 1 \<ge> cursorDurableInterval)
      in (durable, s1\<lparr>spReleases := (if durable then 0 else spReleases s + 1)\<rparr>, d1))"

definition spool_Release :: "io \<Rightarrow> spool_st \<Rightarrow> spool_err option \<times> spool_st" where
  "spool_Release io st =
     (case peekEntryLocked io st of
        Inl e \<Rightarrow> (Some e, st)
      | Inr None \<Rightarrow> (None, st)
      | Inr (Some (_, sz)) \<Rightarrow>
         (case release_step io sz (fst st) (snd st) of
            (durable, s, d) \<Rightarrow>
              (let (segSeq, offset) = pendingCursorLocked s;
                   (e, ds) = writeAtomic io cursorFileName (encodeCursor segSeq (int offset)) durable d
               in (map_option ErrCursor e, s, last ds))))"

definition spool_Len :: "spool \<Rightarrow> int" where
  "spool_Len s = int (sum_list (map sgEntries (spSegments s))) - int (spConsumedEntries s)"

definition spool_Close :: "io \<Rightarrow> spool_st \<Rightarrow> spool_err option \<times> spool_st" where
  "spool_Close io = (\<lambda>(s, d).
     let (segSeq, offset) = pendingCursorLocked s;
         closeErr = (case spTail s of Some t \<Rightarrow> (if fails io (Close t) then Some ErrCloseTail else None) | None \<Rightarrow> None);
         s' = s\<lparr>spTail := None\<rparr>;
         (e, ds) = writeAtomic io cursorFileName (encodeCursor segSeq (int offset)) True d
     in (if closeErr = None \<and> e = None then None else Some (ErrClose closeErr (map_option ErrCursor e)),
         s', last ds))"

subsection \<open>Recovery\<close>

definition scan_file :: "io \<Rightarrow> string \<Rightarrow> int \<Rightarrow> disk \<Rightarrow> spool_err + nat \<times> nat" where
  "scan_file io path limit d =
     (if fails io (Open path) then Inl (ErrScan path)
      else case file_bytes d path of
        None \<Rightarrow> Inl (ErrScan path)
      | Some c \<Rightarrow> (if fails io (Stat path) then Inl (ErrScan path)
                   else if fails io (Read path) then Inr (0, 0)
                   else Inr (scanEntries c limit)))"

fun recover_segments ::
  "io \<Rightarrow> (string \<times> dnode) list \<Rightarrow> segmentInfo list \<Rightarrow> disk \<Rightarrow> spool_err + segmentInfo list \<times> disk" where
  "recover_segments io [] segs d = Inr (segs, d)"
| "recover_segments io ((name, Folder) # es) segs d = recover_segments io es segs d"
| "recover_segments io ((name, File c _) # es) segs d =
     (case parseSegmentSeq name of
        None \<Rightarrow> recover_segments io es segs d
      | Some sq \<Rightarrow>
         (if fails io (Info name) then Inl (ErrStat name)
          else case scan_file io name (- 1) d of
            Inl e \<Rightarrow> Inl e
          | Inr (entries, validBytes) \<Rightarrow>
             (if entries = 0 then recover_segments io es segs (os_Remove io name d)
              else if validBytes < length c \<and> fails io (Truncate name) then Inl (ErrTruncate name)
              else
                let d' = (if validBytes < length c then disk_put name (File (take validBytes c) False) d else d) in
                recover_segments io es
                  (segs @ [\<lparr>sgSeq = sq, sgPath = name, sgEntries = entries, sgBytes = validBytes\<rparr>]) d')))"

fun drop_released :: "io \<Rightarrow> u64 \<Rightarrow> segmentInfo list \<Rightarrow> disk \<Rightarrow> segmentInfo list \<times> disk" where
  "drop_released io sq [] d = ([], d)"
| "drop_released io sq (g # gs) d =
     (if sgSeq g < sq then drop_released io sq gs (os_Remove io (sgPath g) d) else (g # gs, d))"

definition recoverCursor ::
  "(bytes \<Rightarrow> spoolCursorFile option) \<Rightarrow> io \<Rightarrow> spool_st \<Rightarrow> spool_err + spool_st" where
  "recoverCursor js io = (\<lambda>(s, d).
     case loadCursorFile js io d of
       Inl e \<Rightarrow> Inl e
     | Inr None \<Rightarrow> Inr (s, d)
     | Inr (Some cf) \<Rightarrow>
        (let (segs, d1) = drop_released io (cfSegment cf) (spSegments s) d;
             s1 = s\<lparr>spSegments := segs,
                    spNextSeq := (if cfSegment cf \<ge> spNextSeq s then cfSegment cf + 1 else spNextSeq s)\<rparr> in
         case segs of
           [] \<Rightarrow> Inr (s1, d1)
         | g # _ \<Rightarrow>
            (if sgSeq g \<noteq> cfSegment cf then Inr (s1, d1)
             else case scan_file io (sgPath g) (cfOffset cf) d1 of
                    Inl e \<Rightarrow> Inl e
                  | Inr (n, b) \<Rightarrow> Inr (s1\<lparr>spConsumedEntries := n, spConsumedBytes := b\<rparr>, d1))))"

definition reopenTailLocked :: "io \<Rightarrow> spool_st \<Rightarrow> spool_err + spool_st" where
  "reopenTailLocked io = (\<lambda>(s, d).
     let path = sgPath (last (spSegments s)) in
     if fails io (Append_handle path) \<or> file_bytes d path = None then Inl (ErrReopenTail path)
     else Inr (s\<lparr>spTail := Some path\<rparr>, d))"

text \<open>\<^verbatim>\<open>os.ReadDir\<close> lists the directory sorted by name.\<close>

definition spool_recover ::
  "(bytes \<Rightarrow> spoolCursorFile option) \<Rightarrow> io \<Rightarrow> spool_st \<Rightarrow> spool_err + spool_st" where
  "spool_recover js io = (\<lambda>(s, d).
     if fails io ReadDir then Inl ErrReadDir
     else case recover_segments io (sort_key fst (dNow d)) [] d of
       Inl e \<Rightarrow> Inl e
     | Inr (segs, d1) \<Rightarrow>
        (let s1 = s\<lparr>spSegments := segs,
               spNextSeq := (if segs = [] then spNextSeq s else sgSeq (last segs) + 1)\<rparr> in
         case recoverCursor js io (s1, d1) of
           Inl e \<Rightarrow> Inl e
         | Inr (s2, d2) \<Rightarrow>
            (case enforceMaxBytesLocked io s2 d2 of
               (_, s3, d3) \<Rightarrow> if spSegments s3 = [] then Inr (s3, d3) else reopenTailLocked io (s3, d3))))"

definition NewSpool ::
  "(bytes \<Rightarrow> spoolCursorFile option) \<Rightarrow> io \<Rightarrow> spool_config \<Rightarrow> disk \<Rightarrow> spool_err + spool_st" where
  "NewSpool js io cfg d =
     (if cfgDir cfg = [] then Inl ErrDirEmpty
      else if cfgMaxBytes cfg \<le> 0 then Inl (ErrMaxBytes (cfgMaxBytes cfg))
      else if cfgSegmentBytes cfg \<le> 0 then Inl (ErrSegmentBytes (cfgSegmentBytes cfg))
      else if fails io MkdirAll then Inl ErrMkdir
      else spool_recover js io
        (\<lparr>spMaxBytes = cfgMaxBytes cfg, spSegmentBytes = cfgSegmentBytes cfg, spSegments = [],
          spConsumedEntries = 0, spConsumedBytes = 0, spNextSeq = 0, spTail = None, spReleases = 0,
          spDropped = 0\<rparr>, d))"

end
