(* ===== verification/Spool_Fifo.thy ===== *)
theory Spool_Fifo
  imports Spool
begin

text \<open>
  What the spool promises its client, as an interface, and that \<^verbatim>\<open>spool.go\<close> keeps the promise: over the
  bytes on disk, the spool is a first-in first-out list of payloads from whose front an append may evict.
\<close>

subsection \<open>The interface\<close>

locale fifo =
  fixes ok :: "'s \<Rightarrow> bool"
    and pending :: "'s \<Rightarrow> 'p list"
    and good :: "'i \<Rightarrow> bool"
    and push :: "'i \<Rightarrow> 'p \<Rightarrow> 's \<Rightarrow> ('e + int) \<times> 's"
    and peek :: "'i \<Rightarrow> 's \<Rightarrow> 'e + 'p option"
    and pop :: "'i \<Rightarrow> 's \<Rightarrow> 'e option \<times> 's"
    and popped :: "'e \<Rightarrow> bool"
  assumes push_ok: "ok s \<Longrightarrow> good i \<Longrightarrow> push i p s = (r, s') \<Longrightarrow> ok s'"
    and push_Inr: "ok s \<Longrightarrow> good i \<Longrightarrow> push i p s = (Inr n, s') \<Longrightarrow>
      0 \<le> n \<and> nat n \<le> length (pending s) \<and> pending s' = drop (nat n) (pending s) @ [p]"
    and push_Inl: "ok s \<Longrightarrow> good i \<Longrightarrow> push i p s = (Inl e, s') \<Longrightarrow> pending s' = pending s"
    and peek_Some: "ok s \<Longrightarrow> peek i s = Inr (Some p) \<Longrightarrow> pending s \<noteq> [] \<and> p = hd (pending s)"
    and peek_None: "ok s \<Longrightarrow> peek i s = Inr None \<Longrightarrow> pending s = []"
    and pop_ok: "ok s \<Longrightarrow> pop i s = (q, s') \<Longrightarrow> ok s'"
    and pop_None: "ok s \<Longrightarrow> pop i s = (None, s') \<Longrightarrow> pending s' = tl (pending s)"
    and pop_Some: "ok s \<Longrightarrow> pop i s = (Some e, s') \<Longrightarrow>
      pending s' = (if popped e then tl (pending s) else pending s)"

text \<open>A queue that can be read answers every peek, and takes away what it releases.\<close>

locale readable_fifo = fifo +
  fixes calm :: "'i \<Rightarrow> bool"
  assumes calm_peek: "ok s \<Longrightarrow> calm i \<Longrightarrow> \<exists>r. peek i s = Inr r"
    and calm_pop: "ok s \<Longrightarrow> calm i \<Longrightarrow> pop i s = (Some e, s') \<Longrightarrow> popped e"
begin

lemma calm_pop_tl: "ok s \<Longrightarrow> calm i \<Longrightarrow> pop i s = (q, s') \<Longrightarrow> ok s' \<and> pending s' = tl (pending s)"
  using pop_ok[of s i q s'] pop_None[of s i s'] pop_Some[of s i _ s'] calm_pop[of s i _ s'] by (cases q) auto

lemma calm_peek_hd: "ok s \<Longrightarrow> calm i \<Longrightarrow> peek i s = Inr (if pending s = [] then None else Some (hd (pending s)))"
  using calm_peek[of s i] peek_Some[of s i] peek_None[of s i]
  by (metis not_Some_eq)

end

subsection \<open>The abstraction\<close>

definition seg_entries :: "disk \<Rightarrow> segmentInfo \<Rightarrow> bytes list" where
  "seg_entries d g = (case file_bytes d (sgPath g) of None \<Rightarrow> [] | Some c \<Rightarrow> entries_of c)"

definition spool_pending :: "spool_st \<Rightarrow> bytes list" where
  "spool_pending = (\<lambda>(s, d). drop (spConsumedEntries s) (concat (map (seg_entries d) (spSegments s))))"

definition seg_ok :: "disk \<Rightarrow> segmentInfo \<Rightarrow> bool" where
  "seg_ok d g \<longleftrightarrow> (let ps = seg_entries d g in
     sgPath g = segmentFileName (sgSeq g) \<and> file_bytes d (sgPath g) = Some (segment_of ps) \<and>
     sgEntries g = length ps \<and> sgBytes g = length (segment_of ps))"

definition consumed_ok :: "disk \<Rightarrow> spool \<Rightarrow> bool" where
  "consumed_ok d s \<longleftrightarrow> (case spSegments s of
     [] \<Rightarrow> spConsumedEntries s = 0 \<and> spConsumedBytes s = 0
   | g # _ \<Rightarrow> spConsumedEntries s < sgEntries g \<and>
       spConsumedBytes s = length (segment_of (take (spConsumedEntries s) (seg_entries d g))))"

definition spool_ok :: "spool_st \<Rightarrow> bool" where
  "spool_ok = (\<lambda>(s, d).
     list_all (seg_ok d) (spSegments s) \<and> list_all (\<lambda>g. sgEntries g \<noteq> 0) (spSegments s) \<and>
     distinct (map sgPath (spSegments s)) \<and> consumed_ok d s \<and>
     (spSegments s \<noteq> [] \<longrightarrow> spTail s = None \<or> spTail s = Some (sgPath (last (spSegments s)))))"

lemma seg_entries_other [simp]:
  "sgPath g \<noteq> p \<Longrightarrow> seg_entries (os_Remove io p d) g = seg_entries d g"
  "sgPath g \<noteq> p \<Longrightarrow> seg_entries (disk_put p (File c b) d) g = seg_entries d g"
  by (simp_all add: seg_entries_def)

lemma seg_ok_cong:
  "file_bytes d' (sgPath g) = file_bytes d (sgPath g) \<Longrightarrow> seg_ok d' g \<longleftrightarrow> seg_ok d g"
  by (simp add: seg_ok_def seg_entries_def)

lemma seg_entries_cong:
  "file_bytes d' (sgPath g) = file_bytes d (sgPath g) \<Longrightarrow> seg_entries d' g = seg_entries d g"
  by (simp add: seg_entries_def)

text \<open>A change of the directory that leaves the segments' files alone changes nothing.\<close>

lemma spool_ok_frame:
  assumes "\<forall>g \<in> set (spSegments s). file_bytes d' (sgPath g) = file_bytes d (sgPath g)"
  shows "spool_ok (s, d') \<longleftrightarrow> spool_ok (s, d)" and "spool_pending (s, d') = spool_pending (s, d)"
proof -
  have "list_all (seg_ok d') (spSegments s) \<longleftrightarrow> list_all (seg_ok d) (spSegments s)"
    by (intro list.pred_cong refl seg_ok_cong) (use assms in blast)
  moreover have "consumed_ok d' s \<longleftrightarrow> consumed_ok d s"
    using assms by (auto simp: consumed_ok_def seg_entries_def split: list.splits)
  ultimately show "spool_ok (s, d') \<longleftrightarrow> spool_ok (s, d)" by (simp add: spool_ok_def)
  have "map (seg_entries d') (spSegments s) = map (seg_entries d) (spSegments s)"
    using assms by (auto intro: seg_entries_cong)
  then show "spool_pending (s, d') = spool_pending (s, d)" by (simp add: spool_pending_def del: map_eq_conv)
qed

lemma seg_entries_payload_ok: "list_all payload_ok (seg_entries d g)"
  by (simp add: seg_entries_def entries_of_payload_ok split: option.split)

lemma seg_length: "seg_ok d g \<Longrightarrow> length (seg_entries d g) = sgEntries g"
  by (simp add: seg_ok_def Let_def)

lemma pending_length:
  assumes "spool_ok (s, d)"
  shows "int (length (spool_pending (s, d))) = spool_Len s"
proof -
  have "map (length \<circ> seg_entries d) (spSegments s) = map sgEntries (spSegments s)"
    using assms by (auto simp: spool_ok_def list_all_iff seg_length)
  then have "length (concat (map (seg_entries d) (spSegments s))) = sum_list (map sgEntries (spSegments s))"
    by (simp add: length_concat del: map_eq_conv)
  moreover have "spConsumedEntries s \<le> sum_list (map sgEntries (spSegments s))"
    using assms by (auto simp: spool_ok_def consumed_ok_def split: list.splits)
  ultimately show ?thesis by (simp add: spool_pending_def spool_Len_def of_nat_diff)
qed

subsection \<open>Eviction\<close>

definition evict_one :: "spool \<Rightarrow> spool" where
  "evict_one s = s\<lparr>spDropped := spDropped s + (int (sgEntries (hd (spSegments s))) - int (spConsumedEntries s)),
     spSegments := tl (spSegments s), spConsumedEntries := 0, spConsumedBytes := 0\<rparr>"

lemma evict_one_ok:
  assumes "spool_ok (s, d)" and "spSegments s = v # g # gs"
  shows "spool_ok (evict_one s, os_Remove io (sgPath v) d)"
    and "spool_pending (evict_one s, os_Remove io (sgPath v) d) =
      drop (sgEntries v - spConsumedEntries s) (spool_pending (s, d))"
    and "spConsumedEntries s < sgEntries v"
proof -
  let ?d = "os_Remove io (sgPath v) d"
  have same: "file_bytes ?d (sgPath h) = file_bytes d (sgPath h)" if "h \<in> set (g # gs)" for h
  proof -
    have "sgPath v \<notin> sgPath ` set (g # gs)" using assms by (simp add: spool_ok_def)
    with that show ?thesis by (intro file_bytes_Remove_other) (metis imageI)
  qed
  then have se: "map (seg_entries ?d) (g # gs) = map (seg_entries d) (g # gs)"
    by (intro map_cong refl seg_entries_cong)
  have "list_all (seg_ok ?d) (g # gs) \<longleftrightarrow> list_all (seg_ok d) (g # gs)"
    using same by (intro list.pred_cong refl seg_ok_cong)
  then have "list_all (seg_ok ?d) (g # gs)" using assms by (simp add: spool_ok_def)
  with assms show "spool_ok (evict_one s, ?d)"
    by (auto simp: spool_ok_def evict_one_def consumed_ok_def split: if_splits)
  show lt: "spConsumedEntries s < sgEntries v" using assms by (simp add: spool_ok_def consumed_ok_def)
  have "length (seg_entries d v) = sgEntries v" using assms by (auto simp: spool_ok_def intro: seg_length)
  with lt se assms(2) show "spool_pending (evict_one s, ?d) =
      drop (sgEntries v - spConsumedEntries s) (spool_pending (s, d))"
    by (simp add: spool_pending_def evict_one_def del: map_eq_conv)
qed

lemma enforce_unfold:
  "enforceMaxBytesLocked io s d =
     (if totalBytesLocked s > spMaxBytes s \<and> length (spSegments s) > 1 then
        let (n, s2, d2) = enforceMaxBytesLocked io (evict_one s) (os_Remove io (sgPath (hd (spSegments s))) d)
        in (int (sgEntries (hd (spSegments s))) - int (spConsumedEntries s) + n, s2, d2)
      else (0, s, d))"
  by (subst enforceMaxBytesLocked.simps) (simp add: evict_one_def Let_def)

lemma enforce_ok:
  assumes "spool_ok (s, d)" and "enforceMaxBytesLocked io s d = (n, s', d')"
  shows "spool_ok (s', d') \<and> 0 \<le> n \<and> spool_pending (s', d') = drop (nat n) (spool_pending (s, d)) \<and>
    (spSegments s \<noteq> [] \<longrightarrow> spSegments s' \<noteq> [] \<and> last (spSegments s') = last (spSegments s)) \<and>
    (totalBytesLocked s' \<le> spMaxBytes s' \<or> length (spSegments s') \<le> 1) \<and>
    spDropped s' = spDropped s + n \<and> suffix (spSegments s') (spSegments s) \<and>
    spMaxBytes s' = spMaxBytes s \<and> spSegmentBytes s' = spSegmentBytes s \<and> spNextSeq s' = spNextSeq s \<and>
    spTail s' = spTail s \<and> spReleases s' = spReleases s"
  using assms
proof (induction "length (spSegments s)" arbitrary: s d n)
  case 0
  then have "enforceMaxBytesLocked io s d = (0, s, d)" by (subst enforce_unfold) auto
  with 0 show ?case by auto
next
  case (Suc k)
  show ?case
  proof (cases "totalBytesLocked s > spMaxBytes s \<and> length (spSegments s) > 1")
    case False
    then have "enforceMaxBytesLocked io s d = (0, s, d)" by (subst enforce_unfold) auto
    with Suc.prems False show ?thesis by auto
  next
    case True
    then obtain v g gs where sg: "spSegments s = v # g # gs"
      by (cases "spSegments s" rule: remdups_adj.cases) auto
    let ?s = "evict_one s" and ?d = "os_Remove io (sgPath v) d"
    obtain m where r: "enforceMaxBytesLocked io ?s ?d = (m, s', d')"
      and n: "n = int (sgEntries v) - int (spConsumedEntries s) + m"
      using Suc.prems(2) True by (subst (asm) enforce_unfold) (auto simp: sg Let_def split: prod.splits)
    note e = evict_one_ok[OF Suc.prems(1) sg]
    have "k = length (spSegments ?s)" using Suc.hyps(2) by (simp add: evict_one_def sg)
    note ih = Suc.hyps(1)[OF this e(1) r]
    have "nat n = nat m + (sgEntries v - spConsumedEntries s)" using n e(3) ih by auto
    with ih n e show ?thesis by (auto simp: evict_one_def sg suffix_def add.commute)
  qed
qed

subsection \<open>Append\<close>

text \<open>A state whose last segment may still be empty: the state between opening a segment and writing to it.\<close>

definition tail_ready :: "spool_st \<Rightarrow> bool" where
  "tail_ready = (\<lambda>(s, d).
     spSegments s \<noteq> [] \<and> list_all (seg_ok d) (spSegments s) \<and>
     list_all (\<lambda>g. sgEntries g \<noteq> 0) (butlast (spSegments s)) \<and> distinct (map sgPath (spSegments s)) \<and>
     spTail s = Some (sgPath (last (spSegments s))) \<and>
     (if butlast (spSegments s) = [] \<and> sgEntries (last (spSegments s)) = 0
      then spConsumedEntries s = 0 \<and> spConsumedBytes s = 0 else consumed_ok d s))"

lemma seg_ok_append:
  assumes "seg_ok d g" and "payload_ok p" and d': "d' = file_append (sgPath g) (encodeEntry p) d"
    and g': "g' = g\<lparr>sgBytes := sgBytes g + length (encodeEntry p), sgEntries := sgEntries g + 1\<rparr>"
  shows "seg_ok d' g'" and "seg_entries d' g' = seg_entries d g @ [p]"
proof -
  let ?ps = "seg_entries d g"
  from assms(1) obtain b where g: "disk_get d (sgPath g) = Some (File (segment_of ?ps) b)"
    by (auto simp: seg_ok_def Let_def file_bytes_def split: option.splits dnode.splits)
  then have f: "file_bytes d' (sgPath g) = Some (segment_of (?ps @ [p]))"
    by (simp add: d' file_append_def)
  have "list_all payload_ok (?ps @ [p])"
    using assms(2) entries_of_payload_ok by (auto simp: seg_entries_def split: option.splits)
  from entries_of_segment0[OF this] f show e: "seg_entries d' g' = ?ps @ [p]"
    by (simp add: seg_entries_def g')
  from assms(1) show "seg_ok d' g'" unfolding seg_ok_def e using f by (simp add: Let_def g')
qed

lemma file_append_other [simp]: "q \<noteq> t \<Longrightarrow> file_bytes (file_append t x d) q = file_bytes d q"
  by (simp add: file_append_def split: option.splits dnode.splits)

lemma count_entry_ok:
  assumes "tail_ready (s, d)" and "payload_ok p" and d': "d' = file_append (sgPath (last (spSegments s))) (encodeEntry p) d"
  shows "spool_ok (count_entry (encodeEntry p) s, d')"
    and "spool_pending (count_entry (encodeEntry p) s, d') = spool_pending (s, d) @ [p]"
proof -
  obtain gs g where sg: "spSegments s = gs @ [g]" using assms(1) by (auto simp: tail_ready_def intro: append_butlast_last_id[symmetric])
  let ?g = "g\<lparr>sgBytes := sgBytes g + length (encodeEntry p), sgEntries := sgEntries g + 1\<rparr>"
  have g: "seg_ok d g" "list_all (seg_ok d) gs" and dist: "sgPath g \<notin> sgPath ` set gs"
    using assms(1) by (auto simp: tail_ready_def sg)
  note a = seg_ok_append[OF g(1) assms(2) d'[unfolded sg, simplified] refl]
  have same: "file_bytes d' (sgPath h) = file_bytes d (sgPath h)" if "h \<in> set gs" for h
    unfolding d' sg using dist that by (intro file_append_other) (metis image_eqI last_snoc)
  have "list_all (seg_ok d') gs \<longleftrightarrow> list_all (seg_ok d) gs" using same by (intro list.pred_cong refl seg_ok_cong)
  with g have gs: "list_all (seg_ok d') gs" by simp
  have se: "map (seg_entries d') gs = map (seg_entries d) gs" using same by (intro map_cong refl seg_entries_cong)
  have ne: "count_entry (encodeEntry p) s = s\<lparr>spSegments := gs @ [?g]\<rparr>" by (simp add: count_entry_def sg)
  have le: "spConsumedEntries s \<le> length (concat (map (seg_entries d) (gs @ [g])))"
    using assms(1) seg_length[OF g(1)] g(2)
    by (cases gs) (auto simp: tail_ready_def sg consumed_ok_def seg_length split: if_splits)
  show "spool_pending (count_entry (encodeEntry p) s, d') = spool_pending (s, d) @ [p]"
    using le se a(2) by (simp add: spool_pending_def ne sg del: map_eq_conv)
  have "consumed_ok d' (s\<lparr>spSegments := gs @ [?g]\<rparr>)"
  proof (cases gs)
    case Nil
    then show ?thesis using assms(1) a(2) seg_length[OF g(1)]
      by (auto simp: tail_ready_def sg consumed_ok_def split: if_splits)
  next
    case (Cons h hs)
    then show ?thesis using assms(1) se by (simp add: tail_ready_def sg consumed_ok_def)
  qed
  then show "spool_ok (count_entry (encodeEntry p) s, d')"
    using assms(1) gs a(1) by (auto simp: spool_ok_def ne tail_ready_def sg)
qed

lemma spool_ok_ready:
  assumes "spool_ok (s, d)" and "spSegments s \<noteq> []" and "spTail s = Some t"
  shows "tail_ready (s, d)"
proof -
  have "\<not> (butlast (spSegments s) = [] \<and> sgEntries (last (spSegments s)) = 0)"
    using assms(1,2) by (auto simp: spool_ok_def list_all_iff)
  note if_not_P[OF this]
  with assms show ?thesis by (auto simp: spool_ok_def tail_ready_def list_all_iff dest: in_set_butlastD)
qed

lemma spool_ok_no_tail:
  assumes "spool_ok (s, d)"
  shows "spool_ok (s\<lparr>spTail := None\<rparr>, d)" and "spool_pending (s\<lparr>spTail := None\<rparr>, d) = spool_pending (s, d)"
  using assms by (simp_all add: spool_ok_def spool_pending_def consumed_ok_def split: list.splits)

lemma openNewTail_ok:
  assumes "spool_ok (s, d)" and "openNewTailLocked io s d = (e, s1, d1)"
  shows "case e of None \<Rightarrow> tail_ready (s1, d1) | Some _ \<Rightarrow> spool_ok (s1, d1)"
    and "spool_pending (s1, d1) = spool_pending (s, d)"
proof -
  let ?p = "segmentFileName (spNextSeq s)"
  let ?g = "\<lparr>sgSeq = spNextSeq s, sgPath = ?p, sgEntries = 0, sgBytes = 0\<rparr>"
  consider "e \<noteq> None" "s1 = s \<or> s1 = s\<lparr>spTail := None\<rparr>" "d1 = d"
    | "e = None" "disk_get d ?p = None" "d1 = disk_put ?p (File [] False) d"
      "s1 = s\<lparr>spTail := Some ?p, spNextSeq := spNextSeq s + 1, spSegments := spSegments s @ [?g]\<rparr>"
  proof (cases "(case spTail s of Some t \<Rightarrow> fails io (Close t) | None \<Rightarrow> False) \<or>
      fails io (Create ?p) \<or> disk_get d ?p \<noteq> None")
    case True
    with assms(2) have "e \<noteq> None \<and> (s1 = s \<or> s1 = s\<lparr>spTail := None\<rparr>) \<and> d1 = d"
      unfolding openNewTailLocked_def Let_def by (smt (verit) option.distinct(1) prod.inject)
    then show thesis using that(1) by blast
  next
    case False
    with assms(2) that(2) show thesis by (simp add: openNewTailLocked_def Let_def)
  qed
  then have "(case e of None \<Rightarrow> tail_ready (s1, d1) | Some _ \<Rightarrow> spool_ok (s1, d1)) \<and>
      spool_pending (s1, d1) = spool_pending (s, d)"
  proof cases
    case 1
    with assms(1) spool_ok_no_tail[OF assms(1)] show ?thesis by auto
  next
    case 2
    have path: "sgPath g \<noteq> ?p" if "g \<in> set (spSegments s)" for g
      using assms(1) that 2(2)
      by (auto simp: spool_ok_def list_all_iff seg_ok_def Let_def file_bytes_def)
    then have same: "file_bytes d1 (sgPath g) = file_bytes d (sgPath g)" if "g \<in> set (spSegments s)" for g
      using that 2(3) by auto
    have "list_all (seg_ok d1) (spSegments s) \<longleftrightarrow> list_all (seg_ok d) (spSegments s)"
      using same by (intro list.pred_cong refl seg_ok_cong)
    moreover have "map (seg_entries d1) (spSegments s) = map (seg_entries d) (spSegments s)"
      using same by (intro map_cong refl seg_entries_cong)
    moreover have n: "seg_entries d1 ?g = []" by (simp add: 2(3) seg_entries_def entries_of.simps)
    moreover have "seg_ok d1 ?g" unfolding seg_ok_def n by (simp add: 2(3))
    moreover have "?p \<notin> sgPath ` set (spSegments s)" using path by (metis imageE)
    ultimately show ?thesis using assms(1) 2(1,4)
      by (cases "spSegments s") (auto simp: spool_ok_def tail_ready_def spool_pending_def consumed_ok_def butlast_append
        simp del: map_eq_conv)
  qed
  then show "case e of None \<Rightarrow> tail_ready (s1, d1) | Some _ \<Rightarrow> spool_ok (s1, d1)"
    and "spool_pending (s1, d1) = spool_pending (s, d)" by auto
qed

lemma openNewTail_fields:
  assumes "openNewTailLocked io s d = (e, s1, d1)"
  shows "spDropped s1 = spDropped s" and "spMaxBytes s1 = spMaxBytes s"
proof -
  have "spDropped (fst (snd (openNewTailLocked io s d))) = spDropped s \<and>
      spMaxBytes (fst (snd (openNewTailLocked io s d))) = spMaxBytes s"
    by (simp add: openNewTailLocked_def Let_def)
  with assms show "spDropped s1 = spDropped s" and "spMaxBytes s1 = spMaxBytes s" by simp_all
qed

definition whole_writes :: "io \<Rightarrow> bool" where
  "whole_writes io \<longleftrightarrow> (\<forall>t. \<not> fails io (Write t))"

lemma Append_split:
  assumes "spool_ok (s, d)" and "whole_writes io" and "spool_Append io p (s, d) = (r, st')"
  obtains (failed) e where "r = Inl e" and "spool_ok st'" and "spool_pending st' = spool_pending (s, d)"
      and "st' = (s, d) \<or> (\<exists>e. openNewTailLocked io s d = (e, st'))"
  | (stored) n s1 d1 where "r = Inr n" and "payload_ok p" and "tail_ready (s1, d1)"
      and "spool_pending (s1, d1) = spool_pending (s, d)"
      and "enforceMaxBytesLocked io (count_entry (encodeEntry p) s1)
            (file_append (sgPath (last (spSegments s1))) (encodeEntry p) d1) = (n, st')"
      and "spDropped s1 = spDropped s" and "spMaxBytes s1 = spMaxBytes s"
      and "(s1, d1) = (s, d) \<or> (\<exists>e. openNewTailLocked io s d = (e, s1, d1))"
proof (cases "maxEntryPayloadBytes < length p")
  case True
  with assms show ?thesis by (intro failed) (auto simp: spool_Append_def)
next
  case False
  define x where "x = (if needNew (encodeEntry p) s then openNewTailLocked io s d else (None, s, d))"
  obtain e s1 d1 where x': "x = (e, s1, d1)" by (cases x)
  have pend: "spool_pending (s1, d1) = spool_pending (s, d)"
    and okc: "case e of None \<Rightarrow> tail_ready (s1, d1) \<or> spool_ok (s1, d1) \<and> spTail s1 = None | Some _ \<Rightarrow> spool_ok (s1, d1)"
  proof -
    have "spool_pending (s1, d1) = spool_pending (s, d) \<and>
        (case e of None \<Rightarrow> tail_ready (s1, d1) \<or> spool_ok (s1, d1) \<and> spTail s1 = None | Some _ \<Rightarrow> spool_ok (s1, d1))"
    proof (cases "needNew (encodeEntry p) s")
      case True
      then have o: "openNewTailLocked io s d = (e, s1, d1)" using x' by (simp add: x_def)
      from openNewTail_ok[OF assms(1) this] show ?thesis by (auto split: option.splits)
    next
      case False
      then have "e = None" "s1 = s" "d1 = d" "spSegments s \<noteq> []" using x' by (auto simp: x_def needNew_def)
      with assms(1) spool_ok_ready[OF assms(1)] show ?thesis by (cases "spTail s") auto
    qed
    then show "spool_pending (s1, d1) = spool_pending (s, d)"
      and "case e of None \<Rightarrow> tail_ready (s1, d1) \<or> spool_ok (s1, d1) \<and> spTail s1 = None | Some _ \<Rightarrow> spool_ok (s1, d1)"
      by blast+
  qed
  have keep: "spDropped s1 = spDropped s" "spMaxBytes s1 = spMaxBytes s"
    using openNewTail_fields[of io s d e s1 d1] x' by (auto simp: x_def split: if_splits)
  have via: "(s1, d1) = (s, d) \<or> (\<exists>e. openNewTailLocked io s d = (e, s1, d1))"
    using x' by (auto simp: x_def split: if_splits)
  have app: "spool_Append io p (s, d) = (case e of Some err \<Rightarrow> (Inl err, s1, d1)
      | None \<Rightarrow> (case tail_Write io (encodeEntry p) s1 d1 of (False, d2) \<Rightarrow> (Inl ErrAppend, s1, d2)
          | (True, d2) \<Rightarrow> (case enforceMaxBytesLocked io (count_entry (encodeEntry p) s1) d2 of (n, t) \<Rightarrow> (Inr n, t))))"
    using False by (simp add: spool_Append_def x_def[symmetric] x' Let_def split: prod.split option.split bool.split)
  show ?thesis
  proof (cases "e = None \<and> tail_ready (s1, d1)")
    case True
    then have "spTail s1 = Some (sgPath (last (spSegments s1)))" by (simp add: tail_ready_def)
    then have "tail_Write io (encodeEntry p) s1 d1 =
        (True, file_append (sgPath (last (spSegments s1))) (encodeEntry p) d1)"
      using assms(2) by (simp add: tail_Write_def whole_writes_def)
    with True app assms(3) obtain n where "r = Inr n" and "enforceMaxBytesLocked io (count_entry (encodeEntry p) s1)
        (file_append (sgPath (last (spSegments s1))) (encodeEntry p) d1) = (n, st')"
      by (auto split: prod.splits)
    with True False keep via show ?thesis by (intro stored[OF _ _ _ pend]) (auto simp: payload_ok_def)
  next
    case No: False
    then have "spool_ok (s1, d1)" and "e = None \<Longrightarrow> spTail s1 = None" using okc by (auto split: option.splits)
    with app assms(3) pend via show ?thesis by (cases e) (auto simp: tail_Write_def intro: failed)
  qed
qed

lemma Append_ok:
  assumes "spool_ok st" and "whole_writes io" and "spool_Append io p st = (r, st')"
  shows "spool_ok st'" and "r = Inl e \<Longrightarrow> spool_pending st' = spool_pending st"
    and "r = Inr n \<Longrightarrow> 0 \<le> n \<and> nat n \<le> length (spool_pending st) \<and>
      spool_pending st' = drop (nat n) (spool_pending st) @ [p]"
proof -
  obtain s d where st: "st = (s, d)" by (cases st)
  have "spool_ok st' \<and> (\<forall>e. r = Inl e \<longrightarrow> spool_pending st' = spool_pending st) \<and>
      (\<forall>n. r = Inr n \<longrightarrow> 0 \<le> n \<and> nat n \<le> length (spool_pending st) \<and>
        spool_pending st' = drop (nat n) (spool_pending st) @ [p])"
  proof (cases rule: Append_split[OF assms(1)[unfolded st] assms(2) assms(3)[unfolded st],
        case_names failed stored])
    case (failed e)
    then show ?thesis by (simp add: st)
  next
    case (stored n s1 d1)
    let ?s = "count_entry (encodeEntry p) s1"
    let ?d = "file_append (sgPath (last (spSegments s1))) (encodeEntry p) d1"
    note c = count_entry_ok[OF stored(3,2) refl]
    obtain s2 d2 where st': "st' = (s2, d2)" by (cases st')
    note e = enforce_ok[OF c(1) stored(5)[unfolded st']]
    have "spSegments s2 \<noteq> []" using e by (auto simp: count_entry_def)
    moreover have "spool_ok (s2, d2)" using e by blast
    ultimately have "spool_pending (s2, d2) \<noteq> []"
      using pending_length[of s2 d2]
      by (cases "spSegments s2") (auto simp: spool_ok_def consumed_ok_def spool_Len_def)
    with e c(2) stored(4) have "nat n < length (spool_pending (s, d) @ [p])" by auto
    with e c(2) stored(1,4) show ?thesis by (simp add: st st')
  qed
  then show "spool_ok st'" and "r = Inl e \<Longrightarrow> spool_pending st' = spool_pending st"
    and "r = Inr n \<Longrightarrow> 0 \<le> n \<and> nat n \<le> length (spool_pending st) \<and>
      spool_pending st' = drop (nat n) (spool_pending st) @ [p]" by blast+
qed

subsection \<open>Peek and Release\<close>

lemma segment_split:
  assumes "k < length ps"
  shows "segment_of ps = segment_of (take k ps) @ encodeEntry (ps ! k) @ segment_of (drop (Suc k) ps)"
proof -
  have "ps = take k ps @ ps ! k # drop (Suc k) ps" using assms by (rule id_take_nth_drop)
  then show ?thesis by (metis concat.simps(2) concat_append list.simps(9) map_append)
qed

lemma encodeEntry_header:
  assumes "payload_ok p"
  shows "unat (Uint32 (encodeEntry p @ rest)) = length p" and "Uint32 (drop 4 (encodeEntry p @ rest)) = crc32 p"
    and "take (length p) (drop entryHeaderSize (encodeEntry p @ rest)) = p"
    and "\<not> length (encodeEntry p @ rest) < entryHeaderSize"
    and "length p \<le> length (encodeEntry p @ rest) - entryHeaderSize"
  using assms by (simp_all add: encodeEntry_def entryHeaderSize_def unat_payload_length)

lemma peek_value:
  assumes "spool_ok (s, d)" and "spSegments s = g # gs"
  shows "peekEntryLocked io (s, d) =
      (if fails io (Open (sgPath g)) then Inl (ErrOpen (sgPath g))
       else if fails io (Read (sgPath g)) then Inl (ErrReadHeader (sgPath g))
       else let p = seg_entries d g ! spConsumedEntries s in Inr (Some (p, length (encodeEntry p))))"
    and "spool_pending (s, d) = seg_entries d g ! spConsumedEntries s #
      drop (Suc (spConsumedEntries s)) (concat (map (seg_entries d) (g # gs)))"
proof -
  let ?ps = "seg_entries d g" and ?k = "spConsumedEntries s"
  have g: "seg_ok d g" and k: "?k < length ?ps" and cb: "spConsumedBytes s = length (segment_of (take ?k ?ps))"
    using assms seg_length[of d g] by (auto simp: spool_ok_def consumed_ok_def)
  let ?p = "?ps ! ?k"
  have f: "file_bytes d (sgPath g) = Some (segment_of ?ps)" and b: "sgBytes g = length (segment_of ?ps)"
    using g by (auto simp: seg_ok_def Let_def)
  have lt: "\<not> spConsumedBytes s \<ge> sgBytes g" unfolding cb b segment_split[OF k] by (simp add: entryHeaderSize_def)
  have pok: "payload_ok ?p"
    using k seg_entries_payload_ok[of d g] by (simp add: list_all_length)
  have rest: "drop (spConsumedBytes s) (segment_of ?ps) = encodeEntry ?p @ segment_of (drop (Suc ?k) ?ps)"
    unfolding cb by (subst segment_split[OF k]) simp
  define R where "R = drop (spConsumedBytes s) (segment_of ?ps)"
  note h = encodeEntry_header[OF pok, of "segment_of (drop (Suc ?k) ?ps)", folded rest, folded R_def]
  show "peekEntryLocked io (s, d) =
      (if fails io (Open (sgPath g)) then Inl (ErrOpen (sgPath g))
       else if fails io (Read (sgPath g)) then Inl (ErrReadHeader (sgPath g))
       else let p = ?p in Inr (Some (p, length (encodeEntry p))))"
    using lt f h by (simp add: peekEntryLocked_def assms(2) Let_def R_def[symmetric])
  show "spool_pending (s, d) = ?p # drop (Suc ?k) (concat (map (seg_entries d) (g # gs)))"
    using k by (simp add: spool_pending_def assms(2) Cons_nth_drop_Suc[symmetric])
qed

lemma peek_ok:
  assumes "spool_ok (s, d)" and "peekEntryLocked io (s, d) = Inr r"
  shows "case r of None \<Rightarrow> spSegments s = [] \<and> spool_pending (s, d) = []
    | Some (b, n) \<Rightarrow> (\<exists>g gs. spSegments s = g # gs \<and> b = seg_entries d g ! spConsumedEntries s) \<and>
        n = length (encodeEntry b) \<and> spool_pending (s, d) \<noteq> [] \<and> b = hd (spool_pending (s, d))"
proof (cases "spSegments s")
  case Nil
  with assms show ?thesis by (auto simp: peekEntryLocked_def spool_pending_def spool_ok_def consumed_ok_def)
next
  case (Cons g gs)
  with peek_value(1)[OF assms(1) Cons, of io] peek_value(2)[OF assms(1) Cons] assms(2) show ?thesis by (auto simp: Let_def split: if_splits)
qed

text \<open>A spool whose files can be read can be peeked at.\<close>

definition readable :: "io \<Rightarrow> bool" where
  "readable io \<longleftrightarrow> (\<forall>p. \<not> fails io (Open p) \<and> \<not> fails io (Read p))"

lemma readable_peek:
  assumes "spool_ok st" and "readable io"
  shows "\<exists>r. peekEntryLocked io st = Inr r"
proof (cases "spSegments (fst st)")
  case Nil
  then show ?thesis by (cases st) (simp add: peekEntryLocked_def)
next
  case (Cons g gs)
  then show ?thesis using peek_value(1)[of "fst st" "snd st" g gs io] assms by (simp add: readable_def Let_def)
qed

lemma release_step_ok:
  assumes "spool_ok (s, d)" and "peekEntryLocked io (s, d) = Inr (Some (b, n))"
    and "release_step io n s d = (durable, s', d')"
  shows "spool_ok (s', d')" and "spool_pending (s', d') = tl (spool_pending (s, d))"
proof -
  obtain g gs where sg: "spSegments s = g # gs" and b: "b = seg_entries d g ! spConsumedEntries s"
    and n: "n = length (encodeEntry b)" using peek_ok[OF assms(1,2)] by auto
  let ?ps = "seg_entries d g" and ?k = "spConsumedEntries s"
  have g: "seg_ok d g" and k: "?k < length ?ps" and cb: "spConsumedBytes s = length (segment_of (take ?k ?ps))"
    using assms(1) seg_length[of d g] by (auto simp: spool_ok_def sg consumed_ok_def)
  have byt: "sgBytes g = length (segment_of ?ps)" using g by (auto simp: seg_ok_def Let_def)
  have c': "spConsumedBytes s + n = length (segment_of (take (Suc ?k) ?ps))"
    unfolding cb n b take_Suc_conv_app_nth[OF k] by simp
  have bd: "sgBytes g \<le> spConsumedBytes s + n \<longleftrightarrow> Suc ?k = length ?ps"
    unfolding byt c' using segment_of_take_mono[of "Suc ?k" "length ?ps" ?ps] k by (cases "Suc ?k = length ?ps") auto
  have pend: "tl (spool_pending (s, d)) = drop (Suc ?k) (concat (map (seg_entries d) (g # gs)))"
    by (simp only: spool_pending_def sg prod.case drop_Suc tl_drop)
  have "spool_ok (s', d') \<and> spool_pending (s', d') = tl (spool_pending (s, d))"
  proof (cases "Suc ?k = length ?ps")
    case False
    then have s': "spConsumedEntries s' = Suc ?k" "spConsumedBytes s' = spConsumedBytes s + n"
        "spSegments s' = spSegments s" "spTail s' = spTail s" and d': "d' = d"
      using assms(3) bd by (auto simp: release_step_def Let_def sg)
    have "Suc ?k < sgEntries g" using False k seg_length[OF g] by simp
    then have "consumed_ok d s'" by (simp add: consumed_ok_def sg c' s')
    moreover have "spool_pending (s', d') = tl (spool_pending (s, d))"
      unfolding pend by (simp add: spool_pending_def s' d' sg)
    ultimately show ?thesis using assms(1) by (simp add: spool_ok_def s' d')
  next
    case True
    then have s': "s' = s\<lparr>spSegments := gs, spConsumedEntries := 0, spConsumedBytes := 0,
        spReleases := 0\<rparr>" and d': "d' = os_Remove io (sgPath g) d"
      using assms(3) bd by (auto simp: release_step_def Let_def sg)
    have same: "file_bytes d' (sgPath h) = file_bytes d (sgPath h)" if "h \<in> set gs" for h
    proof -
      have "sgPath g \<notin> sgPath ` set gs" using assms(1) by (simp add: spool_ok_def sg)
      with that show ?thesis unfolding d' by (intro file_bytes_Remove_other) (metis imageI)
    qed
    have "list_all (seg_ok d') gs \<longleftrightarrow> list_all (seg_ok d) gs" using same by (intro list.pred_cong refl seg_ok_cong)
    moreover have "map (seg_entries d') gs = map (seg_entries d) gs" using same by (intro map_cong refl seg_entries_cong)
    ultimately show ?thesis using assms(1) pend True k
      by (cases gs) (auto simp: s' spool_ok_def spool_pending_def consumed_ok_def sg simp del: map_eq_conv)
  qed
  then show "spool_ok (s', d')" and "spool_pending (s', d') = tl (spool_pending (s, d))" by blast+
qed

text \<open>Segment names are neither the cursor's name nor a temporary one.\<close>

lemma segment_name_last: "last (segmentFileName n) = CHR ''g''"
  by (simp add: segmentFileName_def segmentSuffix_def)

lemma temp_name_last: "is_digit (last (temp_name io p))"
  using itoa_digits[of "random io"] by (simp add: temp_name_def list_all_iff)

lemma segment_name_neq [simp]: "segmentFileName n \<noteq> cursorFileName" "segmentFileName n \<noteq> temp_name io p"
proof -
  show "segmentFileName n \<noteq> cursorFileName"
    using segment_name_last[of n] by (auto simp: cursorFileName_def)
  show "segmentFileName n \<noteq> temp_name io p"
    using segment_name_last[of n] temp_name_last[of io p] by (auto simp: is_digit_def)
qed

lemma cursor_write_frame:
  assumes "spool_ok (s, d)" and "writeAtomic io cursorFileName data sync d = (e, ds)"
  shows "spool_ok (s, last ds)" and "spool_pending (s, last ds) = spool_pending (s, d)"
proof -
  have "\<forall>g \<in> set (spSegments s). file_bytes (last ds) (sgPath g) = file_bytes d (sgPath g)"
  proof
    fix g assume "g \<in> set (spSegments s)"
    then have "sgPath g = segmentFileName (sgSeq g)"
      using assms(1) by (auto simp: spool_ok_def list_all_iff seg_ok_def Let_def)
    then show "file_bytes (last ds) (sgPath g) = file_bytes d (sgPath g)"
      using writeAtomic_result(2)[OF assms(2), of "sgPath g"] by (simp add: file_bytes_def)
  qed
  from spool_ok_frame[OF this] assms(1) show "spool_ok (s, last ds)"
    and "spool_pending (s, last ds) = spool_pending (s, d)" by auto
qed

text \<open>The only error after which the entry is gone: the cursor could not be written.\<close>

fun cursor_err :: "spool_err \<Rightarrow> bool" where
  "cursor_err (ErrCursor _) = True"
| "cursor_err _ = False"

lemma peek_no_cursor_err: "peekEntryLocked io st = Inl x \<Longrightarrow> \<not> cursor_err x"
  by (cases st) (auto simp: peekEntryLocked_def Let_def split: list.splits if_splits option.splits)

lemma Release_ok:
  assumes "spool_ok st" and "spool_Release io st = (e, st')"
  shows "spool_ok st'" and "e = None \<Longrightarrow> spool_pending st' = tl (spool_pending st)"
    and "e = Some x \<Longrightarrow> spool_pending st' = (if cursor_err x then tl (spool_pending st) else spool_pending st)"
proof -
  obtain s d where st: "st = (s, d)" by (cases st)
  have "spool_ok st' \<and> (e = None \<longrightarrow> spool_pending st' = tl (spool_pending st)) \<and>
      (\<forall>x. e = Some x \<longrightarrow> spool_pending st' = (if cursor_err x then tl (spool_pending st) else spool_pending st))"
  proof (cases "peekEntryLocked io st")
    case (Inl x)
    with assms peek_no_cursor_err[of io st x] show ?thesis by (auto simp: spool_Release_def)
  next
    case (Inr r)
    show ?thesis
    proof (cases r)
      case None
      with assms Inr peek_ok[of s d io r] show ?thesis by (auto simp: spool_Release_def st)
    next
      case (Some bn)
      obtain b n where bn: "bn = (b, n)" by (cases bn)
      obtain durable s1 d1 where r: "release_step io n s d = (durable, s1, d1)" by (cases "release_step io n s d")
      obtain sq off where pc: "pendingCursorLocked s1 = (sq, off)" by (cases "pendingCursorLocked s1")
      obtain e1 ds where w: "writeAtomic io cursorFileName (encodeCursor sq (int off)) durable d1 = (e1, ds)"
        by (cases "writeAtomic io cursorFileName (encodeCursor sq (int off)) durable d1")
      have st': "st' = (s1, last ds)" "e = map_option ErrCursor e1"
        using assms(2) Inr Some by (simp_all add: spool_Release_def st bn r pc w)
      note rs = release_step_ok[OF assms(1)[unfolded st] _ r]
      note rs = rs[OF Inr[unfolded st Some bn]]
      from cursor_write_frame[OF rs(1) w] rs(2) show ?thesis by (auto simp: st st')
    qed
  qed
  then show "spool_ok st'" and "e = None \<Longrightarrow> spool_pending st' = tl (spool_pending st)"
    and "e = Some x \<Longrightarrow> spool_pending st' = (if cursor_err x then tl (spool_pending st) else spool_pending st)" by blast+
qed

lemma Peek_ok:
  assumes "spool_ok st" and "spool_Peek io st = Inr r"
  shows "case r of None \<Rightarrow> spool_pending st = [] | Some p \<Rightarrow> spool_pending st \<noteq> [] \<and> p = hd (spool_pending st)"
  using assms peek_ok[of "fst st" "snd st" io]
  by (cases "peekEntryLocked io st") (fastforce simp: spool_Peek_def split: option.splits)+

interpretation spool_fifo: fifo spool_ok spool_pending whole_writes spool_Append spool_Peek spool_Release
  cursor_err
proof (unfold_locales, goal_cases)
  case 1
  then show ?case by (rule Append_ok(1))
next
  case 2
  then show ?case by (intro Append_ok(3)[OF _ _ _ refl])
next
  case 3
  then show ?case by (intro Append_ok(2)[OF _ _ _ refl])
next
  case 4
  from Peek_ok[OF this] show ?case by simp
next
  case 5
  from Peek_ok[OF this] show ?case by simp
next
  case 6
  then show ?case by (rule Release_ok(1))
next
  case 7
  then show ?case by (intro Release_ok(2)[OF _ _ refl])
next
  case 8
  then show ?case by (intro Release_ok(3)[OF _ _ refl])
qed

interpretation spool_readable: readable_fifo spool_ok spool_pending whole_writes spool_Append spool_Peek
  spool_Release cursor_err readable
proof (unfold_locales, goal_cases)
  case (1 s i)
  from readable_peek[OF this] show ?case by (auto simp: spool_Peek_def)
next
  case (2 s i e s')
  from readable_peek[OF this(1,2)] this(3) show ?case
    by (auto simp: spool_Release_def Let_def split: option.splits prod.splits)
qed

subsection \<open>Runs\<close>

datatype spool_op = OpAppend bytes | OpPeek | OpRelease

datatype spool_event = EvAppend bytes "spool_err + int" | EvPeek "spool_err + bytes option" | EvRelease "spool_err option"

fun spool_step :: "io \<Rightarrow> spool_op \<Rightarrow> spool_st \<Rightarrow> spool_event \<times> spool_st" where
  "spool_step io (OpAppend p) st = (case spool_Append io p st of (r, st') \<Rightarrow> (EvAppend p r, st'))"
| "spool_step io OpPeek st = (EvPeek (spool_Peek io st), st)"
| "spool_step io OpRelease st = (case spool_Release io st of (e, st') \<Rightarrow> (EvRelease e, st'))"

fun spool_run :: "(io \<times> spool_op) list \<Rightarrow> spool_st \<Rightarrow> spool_event list \<times> spool_st" where
  "spool_run [] st = ([], st)"
| "spool_run ((io, op) # ops) st =
     (case spool_step io op st of (e, st1) \<Rightarrow> (case spool_run ops st1 of (es, st2) \<Rightarrow> (e # es, st2)))"

text \<open>The books a client can keep from what the calls return: the payloads accepted so far, and how many of
  them are gone, evicted or released.\<close>

fun book :: "spool_event \<Rightarrow> bytes list \<times> nat \<Rightarrow> bytes list \<times> nat" where
  "book (EvAppend p (Inr n)) (a, k) = (a @ [p], k + nat n)"
| "book (EvRelease e) (a, k) =
     (a, if (case e of None \<Rightarrow> True | Some x \<Rightarrow> cursor_err x) \<and> k < length a then k + 1 else k)"
| "book _ b = b"

abbreviation booked :: "spool_event list \<Rightarrow> bytes list \<times> nat" where
  "booked es \<equiv> fold book es ([], 0)"

definition books_match :: "bytes list \<times> nat \<Rightarrow> spool_st \<Rightarrow> bool" where
  "books_match = (\<lambda>(a, k) st. k \<le> length a \<and> spool_pending st = drop k a)"

definition peek_right :: "bytes list \<times> nat \<Rightarrow> spool_event \<Rightarrow> bool" where
  "peek_right = (\<lambda>(a, k) ev. case ev of
     EvPeek (Inr r) \<Rightarrow> r = (if k < length a then Some (a ! k) else None) | _ \<Rightarrow> True)"

lemma spool_step_books:
  assumes "spool_ok st" and "whole_writes io" and "books_match b st" and "spool_step io op st = (ev, st')"
  shows "spool_ok st'" and "books_match (book ev b) st'" and "peek_right b ev"
proof -
  obtain a k where b: "b = (a, k)" by (cases b)
  have "spool_ok st' \<and> books_match (book ev b) st' \<and> peek_right b ev"
  proof (cases op)
    case (OpAppend p)
    obtain r where r: "spool_Append io p st = (r, st')" and ev: "ev = EvAppend p r"
      using assms(4) OpAppend by (auto split: prod.splits)
    note ok = spool_fifo.push_ok[OF assms(1,2) r]
    show ?thesis
    proof (cases r)
      case (Inl e)
      with spool_fifo.push_Inl[OF assms(1,2)] r ok assms(3) ev b show ?thesis
        by (auto simp: books_match_def peek_right_def)
    next
      case (Inr n)
      from spool_fifo.push_Inr[OF assms(1,2) r[unfolded Inr]] assms(3) b
      have "k + nat n \<le> length a" "spool_pending st' = drop (nat n) (drop k a) @ [p]"
        by (auto simp: books_match_def)
      with ok ev b Inr show ?thesis by (simp add: books_match_def peek_right_def add.commute)
    qed
  next
    case OpPeek
    then have st': "st' = st" "ev = EvPeek (spool_Peek io st)" using assms(4) by auto
    show ?thesis
    proof (cases "spool_Peek io st")
      case (Inr r)
      with Peek_ok[OF assms(1) this] assms(1,3) st' b show ?thesis
        by (cases r) (auto simp: books_match_def peek_right_def hd_drop_conv_nth)
    qed (use assms(1,3) st' b in \<open>auto simp: peek_right_def\<close>)
  next
    case OpRelease
    obtain e where r: "spool_Release io st = (e, st')" and ev: "ev = EvRelease e"
      using assms(4) OpRelease by (auto split: prod.splits)
    note ok = spool_fifo.pop_ok[OF assms(1) r]
    have "spool_pending st' = (if (case e of None \<Rightarrow> True | Some x \<Rightarrow> cursor_err x) then tl (spool_pending st)
        else spool_pending st)"
      using spool_fifo.pop_None[OF assms(1)] spool_fifo.pop_Some[OF assms(1)] r by (cases e) auto
    with assms(3) ok ev b show ?thesis
      by (auto simp: books_match_def peek_right_def drop_Suc tl_drop)
  qed
  then show "spool_ok st'" and "books_match (book ev b) st'" and "peek_right b ev" by blast+
qed

lemma spool_run_books:
  assumes "spool_ok st" and "\<forall>(io, op) \<in> set ops. whole_writes io" and "books_match b st"
    and "spool_run ops st = (evs, st')"
  shows "spool_ok st' \<and> books_match (fold book evs b) st' \<and>
    (\<forall>pre ev post. evs = pre @ ev # post \<longrightarrow> peek_right (fold book pre b) ev)"
  using assms
proof (induction ops st arbitrary: b evs rule: spool_run.induct)
  case (2 io op ops st)
  obtain ev st1 where s: "spool_step io op st = (ev, st1)" by (cases "spool_step io op st")
  obtain es where r: "spool_run ops st1 = (es, st')" and evs: "evs = ev # es"
    using "2.prems"(4) by (auto simp: s split: prod.splits)
  have "whole_writes io" and rest: "\<forall>(io, op) \<in> set ops. whole_writes io" using "2.prems"(2) by auto
  note st = spool_step_books[OF "2.prems"(1) this(1) "2.prems"(3) s]
  from "2.IH"[OF s[symmetric] st(1) rest st(2) r] st(3) evs show ?case
    by (auto simp: Cons_eq_append_conv)
qed (auto simp: books_match_def)

subsection \<open>Properties\<close>

definition fresh_spool :: "int \<Rightarrow> int \<Rightarrow> spool" where
  "fresh_spool maxBytes segmentBytes =
     \<lparr>spMaxBytes = maxBytes, spSegmentBytes = segmentBytes, spSegments = [], spConsumedEntries = 0,
      spConsumedBytes = 0, spNextSeq = 0, spTail = None, spReleases = 0, spDropped = 0\<rparr>"

definition empty_disk :: disk where
  "empty_disk = \<lparr>dNow = [], dSafe = []\<rparr>"

lemma fresh_spool_ok: "spool_ok (fresh_spool m n, d) \<and> spool_pending (fresh_spool m n, d) = []"
  by (simp add: fresh_spool_def spool_ok_def spool_pending_def consumed_ok_def)

lemma NewSpool_empty:
  "dir \<noteq> [] \<Longrightarrow> 0 < m \<Longrightarrow> 0 < n \<Longrightarrow>
   NewSpool js io_ok \<lparr>cfgDir = dir, cfgMaxBytes = m, cfgSegmentBytes = n\<rparr> empty_disk = Inr (fresh_spool m n, empty_disk)"
  by (simp add: NewSpool_def spool_recover_def empty_disk_def recoverCursor_def loadCursorFile_def disk_get_def
      enforceMaxBytesLocked.simps fresh_spool_def)



text \<open>The spool stays bounded and its eviction is accounted for: an append that succeeds leaves the
  segments within \<^verbatim>\<open>MaxBytes\<close> unless only the segment being written remains, never evicts the payload
  just appended, and adds exactly the number of evicted payloads it reports to the count of dropped ones.\<close>

theorem spool_bounded:
  assumes "spool_ok (s, d)" and "whole_writes io" and "spool_Append io p (s, d) = (Inr n, s', d')"
  shows "(totalBytesLocked s' \<le> spMaxBytes s \<or> length (spSegments s') = 1) \<and>
    last (spool_pending (s', d')) = p \<and> 0 \<le> n \<and> nat n \<le> length (spool_pending (s, d)) \<and>
    spDropped s' = spDropped s + n"
proof -
  from assms obtain s1 d1 where r: "tail_ready (s1, d1)" "payload_ok p" "enforceMaxBytesLocked io
      (count_entry (encodeEntry p) s1) (file_append (sgPath (last (spSegments s1))) (encodeEntry p) d1) = (n, s', d')"
      "spDropped s1 = spDropped s" "spMaxBytes s1 = spMaxBytes s"
    by (cases rule: Append_split[OF assms, case_names failed stored]) auto
  note e = enforce_ok[OF count_entry_ok(1)[OF r(1,2) refl] r(3)]
  have "spDropped s' = spDropped s + n" "spMaxBytes s' = spMaxBytes s" "spSegments s' \<noteq> []"
    using e r(4,5) by (auto simp: count_entry_def)
  moreover have "length (spSegments s') = 1" if "length (spSegments s') \<le> 1"
    using that \<open>spSegments s' \<noteq> []\<close> by (cases "spSegments s'") auto
  moreover have "totalBytesLocked s' \<le> spMaxBytes s' \<or> length (spSegments s') \<le> 1" using e by blast
  ultimately show ?thesis using spool_fifo.push_Inr[OF assms] by auto
qed

lemmas spool_eval = spool_Append_def needNew_def openNewTailLocked_def tail_Write_def count_entry_def
  file_append_def enforceMaxBytesLocked.simps totalBytesLocked_def fresh_spool_def empty_disk_def disk_get_def
  disk_put_def

definition spool_example :: spool_st where
  "spool_example = (fresh_spool 100 50, empty_disk)"

theorem spool_bounded_witness:
  "\<exists>s' d'. spool_Append io_ok ''ab'' spool_example = (Inr 0, s', d') \<and> last (spool_pending (s', d')) = ''ab''"
proof -
  obtain s' d' where r: "spool_Append io_ok ''ab'' (fresh_spool 100 50, empty_disk) = (Inr 0, s', d')"
    by (simp add: spool_eval maxEntryPayloadBytes_def entryHeaderSize_def Let_def)
  have "whole_writes io_ok" by (simp add: whole_writes_def)
  from spool_bounded[OF conjunct1[OF fresh_spool_ok] this r] r show ?thesis by (auto simp: spool_example_def)
qed

definition torn_io :: io where
  "torn_io = \<lparr>fails = (\<lambda>c. c = Write (segmentFileName 0)), partial = 3, random = 0\<rparr>"

text \<open>An append that fails half-way is not undone. If the system accepts only some bytes of an entry, the
  append reports an error but the bytes stay in the segment behind the accounting; the next append succeeds
  on top of them, and from then on the oldest entry can be neither read nor released.\<close>

theorem torn_append_blocks:
  "\<exists>st1 st2 e. spool_Append torn_io ''ab'' spool_example = (Inl ErrAppend, st1) \<and>
    spool_Append io_ok ''c'' st1 = (Inr 0, st2) \<and> spool_Len (fst st2) = 1 \<and>
    spool_Peek io_ok st2 = Inl e \<and> spool_Release io_ok st2 = (Some e, st2)"
proof -
  let ?n = "segmentFileName 0"
  let ?s = "\<lambda>k. (fresh_spool 100 50)\<lparr>spTail := Some ?n, spNextSeq := 1,
        spSegments := [\<lparr>sgSeq = 0, sgPath = ?n, sgEntries = k, sgBytes = 9 * k\<rparr>]\<rparr>"
  let ?d = "\<lambda>c. \<lparr>dNow = [(?n, File c False)], dSafe = []\<rparr> :: disk"
  let ?c = "take 3 (encodeEntry ''ab'')"
  have a1: "spool_Append torn_io ''ab'' spool_example = (Inl ErrAppend, ?s 0, ?d ?c)"
    by (simp add: torn_io_def spool_example_def spool_eval maxEntryPayloadBytes_def entryHeaderSize_def Let_def)
  have a2: "spool_Append io_ok ''c'' (?s 0, ?d ?c) = (Inr 0, ?s 1, ?d (?c @ encodeEntry ''c''))"
    by (simp add: spool_eval maxEntryPayloadBytes_def entryHeaderSize_def Let_def)
  have c: "?c @ encodeEntry ''c'' = [CHR 0x00, CHR 0x00, CHR 0x00, CHR 0x00, CHR 0x00, CHR 0x00, CHR 0x01, CHR 0x06] @ drop 5 (encodeEntry ''c'')"
    by (simp add: encodeEntry_def PutUint32_def crc_eval) code_simp
  have "peekEntryLocked io_ok (?s 1, ?d (?c @ encodeEntry ''c'')) = Inl (ErrChecksum ?n 0)"
    unfolding c
    by (simp add: peekEntryLocked_def fresh_spool_def file_bytes_def disk_get_def Let_def entryHeaderSize_def
        Uint32_def crc_eval)
  then have "spool_Peek io_ok (?s 1, ?d (?c @ encodeEntry ''c'')) = Inl (ErrChecksum ?n 0)"
    "spool_Release io_ok (?s 1, ?d (?c @ encodeEntry ''c'')) = (Some (ErrChecksum ?n 0), ?s 1, ?d (?c @ encodeEntry ''c''))"
    by (simp_all add: spool_Peek_def spool_Release_def)
  moreover have "spool_Len (?s 1) = 1" by (simp add: spool_Len_def fresh_spool_def)
  ultimately show ?thesis using a1 a2 by (metis fst_conv)
qed

end
