(* ===== verification/Spool_Recover.thy ===== *)
theory Spool_Recover
  imports Spool_Fifo
begin

text \<open>
  Restarting the agent: \<^verbatim>\<open>NewSpool\<close> on the directory a previous process left behind. A process may die
  between any two operations; what the next one finds is the directory as it was, and the spool it opens
  must hold the same payloads.
\<close>

subsection \<open>What the scan of the directory finds\<close>

definition seg_at :: "disk \<Rightarrow> string \<Rightarrow> segmentInfo" where
  "seg_at d name = (let ps = (case file_bytes d name of None \<Rightarrow> [] | Some c \<Rightarrow> entries_of c) in
     \<lparr>sgSeq = the (parseSegmentSeq name), sgPath = name, sgEntries = length ps, sgBytes = length (segment_of ps)\<rparr>)"

fun is_segment :: "string \<times> dnode \<Rightarrow> bool" where
  "is_segment (name, Folder) = False"
| "is_segment (name, File _ _) = (parseSegmentSeq name \<noteq> None)"

definition clean_file :: "disk \<Rightarrow> string \<Rightarrow> bool" where
  "clean_file d name \<longleftrightarrow> (case file_bytes d name of
     None \<Rightarrow> False | Some c \<Rightarrow> entries_of c \<noteq> [] \<and> c = segment_of (entries_of c))"

lemma recover_segments_clean:
  assumes "\<forall>(name, nd) \<in> set es. disk_get d name = Some nd"
    and "\<forall>e \<in> set es. is_segment e \<longrightarrow> clean_file d (fst e)"
  shows "recover_segments io_ok es acc d = Inr (acc @ map (seg_at d) (map fst (filter is_segment es)), d)"
  using assms
proof (induction es arbitrary: acc)
  case (Cons e es)
  obtain name nd where e: "e = (name, nd)" by (cases e)
  show ?case
  proof (cases "is_segment e")
    case False
    with Cons show ?thesis by (cases nd) (auto simp: e)
  next
    case True
    then obtain c b sq where nd: "nd = File c b" and sq: "parseSegmentSeq name = Some sq" by (cases nd) (auto simp: e)
    have f: "file_bytes d name = Some c" using Cons.prems(1) by (simp add: e nd file_bytes_def)
    have cl: "entries_of c \<noteq> []" "length (segment_of (entries_of c)) = length c"
      using Cons.prems(2) True f by (auto simp: clean_file_def e)
    have "scan_file io_ok name (- 1) d = Inr (length (entries_of c), length c)"
      using f cl(2) by (simp add: scan_file_def scanEntries_all)
    moreover have "seg_at d name = \<lparr>sgSeq = sq, sgPath = name, sgEntries = length (entries_of c), sgBytes = length c\<rparr>"
      using f cl(2) sq by (simp add: seg_at_def)
    ultimately show ?thesis using Cons cl True sq by (simp add: e nd)
  qed
qed simp

subsection \<open>The invariant of a running spool with its directory\<close>

text \<open>\<open>cursor_ok\<close>: the cursor on disk names the read position, or an older segment when nothing of the oldest
  one has been read. \<open>names_ok\<close>: no other segment files lie around.\<close>

definition cursor_at :: "u64 \<Rightarrow> nat \<Rightarrow> spool \<Rightarrow> bool" where
  "cursor_at sq off s \<longleftrightarrow> (case spSegments s of
     [] \<Rightarrow> sq < spNextSeq s \<or> sq = spNextSeq s \<and> off = 0
   | g # _ \<Rightarrow> sq = sgSeq g \<and> off = spConsumedBytes s \<or> sq < sgSeq g \<and> spConsumedEntries s = 0)"

definition cursor_ok :: "spool_st \<Rightarrow> bool" where
  "cursor_ok = (\<lambda>(s, d). case disk_get d cursorFileName of
     None \<Rightarrow> spConsumedEntries s = 0
   | Some Folder \<Rightarrow> False
   | Some (File c _) \<Rightarrow> (\<exists>sq off. c = encodeCursor sq (int off) \<and> cursor_at sq off s))"

definition names_ok :: "spool_st \<Rightarrow> bool" where
  "names_ok = (\<lambda>(s, d). \<forall>name nd. disk_get d name = Some nd \<longrightarrow> parseSegmentSeq name \<noteq> None \<longrightarrow>
     name \<in> sgPath ` set (spSegments s))"

definition seqs_ok :: "spool \<Rightarrow> bool" where
  "seqs_ok s \<longleftrightarrow> sorted_wrt (<) (map sgSeq (spSegments s)) \<and> (\<forall>g \<in> set (spSegments s). sgSeq g < spNextSeq s)"

definition recoverable :: "spool_st \<Rightarrow> bool" where
  "recoverable = (\<lambda>(s, d).
     spool_ok (s, d) \<and> disk_ok d \<and> seqs_ok s \<and> unat (spNextSeq s) < 10 ^ segmentDigits \<and>
     names_ok (s, d) \<and> cursor_ok (s, d))"

definition within_bound :: "spool \<Rightarrow> bool" where
  "within_bound s \<longleftrightarrow> totalBytesLocked s \<le> spMaxBytes s \<or> length (spSegments s) \<le> 1"

lemma recoverable_segment:
  assumes "recoverable (s, d)" and "g \<in> set (spSegments s)"
  shows "seq_ok (sgSeq g)" and "sgPath g = segmentFileName (sgSeq g)" and "seg_at d (sgPath g) = g"
    and "clean_file d (sgPath g)"
proof -
  have ok: "seg_ok d g" and ne: "sgEntries g \<noteq> 0" and lt: "sgSeq g < spNextSeq s"
    using assms by (auto simp: recoverable_def spool_ok_def seqs_ok_def list_all_iff)
  have "unat (spNextSeq s) < 10 ^ segmentDigits" using assms(1) by (simp add: recoverable_def)
  with lt show sq: "seq_ok (sgSeq g)" unfolding seq_ok_def by (meson order.strict_trans word_less_nat_alt)
  show p: "sgPath g = segmentFileName (sgSeq g)" using ok by (simp add: seg_ok_def Let_def)
  have f: "file_bytes d (sgPath g) = Some (segment_of (seg_entries d g))"
    and e: "sgEntries g = length (seg_entries d g)" "sgBytes g = length (segment_of (seg_entries d g))"
    using ok by (auto simp: seg_ok_def Let_def)
  have es: "entries_of (segment_of (seg_entries d g)) = seg_entries d g"
    by (rule entries_of_segment0[OF seg_entries_payload_ok])
  show "seg_at d (sgPath g) = g"
    unfolding seg_at_def f using es e parse_segmentFileName[OF sq] p by (simp add: Let_def)
  show "clean_file d (sgPath g)" unfolding clean_file_def f using es ne e by auto
qed

lemma recovered_segments:
  assumes "recoverable (s, d)"
  shows "recover_segments io_ok (sort_key fst (dNow d)) [] d = Inr (spSegments s, d)"
proof -
  let ?es = "sort_key fst (dNow d)"
  let ?names = "map fst (filter is_segment ?es)"
  have dist: "distinct (map fst (dNow d))" using assms by (simp add: recoverable_def)
  have set_es: "set ?es = set (dNow d)" by simp
  have g: "disk_get d name = Some nd" if "(name, nd) \<in> set ?es" for name nd
    using that dist by (simp add: disk_get_def)
  have sub: "fst e \<in> sgPath ` set (spSegments s)" if "e \<in> set ?es" "is_segment e" for e
  proof -
    obtain name nd where e: "e = (name, nd)" by (cases e)
    have "names_ok (s, d)" using assms by (simp add: recoverable_def)
    with g[of name nd] that show ?thesis by (cases nd) (auto simp: e names_ok_def)
  qed
  have cl: "clean_file d (fst e)" if "e \<in> set ?es" "is_segment e" for e
    using sub[OF that] recoverable_segment(4)[OF assms] by auto
  have names: "?names = map sgPath (spSegments s)"
  proof (rule sorted_distinct_set_unique)
    have "sorted (map fst ?es)" by (rule sorted_sort_key)
    then show "sorted ?names" by (rule sorted_filter)
    have "mset (map fst ?es) = mset (map fst (dNow d))" by simp
    then have "distinct (map fst ?es)" using dist by (metis mset_eq_imp_distinct_iff)
    then show "distinct ?names" by (rule distinct_map_filter)
    have "sorted_wrt (\<lambda>g h. sgPath g < sgPath h) (spSegments s)"
    proof (rule sorted_wrt_mono_rel)
      show "sorted_wrt (\<lambda>g h. sgSeq g < sgSeq h) (spSegments s)"
        using assms by (simp add: recoverable_def seqs_ok_def sorted_wrt_map)
    next
      fix g h assume "g \<in> set (spSegments s)" "h \<in> set (spSegments s)" "sgSeq g < sgSeq h"
      then show "sgPath g < sgPath h"
        using recoverable_segment[OF assms] segmentFileName_order by simp
    qed
    then have "sorted_wrt (<) (map sgPath (spSegments s))" by (simp add: sorted_wrt_map)
    then show "sorted (map sgPath (spSegments s))" "distinct (map sgPath (spSegments s))"
      by (auto simp: strict_sorted_iff)
    show "set ?names = set (map sgPath (spSegments s))"
    proof
      show "set ?names \<subseteq> set (map sgPath (spSegments s))" using sub by auto
      show "set (map sgPath (spSegments s)) \<subseteq> set ?names"
      proof
        fix x assume "x \<in> set (map sgPath (spSegments s))"
        then obtain h where h: "h \<in> set (spSegments s)" "x = sgPath h" by auto
        then obtain c b where "disk_get d x = Some (File c b)"
          using recoverable_segment(4)[OF assms, of h]
          by (auto simp: clean_file_def file_bytes_def split: option.splits dnode.splits)
        moreover have "parseSegmentSeq x \<noteq> None"
          using h recoverable_segment[OF assms, of h] parse_segmentFileName by simp
        ultimately have "(x, File c b) \<in> set (dNow d) \<and> is_segment (x, File c b)"
          by (auto simp: disk_get_def dest: map_of_SomeD)
        then show "x \<in> set ?names" by force
      qed
    qed
  qed
  have "map (seg_at d) ?names = spSegments s"
    unfolding names using recoverable_segment(3)[OF assms] by (simp add: map_idI)
  then show ?thesis
    using recover_segments_clean[of ?es d "[]"] g cl by auto
qed

subsection \<open>Restart\<close>

definition cursor_law :: "(bytes \<Rightarrow> spoolCursorFile option) \<Rightarrow> bool" where
  "cursor_law js \<longleftrightarrow> (\<forall>sq off. js (encodeCursor sq (int off)) =
     Some \<lparr>cfVersion = cursorVersion, cfSegment = sq, cfOffset = int off\<rparr>)"

lemma scan_consumed:
  assumes "spool_ok (s, d)" and "spSegments s = g # gs"
  shows "scan_file io_ok (sgPath g) (int (spConsumedBytes s)) d = Inr (spConsumedEntries s, spConsumedBytes s)"
proof -
  have g: "file_bytes d (sgPath g) = Some (segment_of (seg_entries d g))"
    and k: "spConsumedEntries s < length (seg_entries d g)"
    and cb: "spConsumedBytes s = length (segment_of (take (spConsumedEntries s) (seg_entries d g)))"
    using assms seg_length[of d g] by (auto simp: spool_ok_def consumed_ok_def seg_ok_def Let_def)
  from scanEntries_limit[where rest = "[]", OF seg_entries_payload_ok, of "spConsumedEntries s" d g] k g
  show ?thesis by (simp add: scan_file_def cb)
qed

lemma consumed_zero: "spool_ok (s, d) \<Longrightarrow> spConsumedEntries s = 0 \<Longrightarrow> spConsumedBytes s = 0"
  by (auto simp: spool_ok_def consumed_ok_def split: list.splits)

text \<open>The sequence number the next segment will get, given the one the segments on disk suggest.\<close>

definition next_after :: "(bytes \<Rightarrow> spoolCursorFile option) \<Rightarrow> disk \<Rightarrow> u64 \<Rightarrow> u64" where
  "next_after js d n = (case file_bytes d cursorFileName of
     None \<Rightarrow> n
   | Some c \<Rightarrow> (case js c of None \<Rightarrow> n | Some cf \<Rightarrow> if n \<le> cfSegment cf then cfSegment cf + 1 else n))"

lemma recoverCursor_exact:
  assumes "recoverable (s, d)" and "cursor_law js"
    and "spSegments s0 = spSegments s" "spConsumedEntries s0 = 0" "spConsumedBytes s0 = 0"
  shows "recoverCursor js io_ok (s0, d) = Inr (s0\<lparr>spConsumedEntries := spConsumedEntries s,
      spConsumedBytes := spConsumedBytes s, spNextSeq := next_after js d (spNextSeq s0)\<rparr>, d)"
proof (cases "disk_get d cursorFileName")
  case None
  have "spConsumedEntries s = 0" using assms(1) None by (simp add: recoverable_def cursor_ok_def)
  moreover from this consumed_zero[of s d] have "spConsumedBytes s = 0" using assms(1) by (simp add: recoverable_def)
  ultimately show ?thesis using assms(4,5) None
    by (cases s0) (simp add: recoverCursor_def loadCursorFile_def next_after_def file_bytes_def)
next
  case (Some nd)
  have ok: "spool_ok (s, d)" and "cursor_ok (s, d)" using assms(1) by (simp_all add: recoverable_def)
  then obtain c b sq off where nd: "nd = File c b" and c: "c = encodeCursor sq (int off)" and at: "cursor_at sq off s"
    using Some by (cases nd) (auto simp: cursor_ok_def)
  define nx where "nx = next_after js d (spNextSeq s0)"
  have nx': "nx = (if spNextSeq s0 \<le> sq then sq + 1 else spNextSeq s0)"
    using Some assms(2) by (simp add: nx_def next_after_def file_bytes_def nd c cursor_law_def)
  let ?cf = "\<lparr>cfVersion = cursorVersion, cfSegment = sq, cfOffset = int off\<rparr>"
  have load: "loadCursorFile js io_ok d = Inr (Some ?cf)"
    using Some assms(2) by (simp add: loadCursorFile_def nd c cursor_law_def)
  have keep: "drop_released io_ok sq (spSegments s) d = (spSegments s, d)"
    using at by (cases "spSegments s") (auto simp: cursor_at_def)
  have "recoverCursor js io_ok (s0, d) = Inr (s0\<lparr>spConsumedEntries := spConsumedEntries s,
      spConsumedBytes := spConsumedBytes s, spNextSeq := nx\<rparr>, d)"
  proof (cases "spSegments s")
    case Nil
    then have "spConsumedEntries s = 0" "spConsumedBytes s = 0" using ok by (auto simp: spool_ok_def consumed_ok_def)
    with Nil load keep assms(3-5) show ?thesis by (cases s0) (simp add: recoverCursor_def nx')
  next
    case (Cons g gs)
    show ?thesis
    proof (cases "sq = sgSeq g")
      case True
      with at Cons have "off = spConsumedBytes s" by (auto simp: cursor_at_def)
      with True Cons load keep assms(3) scan_consumed[OF ok Cons] show ?thesis by (cases s0) (simp add: recoverCursor_def nx')
    next
      case False
      with at Cons have "spConsumedEntries s = 0" by (auto simp: cursor_at_def)
      moreover from consumed_zero[OF ok this] have "spConsumedBytes s = 0" .
      ultimately show ?thesis using False Cons load keep assms(3-5) by (cases s0) (simp add: recoverCursor_def nx')
    qed
  qed
  then show ?thesis by (simp add: nx_def)
qed

lemma word_succ_less:
  fixes a b :: u64
  assumes "a < b"
  shows "a < a + 1" and "a + 1 \<le> b" and "unat (a + 1) = unat a + 1"
proof -
  have "unat a < unat b" using assms by (simp add: word_less_nat_alt)
  moreover have "unat b < 2 ^ 64" using unsigned_less[of b, where ?'a = nat] by simp
  ultimately have u: "unat a + 1 < 2 ^ 64" by simp
  then show un: "unat (a + 1) = unat a + 1" by (simp add: unat_word_ariths)
  from un show "a < a + 1" by (simp add: word_less_nat_alt)
  from un \<open>unat a < unat b\<close> show "a + 1 \<le> b" by (simp add: word_le_nat_alt)
qed

lemma seq_limit:
  assumes "unat (b :: u64) < 10 ^ segmentDigits"
  shows "b < b + 1" and "unat (b + 1) = unat b + 1"
proof -
  have "unat b + 1 < 2 ^ 64" using assms by (simp add: segmentDigits_def)
  then show un: "unat (b + 1) = unat b + 1" by (simp add: unat_word_ariths)
  from un show "b < b + 1" by (simp add: word_less_nat_alt)
qed

lemma last_seq_less: "seqs_ok s \<Longrightarrow> spSegments s \<noteq> [] \<Longrightarrow> sgSeq (last (spSegments s)) < spNextSeq s"
  by (simp add: seqs_ok_def)

lemma seqs_le_last:
  assumes "seqs_ok s" and "g \<in> set (spSegments s)"
  shows "sgSeq g \<le> sgSeq (last (spSegments s))"
proof -
  obtain gs where gs: "spSegments s = gs @ [last (spSegments s)]"
    using assms(2) by (metis append_butlast_last_id empty_iff empty_set)
  have "sorted_wrt (<) (map sgSeq (gs @ [last (spSegments s)]))" using assms(1) gs by (metis seqs_ok_def)
  moreover have "g \<in> set gs \<or> g = last (spSegments s)" using assms(2) gs by (metis UnE set_append empty_iff insert_iff list.set)
  ultimately show ?thesis by (auto simp: sorted_wrt_append)
qed

lemma next_after_ok:
  assumes "seqs_ok s" and "cursor_ok (s, d)" and law: "cursor_law js"
    and lim: "unat (spNextSeq s) + 1 < 10 ^ segmentDigits"
    and n0: "n0 = (if spSegments s = [] then 0 else sgSeq (last (spSegments s)) + 1)"
    and same: "spSegments s' = spSegments s" "spConsumedEntries s' = spConsumedEntries s"
      "spConsumedBytes s' = spConsumedBytes s" "spNextSeq s' = next_after js d n0"
  shows "seqs_ok s' \<and> unat (next_after js d n0) \<le> unat (spNextSeq s) + 1 \<and> cursor_ok (s', d)"
proof (cases "spSegments s")
  case Nil
  show ?thesis
  proof (cases "disk_get d cursorFileName")
    case None
    with Nil same assms(2) show ?thesis
      by (simp add: seqs_ok_def cursor_ok_def next_after_def file_bytes_def n0 segmentDigits_def)
  next
    case (Some nd)
    then obtain c b sq off where nd: "nd = File c b" "c = encodeCursor sq (int off)" and at: "cursor_at sq off s"
      using assms(2) by (cases nd) (auto simp: cursor_ok_def)
    have nx: "next_after js d n0 = sq + 1"
      using Some law Nil by (simp add: next_after_def file_bytes_def nd cursor_law_def n0)
    have "sq \<le> spNextSeq s" using at Nil by (auto simp: cursor_at_def)
    then have le: "unat sq \<le> unat (spNextSeq s)" by (simp add: word_le_nat_alt)
    then have "sq < sq + 1" "unat (sq + 1) = unat sq + 1" using lim by (simp_all add: seq_limit)
    with Nil same nx le Some nd show ?thesis by (auto simp: seqs_ok_def cursor_ok_def cursor_at_def)
  qed
next
  case (Cons g gs)
  let ?l = "sgSeq (last (spSegments s))"
  have l: "?l < spNextSeq s" using last_seq_less[OF assms(1)] Cons by simp
  note w = word_succ_less[OF l]
  have nx: "next_after js d n0 = n0"
  proof (cases "disk_get d cursorFileName")
    case (Some nd)
    then obtain c b sq off where nd: "nd = File c b" "c = encodeCursor sq (int off)" and at: "cursor_at sq off s"
      using assms(2) by (cases nd) (auto simp: cursor_ok_def)
    have "sq \<le> sgSeq g" using at Cons by (auto simp: cursor_at_def)
    also have "sgSeq g \<le> ?l" using seqs_le_last[OF assms(1)] Cons by simp
    also have "?l < n0" using w(1) n0 Cons by simp
    finally show ?thesis using Some law by (auto simp: next_after_def file_bytes_def nd cursor_law_def)
  qed (simp add: next_after_def file_bytes_def)
  have "sgSeq h < n0" if "h \<in> set (spSegments s)" for h
    using seqs_le_last[OF assms(1) that] w(1) n0 Cons by (simp only: if_False list.distinct(2))
  then have "seqs_ok s'" using assms(1) same nx by (simp add: seqs_ok_def)
  moreover have "unat n0 \<le> unat (spNextSeq s) + 1" using w(3) l lim n0 Cons by (simp add: word_less_nat_alt)
  moreover have "cursor_at sq off s' \<longleftrightarrow> cursor_at sq off s" for sq off using same Cons by (simp add: cursor_at_def)
  then have "cursor_ok (s', d)" using assms(2) same by (simp add: cursor_ok_def split: option.split_asm dnode.split_asm)
  ultimately show ?thesis using nx by simp
qed

lemma NewSpool_exact:
  assumes rec: "recoverable (s, d)" and bound: "within_bound s" and law: "cursor_law js"
    and cfg: "cfgDir cfg \<noteq> []" "cfgMaxBytes cfg = spMaxBytes s" "0 < cfgMaxBytes cfg" "0 < cfgSegmentBytes cfg"
    and lim: "unat (spNextSeq s) + 1 < 10 ^ segmentDigits"
  obtains s' where "NewSpool js io_ok cfg d = Inr (s', d)" and "recoverable (s', d)"
    and "spool_pending (s', d) = spool_pending (s, d)"
    and "unat (spNextSeq s') \<le> unat (spNextSeq s) + 1" and "spMaxBytes s' = spMaxBytes s" and "within_bound s'"
proof -
  let ?segs = "spSegments s"
  let ?n0 = "if ?segs = [] then 0 else sgSeq (last ?segs) + 1"
  define s1 where "s1 = (fresh_spool (cfgMaxBytes cfg) (cfgSegmentBytes cfg))\<lparr>spSegments := ?segs, spNextSeq := ?n0\<rparr>"
  let ?nx = "next_after js d ?n0"
  define s2 where "s2 = s1\<lparr>spConsumedEntries := spConsumedEntries s, spConsumedBytes := spConsumedBytes s, spNextSeq := ?nx\<rparr>"
  have ok: "spool_ok (s, d)" and sq: "seqs_ok s" and nm: "names_ok (s, d)" and cu: "cursor_ok (s, d)" and dk: "disk_ok d"
    using rec by (simp_all add: recoverable_def)
  have rc: "recoverCursor js io_ok (s1, d) = Inr (s2, d)"
    using recoverCursor_exact[OF rec law, of s1] by (simp add: s1_def s2_def fresh_spool_def)
  have en: "enforceMaxBytesLocked io_ok s2 d = (0, s2, d)"
    using bound cfg(2) by (subst enforceMaxBytesLocked.simps)
      (auto simp: within_bound_def s2_def s1_def totalBytesLocked_def fresh_spool_def)
  define s' where "s' = (if ?segs = [] then s2 else s2\<lparr>spTail := Some (sgPath (last ?segs))\<rparr>)"
  have "file_bytes d (sgPath (last ?segs)) \<noteq> None" if "?segs \<noteq> []"
  proof -
    have "seg_ok d (last ?segs)" using ok that by (simp add: spool_ok_def list_all_iff)
    then have "file_bytes d (sgPath (last ?segs)) = Some (segment_of (seg_entries d (last ?segs)))"
      unfolding seg_ok_def Let_def by blast
    then show ?thesis by simp
  qed
  then have new: "NewSpool js io_ok cfg d = Inr (s', d)"
    using cfg recovered_segments[OF rec] rc en
    by (auto simp: NewSpool_def spool_recover_def s1_def s'_def s2_def fresh_spool_def reopenTailLocked_def)
  have f: "spSegments s' = ?segs" "spConsumedEntries s' = spConsumedEntries s" "spConsumedBytes s' = spConsumedBytes s"
      "spNextSeq s' = ?nx" "?segs \<noteq> [] \<Longrightarrow> spTail s' = Some (sgPath (last ?segs))"
    by (simp_all add: s'_def s2_def s1_def)
  have "consumed_ok d s' \<longleftrightarrow> consumed_ok d s" using f by (simp add: consumed_ok_def split: list.split)
  then have "spool_ok (s', d)" using ok f by (simp add: spool_ok_def)
  moreover have nx: "seqs_ok s' \<and> unat ?nx \<le> unat (spNextSeq s) + 1 \<and> cursor_ok (s', d)"
    using next_after_ok[OF sq cu law _ refl f(1-4)] lim by simp
  moreover from this lim have "unat ?nx < 10 ^ segmentDigits" by linarith
  moreover have "names_ok (s', d)" using nm f by (simp add: names_ok_def)
  ultimately have "recoverable (s', d)" using dk f by (simp add: recoverable_def)
  moreover have "spool_pending (s', d) = spool_pending (s, d)" using f by (simp add: spool_pending_def)
  moreover have mx: "spMaxBytes s' = spMaxBytes s" by (simp add: s'_def s2_def s1_def fresh_spool_def cfg(2))
  moreover have "within_bound s'" using bound mx f(1) by (simp add: within_bound_def totalBytesLocked_def)
  ultimately show ?thesis using new nx f(4) by (intro that) simp_all
qed

subsection \<open>Every operation keeps the directory recoverable\<close>

lemma os_Remove_ok [simp]: "os_Remove io_ok p d = disk_del p d"
  by (simp add: os_Remove_def)

lemma evict_one_recoverable:
  assumes "recoverable (s, d)" and "spSegments s = v # g # gs"
  shows "recoverable (evict_one s, disk_del (sgPath v) d)"
proof -
  have ok: "spool_ok (s, d)" and sq: "seqs_ok s" and nm: "names_ok (s, d)" and cu: "cursor_ok (s, d)"
    using assms(1) by (simp_all add: recoverable_def)
  have "cursorFileName \<noteq> sgPath v"
    using recoverable_segment(2)[OF assms(1), of v] assms(2) by (metis list.set_intros(1) segment_name_neq(1))
  then have "disk_get (disk_del (sgPath v) d) cursorFileName = disk_get d cursorFileName" by simp
  moreover have "sq' < sgSeq g" if "cursor_at sq' off s" for sq' off
  proof -
    have "sgSeq v < sgSeq g" using sq assms(2) by (simp add: seqs_ok_def)
    with that assms(2) show ?thesis by (auto simp: cursor_at_def)
  qed
  ultimately have "cursor_ok (evict_one s, disk_del (sgPath v) d)"
    using cu assms(2) by (auto simp: cursor_ok_def cursor_at_def evict_one_def split: option.splits dnode.splits)
  moreover have "names_ok (evict_one s, disk_del (sgPath v) d)"
    using nm assms(2) by (auto simp: names_ok_def evict_one_def)
  moreover have "seqs_ok (evict_one s)" using sq assms(2) by (auto simp: seqs_ok_def evict_one_def)
  ultimately show ?thesis
    using evict_one_ok(1)[OF ok assms(2), of io_ok] assms(1) by (simp add: recoverable_def evict_one_def)
qed

lemma enforce_recoverable:
  assumes "recoverable (s, d)" and "enforceMaxBytesLocked io_ok s d = (n, s', d')"
  shows "recoverable (s', d') \<and> within_bound s'"
  using assms
proof (induction "length (spSegments s)" arbitrary: s d n)
  case 0
  then have "enforceMaxBytesLocked io_ok s d = (0, s, d)" by (subst enforce_unfold) auto
  with 0 show ?case by (simp add: within_bound_def)
next
  case (Suc k)
  show ?case
  proof (cases "totalBytesLocked s > spMaxBytes s \<and> length (spSegments s) > 1")
    case False
    then have "enforceMaxBytesLocked io_ok s d = (0, s, d)" by (subst enforce_unfold) auto
    with Suc.prems False show ?thesis by (auto simp: within_bound_def)
  next
    case True
    then obtain v g gs where sg: "spSegments s = v # g # gs"
      by (cases "spSegments s" rule: remdups_adj.cases) auto
    obtain m where r: "enforceMaxBytesLocked io_ok (evict_one s) (disk_del (sgPath v) d) = (m, s', d')"
      using Suc.prems(2) True by (subst (asm) enforce_unfold) (auto simp: sg Let_def split: prod.splits)
    have "k = length (spSegments (evict_one s))" using Suc.hyps(2) by (simp add: evict_one_def sg)
    from Suc.hyps(1)[OF this evict_one_recoverable[OF Suc.prems(1) sg] r] show ?thesis .
  qed
qed

text \<open>The state between opening a segment and writing to it, with the directory around it.\<close>

definition around_ok :: "spool_st \<Rightarrow> bool" where
  "around_ok = (\<lambda>(s, d). disk_ok d \<and> seqs_ok s \<and> unat (spNextSeq s) < 10 ^ segmentDigits \<and>
     names_ok (s, d) \<and> cursor_ok (s, d))"

lemma recoverable_iff: "recoverable st \<longleftrightarrow> spool_ok st \<and> around_ok st"
  by (cases st) (auto simp: recoverable_def around_ok_def)

lemma openNewTail_around:
  assumes "recoverable (s, d)" and "unat (spNextSeq s) + 1 < 10 ^ segmentDigits"
  shows "\<exists>s1 d1. openNewTailLocked io_ok s d = (None, s1, d1) \<and> around_ok (s1, d1) \<and>
    spNextSeq s1 = spNextSeq s + 1 \<and> spSegments s1 \<noteq> [] \<and> sgEntries (last (spSegments s1)) = 0"
proof -
  let ?n = "spNextSeq s" and ?p = "segmentFileName (spNextSeq s)"
  let ?g = "\<lparr>sgSeq = ?n, sgPath = ?p, sgEntries = 0, sgBytes = 0\<rparr>"
  let ?s = "s\<lparr>spTail := Some ?p, spNextSeq := ?n + 1, spSegments := spSegments s @ [?g]\<rparr>"
  let ?d = "disk_put ?p (File [] False) d"
  have nm: "names_ok (s, d)" and sq: "seqs_ok s" and cu: "cursor_ok (s, d)" and dk: "disk_ok d" and ok: "spool_ok (s, d)"
    using assms(1) by (simp_all add: recoverable_def)
  have n_ok: "seq_ok ?n" using assms(1) by (simp add: recoverable_def seq_ok_def)
  have nlt: "?n < ?n + 1" "unat (?n + 1) = unat ?n + 1" using assms(2) by (simp_all add: seq_limit)
  have free: "disk_get d ?p = None"
  proof (rule ccontr)
    assume "disk_get d ?p \<noteq> None"
    then obtain nd where nd: "disk_get d ?p = Some nd" by blast
    have "?p \<in> sgPath ` set (spSegments s)"
      using nm nd parse_segmentFileName[OF n_ok] by (auto simp: names_ok_def)
    then obtain h where h: "h \<in> set (spSegments s)" "?p = sgPath h" by auto
    then have "parseSegmentSeq ?p = Some (sgSeq h)"
      using recoverable_segment[OF assms(1) h(1)] parse_segmentFileName by simp
    then have "sgSeq h = ?n" using parse_segmentFileName[OF n_ok] by simp
    with sq h show False by (auto simp: seqs_ok_def)
  qed
  have opened: "openNewTailLocked io_ok s d = (None, ?s, ?d)"
    using free by (simp add: openNewTailLocked_def Let_def split: option.split)
  have "disk_get ?d cursorFileName = disk_get d cursorFileName"
    by (simp add: segment_name_neq(1)[of ?n, symmetric])
  moreover have "cursor_at q off ?s" if "cursor_at q off s" for q off
    using that ok by (cases "spSegments s") (auto simp: cursor_at_def spool_ok_def consumed_ok_def)
  ultimately have "cursor_ok (?s, ?d)" using cu by (auto simp: cursor_ok_def split: option.splits dnode.splits)
  moreover have "names_ok (?s, ?d)" using nm by (auto simp: names_ok_def)
  moreover have "seqs_ok ?s" using sq nlt(1) by (auto simp: seqs_ok_def sorted_wrt_append)
  ultimately show ?thesis using opened dk assms(2) nlt(2) by (simp add: around_ok_def)
qed

lemma count_entry_around:
  assumes "around_ok (s, d)" and "spSegments s \<noteq> []" and "sgPath (last (spSegments s)) = segmentFileName n"
  shows "around_ok (count_entry x s, file_append (sgPath (last (spSegments s))) y d)"
proof -
  let ?s = "count_entry x s" and ?d = "file_append (sgPath (last (spSegments s))) y d"
  obtain gs g where sg: "spSegments s = gs @ [g]" using assms(2) by (metis append_butlast_last_id)
  have f: "map sgSeq (spSegments ?s) = map sgSeq (spSegments s)" "map sgPath (spSegments ?s) = map sgPath (spSegments s)"
      "spNextSeq ?s = spNextSeq s" "spConsumedEntries ?s = spConsumedEntries s" "spConsumedBytes ?s = spConsumedBytes s"
    by (simp_all add: count_entry_def sg)
  have "seqs_ok ?s \<longleftrightarrow> seqs_ok s" by (auto simp: seqs_ok_def count_entry_def sg)
  moreover have "names_ok (?s, ?d)"
    using assms(1) f(2) by (auto simp: names_ok_def around_ok_def file_append_def sg count_entry_def split: option.splits dnode.splits if_splits)
  moreover have "disk_get ?d cursorFileName = disk_get d cursorFileName"
    unfolding file_append_def assms(3) using segment_name_neq(1)[of n]
    by (simp split: option.split dnode.split) (metis segment_name_neq(1))
  moreover have "cursor_at q off ?s \<longleftrightarrow> cursor_at q off s" for q off
    by (cases gs) (auto simp: cursor_at_def count_entry_def sg)
  moreover have "disk_ok ?d" using assms(1) by (simp add: around_ok_def file_append_def split: option.splits dnode.splits)
  ultimately show ?thesis using assms(1) f
    by (auto simp: around_ok_def cursor_ok_def split: option.splits dnode.splits)
qed

lemma Append_recoverable:
  assumes "recoverable (s, d)" and "unat (spNextSeq s) + 1 < 10 ^ segmentDigits"
    and "within_bound s" and "spool_Append io_ok p (s, d) = (r, s', d')"
  shows "recoverable (s', d') \<and> within_bound s' \<and> unat (spNextSeq s') \<le> unat (spNextSeq s) + 1 \<and>
    spMaxBytes s' = spMaxBytes s"
proof -
  have ok: "spool_ok (s, d)" and ar: "around_ok (s, d)" using assms(1) by (auto simp: recoverable_iff)
  have w: "whole_writes io_ok" by (simp add: whole_writes_def)
  obtain s1 d1 where o: "openNewTailLocked io_ok s d = (None, s1, d1)" "around_ok (s1, d1)"
      "spSegments s1 \<noteq> []" "sgEntries (last (spSegments s1)) = 0" "spNextSeq s1 = spNextSeq s + 1"
    using openNewTail_around[OF assms(1,2)] by blast
  have n1: "unat (spNextSeq s + 1) = unat (spNextSeq s) + 1" using assms(2) by (simp add: seq_limit)
  show ?thesis
  proof (cases rule: Append_split[OF ok w assms(4), case_names failed stored])
    case (failed e)
    have "\<not> list_all (\<lambda>g. sgEntries g \<noteq> 0) (spSegments s1)"
      using o(3,4) last_in_set by (auto simp: list_all_iff simp del: neq0_conv)
    then have "(s', d') \<noteq> (s1, d1)" using failed(2) by (auto simp: spool_ok_def simp del: neq0_conv)
    then show ?thesis using failed(4) assms(1,3) o by (auto simp: recoverable_iff)
  next
    case (stored n s2 d2)
    have a: "around_ok (s2, d2)" and "unat (spNextSeq s2) \<le> unat (spNextSeq s) + 1"
      using stored(8) ar o n1 by auto
    with enforce_ok[OF count_entry_ok(1)[OF stored(3,2) refl] stored(5)] stored(7)
    have kept: "unat (spNextSeq s') \<le> unat (spNextSeq s) + 1" "spMaxBytes s' = spMaxBytes s"
      by (simp_all add: count_entry_def)
    have ne: "spSegments s2 \<noteq> []" and "seg_ok d2 (last (spSegments s2))"
      using stored(3) by (auto simp: tail_ready_def list_all_iff)
    then have "sgPath (last (spSegments s2)) = segmentFileName (sgSeq (last (spSegments s2)))"
      unfolding seg_ok_def Let_def by blast
    from count_entry_around[OF a ne this] count_entry_ok(1)[OF stored(3,2) refl]
    show ?thesis using enforce_recoverable[OF _ stored(5)] kept by (simp add: recoverable_iff)
  qed
qed

lemma writeAtomic_io_ok:
  assumes "writeAtomic io_ok p data sync d = (e, ds)"
  shows "e = None" and "disk_get (last ds) q = (if q = p then Some (File data sync)
      else if q = temp_name io_ok p then None else disk_get d q)"
    and "disk_ok d \<Longrightarrow> disk_ok (last ds)"
  using assms
  by (auto simp: writeAtomic_def tmp_rename_def sync_dir_def Let_def disk_get_def[of "_\<lparr>dSafe := _\<rparr>"]
      disk_get_def[symmetric] split: if_splits)

lemma parse_temp_name: "parseSegmentSeq (temp_name io p) = None"
proof -
  have "\<not> suffix segmentSuffix (temp_name io p)"
  proof
    assume "suffix segmentSuffix (temp_name io p)"
    then have "last (temp_name io p) = CHR ''g''" by (auto simp: suffix_def segmentSuffix_def)
    with temp_name_last[of io p] show False by (simp add: is_digit_def)
  qed
  then show ?thesis by (simp add: parseSegmentSeq_def cut_suffix_def)
qed

lemma cursor_write_recoverable:
  assumes "spool_ok (s, d)" and "disk_ok d" and "seqs_ok s" and "unat (spNextSeq s) < 10 ^ segmentDigits"
    and "names_ok (s, d)" and "pendingCursorLocked s = (sq, off)"
    and "writeAtomic io_ok cursorFileName (encodeCursor sq (int off)) sync d = (e, ds)"
  shows "recoverable (s, last ds)"
proof -
  note w = writeAtomic_io_ok[OF assms(7)]
  have "names_ok (s, last ds)"
    using assms(5) by (auto simp: names_ok_def w(2) cursorFileName_no_segment parse_temp_name split: if_splits)
  moreover have "cursor_ok (s, last ds)"
  proof -
    have "cursor_at sq off s"
      using assms(6) by (auto simp: cursor_at_def pendingCursorLocked_def split: list.splits)
    then show ?thesis by (auto simp: cursor_ok_def w(2))
  qed
  ultimately show ?thesis
    using cursor_write_frame(1)[OF assms(1,7)] w(3) assms by (simp add: recoverable_def)
qed

lemma Release_recoverable:
  assumes "recoverable (s, d)" and "within_bound s" and "spool_Release io_ok (s, d) = (e, s', d')"
  shows "recoverable (s', d') \<and> within_bound s' \<and> spNextSeq s' = spNextSeq s \<and> spMaxBytes s' = spMaxBytes s"
proof (cases "peekEntryLocked io_ok (s, d)")
  case (Inl x)
  with assms show ?thesis by (simp add: spool_Release_def)
next
  case (Inr r)
  show ?thesis
  proof (cases r)
    case None
    with Inr assms show ?thesis by (simp add: spool_Release_def)
  next
    case (Some bn)
    obtain b n where bn: "bn = (b, n)" by (cases bn)
    obtain durable s1 d1 where r: "release_step io_ok n s d = (durable, s1, d1)" by (cases "release_step io_ok n s d")
    obtain sq off where pc: "pendingCursorLocked s1 = (sq, off)" by (cases "pendingCursorLocked s1")
    obtain e1 ds where w: "writeAtomic io_ok cursorFileName (encodeCursor sq (int off)) durable d1 = (e1, ds)"
      by (cases "writeAtomic io_ok cursorFileName (encodeCursor sq (int off)) durable d1")
    have st': "s' = s1" "d' = last ds" using assms(3) Inr Some by (simp_all add: spool_Release_def bn r pc w)
    have ok: "spool_ok (s, d)" and dk: "disk_ok d" and sqs: "seqs_ok s" and nm: "names_ok (s, d)"
      and lim: "unat (spNextSeq s) < 10 ^ segmentDigits"
      using assms(1) by (simp_all add: recoverable_def)
    have ok1: "spool_ok (s1, d1)" by (rule release_step_ok(1)[OF ok _ r]) (use Inr Some bn in simp)
    obtain g gs where sg: "spSegments s = g # gs" using peek_ok[OF ok Inr] Some bn by auto
    have seg: "spSegments s1 = spSegments s \<and> d1 = d \<or> spSegments s1 = gs \<and> d1 = disk_del (sgPath g) d"
      and nx: "spNextSeq s1 = spNextSeq s" "spMaxBytes s1 = spMaxBytes s"
      using r by (auto simp: release_step_def Let_def sg split: if_splits)
    have "names_ok (s1, d1)" unfolding names_ok_def prod.case
    proof (intro allI impI)
      fix name nd assume a: "disk_get d1 name = Some nd" "parseSegmentSeq name \<noteq> None"
      have m: "name \<in> sgPath ` set (g # gs)" if "disk_get d name = Some nd"
        using nm a(2) that sg unfolding names_ok_def by simp
      from seg show "name \<in> sgPath ` set (spSegments s1)"
      proof
        assume "spSegments s1 = spSegments s \<and> d1 = d"
        with m a(1) sg show ?thesis by simp
      next
        assume "spSegments s1 = gs \<and> d1 = disk_del (sgPath g) d"
        with m a(1) show ?thesis by (auto split: if_splits)
      qed
    qed
    moreover have "disk_ok d1" "seqs_ok s1" using seg nx dk sqs sg by (auto simp: seqs_ok_def)
    moreover have "within_bound s1" using assms(2) seg nx sg
      by (cases gs) (auto simp: within_bound_def totalBytesLocked_def)
    ultimately show ?thesis
      using cursor_write_recoverable[OF ok1 _ _ _ _ pc w] lim nx by (simp add: st')
  qed
qed

lemma Close_recoverable:
  assumes "recoverable (s, d)" and "within_bound s" and "spool_Close io_ok (s, d) = (e, s', d')"
  shows "recoverable (s', d') \<and> within_bound s' \<and> spool_pending (s', d') = spool_pending (s, d) \<and> e = None \<and>
    spNextSeq s' = spNextSeq s \<and> spMaxBytes s' = spMaxBytes s"
proof -
  obtain sq off where pc: "pendingCursorLocked s = (sq, off)" by (cases "pendingCursorLocked s")
  obtain e1 ds where w: "writeAtomic io_ok cursorFileName (encodeCursor sq (int off)) True d = (e1, ds)"
    by (cases "writeAtomic io_ok cursorFileName (encodeCursor sq (int off)) True d")
  have st': "s' = s\<lparr>spTail := None\<rparr>" "d' = last ds" "e = None"
    using assms(3) writeAtomic_io_ok(1)[OF w] by (auto simp: spool_Close_def pc w split: option.splits)
  have ok: "spool_ok (s, d)" and rest: "disk_ok d" "seqs_ok s" "unat (spNextSeq s) < 10 ^ segmentDigits" "names_ok (s, d)"
    using assms(1) by (simp_all add: recoverable_def)
  from cursor_write_recoverable[OF ok rest pc w] have r: "recoverable (s, last ds)" .
  have "cursor_at q o' (s\<lparr>spTail := None\<rparr>) = cursor_at q o' s" for q o' by (simp add: cursor_at_def split: list.split)
  with r have "recoverable (s', last ds)"
    using spool_ok_no_tail[of s "last ds"]
    by (simp add: recoverable_def st' seqs_ok_def names_ok_def cursor_ok_def split: option.splits dnode.splits)
  moreover have "spool_pending (s', d') = spool_pending (s, d)"
    using spool_ok_no_tail(2)[of s "last ds"] r cursor_write_frame(2)[OF ok w] by (simp add: st' recoverable_def)
  moreover have "within_bound s'" using assms(2) by (simp add: st' within_bound_def totalBytesLocked_def)
  ultimately show ?thesis by (simp add: st')
qed

subsection \<open>Lives of a spool\<close>

text \<open>What can happen to a spool directory: an operation, an orderly close, or the end of the process followed
  by a new one that opens the directory again.\<close>

datatype spool_life = LOp spool_op | LClose | LRestart

fun spool_lives ::
  "(bytes \<Rightarrow> spoolCursorFile option) \<Rightarrow> spool_config \<Rightarrow> spool_life list \<Rightarrow> spool_st \<Rightarrow> (spool_event list \<times> spool_st) option" where
  "spool_lives js cfg [] st = Some ([], st)"
| "spool_lives js cfg (LOp op # ls) st =
     (case spool_step io_ok op st of (e, st1) \<Rightarrow>
        map_option (\<lambda>(es, st2). (e # es, st2)) (spool_lives js cfg ls st1))"
| "spool_lives js cfg (LClose # ls) st = spool_lives js cfg ls (snd (spool_Close io_ok st))"
| "spool_lives js cfg (LRestart # ls) st =
     (case NewSpool js io_ok cfg (snd st) of Inl _ \<Rightarrow> None | Inr st1 \<Rightarrow> spool_lives js cfg ls st1)"

definition life_inv :: "spool_config \<Rightarrow> bytes list \<times> nat \<Rightarrow> nat \<Rightarrow> spool_st \<Rightarrow> bool" where
  "life_inv cfg b k = (\<lambda>(s, d). recoverable (s, d) \<and> within_bound s \<and> spMaxBytes s = cfgMaxBytes cfg \<and>
     books_match b (s, d) \<and> unat (spNextSeq s) + k + 1 < 10 ^ segmentDigits)"

lemma life_step:
  assumes "life_inv cfg b (Suc k) st" and "spool_step io_ok op st = (e, st')"
  shows "life_inv cfg (book e b) k st'" and "peek_right b e"
proof -
  obtain s d where st: "st = (s, d)" by (cases st)
  obtain s' d' where st': "st' = (s', d')" by (cases st')
  have inv: "recoverable (s, d)" "within_bound s" "spMaxBytes s = cfgMaxBytes cfg" "books_match b (s, d)"
    and lim: "unat (spNextSeq s) + Suc k + 1 < 10 ^ segmentDigits"
    using assms(1) by (simp_all add: life_inv_def st)
  have "spool_ok (s, d)" "whole_writes io_ok" using inv(1) by (simp_all add: recoverable_def whole_writes_def)
  note books = spool_step_books[OF this inv(4) assms(2)[unfolded st]]
  show "peek_right b e" by (rule books)
  have "recoverable (s', d') \<and> within_bound s' \<and> unat (spNextSeq s') \<le> unat (spNextSeq s) + 1 \<and>
      spMaxBytes s' = spMaxBytes s"
  proof (cases op)
    case (OpAppend p)
    then obtain r where "spool_Append io_ok p (s, d) = (r, s', d')"
      using assms(2) by (auto simp: st st' split: prod.splits)
    from Append_recoverable[OF inv(1) _ inv(2) this] lim show ?thesis by simp
  next
    case OpPeek
    with assms(2) inv show ?thesis by (simp add: st st')
  next
    case OpRelease
    then obtain x where "spool_Release io_ok (s, d) = (x, s', d')"
      using assms(2) by (auto simp: st st' split: prod.splits)
    from Release_recoverable[OF inv(1,2) this] show ?thesis by simp
  qed
  with inv lim books(2) show "life_inv cfg (book e b) k st'" by (simp add: life_inv_def st')
qed

lemma life_mono: "life_inv cfg b (Suc k) st \<Longrightarrow> life_inv cfg b k st"
  by (auto simp: life_inv_def)

lemma life_close: "life_inv cfg b (Suc k) st \<Longrightarrow> life_inv cfg b k (snd (spool_Close io_ok st))"
  using Close_recoverable[of "fst st" "snd st"]
  by (cases "spool_Close io_ok st") (auto simp: life_inv_def books_match_def split: prod.splits)

lemma life_restart:
  assumes "life_inv cfg b (Suc k) st" and "cursor_law js"
    and "cfgDir cfg \<noteq> []" "0 < cfgMaxBytes cfg" "0 < cfgSegmentBytes cfg"
  obtains st1 where "NewSpool js io_ok cfg (snd st) = Inr st1" and "life_inv cfg b k st1"
proof -
  obtain s d where st: "st = (s, d)" by (cases st)
  have inv: "recoverable (s, d)" "within_bound s" "spMaxBytes s = cfgMaxBytes cfg" "books_match b (s, d)"
    and lim: "unat (spNextSeq s) + Suc k + 1 < 10 ^ segmentDigits"
    using assms(1) by (simp_all add: life_inv_def st)
  from lim have "unat (spNextSeq s) + 1 < 10 ^ segmentDigits" by simp
  from NewSpool_exact[OF inv(1,2) assms(2,3) inv(3)[symmetric] assms(4,5) this]
  obtain s' where s': "NewSpool js io_ok cfg d = Inr (s', d)" "recoverable (s', d)"
    "spool_pending (s', d) = spool_pending (s, d)" "unat (spNextSeq s') \<le> unat (spNextSeq s) + 1"
    "spMaxBytes s' = spMaxBytes s" "within_bound s'" by blast
  then have "life_inv cfg b k (s', d)" using inv lim by (auto simp: life_inv_def books_match_def)
  with s'(1) show ?thesis using that by (simp add: st)
qed

lemma spool_lives_ok:
  assumes "life_inv cfg b (length ls) st" and "cursor_law js"
    and "cfgDir cfg \<noteq> []" "0 < cfgMaxBytes cfg" "0 < cfgSegmentBytes cfg"
  shows "\<exists>evs st'. spool_lives js cfg ls st = Some (evs, st') \<and> books_match (fold book evs b) st' \<and>
    (\<forall>pre ev post. evs = pre @ ev # post \<longrightarrow> peek_right (fold book pre b) ev)"
  using assms(1)
proof (induction ls arbitrary: b st)
  case Nil
  then show ?case by (cases st) (auto simp: life_inv_def)
next
  case (Cons l ls)
  then have inv: "life_inv cfg b (Suc (length ls)) st" by simp
  show ?case
  proof (cases l)
    case (LOp op)
    obtain e st1 where s: "spool_step io_ok op st = (e, st1)" by (cases "spool_step io_ok op st")
    note st1 = life_step[OF inv s]
    from Cons.IH[OF st1(1)] obtain es st2 where r: "spool_lives js cfg ls st1 = Some (es, st2)"
      "books_match (fold book es (book e b)) st2"
      "\<forall>pre ev post. es = pre @ ev # post \<longrightarrow> peek_right (fold book pre (book e b)) ev" by blast
    with s st1(2) LOp show ?thesis by (auto simp: Cons_eq_append_conv)
  next
    case LClose
    from Cons.IH[OF life_close[OF inv]] LClose show ?thesis by simp
  next
    case LRestart
    obtain st1 where "NewSpool js io_ok cfg (snd st) = Inr st1" "life_inv cfg b (length ls) st1"
      by (rule life_restart[OF inv assms(2-5)])
    with Cons.IH[of b st1] LRestart show ?thesis by simp
  qed
qed

text \<open>A decoder of cursor files for examples: the numbers of the text, in order.\<close>

definition digits_after :: "nat \<Rightarrow> string \<Rightarrow> string \<times> string" where
  "digits_after n s = (takeWhile is_digit (drop n s), dropWhile is_digit (drop n s))"

definition json_cursor0 :: "bytes \<Rightarrow> spoolCursorFile option" where
  "json_cursor0 s =
     (let (v, r1) = digits_after 11 s; (sq, r2) = digits_after 11 r1; (off, r3) = digits_after 10 r2 in
      if r3 = ''}'' then Some \<lparr>cfVersion = int (dec_value v), cfSegment = of_nat (dec_value sq), cfOffset = int (dec_value off)\<rparr>
      else None)"

lemma digits_after_itoa:
  assumes "length p = n" and "\<not> is_digit c"
  shows "digits_after n (p @ itoa k @ c # r) = (itoa k, c # r)"
proof -
  have "\<forall>x \<in> set (itoa k). is_digit x" using itoa_digits[of k] by (simp add: list_all_iff)
  then show ?thesis using assms by (simp add: digits_after_def)
qed

lemma json_cursor0_law: "cursor_law json_cursor0"
  unfolding cursor_law_def
proof (intro allI)
  fix sq :: u64 and off :: nat
  let ?q = "CHR 0x22" and ?c = "CHR '':''"
  let ?p1 = "CHR 0x7B # ?q # ''version'' @ [?q, ?c]" and ?p2 = "CHR '','' # ?q # ''segment'' @ [?q, ?c]"
    and ?p3 = "CHR '','' # ?q # ''offset'' @ [?q, ?c]"
  have e: "encodeCursor sq (int off) = ?p1 @ itoa 1 @ CHR '','' # tl ?p2 @ itoa (unat sq) @ CHR '','' # tl ?p3 @ itoa off @ CHR 0x7D # []"
    by (simp add: encodeCursor_def json_key_def itoa_int_def cursorVersion_def)
  have d: "\<not> is_digit (CHR '','')" "\<not> is_digit (CHR 0x7D)" by code_simp+
  have "digits_after 11 (encodeCursor sq (int off)) = (itoa 1, ?p2 @ itoa (unat sq) @ CHR '','' # tl ?p3 @ itoa off @ CHR 0x7D # [])"
    unfolding e using digits_after_itoa[of ?p1 11 "CHR '',''" 1] d by simp
  moreover have "digits_after 11 (?p2 @ itoa (unat sq) @ CHR '','' # tl ?p3 @ itoa off @ CHR 0x7D # []) =
      (itoa (unat sq), ?p3 @ itoa off @ CHR 0x7D # [])"
    using digits_after_itoa[of ?p2 11 "CHR '',''" "unat sq"] d by simp
  moreover have "digits_after 10 (?p3 @ itoa off @ CHR 0x7D # []) = (itoa off, ''}'')"
    using digits_after_itoa[of ?p3 10 "CHR 0x7D" off "[]"] d by simp
  ultimately show "json_cursor0 (encodeCursor sq (int off)) =
      Some \<lparr>cfVersion = cursorVersion, cfSegment = sq, cfOffset = int off\<rparr>"
    by (simp add: json_cursor0_def cursorVersion_def)
qed

subsection \<open>Properties\<close>

text \<open>C10. Nothing spooled is lost or repeated by a restart. Over every history of appends, peeks, releases,
  orderly closes and process deaths followed by a restart, on a directory that starts empty and where no
  system call fails, every restart succeeds and the spool holds exactly the accepted payloads in order minus
  those reported evicted or released, as if the process had never stopped; every peek returns the first of
  them. The history may be of any length up to a trillion steps, the number of distinct segment names;
  decoding a cursor file inverts encoding it.\<close>

theorem restart_exact:
  assumes "cursor_law js" and "length ls + 1 < 10 ^ segmentDigits"
    and "cfgDir cfg \<noteq> []" "0 < cfgMaxBytes cfg" "0 < cfgSegmentBytes cfg"
  shows "\<exists>evs st'. spool_lives js cfg ls (fresh_spool (cfgMaxBytes cfg) (cfgSegmentBytes cfg), empty_disk) = Some (evs, st') \<and>
    (case booked evs of (a, k) \<Rightarrow> k \<le> length a \<and> spool_pending st' = drop k a) \<and>
    (\<forall>pre r post. evs = pre @ EvPeek (Inr r) # post \<longrightarrow>
       (case booked pre of (a, k) \<Rightarrow> r = (if k < length a then Some (a ! k) else None)))"
proof -
  let ?st = "(fresh_spool (cfgMaxBytes cfg) (cfgSegmentBytes cfg), empty_disk)"
  have "life_inv cfg ([], 0) (length ls) ?st"
    using fresh_spool_ok assms(2)
    by (auto simp: life_inv_def recoverable_def fresh_spool_def empty_disk_def seqs_ok_def names_ok_def cursor_ok_def
        disk_get_def within_bound_def books_match_def segmentDigits_def)
  from spool_lives_ok[OF this assms(1,3-5)] show ?thesis
    by (fastforce simp: books_match_def peek_right_def)
qed

theorem restart_exact_witness:
  "\<exists>evs st'. spool_lives json_cursor0 \<lparr>cfgDir = ''spool'', cfgMaxBytes = 100, cfgSegmentBytes = 50\<rparr>
       [LOp (OpAppend ''a''), LOp (OpAppend ''b''), LOp OpRelease, LRestart, LOp OpPeek] (fresh_spool 100 50, empty_disk) = Some (evs, st') \<and>
     (case booked evs of (a, k) \<Rightarrow> k \<le> length a \<and> spool_pending st' = drop k a)"
  using restart_exact[OF json_cursor0_law,
      of "[LOp (OpAppend ''a''), LOp (OpAppend ''b''), LOp OpRelease, LRestart, LOp OpPeek]"
        "\<lparr>cfgDir = ''spool'', cfgMaxBytes = 100, cfgSegmentBytes = 50\<rparr>"]
  by (auto simp: segmentDigits_def)

definition stalled_disk :: disk where
  "stalled_disk = \<lparr>dNow = [(''000000000000.seg'', File (encodeEntry ''a'') True),
     (''000000000001.seg'', File (encodeEntry ''b'') True),
     (''cursor.json'', File (encodeCursor 0 18) True)], dSafe = []\<rparr>"

lemma segment_of_one: "segment_of [p] = encodeEntry p"
  by simp

lemma stalled_names:
  "parseSegmentSeq ''000000000000.seg'' = Some 0" "parseSegmentSeq ''000000000001.seg'' = Some 1"
  "parseSegmentSeq ''cursor.json'' = None"
proof -
  have "itoa 0 = ''0''" "itoa 1 = ''1''" "zeros 11 = ''00000000000''" by code_simp+
  then have "segmentFileName 0 = ''000000000000.seg''" "segmentFileName 1 = ''000000000001.seg''"
    by (simp_all add: segmentFileName_def segmentDigits_def segmentSuffix_def)
  moreover have "seq_ok 0" "seq_ok 1" by (simp_all add: seq_ok_def segmentDigits_def)
  ultimately show "parseSegmentSeq ''000000000000.seg'' = Some 0" "parseSegmentSeq ''000000000001.seg'' = Some 1"
    using parse_segmentFileName by metis+
  show "parseSegmentSeq ''cursor.json'' = None" by code_simp
qed

lemma stalled_segments:
  "recover_segments io_ok (sort_key fst (dNow stalled_disk)) [] stalled_disk =
     Inr ([\<lparr>sgSeq = 0, sgPath = ''000000000000.seg'', sgEntries = 1, sgBytes = 9\<rparr>,
           \<lparr>sgSeq = 1, sgPath = ''000000000001.seg'', sgEntries = 1, sgBytes = 9\<rparr>], stalled_disk)"
proof -
  have names: "map fst (dNow stalled_disk) = [''000000000000.seg'', ''000000000001.seg'', ''cursor.json'']"
    by (simp add: stalled_disk_def)
  have "sorted (map fst (dNow stalled_disk))" unfolding names by code_simp
  then have srt: "sort_key fst (dNow stalled_disk) = dNow stalled_disk" by (rule sort_key_id_if_sorted)
  note parse = stalled_names
  have ne: "''000000000001.seg'' \<noteq> ''000000000000.seg''" by code_simp
  have scan: "scan_file io_ok ''000000000000.seg'' (- 1) stalled_disk = Inr (1, 9)"
      "scan_file io_ok ''000000000001.seg'' (- 1) stalled_disk = Inr (1, 9)"
    using entries_of_segment0[of "[''a'']"] entries_of_segment0[of "[''b'']"] ne
    by (simp_all add: scan_file_def file_bytes_def disk_get_def stalled_disk_def scanEntries_all payload_ok_def
        maxEntryPayloadBytes_def entryHeaderSize_def del: One_nat_def)
  show ?thesis unfolding srt
    using scan parse by (simp add: stalled_disk_def entryHeaderSize_def)
qed

text \<open>A restart can leave the spool stuck. If the oldest segment comes back shorter than the persisted
  cursor says (bytes the system had not written out, or a damaged entry, are cut off by recovery) while a
  later segment exists, recovery takes the whole oldest segment as consumed without moving past it: the
  spool counts a pending payload but peeks report that there is none and releases do nothing.\<close>

theorem recovery_can_stall:
  "\<exists>s. NewSpool json_cursor0 io_ok \<lparr>cfgDir = ''spool'', cfgMaxBytes = 100, cfgSegmentBytes = 50\<rparr> stalled_disk =
      Inr (s, stalled_disk) \<and> spool_Len s = 1 \<and> spool_Peek io_ok (s, stalled_disk) = Inr None \<and>
      spool_Release io_ok (s, stalled_disk) = (None, s, stalled_disk)"
proof -
  let ?g0 = "\<lparr>sgSeq = 0, sgPath = ''000000000000.seg'', sgEntries = 1, sgBytes = 9\<rparr>"
  let ?g1 = "\<lparr>sgSeq = 1, sgPath = ''000000000001.seg'', sgEntries = 1, sgBytes = 9\<rparr>"
  let ?s = "(fresh_spool 100 50)\<lparr>spSegments := [?g0, ?g1], spNextSeq := 2\<rparr>"
  have js: "json_cursor0 (encodeCursor 0 18) = Some \<lparr>cfVersion = cursorVersion, cfSegment = 0, cfOffset = 18\<rparr>"
    using json_cursor0_law unfolding cursor_law_def by (metis of_nat_numeral)
  have load: "loadCursorFile json_cursor0 io_ok stalled_disk =
      Inr (Some \<lparr>cfVersion = cursorVersion, cfSegment = 0, cfOffset = 18\<rparr>)"
    using js by (simp add: loadCursorFile_def disk_get_def stalled_disk_def cursorFileName_def)
  have f: "file_bytes stalled_disk ''000000000000.seg'' = Some (encodeEntry ''a'')"
      "file_bytes stalled_disk ''000000000001.seg'' = Some (encodeEntry ''b'')"
    by (simp_all add: file_bytes_def disk_get_def stalled_disk_def)
  have "scanEntries (encodeEntry ''a'') 18 = scanEntries (encodeEntry ''a'') (- 1)"
    by (simp add: scanEntries_def entryHeaderSize_def)
  then have scan: "scan_file io_ok ''000000000000.seg'' 18 stalled_disk = Inr (1, 9)"
    using f entries_of_segment0[of "[''a'']"]
    by (simp add: scan_file_def scanEntries_all payload_ok_def maxEntryPayloadBytes_def entryHeaderSize_def)
  have "recoverCursor json_cursor0 io_ok (?s, stalled_disk) =
      Inr (?s\<lparr>spConsumedEntries := 1, spConsumedBytes := 9\<rparr>, stalled_disk)"
    using load scan by (simp add: recoverCursor_def fresh_spool_def)
  then have "NewSpool json_cursor0 io_ok \<lparr>cfgDir = ''spool'', cfgMaxBytes = 100, cfgSegmentBytes = 50\<rparr> stalled_disk =
      Inr (?s\<lparr>spConsumedEntries := 1, spConsumedBytes := 9, spTail := Some ''000000000001.seg''\<rparr>, stalled_disk)"
    using stalled_segments f
    by (simp add: NewSpool_def spool_recover_def fresh_spool_def enforceMaxBytesLocked.simps totalBytesLocked_def
        reopenTailLocked_def Let_def)
  then show ?thesis
    by (simp add: spool_Len_def spool_Peek_def spool_Release_def peekEntryLocked_def fresh_spool_def)
qed

text \<open>A read error during recovery destroys data. When the system opens a segment but fails to read it,
  the scan reports no entries instead of an error, and recovery then removes the file although every entry
  in it is intact.\<close>

theorem read_error_deletes_segment:
  "NewSpool json_cursor0 \<lparr>fails = (\<lambda>c. c = Read ''000000000000.seg''), partial = 0, random = 0\<rparr>
     \<lparr>cfgDir = ''spool'', cfgMaxBytes = 100, cfgSegmentBytes = 50\<rparr>
     \<lparr>dNow = [(''000000000000.seg'', File (encodeEntry ''a'') True)], dSafe = []\<rparr> =
   Inr (fresh_spool 100 50, \<lparr>dNow = [], dSafe = []\<rparr>)"
  by (simp add: NewSpool_def spool_recover_def fresh_spool_def scan_file_def file_bytes_def disk_get_def
      os_Remove_def disk_del_def recoverCursor_def loadCursorFile_def cursorFileName_def stalled_names
      enforceMaxBytesLocked.simps sort_key_def insort_key_def)

end
