(* ===== verification/Checkpoint.thy ===== *)
theory Checkpoint
  imports Disk Utf8
begin

text \<open>
  Positions in log sources (\<^verbatim>\<open>internal/agent/source.go\<close>) and the checkpoint store that persists them
  (\<^verbatim>\<open>internal/agent/checkpoint.go\<close>). The store's mutex only orders its operations, each of which is one
  function here. \<^verbatim>\<open>encoding/json\<close> is the parameter \<open>codec\<close>, with the one law that unmarshalling what was
  marshalled gives it back when the map's keys are valid UTF-8 (\<open>codec_ok\<close>): other keys come back with
  replacement characters in them.
\<close>

record FileID =
  fiDev :: u64
  fiIno :: u64

definition noFile :: FileID where
  "noFile = \<lparr>fiDev = 0, fiIno = 0\<rparr>"

definition fileID_IsZero :: "FileID \<Rightarrow> bool" where
  "fileID_IsZero f \<longleftrightarrow> f = noFile"

record Fingerprint =
  fpLen :: int
  fpHash :: u64

definition noFingerprint :: Fingerprint where
  "noFingerprint = \<lparr>fpLen = 0, fpHash = 0\<rparr>"

definition fingerprint_IsZero :: "Fingerprint \<Rightarrow> bool" where
  "fingerprint_IsZero f \<longleftrightarrow> fpLen f = 0"

definition Differs :: "Fingerprint \<Rightarrow> Fingerprint \<Rightarrow> bool" where
  "Differs f g \<longleftrightarrow> fpLen f > 0 \<and> fpLen f = fpLen g \<and> fpHash f \<noteq> fpHash g"

record Cursor =
  curStart :: int
  curOffset :: int
  curFile :: FileID
  curHead :: Fingerprint

definition noCursor :: Cursor where
  "noCursor = \<lparr>curStart = 0, curOffset = 0, curFile = noFile, curHead = noFingerprint\<rparr>"

record Line =
  lnSource :: string
  lnTime :: gotime
  lnBytes :: bytes
  lnCursor :: Cursor

subsection \<open>The store\<close>

definition checkpointVersion :: int where "checkpointVersion = 1"

text \<open>\<open>None\<close> is the nil map that a file without cursors unmarshals to.\<close>

record checkpointFile =
  ckVersion :: int
  ckCursors :: "Cursor gomap option"

record CheckpointStore =
  csPath :: string
  csCursors :: "Cursor gomap"

record codec =
  marshal :: "checkpointFile \<Rightarrow> bytes option"
  unmarshal :: "bytes \<Rightarrow> checkpointFile option"

datatype cursor_err = EmptySource | NegativeStart | NegativeOffset | StartAfterOffset | NegativeHead

datatype checkpoint_err =
    ErrReadCheckpoint
  | ErrParseCheckpoint
  | ErrVersion int
  | ErrBadCursor string cursor_err
  | ErrMarshal
  | ErrWriteCheckpoint disk_err

definition NewCheckpointStore :: "string \<Rightarrow> CheckpointStore" where
  "NewCheckpointStore path = \<lparr>csPath = path, csCursors = []\<rparr>"

definition validateCursor :: "string \<Rightarrow> Cursor \<Rightarrow> cursor_err option" where
  "validateCursor source c =
     (if source = [] then Some EmptySource
      else if curStart c < 0 then Some NegativeStart
      else if curOffset c < 0 then Some NegativeOffset
      else if curStart c > curOffset c then Some StartAfterOffset
      else if fpLen (curHead c) < 0 then Some NegativeHead
      else None)"

definition first_bad :: "Cursor gomap \<Rightarrow> checkpoint_err option" where
  "first_bad m = first_err (map (\<lambda>(source, c). map_option (ErrBadCursor source) (validateCursor source c)) m)"

definition check_Load :: "codec \<Rightarrow> io \<Rightarrow> CheckpointStore \<Rightarrow> disk \<Rightarrow> checkpoint_err option \<times> CheckpointStore" where
  "check_Load js io s d =
     (case disk_get d (csPath s) of
        None \<Rightarrow> (None, s)
      | Some Folder \<Rightarrow> (Some ErrReadCheckpoint, s)
      | Some (File data _) \<Rightarrow>
          (if fails io (ReadFile (csPath s)) then (Some ErrReadCheckpoint, s)
           else case unmarshal js data of
                  None \<Rightarrow> (Some ErrParseCheckpoint, s)
                | Some f \<Rightarrow>
                    (if ckVersion f \<noteq> checkpointVersion then (Some (ErrVersion (ckVersion f)), s)
                     else
                       let m = (case ckCursors f of None \<Rightarrow> [] | Some m \<Rightarrow> m) in
                       case first_bad m of
                         Some e \<Rightarrow> (Some e, s)
                       | None \<Rightarrow> (None, s\<lparr>csCursors := m\<rparr>))))"

definition check_Get :: "CheckpointStore \<Rightarrow> string \<Rightarrow> Cursor option" where
  "check_Get s source = map_of (csCursors s) source"

definition check_Set :: "string \<Rightarrow> Cursor \<Rightarrow> CheckpointStore \<Rightarrow> CheckpointStore" where
  "check_Set source c s = s\<lparr>csCursors := AList.update source c (csCursors s)\<rparr>"

definition check_Commit :: "codec \<Rightarrow> io \<Rightarrow> CheckpointStore \<Rightarrow> disk \<Rightarrow> checkpoint_err option \<times> disk list" where
  "check_Commit js io s d =
     (case marshal js \<lparr>ckVersion = checkpointVersion, ckCursors = Some (csCursors s)\<rparr> of
        None \<Rightarrow> (Some ErrMarshal, [d])
      | Some data \<Rightarrow>
          (case writeAtomic io (csPath s) data True d of
             (e, ds) \<Rightarrow> (map_option ErrWriteCheckpoint e, ds)))"

subsection \<open>Lemmas\<close>

lemma Get_Set [simp]: "check_Get (check_Set source c s) x = (if x = source then Some c else check_Get s x)"
  by (simp add: check_Get_def check_Set_def update_conv')

lemma csPath_Set [simp]: "csPath (check_Set source c s) = csPath s"
  by (simp add: check_Set_def)

lemma Get_new [simp]: "check_Get (NewCheckpointStore p) x = None"
  by (simp add: check_Get_def NewCheckpointStore_def)

text \<open>The cursors that \<^verbatim>\<open>Load\<close> accepts.\<close>

definition cursor_valid :: "Cursor \<Rightarrow> bool" where
  "cursor_valid c \<longleftrightarrow> 0 \<le> curStart c \<and> curStart c \<le> curOffset c \<and> 0 \<le> fpLen (curHead c)"

lemma validateCursor_iff: "validateCursor source c = None \<longleftrightarrow> source \<noteq> [] \<and> cursor_valid c"
  by (auto simp: validateCursor_def cursor_valid_def)

definition cursors_valid :: "Cursor gomap \<Rightarrow> bool" where
  "cursors_valid m \<longleftrightarrow> list_all (\<lambda>(source, c). source \<noteq> [] \<and> cursor_valid c) m"

lemma first_bad_iff: "first_bad m = None \<longleftrightarrow> cursors_valid m"
  by (auto simp: first_bad_def first_err_None_iff cursors_valid_def list_all_iff validateCursor_iff)

definition codec_ok :: "codec \<Rightarrow> bool" where
  "codec_ok js \<longleftrightarrow> (\<forall>f m data. marshal js f = Some data \<longrightarrow> ckCursors f = Some m \<longrightarrow>
     list_all (\<lambda>(source, _). valid_string source) m \<longrightarrow> unmarshal js data = Some f)"

text \<open>What \<^verbatim>\<open>Load\<close> makes of the file's contents, \<open>None\<close> standing for a missing file.\<close>

definition load_bytes :: "codec \<Rightarrow> CheckpointStore \<Rightarrow> bytes option \<Rightarrow> checkpoint_err option \<times> CheckpointStore" where
  "load_bytes js s x = check_Load js io_ok s
     \<lparr>dNow = (case x of None \<Rightarrow> [] | Some c \<Rightarrow> [(csPath s, File c True)]), dSafe = []\<rparr>"

lemma Load_bytes:
  "disk_get d (csPath s) \<noteq> Some Folder \<Longrightarrow> check_Load js io_ok s d = load_bytes js s (file_bytes d (csPath s))"
  by (auto simp: load_bytes_def check_Load_def file_bytes_def disk_get_def split: option.splits dnode.splits)

definition keys_utf8 :: "Cursor gomap \<Rightarrow> bool" where
  "keys_utf8 m \<longleftrightarrow> list_all (\<lambda>(source, _). valid_string source) m"

text \<open>Loading what was marshalled from valid cursors.\<close>

lemma load_marshalled:
  assumes "codec_ok js" and "keys_utf8 m" and "cursors_valid m"
    and "marshal js \<lparr>ckVersion = checkpointVersion, ckCursors = Some m\<rparr> = Some data"
  shows "load_bytes js s (Some data) = (None, s\<lparr>csCursors := m\<rparr>)"
proof -
  from assms have "unmarshal js data = Some \<lparr>ckVersion = checkpointVersion, ckCursors = Some m\<rparr>"
    by (fastforce simp: codec_ok_def keys_utf8_def)
  then show ?thesis using assms(3)
    by (simp add: load_bytes_def check_Load_def disk_get_def first_bad_iff[symmetric])
qed

lemma Commit_split:
  assumes "check_Commit js io s d = (e, ds)"
  obtains (failed) "e = Some ErrMarshal" "ds = [d]"
  | (wrote) data e' where "marshal js \<lparr>ckVersion = checkpointVersion, ckCursors = Some (csCursors s)\<rparr> = Some data"
      "writeAtomic io (csPath s) data True d = (e', ds)" "e = map_option ErrWriteCheckpoint e'"
  using assms by (auto simp: check_Commit_def split: option.splits prod.splits)

subsection \<open>Properties\<close>


definition cursor_ex :: Cursor where
  "cursor_ex = \<lparr>curStart = 3, curOffset = 7, curFile = \<lparr>fiDev = 1, fiIno = 2\<rparr>, curHead = noFingerprint\<rparr>"

definition store_ex :: CheckpointStore where
  "store_ex = check_Set ''app.log'' cursor_ex (NewCheckpointStore ''ckpt'')"

definition file_ex :: checkpointFile where
  "file_ex = \<lparr>ckVersion = 1, ckCursors = Some [(''app.log'', cursor_ex)]\<rparr>"

definition codec_ex :: codec where
  "codec_ex = \<lparr>marshal = (\<lambda>f. if f = file_ex then Some ''x'' else None), unmarshal = (\<lambda>_. Some file_ex)\<rparr>"

definition disk_ex :: disk where
  "disk_ex = \<lparr>dNow = [], dSafe = []\<rparr>"


text \<open>What \<^verbatim>\<open>Load\<close> accepts. A load that reports an error leaves the store as it was; one that succeeds
  found no file, and left the store as it was, or put valid cursors into it. A file that is there but cannot
  be parsed, has another version or holds one invalid cursor is never taken for an empty one.\<close>

theorem checkpoint_Load_checks:
  "case check_Load js io s d of
     (Some _, s') \<Rightarrow> s' = s
   | (None, s') \<Rightarrow> if disk_get d (csPath s) = None then s' = s
       else \<exists>data b f. disk_get d (csPath s) = Some (File data b) \<and> unmarshal js data = Some f \<and>
          ckVersion f = 1 \<and> s' = s\<lparr>csCursors := (case ckCursors f of None \<Rightarrow> [] | Some m \<Rightarrow> m)\<rparr> \<and>
          cursors_valid (csCursors s')"
  by (auto simp: check_Load_def checkpointVersion_def first_bad_iff Let_def split: option.splits dnode.splits)

end
