(* ===== verification/Lines.thy ===== *)
theory Lines
  imports Checkpoint Records
begin

text \<open>
  Assembling lines (\<^verbatim>\<open>internal/agent/lines.go\<close>) on top of \<^verbatim>\<open>bufio.Reader.ReadSlice\<close>, and the standard input
  source (\<^verbatim>\<open>internal/agent/stdin.go\<close>). A reader is what is left to read and the error that follows it; the
  assembler's buffer is emptied by every call, so it is no state.
\<close>

datatype read_err = ReadEOF | ReadFailed

datatype slice_err = BufferFull | Ended read_err

record bufreader =
  rdData :: bytes
  rdErr :: read_err

definition defaultBufSize :: nat where "defaultBufSize = 4096"

definition newline :: char where "newline = CHR 0x0A"
definition carriage :: char where "carriage = CHR 0x0D"

text \<open>The length of the first line, without its terminator.\<close>

definition line_len :: "bytes \<Rightarrow> nat" where
  "line_len b = length (takeWhile (\<lambda>c. c \<noteq> newline) b)"

definition ReadSlice :: "bufreader \<Rightarrow> bytes \<times> slice_err option \<times> bufreader" where
  "ReadSlice rd =
     (let b = rdData rd; n = line_len b in
      if n < length b \<and> n < defaultBufSize then (take (n + 1) b, None, rd\<lparr>rdData := drop (n + 1) b\<rparr>)
      else if length b \<ge> defaultBufSize then
        (take defaultBufSize b, Some BufferFull, rd\<lparr>rdData := drop defaultBufSize b\<rparr>)
      else (b, Some (Ended (rdErr rd)), rd\<lparr>rdData := []\<rparr>))"

lemma ReadSlice_full [dest]: "ReadSlice rd = (f, Some BufferFull, rd') \<Longrightarrow> length (rdData rd') < length (rdData rd)"
  by (auto simp: ReadSlice_def Let_def defaultBufSize_def split: if_splits)

definition accumulate :: "bytes \<Rightarrow> bytes \<Rightarrow> bytes" where
  "accumulate buf fragment =
     (if length buf < MaxMessageLen then
        let space = MaxMessageLen - length buf in
        if length fragment \<le> space then buf @ fragment else buf @ take space fragment
      else buf)"

function next_loop :: "bytes \<Rightarrow> nat \<Rightarrow> bufreader \<Rightarrow> bytes \<times> nat \<times> bool \<times> read_err option \<times> bufreader" where
  "next_loop buf consumed rd =
     (case ReadSlice rd of
        (fragment, Some BufferFull, rd') \<Rightarrow> next_loop (accumulate buf fragment) (consumed + length fragment) rd'
      | (fragment, Some (Ended e), rd') \<Rightarrow> (accumulate buf fragment, consumed + length fragment, False, Some e, rd')
      | (fragment, None, rd') \<Rightarrow> (accumulate buf fragment, consumed + length fragment, True, None, rd'))"
  by pat_completeness auto
termination
  by (relation "measure (\<lambda>(buf, consumed, rd). length (rdData rd))") (auto dest: sym)

declare next_loop.simps [simp del]

definition strip_last :: "char \<Rightarrow> bytes \<Rightarrow> bytes" where
  "strip_last c b = (if b \<noteq> [] \<and> last b = c then butlast b else b)"

definition assembler_next :: "bufreader \<Rightarrow> bytes \<times> nat \<times> bool \<times> read_err option \<times> bufreader" where
  "assembler_next rd =
     (case next_loop [] 0 rd of
        (buf, consumed, terminated, err, rd') \<Rightarrow>
          (strip_last carriage (strip_last newline buf), consumed, terminated, err, rd'))"

subsection \<open>What a call returns\<close>

definition cut :: "bytes \<Rightarrow> bytes" where
  "cut b = strip_last carriage (strip_last newline (take MaxMessageLen b))"

lemma accumulate_take: "accumulate (take MaxMessageLen p) b = take MaxMessageLen (p @ b)"
  by (auto simp: accumulate_def Let_def min_def)

lemma line_len_le: "line_len b \<le> length b"
  by (simp add: line_len_def length_takeWhile_le)

lemma line_len_drop: "n \<le> line_len b \<Longrightarrow> line_len (drop n b) = line_len b - n"
proof (induction b arbitrary: n)
  case (Cons c b)
  then show ?case by (cases n) (auto simp: line_len_def split: if_splits)
qed (simp add: line_len_def)

definition first_line :: "bytes \<Rightarrow> nat" where
  "first_line b = (if line_len b < length b then line_len b + 1 else length b)"

lemma next_loop_spec:
  "next_loop (take MaxMessageLen p) (length p) rd =
    (let b = rdData rd; n = first_line b in
     (take MaxMessageLen (p @ take n b), length p + n, line_len b < length b,
      if line_len b < length b then None else Some (rdErr rd), rd\<lparr>rdData := drop n b\<rparr>))"
proof (induction "length (rdData rd)" arbitrary: p rd rule: less_induct)
  case less
  let ?b = "rdData rd"
  show ?case
  proof (cases "\<not> (line_len ?b < length ?b \<and> line_len ?b < defaultBufSize) \<and> length ?b \<ge> defaultBufSize")
    case True
    let ?rd = "rd\<lparr>rdData := drop defaultBufSize ?b\<rparr>" and ?p = "p @ take defaultBufSize ?b"
    have big: "defaultBufSize \<le> line_len ?b" using True line_len_le[of ?b] by linarith
    have shorter: "length (rdData ?rd) < length ?b" using True by (auto simp: defaultBufSize_def)
    have "ReadSlice rd = (take defaultBufSize ?b, Some BufferFull, ?rd)" using True by (auto simp: ReadSlice_def Let_def)
    then have "next_loop (take MaxMessageLen p) (length p) rd = next_loop (take MaxMessageLen ?p) (length ?p) ?rd"
      using True shorter by (subst next_loop.simps) (simp add: accumulate_take)
    also have "\<dots> = (let b = rdData ?rd; n = first_line b in
        (take MaxMessageLen (?p @ take n b), length ?p + n, line_len b < length b,
         if line_len b < length b then None else Some (rdErr ?rd), ?rd\<lparr>rdData := drop n b\<rparr>))"
      using less.hyps[OF shorter, of ?p] by simp
    also have "\<dots> = (let b = rdData rd; n = first_line b in
        (take MaxMessageLen (p @ take n b), length p + n, line_len b < length b,
         if line_len b < length b then None else Some (rdErr rd), rd\<lparr>rdData := drop n b\<rparr>))"
    proof -
      have "first_line (drop defaultBufSize ?b) = first_line ?b - defaultBufSize" "defaultBufSize \<le> first_line ?b"
        using big True by (auto simp: first_line_def line_len_drop[OF big])
      moreover from this have "take defaultBufSize ?b @ take (first_line ?b - defaultBufSize) (drop defaultBufSize ?b) = take (first_line ?b) ?b"
        by (metis le_add_diff_inverse take_add)
      then have "?p @ take (first_line ?b - defaultBufSize) (drop defaultBufSize ?b) = p @ take (first_line ?b) ?b"
        by simp
      moreover have "length ?p = length p + defaultBufSize" using True by simp
      ultimately show ?thesis using big True
        by (auto simp: Let_def line_len_drop[OF big] simp del: take_append append_assoc)
    qed
    finally show ?thesis .
  next
    case False
    then show ?thesis
      using line_len_le[of ?b]
      by (subst next_loop.simps, auto simp: ReadSlice_def Let_def accumulate_take first_line_def, simp add: min_def)
  qed
qed

lemma next_spec:
  "assembler_next rd =
    (let b = rdData rd; n = first_line b in
     (cut (take n b), n, line_len b < length b, if line_len b < length b then None else Some (rdErr rd),
      rd\<lparr>rdData := drop n b\<rparr>))"
  using next_loop_spec[of "[]" rd] by (simp add: assembler_next_def cut_def Let_def)

subsection \<open>Standard input\<close>

text \<open>The reader goroutine. \<open>clock\<close> gives the time at which the line that starts at an offset is read; \<open>cancel\<close>
  is the number of sends that succeed before \<^verbatim>\<open>Run\<close> has returned, \<open>None\<close> when it does not. The result is what
  was sent and the error reported, if the goroutine was not abandoned.\<close>

definition stdin_line :: "(int \<Rightarrow> gotime) \<Rightarrow> int \<Rightarrow> int \<Rightarrow> bytes \<Rightarrow> Line" where
  "stdin_line clock start offset line =
     \<lparr>lnSource = ''stdin'', lnTime = clock start, lnBytes = line, lnCursor =
        \<lparr>curStart = start, curOffset = offset, curFile = noFile, curHead = noFingerprint\<rparr>\<rparr>"

function stdin_read :: "(int \<Rightarrow> gotime) \<Rightarrow> nat option \<Rightarrow> int \<Rightarrow> bufreader \<Rightarrow> Line list \<times> read_err option" where
  "stdin_read clock cancel start rd =
     (case assembler_next rd of
        (line, consumed, terminated, err, rd') \<Rightarrow>
          let offset = start + int consumed in
          if consumed > 0 \<and> cancel = Some 0 then ([], None)
          else
            let out = (if consumed > 0 then [stdin_line clock start offset line] else []) in
            case err of
              Some e \<Rightarrow> (out, Some e)
            | None \<Rightarrow> (case stdin_read clock (map_option (\<lambda>n. n - 1) cancel) offset rd' of
                (ls, r) \<Rightarrow> (out @ ls, r)))"
  by pat_completeness auto
termination
  by (relation "measure (\<lambda>(clock, cancel, start, rd). length (rdData rd))")
    (auto simp: next_spec Let_def first_line_def split: if_splits)

declare stdin_read.simps [simp del]

subsection \<open>Tiling\<close>

text \<open>
  The lines \<open>ls\<close> tile the bytes of \<open>c\<close> from \<open>a\<close> to \<open>b\<close>: their cursors follow each other without gap or overlap,
  no newline is inside one of them, and each carries its bytes, cut to the limit, without the terminator.
\<close>

definition tile :: "bytes \<Rightarrow> nat \<Rightarrow> nat \<Rightarrow> Line \<Rightarrow> bool" where
  "tile c a e l \<longleftrightarrow> a < e \<and> e \<le> length c \<and> curStart (lnCursor l) = int a \<and> curOffset (lnCursor l) = int e \<and>
     newline \<notin> set (butlast (take (e - a) (drop a c))) \<and> lnBytes l = cut (take (e - a) (drop a c))"

fun tiles :: "bytes \<Rightarrow> nat \<Rightarrow> Line list \<Rightarrow> nat \<Rightarrow> bool" where
  "tiles c a [] b \<longleftrightarrow> a = b"
| "tiles c a (l # ls) b \<longleftrightarrow> (let e = nat (curOffset (lnCursor l)) in tile c a e l \<and> tiles c e ls b)"

lemma tiles_append: "tiles c a ls b \<Longrightarrow> tiles c b ls' b' \<Longrightarrow> tiles c a (ls @ ls') b'"
  by (induction ls arbitrary: a) (auto simp: Let_def)

lemma tiles_grow: "tiles c a ls b \<Longrightarrow> tiles (c @ d) a ls b"
  by (induction ls arbitrary: a) (auto simp: Let_def tile_def)

lemma first_line_le: "first_line b \<le> length b"
  by (auto simp: first_line_def)

lemma first_line_pos: "b \<noteq> [] \<Longrightarrow> 0 < first_line b"
  by (auto simp: first_line_def)

lemma takeWhile_line: "take (line_len b) b = takeWhile (\<lambda>c. c \<noteq> newline) b"
  by (simp add: line_len_def takeWhile_eq_take[symmetric])

lemma first_line_no_newline: "newline \<notin> set (butlast (take (first_line b) b))"
proof -
  have n: "newline \<notin> set (take (line_len b) b)" unfolding takeWhile_line by (auto dest: set_takeWhileD)
  show ?thesis
  proof (cases "line_len b < length b")
    case True
    then have "butlast (take (first_line b) b) = take (line_len b) b"
      by (simp add: first_line_def butlast_take)
    with n show ?thesis by simp
  next
    case False
    then have "take (line_len b) b = b" "first_line b = length b" by (simp_all add: first_line_def)
    with n show ?thesis using in_set_butlastD[of newline b] by auto
  qed
qed

lemma tile_first:
  assumes "a < length c" and "curStart (lnCursor l) = int a" and "e = a + first_line (drop a c)"
    and "curOffset (lnCursor l) = int e" and "lnBytes l = cut (take (first_line (drop a c)) (drop a c))"
  shows "tile c a e l"
  using assms first_line_pos[of "drop a c"] first_line_le[of "drop a c"] first_line_no_newline[of "drop a c"]
  by (simp add: tile_def)

lemma stdin_read_tiles:
  assumes "a \<le> length c" and "rdData rd = drop a c" and "stdin_read clock cancel (int a) rd = (ls, r)"
  shows "\<exists>b \<le> length c. tiles c a ls b \<and> list_all (\<lambda>l. lnSource l = ''stdin'') ls \<and>
    (r = None \<longrightarrow> cancel \<noteq> None) \<and> (r \<noteq> None \<longrightarrow> b = length c \<and> r = Some (rdErr rd))"
  using assms
proof (induction "length (rdData rd)" arbitrary: a rd cancel ls rule: less_induct)
  case less
  let ?b = "drop a c" and ?n = "first_line (drop a c)"
  let ?l = "stdin_line clock (int a) (int (a + ?n)) (cut (take ?n ?b))"
  have t: "tile c a (a + ?n) ?l" if "0 < ?n"
    using that by (intro tile_first; cases "a < length c") (auto simp: stdin_line_def first_line_def)
  have cur: "nat (curOffset (lnCursor ?l)) = a + ?n" by (simp add: stdin_line_def)
  show ?case
  proof (cases "line_len ?b < length ?b")
    case False
    then have n: "?n = length c - a" by (simp add: first_line_def)
    show ?thesis
    proof (cases "0 < ?n \<and> cancel = Some 0")
      case True
      then have "ls = [] \<and> r = None" using less.prems False
        by (subst (asm) stdin_read.simps) (simp add: next_spec Let_def)
      with True less.prems(1) show ?thesis by (intro exI[of _ a]) auto
    next
      case ok: False
      then have "ls = (if 0 < ?n then [?l] else []) \<and> r = Some (rdErr rd)" using less.prems False
        by (subst (asm) stdin_read.simps) (auto simp: next_spec Let_def split: if_splits)
      with t cur n less.prems(1) show ?thesis
        by (intro exI[of _ "length c"]) (auto simp: Let_def stdin_line_def)
    qed
  next
    case True
    then have n: "0 < ?n" "a + ?n \<le> length c" by (auto simp: first_line_def)
    let ?rd = "rd\<lparr>rdData := drop ?n ?b\<rparr>"
    show ?thesis
    proof (cases "cancel = Some 0")
      case c0: True
      then have "ls = [] \<and> r = None" using less.prems True n
        by (subst (asm) stdin_read.simps) (simp add: next_spec Let_def)
      with c0 less.prems(1) show ?thesis by (intro exI[of _ a]) auto
    next
      case c0: False
      obtain ls' where r: "stdin_read clock (map_option (\<lambda>n. n - 1) cancel) (int (a + ?n)) ?rd = (ls', r)"
        and ls: "ls = ?l # ls'"
        using less.prems(2,3) True n c0
        by (subst (asm) stdin_read.simps) (auto simp: next_spec Let_def split: prod.splits)
      have "length (rdData ?rd) < length (rdData rd)" using n less.prems(2) by simp
      from less.hyps[OF this n(2) _ r] obtain b where "b \<le> length c" "tiles c (a + ?n) ls' b"
        "list_all (\<lambda>l. lnSource l = ''stdin'') ls'" "r = None \<longrightarrow> cancel \<noteq> None"
        "r \<noteq> None \<longrightarrow> b = length c \<and> r = Some (rdErr rd)" by (auto simp: add.commute)
      with t[OF n(1)] cur ls show ?thesis by (intro exI[of _ b]) (auto simp: Let_def stdin_line_def)
    qed
  qed
qed

end
