(* ===== verification/Tail_File.thy ===== *)
theory Tail_File
  imports Lines
begin

unbundle bit_operations_syntax

text \<open>
  The file source (\<^verbatim>\<open>internal/agent/tailfile.go\<close>, \<^verbatim>\<open>fingerprint.go\<close>): reading a file as it grows, across
  rotation and truncation.

  \<^item> The file system, as far as one source sees it, is the file at the configured path and the contents of all
    files, named by device and inode; a file stays readable through an open descriptor when its name is gone.
  \<^item> It may change between any two system calls of a poll. A \<open>view\<close> is what the calls of one poll see, in the
    order the code makes them, and which of them fail.
  \<^item> As in the multiline stage, \<open>tsCancel\<close> is the number of sends that succeed before one notices that the
    context is cancelled.
\<close>

record fsys =
  fsPath :: "FileID option"
  fsData :: "FileID \<Rightarrow> bytes"

datatype tcall =
    CAwaitOpen | CAwaitStat | CAwaitIdentity | CResumeHead | CResumeStat | CStatPath | CIdentity
  | CStatFd | CHead | CNewHead | CSeek | CRead | CDrainSeek | CDrainRead

record view =
  vwStat :: fsys
  vwFdStat :: fsys
  vwHead :: fsys
  vwDrain :: fsys
  vwAwait :: "fsys list"
  vwNewHead :: fsys
  vwRead :: fsys
  vwFails :: "tcall \<Rightarrow> bool"
  vwPartial :: nat
  vwClock :: "int \<Rightarrow> gotime"

datatype tail_file_err =
    PathRequired | TailOpen | TailStat | TailIdentity | TailFingerprint | TailSeek | TailRead | TailCanceled
  | TailSourceClosed

record TailSource =
  tsPath :: string
  tsPollInterval :: duration
  tsResume :: Cursor
  tsFile :: "FileID option"
  tsClosed :: bool
  tsSent :: "Line list"
  tsCancel :: "nat option"
  tsRotations :: nat
  tsTruncations :: nat
  tsGenerationsMissed :: nat
  tsRecordsDropped :: nat

definition defaultPollInterval :: duration where "defaultPollInterval = 250000000"

definition NewTailSource :: "nat option \<Rightarrow> string \<Rightarrow> duration \<Rightarrow> Cursor \<Rightarrow> tail_file_err + TailSource" where
  "NewTailSource cancel path interval resume =
     (if path = [] then Inl PathRequired
      else Inr \<lparr>tsPath = path, tsPollInterval = (if interval \<le> 0 then defaultPollInterval else interval),
        tsResume = resume, tsFile = None, tsClosed = False, tsSent = [], tsCancel = cancel, tsRotations = 0,
        tsTruncations = 0, tsGenerationsMissed = 0, tsRecordsDropped = 0\<rparr>)"

subsection \<open>Fingerprints\<close>

definition headFingerprintLen :: nat where "headFingerprintLen = 256"

definition fnv64a :: "bytes \<Rightarrow> u64" where
  "fnv64a b = fold (\<lambda>c h. (h XOR of_nat (byte c)) * 1099511628211) b 14695981039346656037"

definition fingerprint :: "bytes \<Rightarrow> Fingerprint" where
  "fingerprint data =
     (if length data < headFingerprintLen then noFingerprint
      else \<lparr>fpLen = int headFingerprintLen, fpHash = fnv64a (take headFingerprintLen data)\<rparr>)"

definition fingerprintHead :: "bool \<Rightarrow> bytes \<Rightarrow> tail_file_err + Fingerprint" where
  "fingerprintHead broken data = (if broken then Inl TailFingerprint else Inr (fingerprint data))"

subsection \<open>Reading\<close>

definition tail_emit ::
  "(int \<Rightarrow> gotime) \<Rightarrow> FileID \<Rightarrow> Fingerprint \<Rightarrow> int \<Rightarrow> int \<Rightarrow> bytes \<Rightarrow> TailSource \<Rightarrow> tail_file_err option \<times> TailSource" where
  "tail_emit clock fid head start offset b ts =
     (let l = \<lparr>lnSource = tsPath ts, lnTime = clock start, lnBytes = b, lnCursor =
                \<lparr>curStart = start, curOffset = offset, curFile = fid, curHead = head\<rparr>\<rparr> in
      case tsCancel ts of
        Some 0 \<Rightarrow> (Some TailCanceled, ts)
      | Some (Suc n) \<Rightarrow> (None, ts\<lparr>tsSent := tsSent ts @ [l], tsCancel := Some n\<rparr>)
      | None \<Rightarrow> (None, ts\<lparr>tsSent := tsSent ts @ [l]\<rparr>))"

function read_lines ::
  "(int \<Rightarrow> gotime) \<Rightarrow> FileID \<Rightarrow> Fingerprint \<Rightarrow> bool \<Rightarrow> int \<Rightarrow> bufreader \<Rightarrow> TailSource \<Rightarrow>
   tail_file_err option \<times> int \<times> TailSource" where
  "read_lines clock fid head final start rd ts =
     (case assembler_next rd of
        (line, consumed, terminated, err, rd') \<Rightarrow>
          if terminated then
            (case tail_emit clock fid head start (start + int consumed) line ts of
               (Some e, ts1) \<Rightarrow> (Some e, start, ts1)
             | (None, ts1) \<Rightarrow> read_lines clock fid head final (start + int consumed) rd' ts1)
          else if err \<noteq> Some ReadEOF then (Some TailRead, start, ts)
          else if length line \<ge> MaxMessageLen \<or> (final \<and> line \<noteq> []) then
            (case tail_emit clock fid head start (start + int consumed) line ts of
               (Some e, ts1) \<Rightarrow> (Some e, start, ts1)
             | (None, ts1) \<Rightarrow> (None, start + int consumed, ts1))
          else (None, start, ts))"
  by pat_completeness auto
termination
  by (relation "measure (\<lambda>(clock, fid, head, final, start, rd, ts). length (rdData rd))")
    (auto simp: next_spec Let_def first_line_def split: if_splits)

declare read_lines.simps [simp del]

text \<open>A read that fails has returned the first \<open>cut_at\<close> bytes.\<close>

definition readToEOF ::
  "bool \<Rightarrow> bool \<Rightarrow> nat \<Rightarrow> (int \<Rightarrow> gotime) \<Rightarrow> bytes \<Rightarrow> FileID \<Rightarrow> Fingerprint \<Rightarrow> int \<Rightarrow> bool \<Rightarrow> TailSource \<Rightarrow>
   tail_file_err option \<times> int \<times> TailSource" where
  "readToEOF seek_fails read_fails cut_at clock data fid head offset final ts =
     (if seek_fails then (Some TailSeek, offset, ts)
      else
        let b = drop (nat offset) data in
        read_lines clock fid head final offset
          (if read_fails then \<lparr>rdData = take cut_at b, rdErr = ReadFailed\<rparr> else \<lparr>rdData = b, rdErr = ReadEOF\<rparr>) ts)"

subsection \<open>Opening\<close>

fun awaitFile :: "(tcall \<Rightarrow> bool) \<Rightarrow> fsys list \<Rightarrow> tail_file_err + FileID" where
  "awaitFile broken [] = Inl TailCanceled"
| "awaitFile broken (fs # later) =
     (case fsPath fs of
        None \<Rightarrow> awaitFile broken later
      | Some fid \<Rightarrow>
          (if broken CAwaitOpen then Inl TailOpen
           else if broken CAwaitStat then Inl TailStat
           else if broken CAwaitIdentity then Inl TailIdentity
           else Inr fid))"

definition setFile :: "FileID \<Rightarrow> TailSource \<Rightarrow> bool \<times> TailSource" where
  "setFile fid ts = (if tsClosed ts then (False, ts) else (True, ts\<lparr>tsFile := Some fid\<rparr>))"

definition tail_Close :: "TailSource \<Rightarrow> TailSource" where
  "tail_Close ts = ts\<lparr>tsClosed := True, tsFile := None\<rparr>"

definition resolveResumedCursor ::
  "view \<Rightarrow> FileID \<Rightarrow> TailSource \<Rightarrow> (tail_file_err + int \<times> Fingerprint) \<times> TailSource" where
  "resolveResumedCursor vw fid ts =
     (case fingerprintHead (vwFails vw CResumeHead) (fsData (vwHead vw) fid) of
        Inl e \<Rightarrow> (Inl e, ts)
      | Inr head \<Rightarrow>
          let resume = tsResume ts in
          if \<not> fileID_IsZero (curFile resume) \<and> curFile resume \<noteq> fid then
            (Inr (0, head), ts\<lparr>tsGenerationsMissed := tsGenerationsMissed ts + 1,
               tsRecordsDropped := tsRecordsDropped ts + 1\<rparr>)
          else if vwFails vw CResumeStat then (Inl TailStat, ts)
          else if int (length (fsData (vwFdStat vw) fid)) < curOffset resume \<or> Differs (curHead resume) head then
            (Inr (0, head), ts\<lparr>tsTruncations := tsTruncations ts + 1\<rparr>)
          else (Inr (curOffset resume, head), ts))"

subsection \<open>Polling\<close>

type_synonym tail_pos = "FileID \<times> int \<times> Fingerprint"

definition tail_rotate ::
  "view \<Rightarrow> FileID \<Rightarrow> Fingerprint \<Rightarrow> int \<Rightarrow> TailSource \<Rightarrow> (tail_file_err + tail_pos) \<times> TailSource" where
  "tail_rotate vw fid head offset ts =
     (case readToEOF (vwFails vw CDrainSeek) (vwFails vw CDrainRead) (vwPartial vw) (vwClock vw)
             (fsData (vwDrain vw) fid) fid head offset True ts of
        (Some e, _, ts1) \<Rightarrow> (Inl e, ts1)
      | (None, _, ts1) \<Rightarrow>
          (case awaitFile (vwFails vw) (vwAwait vw) of
             Inl e \<Rightarrow> (Inl e, ts1)
           | Inr newFid \<Rightarrow>
               (case setFile newFid ts1 of
                  (False, ts2) \<Rightarrow> (Inl TailSourceClosed, ts2)
                | (True, ts2) \<Rightarrow>
                    (case fingerprintHead (vwFails vw CNewHead) (fsData (vwNewHead vw) newFid) of
                       Inl e \<Rightarrow> (Inl e, ts2)
                     | Inr newHead \<Rightarrow> (Inr (newFid, 0, newHead), ts2\<lparr>tsRotations := tsRotations ts2 + 1\<rparr>)))))"

definition resolveState :: "view \<Rightarrow> tail_pos \<Rightarrow> TailSource \<Rightarrow> (tail_file_err + tail_pos) \<times> TailSource" where
  "resolveState vw = (\<lambda>(fid, offset, head) ts.
     if vwFails vw CStatPath then (Inl TailStat, ts)
     else case fsPath (vwStat vw) of
       None \<Rightarrow> (Inr (fid, offset, head), ts)
     | Some pathID \<Rightarrow>
         if vwFails vw CIdentity then (Inl TailIdentity, ts)
         else if pathID \<noteq> fid then tail_rotate vw fid head offset ts
         else if vwFails vw CStatFd then (Inl TailStat, ts)
         else case fingerprintHead (vwFails vw CHead) (fsData (vwHead vw) fid) of
           Inl e \<Rightarrow> (Inl e, ts)
         | Inr newHead \<Rightarrow>
             if int (length (fsData (vwFdStat vw) fid)) < offset \<or> Differs head newHead then
               (Inr (fid, 0, newHead), ts\<lparr>tsTruncations := tsTruncations ts + 1\<rparr>)
             else (Inr (fid, offset, newHead), ts))"

definition tail_cycle :: "view \<Rightarrow> tail_pos \<Rightarrow> TailSource \<Rightarrow> (tail_file_err + tail_pos) \<times> TailSource" where
  "tail_cycle vw pos ts =
     (case resolveState vw pos ts of
        (Inl e, ts1) \<Rightarrow> (Inl e, ts1)
      | (Inr (fid, offset, head), ts1) \<Rightarrow>
          (case readToEOF (vwFails vw CSeek) (vwFails vw CRead) (vwPartial vw) (vwClock vw)
                  (fsData (vwRead vw) fid) fid head offset False ts1 of
             (Some e, _, ts2) \<Rightarrow> (Inl e, ts2)
           | (None, offset', ts2) \<Rightarrow> (Inr (fid, offset', head), ts2)))"

definition tail_open :: "view \<Rightarrow> TailSource \<Rightarrow> (tail_file_err + tail_pos) \<times> TailSource" where
  "tail_open vw ts =
     (case awaitFile (vwFails vw) (vwAwait vw) of
        Inl e \<Rightarrow> (Inl e, ts)
      | Inr fid \<Rightarrow>
          (case setFile fid ts of
             (False, ts1) \<Rightarrow> (Inl TailSourceClosed, ts1)
           | (True, ts1) \<Rightarrow>
               (case resolveResumedCursor vw fid ts1 of
                  (Inl e, ts2) \<Rightarrow> (Inl e, ts2)
                | (Inr (offset, head), ts2) \<Rightarrow> (Inr (fid, offset, head), ts2))))"

text \<open>A run polls until it fails or is cancelled, which is when the views end.\<close>

fun tail_poll :: "view list \<Rightarrow> tail_pos \<Rightarrow> TailSource \<Rightarrow> tail_file_err \<times> TailSource" where
  "tail_poll [] pos ts = (TailCanceled, ts)"
| "tail_poll (vw # vws) pos ts =
     (case tail_cycle vw pos ts of
        (Inl e, ts1) \<Rightarrow> (e, ts1)
      | (Inr pos1, ts1) \<Rightarrow> tail_poll vws pos1 ts1)"

definition tail_Run :: "view \<Rightarrow> view list \<Rightarrow> TailSource \<Rightarrow> tail_file_err \<times> TailSource" where
  "tail_Run vw vws ts =
     (case tail_open vw ts of
        (Inl e, ts1) \<Rightarrow> (e, ts1)
      | (Inr pos, ts1) \<Rightarrow> tail_poll vws pos ts1)"

subsection \<open>What a read emits\<close>

definition sent_more :: "TailSource \<Rightarrow> Line list \<Rightarrow> TailSource \<Rightarrow> bool" where
  "sent_more ts ls ts1 \<longleftrightarrow> (\<exists>c. ts1 = ts\<lparr>tsSent := tsSent ts @ ls, tsCancel := c\<rparr> \<and> (tsCancel ts = None \<longrightarrow> c = None))"

lemma sent_more_refl [simp]: "sent_more ts [] ts"
  by (auto simp: sent_more_def intro!: exI[of _ "tsCancel ts"])

lemma sent_more_trans: "sent_more ts ls ts1 \<Longrightarrow> sent_more ts1 ls' ts2 \<Longrightarrow> sent_more ts (ls @ ls') ts2"
  by (auto simp: sent_more_def)

lemma sent_more_fields:
  "sent_more ts ls ts1 \<Longrightarrow> tsSent ts1 = tsSent ts @ ls \<and> tsPath ts1 = tsPath ts \<and> tsClosed ts1 = tsClosed ts \<and>
   tsResume ts1 = tsResume ts \<and> tsTruncations ts1 = tsTruncations ts \<and> tsRotations ts1 = tsRotations ts \<and>
   tsGenerationsMissed ts1 = tsGenerationsMissed ts \<and> (tsCancel ts = None \<longrightarrow> tsCancel ts1 = None)"
  by (auto simp: sent_more_def)

definition from_file :: "FileID \<Rightarrow> Fingerprint \<Rightarrow> string \<Rightarrow> Line \<Rightarrow> bool" where
  "from_file fid head path l \<longleftrightarrow> lnSource l = path \<and> curFile (lnCursor l) = fid \<and> curHead (lnCursor l) = head"

lemma tail_emit_cases:
  assumes "tail_emit clock fid head start offset b ts = (e, ts1)"
  obtains (sent) l where "e = None" "sent_more ts [l] ts1" "from_file fid head (tsPath ts) l"
      "curStart (lnCursor l) = start" "curOffset (lnCursor l) = offset" "lnBytes l = b"
  | (cancelled) "e = Some TailCanceled" "ts1 = ts" "tsCancel ts \<noteq> None"
proof (cases "tsCancel ts = Some 0")
  case True
  with assms cancelled show ?thesis by (auto simp: tail_emit_def Let_def)
next
  case False
  let ?l = "\<lparr>lnSource = tsPath ts, lnTime = clock start, lnBytes = b, lnCursor =
      \<lparr>curStart = start, curOffset = offset, curFile = fid, curHead = head\<rparr>\<rparr>"
  let ?c = "map_option (\<lambda>n. n - 1) (tsCancel ts)"
  have "e = None" "ts1 = ts\<lparr>tsSent := tsSent ts @ [?l], tsCancel := ?c\<rparr>"
    using assms False by (auto simp: tail_emit_def Let_def split: option.splits nat.splits)
  then show ?thesis by (intro sent[of ?l]) (auto simp: sent_more_def from_file_def)
qed

text \<open>What may be left behind by a read that reached the end of the file.\<close>

definition left_over :: "bool \<Rightarrow> bytes \<Rightarrow> bool" where
  "left_over final b \<longleftrightarrow> newline \<notin> set b \<and> length (cut b) < MaxMessageLen \<and> (final \<longrightarrow> b = [] \<or> b = [carriage])"

lemma left_over_Nil [simp]: "left_over final []"
  by (simp add: left_over_def cut_def strip_last_def MaxMessageLen_def)

lemma no_newline_line_len: "\<not> line_len b < length b \<Longrightarrow> newline \<notin> set b"
proof -
  assume "\<not> line_len b < length b"
  then have "take (line_len b) b = b" by simp
  then have "takeWhile (\<lambda>c. c \<noteq> newline) b = b" unfolding takeWhile_line .
  then show ?thesis unfolding takeWhile_eq_all_conv by blast
qed

lemma cut_empty:
  assumes "newline \<notin> set b" and "cut b = []"
  shows "b = [] \<or> b = [carriage]"
proof (cases b)
  case (Cons x xs)
  let ?t = "take MaxMessageLen b"
  have ne: "?t \<noteq> []" using Cons by (simp add: MaxMessageLen_def)
  have "last ?t \<noteq> newline" using assms(1) ne by (metis in_set_takeD last_in_set)
  then have "strip_last carriage ?t = []" using assms(2) by (simp add: cut_def strip_last_def)
  then have "butlast ?t = [] \<and> last ?t = carriage" using ne by (auto simp: strip_last_def split: if_splits)
  then have t: "?t = [carriage]" using ne by (metis append_butlast_last_id append_Nil)
  then have "min (length b) MaxMessageLen = 1" by (metis length_take length_Cons list.size(3) One_nat_def)
  then have "length b \<le> MaxMessageLen" by (auto simp: MaxMessageLen_def)
  with t show ?thesis by simp
qed simp

lemma read_lines_tiles:
  assumes "a \<le> length c" and "rdData rd = drop a c"
    and "read_lines clock fid head final (int a) rd ts = (e, off, ts1)"
  shows "\<exists>b ls. sent_more ts ls ts1 \<and> off = int b \<and> b \<le> length c \<and> tiles c a ls b \<and>
    list_all (from_file fid head (tsPath ts)) ls \<and>
    (if e = None then left_over final (drop b c) else tsCancel ts \<noteq> None \<or> rdErr rd \<noteq> ReadEOF)"
  using assms
proof (induction "length (rdData rd)" arbitrary: a rd ts rule: less_induct)
  case less
  let ?b = "drop a c" and ?n = "first_line (drop a c)"
  let ?emit = "tail_emit clock fid head (int a) (int a + int ?n) (cut (take ?n ?b)) ts"
  have t: "tile c a (a + ?n) l" if "a < length c" "curStart (lnCursor l) = int a"
      "curOffset (lnCursor l) = int a + int ?n" "lnBytes l = cut (take ?n ?b)" for l
    using that by (intro tile_first) simp_all
  have n: "a + ?n \<le> length c" using first_line_le[of ?b] less.prems(1) by simp
  obtain e1 ts2 where em: "?emit = (e1, ts2)" by (cases ?emit)
  show ?case
  proof (cases "line_len ?b < length ?b")
    case True
    then have a: "a < length c" and pos: "0 < ?n" by (auto simp: first_line_def)
    show ?thesis
    proof (cases rule: tail_emit_cases[OF em, case_names sent cancelled])
      case (sent l)
      let ?rd = "rd\<lparr>rdData := drop ?n ?b\<rparr>"
      have run: "read_lines clock fid head final (int (a + ?n)) ?rd ts2 = (e, off, ts1)"
        using less.prems(2,3) True em sent(1)
        by (subst (asm) read_lines.simps) (simp add: next_spec Let_def)
      have shorter: "length (rdData ?rd) < length (rdData rd)" using pos a less.prems(2) by simp
      have data: "rdData ?rd = drop (a + ?n) c" by (simp add: add.commute)
      have err: "rdErr ?rd = rdErr rd" by simp
      obtain b ls where ih: "sent_more ts2 ls ts1" "off = int b" "b \<le> length c" "tiles c (a + ?n) ls b"
        "list_all (from_file fid head (tsPath ts2)) ls"
        "if e = None then left_over final (drop b c) else tsCancel ts2 \<noteq> None \<or> rdErr rd \<noteq> ReadEOF"
        using less.hyps[OF shorter n data run] unfolding err by blast
      note f = sent_more_fields[OF sent(2)]
      have "tiles c a (l # ls) b" using t[OF a sent(4,5,6)] ih(4) sent(5) by (simp add: Let_def nat_add_distrib)
      with ih f sent(3) sent_more_trans[OF sent(2) ih(1)] show ?thesis
        by (intro exI[of _ b] exI[of _ "l # ls"]) (auto split: if_splits)
    next
      case cancelled
      then have "e = Some TailCanceled \<and> off = int a \<and> ts1 = ts" using less.prems(2,3) True em
        by (subst (asm) read_lines.simps) (simp add: next_spec Let_def)
      with cancelled(3) less.prems(1) show ?thesis by (intro exI[of _ a] exI[of _ "[]"]) auto
    qed
  next
    case False
    then have whole: "?n = length ?b" "take ?n ?b = ?b" and nn: "newline \<notin> set ?b"
      by (simp_all add: first_line_def no_newline_line_len)
    let ?line = "cut (take ?n ?b)"
    have "read_lines clock fid head final (int a) rd ts =
        (if rdErr rd \<noteq> ReadEOF then (Some TailRead, int a, ts)
         else if length ?line \<ge> MaxMessageLen \<or> (final \<and> ?line \<noteq> []) then
           (case ?emit of (Some e, ts1) \<Rightarrow> (Some e, int a, ts1) | (None, ts1) \<Rightarrow> (None, int a + int ?n, ts1))
         else (None, int a, ts))"
      using less.prems(2) False by (subst read_lines.simps) (simp add: next_spec Let_def)
    then have step: "read_lines clock fid head final (int a) rd ts =
        (if rdErr rd \<noteq> ReadEOF then (Some TailRead, int a, ts)
         else if length (cut ?b) \<ge> MaxMessageLen \<or> (final \<and> cut ?b \<noteq> []) then
           (case (e1, ts2) of (Some e, ts1) \<Rightarrow> (Some e, int a, ts1) | (None, ts1) \<Rightarrow> (None, int a + int ?n, ts1))
         else (None, int a, ts))"
      unfolding em unfolding whole(2) .
    show ?thesis
    proof (cases "rdErr rd \<noteq> ReadEOF \<or> \<not> (length (cut ?b) \<ge> MaxMessageLen \<or> (final \<and> cut ?b \<noteq> []))")
      case True
      then have "off = int a \<and> ts1 = ts \<and> (if rdErr rd \<noteq> ReadEOF then e = Some TailRead else e = None)"
        using less.prems(3) step by (auto split: if_splits)
      moreover have "left_over final ?b" if "rdErr rd = ReadEOF"
        using True that nn cut_empty[OF nn] by (auto simp: left_over_def)
      ultimately show ?thesis using less.prems(1) by (intro exI[of _ a] exI[of _ "[]"]) (auto split: if_splits)
    next
      case emits: False
      then have "a < length c" by (cases "a < length c") (auto simp: cut_def strip_last_def MaxMessageLen_def)
      show ?thesis
      proof (cases rule: tail_emit_cases[OF em, case_names sent cancelled])
        case (sent l)
        then have "e = None \<and> off = int (length c) \<and> ts1 = ts2" using less.prems(1,3) step emits em whole by auto
        moreover have "tiles c a [l] (length c)"
          using t[OF \<open>a < length c\<close> sent(4,5,6)] whole sent(5) less.prems(1) by (simp add: Let_def nat_add_distrib)
        ultimately show ?thesis using sent(2,3) by (intro exI[of _ "length c"] exI[of _ "[l]"]) auto
      next
        case cancelled
        then have "e = Some TailCanceled \<and> off = int a \<and> ts1 = ts" using less.prems(3) step emits em by auto
        with cancelled(3) less.prems(1) show ?thesis by (intro exI[of _ a] exI[of _ "[]"]) auto
      qed
    qed
  qed
qed

text \<open>A fingerprint taken earlier does not differ from the one of the file that has grown since.\<close>

lemma fingerprint_grown: "\<not> Differs (fingerprint (take k c)) (fingerprint (c @ d))"
  by (auto simp: fingerprint_def Differs_def noFingerprint_def min_def)

lemma readToEOF_tiles:
  assumes "a \<le> length c" and "tsCancel ts = None" and "readToEOF False False k clock c fid head (int a) final ts = (e, off, ts1)"
  obtains b ls where "e = None" "sent_more ts ls ts1" "off = int b" "b \<le> length c" "tiles c a ls b"
    "list_all (from_file fid head (tsPath ts)) ls" "left_over final (drop b c)"
  using read_lines_tiles[OF assms(1), of "\<lparr>rdData = drop a c, rdErr = ReadEOF\<rparr>" clock fid head final ts e off ts1] assms(2,3)
  by (fastforce simp: readToEOF_def Let_def split: if_splits)

subsection \<open>A writer and the source\<close>

text \<open>The writer appends to the file at the path, and now and then moves it away and creates a new one there;
  the source polls. \<open>gens\<close> are the files that have been at the path, first to last.\<close>

datatype fevent = FAppend bytes | FRotate FileID | FPoll

definition quiet :: "(int \<Rightarrow> gotime) \<Rightarrow> fsys \<Rightarrow> view" where
  "quiet clock fs = \<lparr>vwStat = fs, vwFdStat = fs, vwHead = fs, vwDrain = fs, vwAwait = [fs], vwNewHead = fs,
     vwRead = fs, vwFails = (\<lambda>_. False), vwPartial = 0, vwClock = clock\<rparr>"

definition fs_append :: "bytes \<Rightarrow> fsys \<Rightarrow> fsys" where
  "fs_append b fs = (case fsPath fs of
     None \<Rightarrow> fs
   | Some f \<Rightarrow> fs\<lparr>fsData := (fsData fs)(f := fsData fs f @ b)\<rparr>)"

definition fs_rotate :: "FileID \<Rightarrow> fsys \<Rightarrow> fsys" where
  "fs_rotate f fs = fs\<lparr>fsPath := Some f, fsData := (fsData fs)(f := [])\<rparr>"

type_synonym tail_world = "fsys \<times> tail_pos \<times> TailSource"

fun world :: "(int \<Rightarrow> gotime) \<Rightarrow> fevent list \<Rightarrow> tail_world \<Rightarrow> tail_world option" where
  "world clock [] w = Some w"
| "world clock (FAppend b # es) (fs, pos, ts) = world clock es (fs_append b fs, pos, ts)"
| "world clock (FRotate f # es) (fs, pos, ts) = world clock es (fs_rotate f fs, pos, ts)"
| "world clock (FPoll # es) (fs, pos, ts) =
     (case tail_cycle (quiet clock fs) pos ts of
        (Inl e, ts1) \<Rightarrow> None
      | (Inr pos1, ts1) \<Rightarrow> world clock es (fs, pos1, ts1))"

fun gens_of :: "fevent list \<Rightarrow> FileID list" where
  "gens_of [] = []"
| "gens_of (FRotate f # es) = f # gens_of es"
| "gens_of (_ # es) = gens_of es"

text \<open>Between two rotations the source polls at least once.\<close>

fun polled :: "bool \<Rightarrow> fevent list \<Rightarrow> bool" where
  "polled p [] \<longleftrightarrow> True"
| "polled p (FAppend b # es) \<longleftrightarrow> polled p es"
| "polled p (FRotate f # es) \<longleftrightarrow> \<not> p \<and> polled True es"
| "polled p (FPoll # es) \<longleftrightarrow> polled False es"

definition whole_file :: "fsys \<Rightarrow> string \<Rightarrow> FileID \<Rightarrow> Line list \<Rightarrow> bool" where
  "whole_file fs path f ls \<longleftrightarrow> list_all (\<lambda>l. lnSource l = path \<and> curFile (lnCursor l) = f) ls \<and>
     (\<exists>b. tiles (fsData fs f) 0 ls b \<and> left_over True (drop b (fsData fs f)))"

definition part_file :: "fsys \<Rightarrow> string \<Rightarrow> FileID \<Rightarrow> Line list \<Rightarrow> nat \<Rightarrow> bool" where
  "part_file fs path f ls b \<longleftrightarrow> list_all (\<lambda>l. lnSource l = path \<and> curFile (lnCursor l) = f) ls \<and>
     tiles (fsData fs f) 0 ls b \<and> b \<le> length (fsData fs f)"

definition tail_books ::
  "FileID list \<Rightarrow> bool \<Rightarrow> fsys \<Rightarrow> FileID \<Rightarrow> nat \<Rightarrow> Fingerprint \<Rightarrow> TailSource \<Rightarrow> (FileID \<times> Line list) list \<Rightarrow>
   Line list \<Rightarrow> nat \<Rightarrow> bool" where
  "tail_books gens p fs fid b head ts olds ls k \<longleftrightarrow>
     gens = map fst olds @ fid # (if p then [the (fsPath fs)] else []) \<and>
     fsPath fs \<noteq> None \<and> (\<not> p \<longrightarrow> fsPath fs = Some fid) \<and> tsSent ts = concat (map snd olds) @ ls \<and>
     list_all (\<lambda>(f, lf). whole_file fs (tsPath ts) f lf) olds \<and> part_file fs (tsPath ts) fid ls b \<and>
     head = fingerprint (take k (fsData fs fid)) \<and> tsCancel ts = None \<and> \<not> tsClosed ts \<and> tsTruncations ts = 0"

definition world_inv :: "FileID list \<Rightarrow> bool \<Rightarrow> tail_world \<Rightarrow> bool" where
  "world_inv gens p = (\<lambda>(fs, (fid, off, head), ts).
     distinct gens \<and> (\<exists>olds ls b k. off = int b \<and> tail_books gens p fs fid b head ts olds ls k))"

lemma world_invI:
  "tail_books gens p fs fid b head ts olds ls k \<Longrightarrow> distinct gens \<Longrightarrow> world_inv gens p (fs, (fid, int b, head), ts)"
  by (auto simp: world_inv_def)

lemma world_invE:
  assumes "world_inv gens p (fs, pos, ts)"
  obtains fid b head olds ls k where "pos = (fid, int b, head)" and "tail_books gens p fs fid b head ts olds ls k"
    and "distinct gens"
  using assms by (auto simp: world_inv_def split: prod.splits)

lemma books_path:
  assumes "tail_books gens p fs fid b head ts olds ls k" and "distinct gens" and "f \<in> set (map fst olds)"
  shows "fsPath fs \<noteq> Some f"
proof -
  from assms(1) have "gens = map fst olds @ fid # (if p then [the (fsPath fs)] else [])"
    and "\<not> p \<longrightarrow> fsPath fs = Some fid" unfolding tail_books_def by blast+
  with assms(2,3) show ?thesis by (cases p) (auto simp del: set_map)
qed

lemma olds_frame:
  assumes "\<And>f. f \<in> set (map fst olds) \<Longrightarrow> fsData fs' f = fsData fs f"
    and "list_all (\<lambda>(f, lf). whole_file fs path f lf) olds"
  shows "list_all (\<lambda>(f, lf). whole_file fs' path f lf) olds"
  using assms by (induction olds) (auto simp: whole_file_def)

lemma part_file_more:
  assumes "part_file fs path f ls a" and "tiles (fsData fs f) a ls' b" and "b \<le> length (fsData fs f)"
    and "list_all (from_file f head path) ls'"
  shows "part_file fs path f (ls @ ls') b"
  using assms tiles_append[of "fsData fs f" 0 ls a ls' b] by (auto simp: part_file_def from_file_def list_all_iff)

lemma world_inv_append:
  assumes "world_inv gens p (fs, pos, ts)"
  shows "world_inv gens p (fs_append d fs, pos, ts)"
proof (rule world_invE[OF assms])
  fix fid b head olds ls k
  assume pos: "pos = (fid, int b, head)" and i: "tail_books gens p fs fid b head ts olds ls k"
    and dg: "distinct gens"
  let ?fs = "fs_append d fs" and ?k = "min k (length (fsData fs fid))"
  have path: "fsPath ?fs = fsPath fs" and "fsPath fs \<noteq> None"
    using i by (auto simp: fs_append_def tail_books_def)
  then have data: "fsData ?fs f = fsData fs f @ (if fsPath fs = Some f then d else [])" for f
    by (auto simp: fs_append_def)
  have "list_all (\<lambda>(f, lf). whole_file ?fs (tsPath ts) f lf) olds"
  proof (rule olds_frame)
    show "fsData ?fs f = fsData fs f" if "f \<in> set (map fst olds)" for f
      using books_path[OF i dg that] data[of f] by simp
  qed (use i in \<open>simp add: tail_books_def\<close>)
  moreover have "part_file ?fs (tsPath ts) fid ls b" using i data by (auto simp: tail_books_def part_file_def tiles_grow)
  moreover have "head = fingerprint (take ?k (fsData ?fs fid))" using i data by (simp add: tail_books_def min_def)
  ultimately have "tail_books gens p ?fs fid b head ts olds ls ?k" using i path by (simp add: tail_books_def)
  from world_invI[OF this dg] show ?thesis unfolding pos .
qed

lemma world_inv_rotate:
  assumes "world_inv gens False (fs, pos, ts)" and "f \<notin> set gens"
  shows "world_inv (gens @ [f]) True (fs_rotate f fs, pos, ts)"
proof (rule world_invE[OF assms(1)])
  fix fid b head olds ls k
  assume pos: "pos = (fid, int b, head)" and i: "tail_books gens False fs fid b head ts olds ls k"
    and dg: "distinct gens"
  let ?fs = "fs_rotate f fs"
  have data: "fsData ?fs h = fsData fs h" if "h \<in> set gens" for h
    using that assms(2) by (auto simp: fs_rotate_def)
  have "list_all (\<lambda>(f, lf). whole_file ?fs (tsPath ts) f lf) olds"
    by (rule olds_frame[of olds ?fs fs]) (use i data in \<open>auto simp: tail_books_def\<close>)
  moreover have "fsData ?fs fid = fsData fs fid" using data i by (simp add: tail_books_def)
  moreover have "fsPath ?fs = Some f" by (simp add: fs_rotate_def)
  ultimately have "tail_books (gens @ [f]) True ?fs fid b head ts olds ls k"
    using i assms(2) by (auto simp: tail_books_def part_file_def)
  moreover have "distinct (gens @ [f])" using dg assms(2) by simp
  ultimately show ?thesis unfolding pos by (rule world_invI)
qed

definition caught_up :: "fsys \<Rightarrow> tail_pos \<Rightarrow> bool" where
  "caught_up fs = (\<lambda>(fid, off, head). left_over False (drop (nat off) (fsData fs fid)))"

text \<open>The first half of a poll: stay on the file, or drain it and move to the next.\<close>

lemma resolve_inv:
  assumes "world_inv gens p (fs, pos, ts)"
  shows "\<exists>pos1 ts1. resolveState (quiet clock fs) pos ts = (Inr pos1, ts1) \<and> world_inv gens False (fs, pos1, ts1)"
proof (rule world_invE[OF assms])
  fix fid b head olds ls k
  assume pos: "pos = (fid, int b, head)" and books: "tail_books gens p fs fid b head ts olds ls k"
    and dg: "distinct gens"
  note i = books[unfolded tail_books_def]
  let ?c = "fsData fs fid"
  have le: "b \<le> length ?c" using i by (simp add: part_file_def)
  show ?thesis
  proof (cases p)
    case False
    have "resolveState (quiet clock fs) pos ts = (Inr (fid, int b, fingerprint ?c), ts)"
      using i False le fingerprint_grown[of k ?c "[]"]
      by (simp add: resolveState_def quiet_def pos fingerprintHead_def)
    moreover have "tail_books gens False fs fid b (fingerprint ?c) ts olds ls (length ?c)"
      using i False by (auto simp: tail_books_def)
    ultimately show ?thesis using world_invI dg by blast
  next
    case True
    obtain g where g: "fsPath fs = Some g" "gens = map fst olds @ [fid, g]" "g \<noteq> fid"
      using i True dg by (cases "fsPath fs") auto
    obtain e off1 ts2 where r: "readToEOF False False 0 clock ?c fid head (int b) True ts = (e, off1, ts2)"
      by (cases "readToEOF False False 0 clock ?c fid head (int b) True ts") auto
    have nc: "tsCancel ts = None" using i by blast
    from readToEOF_tiles[OF le nc r] obtain b' ls' where t: "e = None" "sent_more ts ls' ts2" "b' \<le> length ?c"
      "tiles ?c b ls' b'" "list_all (from_file fid head (tsPath ts)) ls'" "left_over True (drop b' ?c)" by blast
    note f = sent_more_fields[OF t(2)]
    let ?ts = "ts2\<lparr>tsFile := Some g, tsRotations := tsRotations ts2 + 1\<rparr>"
    have "resolveState (quiet clock fs) pos ts = (Inr (g, int 0, fingerprint (fsData fs g)), ?ts)"
      using i g(1,3) r t(1) f
      by (simp add: resolveState_def quiet_def pos fingerprintHead_def tail_rotate_def setFile_def)
    moreover have "part_file fs (tsPath ts) fid (ls @ ls') b'" using part_file_more t(3-5) i by blast
    then have "whole_file fs (tsPath ts) fid (ls @ ls')" using t(6) by (auto simp: part_file_def whole_file_def)
    then have "tail_books gens False fs g 0 (fingerprint (fsData fs g)) ?ts (olds @ [(fid, ls @ ls')]) []
        (length (fsData fs g))"
    proof -
      assume w: "whole_file fs (tsPath ts) fid (ls @ ls')"
      from i have o: "list_all (\<lambda>(f, lf). whole_file fs (tsPath ts) f lf) olds"
        and se: "tsSent ts = concat (map snd olds) @ ls" "\<not> tsClosed ts" "tsTruncations ts = 0" by blast+
      from w o se nc f g(1,2) show ?thesis by (simp add: tail_books_def part_file_def)
    qed
    ultimately show ?thesis using world_invI dg by blast
  qed
qed

lemma world_inv_poll:
  assumes "world_inv gens p (fs, pos, ts)"
  shows "\<exists>pos1 ts1. tail_cycle (quiet clock fs) pos ts = (Inr pos1, ts1) \<and> world_inv gens False (fs, pos1, ts1) \<and>
    caught_up fs pos1"
proof -
  from resolve_inv[OF assms] obtain pos1 ts1 where
    r: "resolveState (quiet clock fs) pos ts = (Inr pos1, ts1)" and inv: "world_inv gens False (fs, pos1, ts1)"
    by blast
  from inv obtain fid b head olds ls k where pos1: "pos1 = (fid, int b, head)"
    and books: "tail_books gens False fs fid b head ts1 olds ls k" and dg: "distinct gens" by (rule world_invE)
  note i = books[unfolded tail_books_def]
  let ?c = "fsData fs fid"
  have le: "b \<le> length ?c" and nc: "tsCancel ts1 = None" using i by (auto simp: part_file_def)
  obtain e off1 ts2 where rd: "readToEOF False False 0 clock ?c fid head (int b) False ts1 = (e, off1, ts2)"
    by (cases "readToEOF False False 0 clock ?c fid head (int b) False ts1") auto
  from readToEOF_tiles[OF le nc rd] obtain b' ls' where t: "e = None" "sent_more ts1 ls' ts2" "b' \<le> length ?c"
    "tiles ?c b ls' b'" "list_all (from_file fid head (tsPath ts1)) ls'" "left_over False (drop b' ?c)"
    "off1 = int b'" by blast
  note f = sent_more_fields[OF t(2)]
  have "tail_cycle (quiet clock fs) pos ts = (Inr (fid, int b', head), ts2)"
    using r rd t(1,7) pos1 by (simp add: tail_cycle_def) (simp add: quiet_def)
  moreover have "part_file fs (tsPath ts1) fid (ls @ ls') b'" using part_file_more t(3-5) i by blast
  then have "tail_books gens False fs fid b' head ts2 olds (ls @ ls') k" using i f by (auto simp: tail_books_def)
  moreover have "caught_up fs (fid, int b', head)" using t(6) by (simp add: caught_up_def)
  ultimately show ?thesis using world_invI dg by blast
qed

lemma world_run:
  assumes "world_inv gens p w" and "distinct (gens @ gens_of es)" and "polled p es"
  shows "\<exists>fs pos ts q. world clock es w = Some (fs, pos, ts) \<and> world_inv (gens @ gens_of es) q (fs, pos, ts) \<and>
    (es \<noteq> [] \<and> last es = FPoll \<longrightarrow> \<not> q \<and> caught_up fs pos)"
  using assms
proof (induction clock es w arbitrary: gens p rule: world.induct)
  case (1 clock w)
  then show ?case by (cases w) auto
next
  case (2 clock d es fs pos ts)
  from "2.IH"[OF world_inv_append[OF "2.prems"(1), of d]] "2.prems"(2,3) show ?case by auto
next
  case (3 clock f es fs pos ts)
  then have p: "\<not> p" by simp
  have "f \<notin> set gens" using "3.prems"(2) by simp
  from world_inv_rotate[OF _ this] "3.prems"(1) p have "world_inv (gens @ [f]) True (fs_rotate f fs, pos, ts)" by simp
  from "3.IH"[OF this] "3.prems"(2,3) show ?case by auto
next
  case (4 clock es fs pos ts)
  from world_inv_poll[OF "4.prems"(1)] obtain pos1 ts1 where c: "tail_cycle (quiet clock fs) pos ts = (Inr pos1, ts1)"
    "world_inv gens False (fs, pos1, ts1)" "caught_up fs pos1" by blast
  show ?case
  proof (cases "es = []")
    case True
    with c show ?thesis by auto
  next
    case False
    with "4.IH"[OF c(1)[symmetric] refl c(2)] "4.prems"(2,3) c(1) show ?thesis by auto
  qed
qed

lemma tail_open_fresh:
  assumes "NewTailSource None path iv noCursor = Inr ts" and "fsPath fs = Some f0"
  shows "tail_open (quiet clock fs) ts = (Inr (f0, 0, fingerprint (fsData fs f0)), ts\<lparr>tsFile := Some f0\<rparr>) \<and>
    world_inv [f0] False (fs, (f0, 0, fingerprint (fsData fs f0)), ts\<lparr>tsFile := Some f0\<rparr>)"
proof -
  have ts: "tsResume ts = noCursor" "\<not> tsClosed ts" "tsCancel ts = None" "tsTruncations ts = 0" "tsSent ts = []"
    using assms(1) by (auto simp: NewTailSource_def split: if_splits)
  have "tail_books [f0] False fs f0 0 (fingerprint (fsData fs f0)) (ts\<lparr>tsFile := Some f0\<rparr>) [] [] (length (fsData fs f0))"
    using ts assms(2) by (simp add: tail_books_def part_file_def)
  from world_invI[OF this] ts assms(2) show ?thesis
    by (simp add: tail_open_def quiet_def setFile_def resolveResumedCursor_def fingerprintHead_def noCursor_def
        fileID_IsZero_def Differs_def noFingerprint_def)
qed

subsection \<open>Properties\<close>


definition file_a :: FileID where "file_a = \<lparr>fiDev = 1, fiIno = 10\<rparr>"
definition file_b :: FileID where "file_b = \<lparr>fiDev = 1, fiIno = 11\<rparr>"
definition file_c :: FileID where "file_c = \<lparr>fiDev = 1, fiIno = 12\<rparr>"

lemma files_neq [simp]: "file_a \<noteq> file_b" "file_a \<noteq> file_c" "file_b \<noteq> file_c"
    "file_b \<noteq> file_a" "file_c \<noteq> file_a" "file_c \<noteq> file_b"
  by (simp_all add: file_a_def file_b_def file_c_def)

definition fs_ex :: fsys where
  "fs_ex = \<lparr>fsPath = Some file_a, fsData = (\<lambda>_. [])\<rparr>"

definition tail_ex :: TailSource where
  "tail_ex = \<lparr>tsPath = ''app.log'', tsPollInterval = second, tsResume = noCursor, tsFile = None, tsClosed = False,
     tsSent = [], tsCancel = None, tsRotations = 0, tsTruncations = 0, tsGenerationsMissed = 0,
     tsRecordsDropped = 0\<rparr>"

lemma tail_ex_new: "NewTailSource None ''app.log'' second noCursor = Inr tail_ex"
  by (simp add: NewTailSource_def tail_ex_def second_def)


text \<open>Resuming. When the file at the path is the one the checkpoint names and has only grown since, the
  source resumes exactly at the checkpoint's offset. When it is another file, it starts at its beginning and
  counts a missed generation; when it is the same file but shorter than the offset, or with another beginning,
  it starts at its beginning and counts a truncation.\<close>

theorem tail_resume:
  assumes "curFile (tsResume ts) \<noteq> noFile"
  shows "resolveResumedCursor (quiet clock fs) fid ts =
    (let c = tsResume ts; now = fsData fs fid; head = fingerprint now in
     if curFile c \<noteq> fid then
       (Inr (0, head), ts\<lparr>tsGenerationsMissed := tsGenerationsMissed ts + 1, tsRecordsDropped := tsRecordsDropped ts + 1\<rparr>)
     else if int (length now) < curOffset c \<or> Differs (curHead c) head then
       (Inr (0, head), ts\<lparr>tsTruncations := tsTruncations ts + 1\<rparr>)
     else (Inr (curOffset c, head), ts)) \<and>
   (curFile (tsResume ts) = fid \<and> prefix old (fsData fs fid) \<and> curOffset (tsResume ts) \<le> int (length old) \<and>
      curHead (tsResume ts) = fingerprint (take k old) \<longrightarrow>
    resolveResumedCursor (quiet clock fs) fid ts = (Inr (curOffset (tsResume ts), fingerprint (fsData fs fid)), ts))"
proof -
  have "\<not> Differs (fingerprint (take k old)) (fingerprint (fsData fs fid))" if "prefix old (fsData fs fid)"
    using that fingerprint_grown by (auto simp: prefix_def)
  with assms show ?thesis
    by (auto simp: resolveResumedCursor_def quiet_def fingerprintHead_def fileID_IsZero_def Let_def prefix_def)
qed

theorem tail_resume_witness:
  "resolveResumedCursor (quiet (\<lambda>_. 0) \<lparr>fsPath = Some file_a, fsData = (\<lambda>_. ''abc'' @ [newline] @ ''d'')\<rparr>) file_a
     (tail_ex\<lparr>tsResume := \<lparr>curStart = 0, curOffset = 4, curFile = file_a, curHead = noFingerprint\<rparr>\<rparr>) =
   (Inr (4, noFingerprint), tail_ex\<lparr>tsResume := \<lparr>curStart = 0, curOffset = 4, curFile = file_a, curHead = noFingerprint\<rparr>\<rparr>)"
proof -
  have f: "fingerprint (''abc'' @ [newline] @ ''d'') = noFingerprint" "fingerprint [] = noFingerprint"
    by (simp_all add: fingerprint_def headFingerprintLen_def)
  show ?thesis
    using tail_resume[of "tail_ex\<lparr>tsResume := \<lparr>curStart = 0, curOffset = 4, curFile = file_a, curHead = noFingerprint\<rparr>\<rparr>"
        "\<lambda>_. 0" "\<lparr>fsPath = Some file_a, fsData = (\<lambda>_. ''abc'' @ [newline] @ ''d'')\<rparr>" file_a "''abc'' @ [newline]" 0] f
    by (simp add: file_a_def noFile_def Differs_def noFingerprint_def)
qed

text \<open>Two rotations between two polls lose a file without a trace: the lines of the file in the middle are
  never sent, and no counter of the source says so.\<close>

theorem double_rotation_uncounted:
  "case world (\<lambda>_. 0) [FRotate file_b, FAppend (''lost'' @ [newline]), FRotate file_c, FPoll]
       (fs_ex, (file_a, 0, fingerprint []), tail_ex\<lparr>tsFile := Some file_a\<rparr>) of
     None \<Rightarrow> False
   | Some (fs, pos, ts) \<Rightarrow> fst pos = file_c \<and> fsData fs file_b = ''lost'' @ [newline] \<and> tsSent ts = [] \<and>
       tsRotations ts = 1 \<and> tsGenerationsMissed ts = 0 \<and> tsTruncations ts = 0 \<and> tsRecordsDropped ts = 0"
proof -
  have n: "assembler_next \<lparr>rdData = [], rdErr = ReadEOF\<rparr> = ([], 0, False, Some ReadEOF, \<lparr>rdData = [], rdErr = ReadEOF\<rparr>)"
    by (simp add: next_spec first_line_def line_len_def cut_def strip_last_def)
  have r: "readToEOF False False k cl [] f h 0 fin ts = (None, 0, ts)" for k cl f h fin ts
    by (simp add: readToEOF_def Let_def, subst read_lines.simps, simp add: n MaxMessageLen_def)
  show ?thesis
    by (simp add: fs_ex_def tail_ex_def fs_rotate_def fs_append_def tail_cycle_def resolveState_def quiet_def
        tail_rotate_def r setFile_def fingerprintHead_def)
qed

end
