(* ===== verification/Multiline.thy ===== *)
theory Multiline
  imports Checkpoint Records
begin

text \<open>
  The multiline stage of the agent (\<^verbatim>\<open>internal/agent/multiline.go\<close>): continuation lines are folded into
  the record held for their source.

  \<^item> The output channel is the list of lines sent so far. A send blocks until it succeeds or the context is
    cancelled; \<open>jsCancel\<close> is the number of further sends that succeed before one notices the cancellation,
    \<open>None\<close> when there is none.
  \<^item> Go iterates over a map in any order, so the flushing loops take the order of the keys as an argument.
  \<^item> The continuation pattern is a predicate on lines, and the times the code reads from the clock are part of
    the events of a run.
\<close>

definition defaultFlushTimeout :: duration where "defaultFlushTimeout = 5 * second"
definition defaultMaxLines :: nat where "defaultMaxLines = 500"
definition idleWait :: duration where "idleWait = hour"

record Joiner =
  jnContinuation :: "(bytes \<Rightarrow> bool) option"
  jnFlushTimeout :: duration

datatype joiner_err = NegativeFlushTimeout duration

definition NewJoiner :: "(bytes \<Rightarrow> bool) option \<Rightarrow> duration \<Rightarrow> joiner_err + Joiner" where
  "NewJoiner cont timeout =
     (if timeout < 0 then Inl (NegativeFlushTimeout timeout)
      else Inr \<lparr>jnContinuation = cont,
        jnFlushTimeout = (if timeout = 0 then defaultFlushTimeout else timeout)\<rparr>)"

record heldRecord =
  hrLine :: Line
  hrLines :: nat
  hrDeadline :: gotime

record jstate =
  jsHeld :: "heldRecord gomap"
  jsSent :: "Line list"
  jsCancel :: "nat option"
  jsMaxBytesSplits :: nat
  jsMaxLinesSplits :: nat
  jsTimeoutFlushes :: nat
  jsTimer :: duration

definition joiner_start :: "nat option \<Rightarrow> jstate" where
  "joiner_start cancel = \<lparr>jsHeld = [], jsSent = [], jsCancel = cancel, jsMaxBytesSplits = 0,
     jsMaxLinesSplits = 0, jsTimeoutFlushes = 0, jsTimer = idleWait\<rparr>"

datatype ctx_err = Canceled

definition chan_send :: "Line \<Rightarrow> jstate \<Rightarrow> ctx_err option \<times> jstate" where
  "chan_send l st =
     (case jsCancel st of
        Some 0 \<Rightarrow> (Some Canceled, st)
      | Some (Suc n) \<Rightarrow> (None, st\<lparr>jsSent := jsSent st @ [l], jsCancel := Some n\<rparr>)
      | None \<Rightarrow> (None, st\<lparr>jsSent := jsSent st @ [l]\<rparr>))"

definition flushOne :: "heldRecord \<Rightarrow> jstate \<Rightarrow> ctx_err option \<times> jstate" where
  "flushOne h st = chan_send (hrLine h) st"

definition newHeld :: "Joiner \<Rightarrow> Line \<Rightarrow> gotime \<Rightarrow> heldRecord" where
  "newHeld j l now = \<lparr>hrLine = l, hrLines = 1, hrDeadline = now + jnFlushTimeout j\<rparr>"

definition hold :: "heldRecord \<Rightarrow> string \<Rightarrow> jstate \<Rightarrow> jstate" where
  "hold h source st = st\<lparr>jsHeld := AList.update source h (jsHeld st)\<rparr>"

definition replace_held :: "Joiner \<Rightarrow> Line \<Rightarrow> gotime \<Rightarrow> heldRecord \<Rightarrow> jstate \<Rightarrow> ctx_err option \<times> jstate" where
  "replace_held j l now h st =
     (case flushOne h st of
        (Some e, st1) \<Rightarrow> (Some e, st1)
      | (None, st1) \<Rightarrow> (None, hold (newHeld j l now) (lnSource l) st1))"

definition extend_held :: "Joiner \<Rightarrow> Line \<Rightarrow> gotime \<Rightarrow> heldRecord \<Rightarrow> heldRecord" where
  "extend_held j l now h =
     (let b = lnBytes (hrLine h);
          b' = (if b = [] then b else b @ [CHR 0x0A]) @ lnBytes l;
          c' = (lnCursor (hrLine h))\<lparr>curOffset := curOffset (lnCursor l), curFile := curFile (lnCursor l),
                 curHead := curHead (lnCursor l)\<rparr>
      in \<lparr>hrLine = (hrLine h)\<lparr>lnBytes := b', lnCursor := c'\<rparr>, hrLines = hrLines h + 1,
          hrDeadline = now + jnFlushTimeout j\<rparr>)"

definition absorb :: "(bytes \<Rightarrow> bool) \<Rightarrow> Joiner \<Rightarrow> Line \<Rightarrow> gotime \<Rightarrow> jstate \<Rightarrow> ctx_err option \<times> jstate" where
  "absorb cont j l now st =
     (case map_of (jsHeld st) (lnSource l) of
        None \<Rightarrow> (None, hold (newHeld j l now) (lnSource l) st)
      | Some h \<Rightarrow>
          (if \<not> cont (lnBytes l) then replace_held j l now h st
           else
             let sep = (if lnBytes (hrLine h) = [] then 0 else 1) in
             if length (lnBytes (hrLine h)) + sep + length (lnBytes l) > MaxMessageLen then
               replace_held j l now h (st\<lparr>jsMaxBytesSplits := jsMaxBytesSplits st + 1\<rparr>)
             else if hrLines h + 1 > defaultMaxLines then
               replace_held j l now h (st\<lparr>jsMaxLinesSplits := jsMaxLinesSplits st + 1\<rparr>)
             else (None, hold (extend_held j l now h) (lnSource l) st)))"

fun flushDue :: "gotime \<Rightarrow> string list \<Rightarrow> jstate \<Rightarrow> ctx_err option \<times> jstate" where
  "flushDue now [] st = (None, st)"
| "flushDue now (k # ks) st =
     (case map_of (jsHeld st) k of
        None \<Rightarrow> flushDue now ks st
      | Some h \<Rightarrow>
          (if hrDeadline h > now then flushDue now ks st
           else case flushOne h st of
                  (Some e, st1) \<Rightarrow> (Some e, st1)
                | (None, st1) \<Rightarrow> flushDue now ks (st1\<lparr>jsHeld := AList.delete k (jsHeld st1),
                      jsTimeoutFlushes := jsTimeoutFlushes st1 + 1\<rparr>)))"

fun flushAll :: "string list \<Rightarrow> jstate \<Rightarrow> ctx_err option \<times> jstate" where
  "flushAll [] st = (None, st)"
| "flushAll (k # ks) st =
     (case map_of (jsHeld st) k of
        None \<Rightarrow> flushAll ks st
      | Some h \<Rightarrow>
          (case flushOne h st of
             (Some e, st1) \<Rightarrow> (Some e, st1)
           | (None, st1) \<Rightarrow> flushAll ks st1))"

text \<open>\<^verbatim>\<open>nextWait\<close> keeps the earliest deadline seen in a variable whose zero value means none.\<close>

definition earlier :: "gotime \<Rightarrow> gotime \<Rightarrow> gotime" where
  "earlier d earliest = (if earliest = zero_time \<or> d < earliest then d else earliest)"

definition nextWait :: "gotime list \<Rightarrow> gotime \<Rightarrow> duration" where
  "nextWait deadlines now =
     (let earliest = fold earlier deadlines zero_time in
      if earliest = zero_time then idleWait else max (time_Sub earliest now) 0)"

subsection \<open>Runs\<close>

text \<open>What a running joiner reacts to: a line together with the two readings of the clock; the timer, with
  the order in which the map is visited; the closing of its input, again with an order; and cancellation.\<close>

datatype jevent =
    JLine Line gotime gotime
  | JTimer gotime gotime "string list"
  | JClosed "string list"
  | JDone

definition set_timer :: "gotime \<Rightarrow> jstate \<Rightarrow> jstate" where
  "set_timer now st = st\<lparr>jsTimer := nextWait (map (hrDeadline \<circ> snd) (jsHeld st)) now\<rparr>"

text \<open>The result is \<open>None\<close> while the loop runs, and else what \<^verbatim>\<open>Run\<close> returns.\<close>

fun runJoin :: "(bytes \<Rightarrow> bool) \<Rightarrow> Joiner \<Rightarrow> jevent list \<Rightarrow> jstate \<Rightarrow> ctx_err option option \<times> jstate" where
  "runJoin cont j [] st = (None, st)"
| "runJoin cont j (JLine l now now' # es) st =
     (case absorb cont j l now st of
        (Some e, st1) \<Rightarrow> (Some (Some e), st1)
      | (None, st1) \<Rightarrow> runJoin cont j es (set_timer now' st1))"
| "runJoin cont j (JTimer now now' ks # es) st =
     (case flushDue now ks st of
        (Some e, st1) \<Rightarrow> (Some (Some e), st1)
      | (None, st1) \<Rightarrow> runJoin cont j es (set_timer now' st1))"
| "runJoin cont j (JClosed ks # es) st = (case flushAll ks st of (e, st1) \<Rightarrow> (Some e, st1))"
| "runJoin cont j (JDone # es) st = (Some (Some Canceled), st)"

fun runPassthrough :: "jevent list \<Rightarrow> jstate \<Rightarrow> ctx_err option option \<times> jstate" where
  "runPassthrough [] st = (None, st)"
| "runPassthrough (JLine l now now' # es) st =
     (case chan_send l st of
        (Some e, st1) \<Rightarrow> (Some (Some e), st1)
      | (None, st1) \<Rightarrow> runPassthrough es st1)"
| "runPassthrough (JTimer now now' ks # es) st = runPassthrough es st"
| "runPassthrough (JClosed ks # es) st = (Some None, st)"
| "runPassthrough (JDone # es) st = (Some (Some Canceled), st)"

definition joiner_Run :: "Joiner \<Rightarrow> jevent list \<Rightarrow> jstate \<Rightarrow> ctx_err option option \<times> jstate" where
  "joiner_Run j es st =
     (case jnContinuation j of
        None \<Rightarrow> runPassthrough es st
      | Some cont \<Rightarrow> runJoin cont j es st)"

subsection \<open>What is joined\<close>

text \<open>The record that a list of lines makes up, and which lists a joiner may fold into one record.\<close>

definition add_line :: "Line \<Rightarrow> Line \<Rightarrow> Line" where
  "add_line a l = a\<lparr>lnBytes := (if lnBytes a = [] then [] else lnBytes a @ [CHR 0x0A]) @ lnBytes l,
     lnCursor := (lnCursor a)\<lparr>curOffset := curOffset (lnCursor l), curFile := curFile (lnCursor l),
       curHead := curHead (lnCursor l)\<rparr>\<rparr>"

fun joined :: "Line list \<Rightarrow> Line" where
  "joined (l # ls) = foldl add_line l ls"

definition chunk_ok :: "(bytes \<Rightarrow> bool) \<Rightarrow> Line list \<Rightarrow> bool" where
  "chunk_ok cont cs \<longleftrightarrow> cs \<noteq> [] \<and> list_all (\<lambda>l. cont (lnBytes l)) (tl cs) \<and> length cs \<le> defaultMaxLines \<and>
     (length cs = 1 \<or> length (lnBytes (joined cs)) \<le> MaxMessageLen)"

lemma joined_snoc: "cs \<noteq> [] \<Longrightarrow> joined (cs @ [l]) = add_line (joined cs) l"
  by (cases cs) simp_all

lemma chunk_single [simp]: "chunk_ok cont [l]"
  by (simp add: chunk_ok_def defaultMaxLines_def)

lemma joined_single [simp]: "joined [l] = l"
  by simp

lemma lnSource_add [simp]: "lnSource (add_line a l) = lnSource a"
  by (simp add: add_line_def)

text \<open>The books kept per source: what was sent are records of consecutive chunks of what was read, and the
  rest of what was read is the chunk being held.\<close>

definition of_source :: "string \<Rightarrow> Line list \<Rightarrow> Line list" where
  "of_source s = filter (\<lambda>l. lnSource l = s)"

definition sent_are :: "(bytes \<Rightarrow> bool) \<Rightarrow> Line list \<Rightarrow> jstate \<Rightarrow> string \<Rightarrow> Line list \<Rightarrow> bool" where
  "sent_are cont ins st s rest \<longleftrightarrow> (\<exists>chunks. list_all (chunk_ok cont) chunks \<and>
     of_source s (jsSent st) = map joined chunks \<and> of_source s ins = concat chunks @ rest)"

definition source_inv :: "(bytes \<Rightarrow> bool) \<Rightarrow> Line list \<Rightarrow> jstate \<Rightarrow> string \<Rightarrow> bool" where
  "source_inv cont ins st s \<longleftrightarrow> (case map_of (jsHeld st) s of
     None \<Rightarrow> sent_are cont ins st s []
   | Some h \<Rightarrow> \<exists>cs. chunk_ok cont cs \<and> hrLine h = joined cs \<and> hrLines h = length cs \<and>
       lnSource (hrLine h) = s \<and> sent_are cont ins st s cs)"

lemma of_source_simps [simp]:
  "of_source s [] = []" "of_source s (xs @ ys) = of_source s xs @ of_source s ys"
  "of_source s (l # ls) = (if lnSource l = s then l # of_source s ls else of_source s ls)"
  by (simp_all add: of_source_def)

lemma chan_send_cases:
  assumes "chan_send l st = (r, st1)"
  shows "(r = None \<and> jsSent st1 = jsSent st @ [l] \<or> r = Some Canceled \<and> st1 = st) \<and> jsHeld st1 = jsHeld st \<and>
    jsMaxBytesSplits st1 = jsMaxBytesSplits st \<and> jsMaxLinesSplits st1 = jsMaxLinesSplits st"
  using assms by (auto simp: chan_send_def split: option.splits nat.splits)

lemma sent_are_cong: "jsSent st = jsSent st' \<Longrightarrow> sent_are cont ins st s rest \<longleftrightarrow> sent_are cont ins st' s rest"
  by (simp add: sent_are_def)

lemma sent_are_send:
  assumes "sent_are cont ins st s cs" and "chunk_ok cont cs" and "joined cs = l" and "jsSent st1 = jsSent st @ [l]"
    and "lnSource l = s"
  shows "sent_are cont ins st1 s []"
proof -
  from assms(1) obtain chunks where "list_all (chunk_ok cont) chunks"
    "of_source s (jsSent st) = map joined chunks" "of_source s ins = concat chunks @ cs"
    by (auto simp: sent_are_def)
  with assms(2-) show ?thesis unfolding sent_are_def by (intro exI[of _ "chunks @ [cs]"]) simp
qed

lemma sent_are_other:
  "lnSource l \<noteq> s \<Longrightarrow> jsSent st1 = jsSent st @ [l] \<Longrightarrow> sent_are cont ins st1 s rest \<longleftrightarrow> sent_are cont ins st s rest"
  by (simp add: sent_are_def)

lemma sent_are_read:
  "sent_are cont ins st s rest \<Longrightarrow>
   sent_are cont (ins @ [l]) st s (if lnSource l = s then rest @ [l] else rest)"
  by (auto simp: sent_are_def)

text \<open>A successful flush of the record held for \<open>s\<close>.\<close>

lemma flush_source_inv:
  assumes "source_inv cont ins st s" and "map_of (jsHeld st) s = Some h" and "flushOne h st = (None, st1)"
  shows "sent_are cont ins st1 s []" and "jsHeld st1 = jsHeld st" and "jsSent st1 = jsSent st @ [hrLine h]"
    and "lnSource (hrLine h) = s"
  using assms chan_send_cases[of "hrLine h" st None st1]
  by (auto simp: source_inv_def flushOne_def intro: sent_are_send)

lemma source_inv_other:
  assumes "jsSent st1 = jsSent st \<or> (\<exists>l. jsSent st1 = jsSent st @ [l] \<and> lnSource l \<noteq> s)"
    and "map_of (jsHeld st1) s = map_of (jsHeld st) s"
  shows "source_inv cont ins st1 s \<longleftrightarrow> source_inv cont ins st s"
  using assms by (auto simp: source_inv_def sent_are_other sent_are_cong[of st1 st] split: option.splits)

lemma source_inv_read_other:
  "source_inv cont ins st s \<Longrightarrow> lnSource l \<noteq> s \<Longrightarrow> source_inv cont (ins @ [l]) st s"
  using sent_are_read[of cont ins st s _ l] by (auto simp: source_inv_def split: option.splits)

lemma hrLine_extend: "hrLine (extend_held j l now h) = add_line (hrLine h) l"
  by (simp add: extend_held_def add_line_def Let_def)

lemma hold_simps [simp]:
  "jsSent (hold h s st) = jsSent st" "map_of (jsHeld (hold h s st)) x = (if x = s then Some h else map_of (jsHeld st) x)"
  by (simp_all add: hold_def update_conv')

lemma hold_new_inv:
  assumes "sent_are cont ins st s []" and "lnSource l = s"
  shows "source_inv cont (ins @ [l]) (hold (newHeld j l now) s st) s"
proof -
  have "sent_are cont (ins @ [l]) st s [l]" using sent_are_read[OF assms(1), of l] assms(2) by simp
  then have "sent_are cont (ins @ [l]) (hold (newHeld j l now) s st) s [l]" by (simp add: sent_are_def)
  with assms(2) show ?thesis by (auto simp: source_inv_def newHeld_def intro!: exI[of _ "[l]"])
qed

definition absorbed :: "(bytes \<Rightarrow> bool) \<Rightarrow> Line list \<Rightarrow> Line \<Rightarrow> ctx_err option \<Rightarrow> jstate \<Rightarrow> bool" where
  "absorbed cont ins l r st \<longleftrightarrow> (\<forall>s. source_inv cont (if r = None then ins @ [l] else ins) st s)"

lemma replace_held_inv:
  assumes inv: "\<forall>s. source_inv cont ins st s" and h: "map_of (jsHeld st) (lnSource l) = Some h"
    and r: "replace_held j l now h st = (r, st1)"
  shows "absorbed cont ins l r st1"
proof (cases "flushOne h st")
  case (Pair q st2)
  show ?thesis
  proof (cases q)
    case None
    note f = flush_source_inv[OF inv[rule_format] h Pair[unfolded None]]
    have st1: "r = None" "st1 = hold (newHeld j l now) (lnSource l) st2"
      using r Pair None by (simp_all add: replace_held_def)
    have "source_inv cont (ins @ [l]) st1 s" for s
    proof (cases "s = lnSource l")
      case True
      with hold_new_inv[OF f(1) refl] st1 show ?thesis by simp
    next
      case False
      then have "source_inv cont ins st1 s"
        using inv f st1 source_inv_other[of st1 st s cont ins] by auto
      with False show ?thesis by (intro source_inv_read_other) simp_all
    qed
    with st1 show ?thesis by (simp add: absorbed_def)
  next
    case (Some e)
    with r Pair inv chan_send_cases[of "hrLine h" st q st2] show ?thesis
      by (auto simp: absorbed_def replace_held_def flushOne_def)
  qed
qed

lemma source_inv_counters [simp]:
  "source_inv cont ins (st\<lparr>jsMaxBytesSplits := n\<rparr>) s \<longleftrightarrow> source_inv cont ins st s"
  "source_inv cont ins (st\<lparr>jsMaxLinesSplits := n\<rparr>) s \<longleftrightarrow> source_inv cont ins st s"
  "source_inv cont ins (set_timer now st) s \<longleftrightarrow> source_inv cont ins st s"
  by (rule source_inv_other; simp add: set_timer_def)+

lemma extend_held_inv:
  assumes inv: "source_inv cont ins st s" and h: "map_of (jsHeld st) s = Some h" and l: "lnSource l = s"
    and c: "cont (lnBytes l)"
    and b: "length (lnBytes (hrLine h)) + (if lnBytes (hrLine h) = [] then 0 else 1) + length (lnBytes l) \<le> MaxMessageLen"
    and n: "hrLines h + 1 \<le> defaultMaxLines"
  shows "source_inv cont (ins @ [l]) (hold (extend_held j l now h) s st) s"
proof -
  from inv h obtain cs where cs: "chunk_ok cont cs" "hrLine h = joined cs" "hrLines h = length cs"
    "lnSource (hrLine h) = s" "sent_are cont ins st s cs" by (auto simp: source_inv_def)
  have ne: "cs \<noteq> []" using cs(1) by (simp add: chunk_ok_def)
  have j: "joined (cs @ [l]) = add_line (hrLine h) l" using joined_snoc[OF ne] cs(2) by simp
  have "length (lnBytes (add_line (hrLine h) l)) \<le> MaxMessageLen" using b by (auto simp: add_line_def)
  with cs(1) c n j cs(3) ne have "chunk_ok cont (cs @ [l])" by (auto simp: chunk_ok_def)
  moreover have "sent_are cont (ins @ [l]) (hold (extend_held j l now h) s st) s (cs @ [l])"
    using sent_are_read[OF cs(5), of l] l by (simp add: sent_are_def)
  ultimately show ?thesis using j cs(3,4) l
    by (auto simp: source_inv_def hrLine_extend intro!: exI[of _ "cs @ [l]"]) (simp add: extend_held_def Let_def)
qed

lemma absorb_inv:
  assumes inv: "\<forall>s. source_inv cont ins st s" and r: "absorb cont j l now st = (r, st1)"
  shows "absorbed cont ins l r st1"
proof (cases "map_of (jsHeld st) (lnSource l)")
  case None
  with r have st1: "r = None" "st1 = hold (newHeld j l now) (lnSource l) st" by (simp_all add: absorb_def)
  have "sent_are cont ins st (lnSource l) []" using inv[rule_format, of "lnSource l"] None by (simp add: source_inv_def)
  with st1 hold_new_inv[OF this refl] have "source_inv cont (ins @ [l]) st1 (lnSource l)" by simp
  moreover have "source_inv cont (ins @ [l]) st1 s" if "s \<noteq> lnSource l" for s
    using that inv st1 source_inv_other[of st1 st s cont ins] by (intro source_inv_read_other) auto
  ultimately show ?thesis using st1 unfolding absorbed_def by metis
next
  case (Some h)
  let ?w = "length (lnBytes (hrLine h)) + (if lnBytes (hrLine h) = [] then 0 else 1) + length (lnBytes l)"
  show ?thesis
  proof (cases "cont (lnBytes l) \<and> ?w \<le> MaxMessageLen \<and> hrLines h + 1 \<le> defaultMaxLines")
    case False
    then obtain st' where "replace_held j l now h st' = (r, st1)"
      and "st' \<in> {st, st\<lparr>jsMaxBytesSplits := jsMaxBytesSplits st + 1\<rparr>, st\<lparr>jsMaxLinesSplits := jsMaxLinesSplits st + 1\<rparr>}"
      using r Some by (simp add: absorb_def Let_def split: if_splits)
    with Some inv show ?thesis by (intro replace_held_inv) auto
  next
    case True
    then have st1: "r = None" "st1 = hold (extend_held j l now h) (lnSource l) st"
      using r Some by (auto simp: absorb_def Let_def split: if_splits)
    have "source_inv cont (ins @ [l]) st1 (lnSource l)"
      using extend_held_inv[OF inv[rule_format] Some refl] True st1 by simp
    moreover have "source_inv cont (ins @ [l]) st1 s" if "s \<noteq> lnSource l" for s
      using that inv st1 source_inv_other[of st1 st s cont ins] by (intro source_inv_read_other) auto
    ultimately show ?thesis using st1 unfolding absorbed_def by metis
  qed
qed

lemma sent_are_same:
  "of_source s (jsSent st1) = of_source s (jsSent st) \<Longrightarrow> sent_are cont ins st1 s rest \<longleftrightarrow> sent_are cont ins st s rest"
  by (simp add: sent_are_def)

lemma flushDue_inv:
  assumes "\<forall>s. source_inv cont ins st s" and "flushDue now ks st = (r, st1)"
  shows "\<forall>s. source_inv cont ins st1 s"
  using assms
proof (induction now ks st rule: flushDue.induct)
  case (2 now k ks st)
  show ?case
  proof (cases "\<exists>h. map_of (jsHeld st) k = Some h \<and> \<not> hrDeadline h > now")
    case False
    with 2 show ?thesis by (auto split: option.splits if_splits)
  next
    case True
    then obtain h where h: "map_of (jsHeld st) k = Some h" "\<not> hrDeadline h > now" by blast
    obtain q st2 where f: "flushOne h st = (q, st2)" by (cases "flushOne h st")
    show ?thesis
    proof (cases q)
      case None
      note fl = flush_source_inv[OF "2.prems"(1)[rule_format] h(1) f[unfolded None]]
      let ?st = "st2\<lparr>jsHeld := AList.delete k (jsHeld st2), jsTimeoutFlushes := jsTimeoutFlushes st2 + 1\<rparr>"
      have "source_inv cont ins ?st s" for s
      proof (cases "s = k")
        case True
        with fl(1) show ?thesis by (simp add: source_inv_def delete_conv' sent_are_def)
      next
        case False
        with "2.prems"(1) fl source_inv_other[of ?st st s cont ins] show ?thesis by (auto simp: delete_conv')
      qed
      moreover have "flushDue now ks ?st = (r, st1)" using "2.prems"(2) h f None by simp
      ultimately show ?thesis using "2.IH"(3)[OF h(1) _ f[symmetric] None] h(2) by blast
    next
      case (Some e)
      with "2.prems" h f chan_send_cases[of "hrLine h" st q st2] show ?thesis by (auto simp: flushOne_def)
    qed
  qed
qed simp

lemma flushAll_inv:
  assumes "distinct ks" and "\<forall>s \<in> set ks. source_inv cont ins st s" and "flushAll ks st = (r, st1)"
  shows "(\<forall>s. s \<notin> set ks \<longrightarrow> of_source s (jsSent st1) = of_source s (jsSent st)) \<and>
    (\<forall>s \<in> set ks. \<exists>rest. sent_are cont ins st1 s rest \<and> (r = None \<longrightarrow> rest = []))"
  using assms
proof (induction ks st rule: flushAll.induct)
  case (2 k ks st)
  have some: "\<exists>rest. sent_are cont ins st s rest" if "s \<in> set (k # ks)" for s
    using "2.prems"(2) that by (auto simp: source_inv_def split: option.splits)
  show ?case
  proof (cases "map_of (jsHeld st) k")
    case None
    then have "sent_are cont ins st k []" using "2.prems"(2) by (simp add: source_inv_def)
    with "2.IH"(1)[OF None] "2.prems" None sent_are_same[of k st1 st cont ins "[]"] show ?thesis by auto
  next
    case (Some h)
    obtain q st2 where f: "flushOne h st = (q, st2)" by (cases "flushOne h st")
    show ?thesis
    proof (cases q)
      case None
      have k: "source_inv cont ins st k" using "2.prems"(2) by simp
      note fl = flush_source_inv[OF k Some f[unfolded None]]
      have "source_inv cont ins st2 s" if "s \<in> set ks" for s
      proof -
        from that "2.prems"(1) fl(4) have "lnSource (hrLine h) \<noteq> s" by auto
        with that "2.prems"(2) fl(2,3) source_inv_other[of st2 st s cont ins] show ?thesis by auto
      qed
      then have "\<forall>s \<in> set ks. source_inv cont ins st2 s" by blast
      moreover have "flushAll ks st2 = (r, st1)" using "2.prems"(3) Some f None by simp
      ultimately have ih: "(\<forall>s. s \<notin> set ks \<longrightarrow> of_source s (jsSent st1) = of_source s (jsSent st2)) \<and>
          (\<forall>s \<in> set ks. \<exists>rest. sent_are cont ins st1 s rest \<and> (r = None \<longrightarrow> rest = []))"
        using "2.IH"(2)[OF Some f[symmetric] None] "2.prems"(1) by simp
      then have "sent_are cont ins st1 k []" using fl(1) "2.prems"(1) by (simp add: sent_are_def)
      with ih fl show ?thesis by auto
    next
      case (Some e)
      then have "st1 = st" "r = Some e"
        using "2.prems"(3) \<open>map_of (jsHeld st) k = Some h\<close> f chan_send_cases[of "hrLine h" st q st2]
        by (auto simp: flushOne_def)
      with some show ?thesis by auto
    qed
  qed
qed simp

fun lines_of :: "jevent list \<Rightarrow> Line list" where
  "lines_of (JLine l _ _ # es) = l # lines_of es"
| "lines_of (JTimer _ _ _ # es) = lines_of es"
| "lines_of _ = []"

text \<open>The loop that ends a run visits every key of the map once, in some order: an order that lists every
  source will do, since it skips the sources that hold nothing.\<close>

fun orders_ok :: "string set \<Rightarrow> jevent list \<Rightarrow> bool" where
  "orders_ok S (JClosed ks # es) \<longleftrightarrow> distinct ks \<and> S \<subseteq> set ks"
| "orders_ok S (e # es) \<longleftrightarrow> orders_ok S es"
| "orders_ok S [] \<longleftrightarrow> True"

definition run_faithful :: "(bytes \<Rightarrow> bool) \<Rightarrow> Line list \<Rightarrow> ctx_err option option \<Rightarrow> jstate \<Rightarrow> string \<Rightarrow> bool" where
  "run_faithful cont ins r st s \<longleftrightarrow> (\<exists>rest. sent_are cont ins st s rest \<and>
     (r = Some None \<longrightarrow> rest = []) \<and> (r = None \<longrightarrow> rest = [] \<or> chunk_ok cont rest))"

lemma sent_are_more: "sent_are cont ins st s rest \<Longrightarrow> sent_are cont (ins @ ls) st s (rest @ of_source s ls)"
  by (auto simp: sent_are_def)

lemma source_inv_sent_are: "source_inv cont ins st s \<Longrightarrow> \<exists>rest. sent_are cont ins st s rest \<and> (rest = [] \<or> chunk_ok cont rest)"
  by (auto simp: source_inv_def split: option.splits)

lemma cancelled_faithful:
  "source_inv cont ins st s \<Longrightarrow> run_faithful cont (ins @ ls) (Some (Some e)) st s"
  using source_inv_sent_are[of cont ins st s] sent_are_more[of cont ins st s _ ls]
  by (auto simp: run_faithful_def)

lemma runJoin_faithful:
  assumes "\<forall>s. source_inv cont ins st s" and "orders_ok (lnSource ` set (ins @ lines_of es)) es"
    and "runJoin cont j es st = (r, st1)"
  shows "\<forall>s. run_faithful cont (ins @ lines_of es) r st1 s"
  using assms
proof (induction cont j es st arbitrary: ins rule: runJoin.induct)
  case (1 cont j st)
  then show ?case using source_inv_sent_are[of cont ins st] by (simp add: run_faithful_def)
next
  case (2 cont j l now now' es st)
  obtain q st2 where a: "absorb cont j l now st = (q, st2)" by (cases "absorb cont j l now st")
  note inv = absorb_inv[OF "2.prems"(1) a]
  show ?case
  proof (cases q)
    case None
    have "\<forall>s. source_inv cont (ins @ [l]) (set_timer now' st2) s" using inv None by (simp add: absorbed_def)
    from "2.IH"[OF a[symmetric] None this] "2.prems"(2,3) a None show ?thesis by (simp add: insert_commute)
  next
    case (Some e)
    with inv "2.prems"(3) a cancelled_faithful[of cont ins st2 _ "l # lines_of es" e] show ?thesis
      by (simp add: absorbed_def)
  qed
next
  case (3 cont j now now' ks es st)
  obtain q st2 where a: "flushDue now ks st = (q, st2)" by (cases "flushDue now ks st")
  note inv = flushDue_inv[OF "3.prems"(1) a]
  show ?case
  proof (cases q)
    case None
    with inv have "\<forall>s. source_inv cont ins (set_timer now' st2) s" by simp
    from "3.IH"[OF a[symmetric] None this] "3.prems"(2,3) a None show ?thesis by simp
  next
    case (Some e)
    with inv "3.prems"(3) a cancelled_faithful[of cont ins st2 _ "lines_of es" e] show ?thesis by simp
  qed
next
  case (4 cont j ks es st)
  obtain q where a: "flushAll ks st = (q, st1)" and r: "r = Some q" using "4.prems"(3) by (auto split: prod.splits)
  have d: "distinct ks" "lnSource ` set ins \<subseteq> set ks" using "4.prems"(2) by auto
  from flushAll_inv[OF d(1) _ a, of cont ins] "4.prems"(1)
  have f: "\<forall>s. s \<notin> set ks \<longrightarrow> of_source s (jsSent st1) = of_source s (jsSent st)"
    "\<forall>s \<in> set ks. \<exists>rest. sent_are cont ins st1 s rest \<and> (q = None \<longrightarrow> rest = [])" by blast+
  have "run_faithful cont ins r st1 s" for s
  proof (cases "s \<in> set ks")
    case True
    with f(2) r show ?thesis by (auto simp: run_faithful_def)
  next
    case False
    with d(2) have "of_source s ins = []" by (auto simp: of_source_def filter_empty_conv)
    moreover obtain rest where "sent_are cont ins st s rest" using source_inv_sent_are "4.prems"(1) by blast
    moreover from this have "rest = []" using calculation(1) by (auto simp: sent_are_def)
    ultimately have "sent_are cont ins st1 s []" using f(1) False sent_are_same by blast
    with r show ?thesis by (auto simp: run_faithful_def)
  qed
  then show ?case by simp
next
  case (5 cont j es st)
  then show ?case using cancelled_faithful[of cont ins st _ "[]" Canceled] by auto
qed

lemma runPassthrough_faithful:
  assumes "\<forall>s. source_inv (\<lambda>_. False) ins st s" and "jsHeld st = []" and "runPassthrough es st = (r, st1)"
  shows "\<forall>s. run_faithful (\<lambda>_. False) (ins @ lines_of es) r st1 s"
  using assms
proof (induction es st arbitrary: ins rule: runPassthrough.induct)
  case (2 l now now' es st)
  obtain q st2 where c: "chan_send l st = (q, st2)" by (cases "chan_send l st")
  note cc = chan_send_cases[OF c]
  show ?case
  proof (cases q)
    case None
    have st2: "jsSent st2 = jsSent st @ [l]" "jsHeld st2 = []" using cc None "2.prems"(2) by auto
    have "source_inv (\<lambda>_. False) (ins @ [l]) st2 s" for s
    proof -
      have "sent_are (\<lambda>_. False) ins st s []" using "2.prems"(1,2) by (auto simp: source_inv_def)
      then have "sent_are (\<lambda>_. False) (ins @ [l]) st s (if lnSource l = s then [l] else [])"
        using sent_are_read[of "\<lambda>_. False" ins st s "[]" l] by auto
      then have "sent_are (\<lambda>_. False) (ins @ [l]) st2 s []"
        using sent_are_send[of "\<lambda>_. False" "ins @ [l]" st s "[l]" l st2] st2(1)
          sent_are_other[of l s st2 st "\<lambda>_. False" "ins @ [l]" "[]"] by (auto split: if_splits)
      then show ?thesis using st2(2) by (simp add: source_inv_def)
    qed
    with "2.IH"[OF c[symmetric] None, of "ins @ [l]"] "2.prems"(3) c None st2(2) show ?thesis by simp
  next
    case (Some e)
    with "2.prems" c cc cancelled_faithful[of "\<lambda>_. False" ins st _ "l # lines_of es" e] show ?thesis by auto
  qed
next
  case (4 ks es st)
  then show ?case by (auto simp: source_inv_def run_faithful_def)
next
  case (5 es st)
  then show ?case using cancelled_faithful[of "\<lambda>_. False" ins st _ "[]" Canceled] by auto
next
  case (1 st)
  then show ?case using source_inv_sent_are[of "\<lambda>_. False" ins st] by (simp add: run_faithful_def)
qed simp

lemma start_inv: "source_inv cont [] (joiner_start c) s"
  by (simp add: source_inv_def joiner_start_def sent_are_def)

text \<open>Bytes, start and end of a joined record.\<close>

lemma joined_cursor:
  "cs \<noteq> [] \<Longrightarrow> lnCursor (joined cs) = (lnCursor (last cs))\<lparr>curStart := curStart (lnCursor (hd cs))\<rparr> \<and>
     lnSource (joined cs) = lnSource (hd cs) \<and> lnTime (joined cs) = lnTime (hd cs)"
proof (induction cs rule: rev_induct)
  case (snoc l cs)
  then show ?case by (cases "cs = []") (auto simp: joined_snoc add_line_def)
qed simp

lemma joined_cursor_valid:
  assumes "cs \<noteq> []" and "list_all (\<lambda>l. cursor_valid (lnCursor l)) cs"
    and "sorted (map (\<lambda>l. curOffset (lnCursor l)) cs)"
  shows "cursor_valid (lnCursor (joined cs))"
proof -
  have "curOffset (lnCursor (hd cs)) \<le> curOffset (lnCursor (last cs))"
    using assms(1,3) by (induction cs) (auto split: if_splits)
  moreover have "cursor_valid (lnCursor (hd cs))" "cursor_valid (lnCursor (last cs))"
    using assms(1,2) by (auto simp: list_all_iff)
  ultimately show ?thesis using joined_cursor[OF assms(1)] by (auto simp: cursor_valid_def)
qed

text \<open>The timer sleeps until the earliest deadline.\<close>

lemma fold_earlier:
  assumes "zero_time \<notin> set ds" and "e \<noteq> zero_time"
  shows "fold earlier ds e = Min (insert e (set ds))"
  using assms
proof (induction ds arbitrary: e)
  case (Cons d ds)
  have "earlier d e = min d e" using Cons.prems by (auto simp: earlier_def)
  moreover have "min d e \<noteq> zero_time" using Cons.prems by (auto simp: min_def)
  ultimately have "fold earlier (d # ds) e = Min (insert (min d e) (set ds))" using Cons by simp
  also have "\<dots> = Min (insert e (set (d # ds)))" by (cases "set ds = {}") (auto simp: min.assoc min.commute min.left_commute)
  finally show ?case .
qed simp

lemma nextWait_earliest:
  assumes "zero_time \<notin> set ds"
  shows "nextWait ds now = (if ds = [] then idleWait else max (time_Sub (Min (set ds)) now) 0)"
proof (cases ds)
  case (Cons d ds')
  then have "fold earlier ds zero_time = Min (set ds)"
    using fold_earlier[of ds' d] assms by (simp add: earlier_def)
  moreover have "Min (set ds) \<noteq> zero_time" using assms Cons by (metis List.finite_set Min_in empty_iff set_empty list.distinct(1))
  ultimately show ?thesis using Cons by (simp add: nextWait_def)
qed (simp add: nextWait_def)

text \<open>After the timer's sweep nothing visited is overdue.\<close>

lemma flushDue_due:
  assumes "flushDue now ks st = (None, st1)"
  shows "(\<forall>k h. map_of (jsHeld st1) k = Some h \<longrightarrow> map_of (jsHeld st) k = Some h) \<and>
    (\<forall>k \<in> set ks. \<forall>h. map_of (jsHeld st1) k = Some h \<longrightarrow> hrDeadline h > now)"
  using assms
proof (induction ks arbitrary: st)
  case (Cons k ks)
  show ?case
  proof (cases "\<exists>h. map_of (jsHeld st) k = Some h \<and> \<not> hrDeadline h > now")
    case False
    then have "flushDue now ks st = (None, st1)" using Cons.prems by (auto split: option.splits if_splits)
    from Cons.IH[OF this] False show ?thesis by (metis set_ConsD)
  next
    case True
    then obtain h where h: "map_of (jsHeld st) k = Some h" "\<not> hrDeadline h > now" by blast
    obtain st2 where f: "flushOne h st = (None, st2)" using Cons.prems h by (auto split: prod.splits option.splits)
    have st2: "jsHeld st2 = jsHeld st" using chan_send_cases[OF f[unfolded flushOne_def]] by simp
    have "flushDue now ks (st2\<lparr>jsHeld := AList.delete k (jsHeld st2), jsTimeoutFlushes := jsTimeoutFlushes st2 + 1\<rparr>) = (None, st1)"
      using Cons.prems h f by simp
    from Cons.IH[OF this] show ?thesis
      by (simp add: delete_conv' st2 split: if_splits) (metis option.distinct(1))
  qed
qed simp

subsection \<open>Properties\<close>

definition continuation :: "Joiner \<Rightarrow> bytes \<Rightarrow> bool" where
  "continuation j = (case jnContinuation j of None \<Rightarrow> (\<lambda>_. False) | Some cont \<Rightarrow> cont)"

text \<open>C11. The multiline stage neither loses, duplicates, reorders nor mixes lines. For every sequence of
  lines, timer firings and cancellations, what has been sent for a source are, in order, the records made of
  consecutive groups of the lines read from that source: in a group every line but the first matches the
  continuation pattern, no group has more than 500 lines, and a record of several lines is at most
  \<^verbatim>\<open>MaxMessageLen\<close> bytes long. Only the end of what was read may be unsent: nothing of it when the run ended
  because its input was closed, and at most one such group while it is still running.\<close>

theorem joiner_faithful:
  assumes "orders_ok (lnSource ` set (lines_of es)) es" and "joiner_Run j es (joiner_start cancel) = (r, st)"
  shows "\<exists>chunks rest. list_all (chunk_ok (continuation j)) chunks \<and>
    of_source s (jsSent st) = map joined chunks \<and> of_source s (lines_of es) = concat chunks @ rest \<and>
    (r = Some None \<longrightarrow> rest = []) \<and> (r = None \<longrightarrow> rest = [] \<or> chunk_ok (continuation j) rest)"
proof (cases "jnContinuation j")
  case None
  then have "run_faithful (continuation j) (lines_of es) r st s"
    using runPassthrough_faithful[of "[]" "joiner_start cancel" es r st] start_inv assms(2)
    by (auto simp: joiner_Run_def continuation_def joiner_start_def)
  then show ?thesis unfolding run_faithful_def sent_are_def by blast
next
  case (Some cont)
  then have "run_faithful (continuation j) (lines_of es) r st s"
    using runJoin_faithful[of cont "[]" "joiner_start cancel" es j r st] start_inv assms
    by (simp add: joiner_Run_def continuation_def)
  then show ?thesis unfolding run_faithful_def sent_are_def by blast
qed

definition line_at :: "string \<Rightarrow> int \<Rightarrow> int \<Rightarrow> u64 \<Rightarrow> Line" where
  "line_at b start end ino = \<lparr>lnSource = ''app.log'', lnTime = 0, lnBytes = b, lnCursor =
     \<lparr>curStart = start, curOffset = end, curFile = \<lparr>fiDev = 1, fiIno = ino\<rparr>, curHead = noFingerprint\<rparr>\<rparr>"

definition indented :: "bytes \<Rightarrow> bool" where
  "indented b \<longleftrightarrow> b \<noteq> [] \<and> hd b = CHR '' ''"

definition trace_joiner :: Joiner where
  "trace_joiner = \<lparr>jnContinuation = Some indented, jnFlushTimeout = 5 * second\<rparr>"

definition trace_events :: "jevent list" where
  "trace_events = [JLine (line_at ''panic'' 100 106 7) 0 0, JLine (line_at '' at f'' 0 6 8) 0 0, JClosed [''app.log'']]"

lemmas joiner_eval = trace_joiner_def trace_events_def joiner_Run_def joiner_start_def absorb_def newHeld_def hold_def
  line_at_def indented_def extend_held_def flushOne_def chan_send_def defaultMaxLines_def MaxMessageLen_def
  set_timer_def

theorem joiner_faithful_witness:
  "\<exists>chunks. list_all (chunk_ok indented) chunks \<and>
     of_source ''app.log'' (jsSent (snd (joiner_Run trace_joiner trace_events (joiner_start None)))) = map joined chunks \<and>
     [line_at ''panic'' 100 106 7, line_at '' at f'' 0 6 8] = concat chunks"
proof -
  have o: "orders_ok (lnSource ` set (lines_of trace_events)) trace_events"
    by (simp add: trace_events_def line_at_def)
  obtain st where r: "joiner_Run trace_joiner trace_events (joiner_start None) = (Some None, st)"
    by (simp add: joiner_eval)
  have "of_source ''app.log'' (lines_of trace_events) = [line_at ''panic'' 100 106 7, line_at '' at f'' 0 6 8]"
    "continuation trace_joiner = indented"
    by (simp_all add: trace_events_def line_at_def trace_joiner_def continuation_def)
  with joiner_faithful[OF o r, of "''app.log''"] r show ?thesis by auto
qed

definition trace_record :: Line where
  "trace_record = hd (jsSent (snd (joiner_Run trace_joiner trace_events (joiner_start None))))"

text \<open>A record joined across a rotation can keep the agent from starting. A stack trace that begins in
  the old file and continues in the new one is joined into one record whose start is a position in the old
  file and whose end is one in the new file. Once it is acknowledged its cursor is committed, without an
  error, and from then on the agent refuses its checkpoint because the start lies after the end.\<close>

theorem joined_rotation_blocks_start:
  assumes "codec_ok js"
    and "check_Commit js io (check_Set (lnSource trace_record) (lnCursor trace_record) (NewCheckpointStore p)) d =
      (None, ds)"
  shows "check_Load js io_ok (NewCheckpointStore p) (last ds) =
    (Some (ErrBadCursor ''app.log'' StartAfterOffset), NewCheckpointStore p)"
proof -
  have t: "lnSource trace_record = ''app.log''" "curStart (lnCursor trace_record) = 100"
    "curOffset (lnCursor trace_record) = 6"
    by (simp_all add: trace_record_def joiner_eval)
  let ?m = "[(''app.log'', lnCursor trace_record)]"
  have "csCursors (check_Set (lnSource trace_record) (lnCursor trace_record) (NewCheckpointStore p)) = ?m"
    and path: "csPath (check_Set (lnSource trace_record) (lnCursor trace_record) (NewCheckpointStore p)) = p"
    by (simp_all add: t check_Set_def NewCheckpointStore_def)
  with assms(2) obtain data where data: "marshal js \<lparr>ckVersion = checkpointVersion, ckCursors = Some ?m\<rparr> = Some data"
    and w: "writeAtomic io p data True d = (None, ds)"
    by (auto elim!: Commit_split)
  have "keys_utf8 ?m" by (simp add: keys_utf8_def valid_string_ascii)
  with assms(1) data have "unmarshal js data = Some \<lparr>ckVersion = checkpointVersion, ckCursors = Some ?m\<rparr>"
    by (fastforce simp: codec_ok_def keys_utf8_def)
  moreover have "disk_get (last ds) p = Some (File data True)" using writeAtomic_result(3)[OF w] by simp
  moreover have "first_bad ?m = Some (ErrBadCursor ''app.log'' StartAfterOffset)"
    by (simp add: first_bad_def validateCursor_def t)
  ultimately show ?thesis by (simp add: check_Load_def NewCheckpointStore_def)
qed

definition trace_codec :: codec where
  "trace_codec = (let f = \<lparr>ckVersion = 1, ckCursors = Some [(''app.log'', lnCursor trace_record)]\<rparr> in
     \<lparr>marshal = (\<lambda>g. if g = f then Some ''x'' else None), unmarshal = (\<lambda>_. Some f)\<rparr>)"

theorem joined_rotation_blocks_start_witness:
  "\<exists>ds. check_Commit trace_codec io_ok
       (check_Set (lnSource trace_record) (lnCursor trace_record) (NewCheckpointStore ''ckpt'')) disk_ex = (None, ds) \<and>
     check_Load trace_codec io_ok (NewCheckpointStore ''ckpt'') (last ds) =
       (Some (ErrBadCursor ''app.log'' StartAfterOffset), NewCheckpointStore ''ckpt'')"
proof -
  let ?s = "check_Set (lnSource trace_record) (lnCursor trace_record) (NewCheckpointStore ''ckpt'')"
  have c: "codec_ok trace_codec" by (simp add: codec_ok_def trace_codec_def Let_def)
  have "lnSource trace_record = ''app.log''" by (simp add: trace_record_def joiner_eval)
  then have "marshal trace_codec \<lparr>ckVersion = checkpointVersion, ckCursors = Some (csCursors ?s)\<rparr> = Some ''x''"
    by (simp add: trace_codec_def check_Set_def NewCheckpointStore_def checkpointVersion_def Let_def)
  moreover have "csPath ?s = ''ckpt''" by (simp add: NewCheckpointStore_def)
  moreover have "fst (writeAtomic io_ok ''ckpt'' ''x'' True disk_ex) = None" by (simp add: writeAtomic_def Let_def)
  ultimately obtain ds where "check_Commit trace_codec io_ok ?s disk_ex = (None, ds)"
    by (cases "writeAtomic io_ok ''ckpt'' ''x'' True disk_ex") (simp add: check_Commit_def)
  with joined_rotation_blocks_start[OF c this] show ?thesis by blast
qed

end
