(* ===== verification/Shipper.thy ===== *)
theory Shipper
  imports Spool_Fifo Multiline
begin

text \<open>
  The shipper (\<^verbatim>\<open>internal/agent/shipper.go\<close>, \<^verbatim>\<open>internal/backoff/backoff.go\<close>): it batches lines per label set,
  sends the batches to the collector, spools what it cannot send, and moves the checkpoint on acknowledgements.

  All of its state is touched by one goroutine, the select loop of \<^verbatim>\<open>Run\<close>; every arm of that loop is one
  function here, and a run is a sequence of them. What the outside decides is in \<open>ship_env\<close>: the label
  resolver, the field extractor, protobuf's encoding, the outcome of each send and of each system call, the
  random draws. Each handler reads the clock once. Tracing spans carry no data and are left out; metrics are
  counters. Two fields are only written: \<open>shWire\<close> lists the batches handed to \<^verbatim>\<open>Send\<close>, and \<open>shSpooled\<close> what was
  appended to the spool together with its cursors.
\<close>

definition defaultMaxBatchRecords :: int where "defaultMaxBatchRecords = 500"
definition defaultMaxBatchBytes :: int where "defaultMaxBatchBytes = 512 * 1024"
definition defaultMaxBatchDelay :: duration where "defaultMaxBatchDelay = second"
definition defaultAckWindow :: int where "defaultAckWindow = 64"
definition defaultMinBackoff :: duration where "defaultMinBackoff = 250000000"
definition defaultMaxBackoff :: duration where "defaultMaxBackoff = 30 * second"

datatype AckCode = ACCEPTED | OVERLOADED | INVALID | INTERNAL | UNSPECIFIED

definition ackLabel :: "AckCode \<Rightarrow> string" where
  "ackLabel code = (case code of ACCEPTED \<Rightarrow> ''accepted'' | OVERLOADED \<Rightarrow> ''overloaded'' | INVALID \<Rightarrow> ''invalid''
     | _ \<Rightarrow> ''internal'')"

datatype drop_reason =
    NoLabels | InvalidRecord | RecordTooLarge | AckInvalid | CorruptSpoolEntry | EncodeFailed | SpoolAppendFailed

record accumulator =
  acLabels :: LabelSet
  acOverhead :: int
  acBytes :: int
  acRecords :: "pb_LogRecord list"
  acCursors :: "Cursor gomap"
  acDeadline :: gotime

text \<open>A cursor map may be nil, for entries that were in the spool before this run.\<close>

record outstanding =
  ouBatch :: pb_LogBatch
  ouCursors :: "Cursor gomap option"
  ouFromSpool :: bool

record ship_config =
  scSpool :: "spool_st option"
  scCheckpoint :: "CheckpointStore option"
  scLabels :: "(string \<Rightarrow> LabelSet option) option"
  scExtractor :: "(bytes \<Rightarrow> string gomap) option"
  scAddr :: string
  scMaxBatchRecords :: int
  scMaxBatchBytes :: int
  scMaxBatchDelay :: duration
  scAckWindow :: int
  scMinBackoff :: duration
  scMaxBackoff :: duration

record shipper =
  shLabels :: "string \<Rightarrow> LabelSet option"
  shExtractor :: "(bytes \<Rightarrow> string gomap) option"
  shMaxBatchRecords :: int
  shMaxBatchBytes :: int
  shMaxBatchDelay :: duration
  shAckWindow :: int
  shMinBackoff :: duration
  shMaxBackoff :: duration
  shSpool :: spool_st
  shCheckpoint :: CheckpointStore
  shCheckDisk :: disk
  shStream :: bool
  shAccums :: "(u64 \<times> accumulator) list"
  shAccumTimer :: duration
  shPendingAcks :: "outstanding list"
  shBatchSeq :: int
  shAttempt :: int
  shSendPaused :: bool
  shPauseTimer :: "duration option"
  shConnectRetry :: "duration option"
  shSpoolMeta :: "Cursor gomap option list"
  shDropped :: "drop_reason \<Rightarrow> int"
  shAcks :: "string \<Rightarrow> nat"
  shReconnects :: nat
  shCalls :: nat
  shDraws :: nat
  shWire :: "pb_LogBatch list"
  shSpooled :: "(bytes \<times> Cursor gomap option) list"

record ship_env =
  seLib :: golib
  seSizeRecord :: "pb_LogRecord \<Rightarrow> int"
  seSizeBatch :: "pb_LogBatch \<Rightarrow> int"
  seMarshal :: "pb_LogBatch \<Rightarrow> bytes option"
  seUnmarshal :: "bytes \<Rightarrow> pb_LogBatch option"
  seTrace :: "nat \<Rightarrow> string gomap"
  seSendFails :: "nat \<Rightarrow> bool"
  seIo :: "nat \<Rightarrow> io"
  seRand :: "nat \<Rightarrow> nat"
  seCodec :: codec

subsection \<open>Construction\<close>

datatype ship_err = SpoolRequired | CheckpointRequired | LabelsRequired | AddrRequired
  | BackoffOrder duration duration

definition or_default :: "int \<Rightarrow> int \<Rightarrow> int" where
  "or_default x d = (if x \<le> 0 then d else x)"

definition required :: "ship_config \<Rightarrow> ship_err list" where
  "required cfg =
     (if scSpool cfg = None then [SpoolRequired] else []) @
     (if scCheckpoint cfg = None then [CheckpointRequired] else []) @
     (if scLabels cfg = None then [LabelsRequired] else []) @
     (if scAddr cfg = [] then [AddrRequired] else [])"

text \<open>The state that \<^verbatim>\<open>Run\<close> starts from includes one placeholder per entry already in the spool; \<open>disk\<close> is the
  directory of the checkpoint file.\<close>

definition NewShipper :: "ship_config \<Rightarrow> disk \<Rightarrow> ship_err list + shipper" where
  "NewShipper cfg disk =
     (if required cfg \<noteq> [] then Inl (required cfg)
      else
        let minB = or_default (scMinBackoff cfg) defaultMinBackoff;
            maxB = or_default (scMaxBackoff cfg) defaultMaxBackoff in
        if minB > maxB then Inl [BackoffOrder minB maxB]
        else Inr \<lparr>shLabels = the (scLabels cfg), shExtractor = scExtractor cfg,
          shMaxBatchRecords = or_default (scMaxBatchRecords cfg) defaultMaxBatchRecords,
          shMaxBatchBytes = or_default (scMaxBatchBytes cfg) defaultMaxBatchBytes,
          shMaxBatchDelay = or_default (scMaxBatchDelay cfg) defaultMaxBatchDelay,
          shAckWindow = or_default (scAckWindow cfg) defaultAckWindow,
          shMinBackoff = minB, shMaxBackoff = maxB,
          shSpool = the (scSpool cfg), shCheckpoint = the (scCheckpoint cfg), shCheckDisk = disk,
          shStream = False, shAccums = [], shAccumTimer = idleWait, shPendingAcks = [], shBatchSeq = 0,
          shAttempt = 0, shSendPaused = False, shPauseTimer = None, shConnectRetry = None, shSpoolMeta = [],
          shDropped = (\<lambda>_. 0), shAcks = (\<lambda>_. 0), shReconnects = 0, shCalls = 0, shDraws = 0,
          shWire = [], shSpooled = []\<rparr>)"

definition seed_meta :: "shipper \<Rightarrow> shipper" where
  "seed_meta s = s\<lparr>shSpoolMeta := replicate (nat (spool_Len (fst (shSpool s)))) None\<rparr>"

subsection \<open>Backoff\<close>

definition backoff_Delay :: "nat \<Rightarrow> int \<Rightarrow> duration \<Rightarrow> duration \<Rightarrow> duration" where
  "backoff_Delay r attempt base maxDelay =
     (let attempt = (if attempt < 1 then 1 else attempt);
          delay = wrap64 (base * 2 ^ nat (min (attempt - 1) 16));
          delay = (if delay \<le> 0 \<or> delay > maxDelay then maxDelay else delay)
      in int r mod delay + 1)"

definition backoffDelay :: "ship_env \<Rightarrow> shipper \<Rightarrow> duration \<times> shipper" where
  "backoffDelay env s =
     (backoff_Delay (seRand env (shDraws s)) (shAttempt s + 1) (shMinBackoff s) (shMaxBackoff s),
      s\<lparr>shAttempt := shAttempt s + 1, shDraws := shDraws s + 1\<rparr>)"

definition armConnectRetry :: "ship_env \<Rightarrow> shipper \<Rightarrow> shipper" where
  "armConnectRetry env s = (case backoffDelay env s of
     (d, s1) \<Rightarrow> s1\<lparr>shConnectRetry := Some d, shReconnects := shReconnects s1 + 1\<rparr>)"

definition armPause :: "ship_env \<Rightarrow> shipper \<Rightarrow> shipper" where
  "armPause env s = (case backoffDelay env (s\<lparr>shSendPaused := True\<rparr>) of (d, s1) \<Rightarrow> s1\<lparr>shPauseTimer := Some d\<rparr>)"

subsection \<open>Spool and checkpoint\<close>

definition countDropped :: "drop_reason \<Rightarrow> int \<Rightarrow> shipper \<Rightarrow> shipper" where
  "countDropped reason n s =
     (if n \<le> 0 then s else s\<lparr>shDropped := (shDropped s)(reason := shDropped s reason + n)\<rparr>)"

definition appendToSpool :: "ship_env \<Rightarrow> pb_LogBatch \<Rightarrow> Cursor gomap option \<Rightarrow> shipper \<Rightarrow> shipper" where
  "appendToSpool env batch cursors s =
     (case seMarshal env batch of
        None \<Rightarrow> countDropped EncodeFailed (int (length (pbRecords batch))) s
      | Some data \<Rightarrow>
          (case spool_Append (seIo env (shCalls s)) data (shSpool s) of
             (Inl e, sp) \<Rightarrow> countDropped SpoolAppendFailed (int (length (pbRecords batch)))
                (s\<lparr>shSpool := sp, shCalls := shCalls s + 1\<rparr>)
           | (Inr evicted, sp) \<Rightarrow>
                (let cm = shSpoolMeta s @ [cursors];
                     evicted = (if evicted > int (length cm) then int (length cm) else evicted)
                 in s\<lparr>shSpool := sp, shCalls := shCalls s + 1, shSpoolMeta := drop (nat evicted) cm,
                      shSpooled := shSpooled s @ [(data, cursors)]\<rparr>)))"

definition peekSpoolMeta :: "shipper \<Rightarrow> Cursor gomap option" where
  "peekSpoolMeta s = (case shSpoolMeta s of [] \<Rightarrow> None | m # _ \<Rightarrow> m)"

definition popSpoolMeta :: "shipper \<Rightarrow> shipper" where
  "popSpoolMeta s = (case shSpoolMeta s of [] \<Rightarrow> s | _ # ms \<Rightarrow> s\<lparr>shSpoolMeta := ms\<rparr>)"

text \<open>The error of \<^verbatim>\<open>Release\<close> is ignored.\<close>

definition releaseSpool :: "ship_env \<Rightarrow> shipper \<Rightarrow> shipper" where
  "releaseSpool env s =
     popSpoolMeta (s\<lparr>shSpool := snd (spool_Release (seIo env (shCalls s)) (shSpool s)), shCalls := shCalls s + 1\<rparr>)"

definition advanceCheckpoint :: "string \<Rightarrow> Cursor \<Rightarrow> shipper \<Rightarrow> shipper" where
  "advanceCheckpoint source cur s =
     (case check_Get (shCheckpoint s) source of
        Some current \<Rightarrow>
          (if curFile cur = curFile current \<and> curOffset cur < curOffset current then s
           else s\<lparr>shCheckpoint := check_Set source cur (shCheckpoint s)\<rparr>)
      | None \<Rightarrow> s\<lparr>shCheckpoint := check_Set source cur (shCheckpoint s)\<rparr>)"

definition advance_all :: "Cursor gomap \<Rightarrow> shipper \<Rightarrow> shipper" where
  "advance_all m s = fold (\<lambda>(source, cur). advanceCheckpoint source cur) m s"

subsection \<open>Sending\<close>

definition demote_one :: "ship_env \<Rightarrow> outstanding \<Rightarrow> shipper \<Rightarrow> shipper" where
  "demote_one env ob s = (if ouFromSpool ob then s else appendToSpool env (ouBatch ob) (ouCursors ob) s)"

definition demoteOutstanding :: "ship_env \<Rightarrow> outstanding list \<Rightarrow> shipper \<Rightarrow> shipper" where
  "demoteOutstanding env obs s = fold (demote_one env) obs s"

definition demoteRemaining :: "ship_env \<Rightarrow> outstanding \<Rightarrow> shipper \<Rightarrow> shipper" where
  "demoteRemaining env ob s =
     (let s1 = demoteOutstanding env [ob] s in
      (demoteOutstanding env (shPendingAcks s1) s1)\<lparr>shPendingAcks := []\<rparr>)"

definition teardownStream :: "ship_env \<Rightarrow> shipper \<Rightarrow> shipper" where
  "teardownStream env s =
     armConnectRetry env ((demoteOutstanding env (shPendingAcks s) s)\<lparr>shPendingAcks := [], shStream := False\<rparr>)"

definition sendNow :: "ship_env \<Rightarrow> pb_LogBatch \<Rightarrow> Cursor gomap option \<Rightarrow> bool \<Rightarrow> shipper \<Rightarrow> shipper" where
  "sendNow env batch cursors fromSpool s =
     (let k = length (shWire s);
          batch = batch\<lparr>pbTraceContext := seTrace env k\<rparr>;
          s1 = s\<lparr>shWire := shWire s @ [batch], shPendingAcks := shPendingAcks s @
                 [\<lparr>ouBatch = batch, ouCursors = cursors, ouFromSpool = fromSpool\<rparr>]\<rparr>
      in if seSendFails env k then teardownStream env s1 else s1)"

definition dispatch :: "ship_env \<Rightarrow> pb_LogBatch \<Rightarrow> Cursor gomap \<Rightarrow> shipper \<Rightarrow> shipper" where
  "dispatch env batch cursors s =
     (if \<not> shStream s \<or> shSendPaused s \<or> spool_Len (fst (shSpool s)) > 0 \<or>
         int (length (shPendingAcks s)) \<ge> shAckWindow s
      then appendToSpool env batch (Some cursors) s
      else sendNow env batch (Some cursors) False s)"

text \<open>The loop over the spool ends unless releases keep failing; \<open>None\<close> means that it does not.\<close>

partial_function (option) drain_loop :: "ship_env \<Rightarrow> shipper \<Rightarrow> shipper option" where
  "drain_loop env s =
     (if spool_Len (fst (shSpool s)) \<le> 0 then Some s
      else case spool_Peek (seIo env (shCalls s)) (shSpool s) of
        Inl e \<Rightarrow> Some (s\<lparr>shCalls := shCalls s + 1\<rparr>)
      | Inr None \<Rightarrow> Some (s\<lparr>shCalls := shCalls s + 1\<rparr>)
      | Inr (Some payload) \<Rightarrow>
          (let s1 = s\<lparr>shCalls := shCalls s + 1\<rparr> in
           case seUnmarshal env payload of
             None \<Rightarrow> drain_loop env (releaseSpool env (countDropped CorruptSpoolEntry 1 s1))
           | Some batch \<Rightarrow> Some (sendNow env batch (peekSpoolMeta s1) True s1)))"

definition tryDrainSpool :: "ship_env \<Rightarrow> shipper \<Rightarrow> shipper option" where
  "tryDrainSpool env s =
     (if \<not> shStream s \<or> shSendPaused s \<or> shPendingAcks s \<noteq> [] then Some s else drain_loop env s)"

definition settle_spooled :: "ship_env \<Rightarrow> outstanding \<Rightarrow> shipper \<Rightarrow> shipper" where
  "settle_spooled env ob s = (if ouFromSpool ob then releaseSpool env s else s)"

definition settleAck :: "ship_env \<Rightarrow> AckCode \<Rightarrow> outstanding \<Rightarrow> shipper \<Rightarrow> shipper" where
  "settleAck env code ob s =
     (case code of
        ACCEPTED \<Rightarrow>
          (settle_spooled env ob (advance_all (case ouCursors ob of None \<Rightarrow> [] | Some m \<Rightarrow> m) s))\<lparr>shAttempt := 0\<rparr>
      | OVERLOADED \<Rightarrow> armPause env (demoteRemaining env ob s)
      | INVALID \<Rightarrow> settle_spooled env ob (countDropped AckInvalid (int (length (pbRecords (ouBatch ob)))) s)
      | _ \<Rightarrow> demoteRemaining env ob s)"

definition processAck :: "ship_env \<Rightarrow> AckCode \<Rightarrow> shipper \<Rightarrow> shipper option" where
  "processAck env code s =
     (case shPendingAcks s of
        [] \<Rightarrow> Some s
      | ob # obs \<Rightarrow>
          tryDrainSpool env (settleAck env code ob
            (s\<lparr>shPendingAcks := obs, shAcks := (shAcks s)(ackLabel code := shAcks s (ackLabel code) + 1)\<rparr>)))"

subsection \<open>Accumulating\<close>

definition levelOf :: "golib \<Rightarrow> string gomap \<Rightarrow> int" where
  "levelOf L fm = (case ParseLevel L (goget fm ''level'') of Inr lvl \<Rightarrow> lvl | Inl _ \<Rightarrow> LevelUnspecified)"

definition envelope :: "LabelSet \<Rightarrow> pb_LogBatch" where
  "envelope labels = \<lparr>pbBatchId = ''agent-'' @ itoa 18446744073709551615, pbLabels = Some (labels_Proto labels),
     pbRecords = [], pbTraceContext = [(''traceparent'', replicate 55 (CHR ''0''))]\<rparr>"

definition newAccumulator :: "ship_env \<Rightarrow> LabelSet \<Rightarrow> gotime \<Rightarrow> shipper \<Rightarrow> accumulator" where
  "newAccumulator env labels now s =
     \<lparr>acLabels = labels, acOverhead = seSizeBatch env (envelope labels), acBytes = 0, acRecords = [], acCursors = [],
      acDeadline = now + shMaxBatchDelay s\<rparr>"

definition put_accum :: "u64 \<Rightarrow> accumulator \<Rightarrow> shipper \<Rightarrow> shipper" where
  "put_accum i a s = s\<lparr>shAccums := AList.update i a (shAccums s)\<rparr>"

definition flushAccum :: "ship_env \<Rightarrow> u64 \<Rightarrow> shipper \<Rightarrow> shipper" where
  "flushAccum env i s =
     (case map_of (shAccums s) i of
        None \<Rightarrow> s
      | Some a \<Rightarrow>
          (let s1 = s\<lparr>shAccums := AList.delete i (shAccums s)\<rparr> in
           if acRecords a = [] then advance_all (acCursors a) s1
           else
             let n = wrap64 (shBatchSeq s1 + 1) in
             dispatch env \<lparr>pbBatchId = ''agent-'' @ itoa_int n, pbLabels = Some (labels_Proto (acLabels a)),
                 pbRecords = acRecords a, pbTraceContext = []\<rparr> (acCursors a) (s1\<lparr>shBatchSeq := n\<rparr>)))"

definition rearmAccumTimer :: "gotime \<Rightarrow> shipper \<Rightarrow> shipper" where
  "rearmAccumTimer now s = s\<lparr>shAccumTimer := nextWait (map (acDeadline \<circ> snd) (shAccums s)) now\<rparr>"

definition line_record :: "ship_env \<Rightarrow> Line \<Rightarrow> shipper \<Rightarrow> LogRecord" where
  "line_record env l s =
     (let fm = (case shExtractor s of None \<Rightarrow> [] | Some ex \<Rightarrow> ex (lnBytes l)) in
      \<lparr>rStreamID = 0, rTime = lnTime l, rSeq = curStart (lnCursor l), rLevel = levelOf (seLib env) fm,
       rMessage = lnBytes l, rTraceID = [], rSpanID = [], rFields = fm\<rparr>)"

definition add_record :: "pb_LogRecord option \<Rightarrow> int \<Rightarrow> Line \<Rightarrow> accumulator \<Rightarrow> accumulator" where
  "add_record pb sz l a =
     (let a1 = a\<lparr>acCursors := AList.update (lnSource l) (lnCursor l) (acCursors a)\<rparr> in
      case pb of None \<Rightarrow> a1 | Some r \<Rightarrow> a1\<lparr>acRecords := acRecords a @ [r], acBytes := acBytes a + sz\<rparr>)"

definition pick_accum :: "ship_env \<Rightarrow> gotime \<Rightarrow> LabelSet \<Rightarrow> u64 \<Rightarrow> shipper \<Rightarrow> accumulator \<times> shipper" where
  "pick_accum env now labels i s =
     (case map_of (shAccums s) i of
        Some a \<Rightarrow> (a, s)
      | None \<Rightarrow> (let a = newAccumulator env labels now s in (a, put_accum i a s)))"

definition make_room ::
  "ship_env \<Rightarrow> gotime \<Rightarrow> LabelSet \<Rightarrow> u64 \<Rightarrow> int \<Rightarrow> accumulator \<times> shipper \<Rightarrow> accumulator \<times> shipper" where
  "make_room env now labels i sz = (\<lambda>(a, s).
     if acRecords a \<noteq> [] \<and> acOverhead a + acBytes a + sz > shMaxBatchBytes s
     then (let s1 = flushAccum env i s; a1 = newAccumulator env labels now s1 in (a1, put_accum i a1 s1))
     else (a, s))"

definition store_line ::
  "ship_env \<Rightarrow> pb_LogRecord option \<Rightarrow> int \<Rightarrow> Line \<Rightarrow> u64 \<Rightarrow> accumulator \<Rightarrow> shipper \<Rightarrow> shipper" where
  "store_line env pb sz l i a s =
     (let a1 = add_record pb sz l a; s1 = put_accum i a1 s in
      if int (length (acRecords a1)) \<ge> shMaxBatchRecords s1 then flushAccum env i s1 else s1)"

definition addLine :: "ship_env \<Rightarrow> gotime \<Rightarrow> Line \<Rightarrow> shipper \<Rightarrow> shipper" where
  "addLine env now l s =
     (case shLabels s (lnSource l) of
        None \<Rightarrow> countDropped NoLabels 1 s
      | Some labels \<Rightarrow>
          (let i = label_ID (seLib env) labels;
               (a, s1) = pick_accum env now labels i s;
               rec = line_record env l s;
               s3 = (if record_Validate now rec = None then
                       let pb = record_Proto rec;
                           sz = seSizeRecord env pb;
                           (a2, s2) = make_room env now labels i sz (a, s1)
                       in if acOverhead a2 + sz > shMaxBatchBytes s2
                          then store_line env None sz l i a2 (countDropped RecordTooLarge 1 s2)
                          else store_line env (Some pb) sz l i a2 s2
                     else store_line env None 0 l i a (countDropped InvalidRecord 1 s1))
           in rearmAccumTimer now s3))"

definition flush_due_one :: "ship_env \<Rightarrow> gotime \<Rightarrow> u64 \<Rightarrow> shipper \<Rightarrow> shipper" where
  "flush_due_one env now i s =
     (case map_of (shAccums s) i of
        None \<Rightarrow> s
      | Some a \<Rightarrow> if acDeadline a > now then s else flushAccum env i s)"

definition flushDueAccums :: "ship_env \<Rightarrow> gotime \<Rightarrow> shipper \<Rightarrow> shipper" where
  "flushDueAccums env now s = fold (flush_due_one env now) (sort_key sint (map fst (shAccums s))) s"

definition flushAllAccums :: "ship_env \<Rightarrow> shipper \<Rightarrow> shipper" where
  "flushAllAccums env s = fold (flushAccum env) (sort_key sint (map fst (shAccums s))) s"

subsection \<open>The loop\<close>

definition tryConnect :: "ship_env \<Rightarrow> bool \<Rightarrow> shipper \<Rightarrow> shipper option" where
  "tryConnect env connects s =
     (if connects then tryDrainSpool env (s\<lparr>shStream := True, shAttempt := 0\<rparr>) else Some (armConnectRetry env s))"

definition commit :: "ship_env \<Rightarrow> shipper \<Rightarrow> checkpoint_err option \<times> shipper" where
  "commit env s =
     (case check_Commit (seCodec env) (seIo env (shCalls s)) (shCheckpoint s) (shCheckDisk s) of
        (e, ds) \<Rightarrow> (e, s\<lparr>shCheckDisk := last ds, shCalls := shCalls s + 1\<rparr>))"

datatype ship_event =
    EvLine Line gotime
  | EvAccumTimer gotime
  | EvConnectRetry bool
  | EvPauseOver
  | EvAck AckCode
  | EvStreamEnd
  | EvCommit

text \<open>Which arms of the select can fire.\<close>

fun enabled :: "ship_event \<Rightarrow> shipper \<Rightarrow> bool" where
  "enabled (EvConnectRetry _) s \<longleftrightarrow> shConnectRetry s \<noteq> None"
| "enabled EvPauseOver s \<longleftrightarrow> shPauseTimer s \<noteq> None"
| "enabled (EvAck _) s \<longleftrightarrow> shStream s"
| "enabled EvStreamEnd s \<longleftrightarrow> shStream s"
| "enabled _ s \<longleftrightarrow> True"

fun ship_step :: "ship_env \<Rightarrow> ship_event \<Rightarrow> shipper \<Rightarrow> shipper option" where
  "ship_step env (EvLine l now) s = Some (addLine env now l s)"
| "ship_step env (EvAccumTimer now) s = Some (rearmAccumTimer now (flushDueAccums env now s))"
| "ship_step env (EvConnectRetry connects) s = tryConnect env connects (s\<lparr>shConnectRetry := None\<rparr>)"
| "ship_step env EvPauseOver s = tryDrainSpool env (s\<lparr>shPauseTimer := None, shSendPaused := False\<rparr>)"
| "ship_step env (EvAck code) s = processAck env code s"
| "ship_step env EvStreamEnd s = Some (teardownStream env s)"
| "ship_step env EvCommit s = Some (snd (commit env s))"

text \<open>\<^verbatim>\<open>Run\<close> up to the end of its loop: connect once, then react.\<close>

inductive ship_reach :: "ship_env \<Rightarrow> shipper \<Rightarrow> shipper \<Rightarrow> bool" for env s0 where
  start: "tryConnect env connects (seed_meta s0) = Some s \<Longrightarrow> ship_reach env s0 s"
| step: "ship_reach env s0 s \<Longrightarrow> enabled ev s \<Longrightarrow> ship_step env ev s = Some s' \<Longrightarrow> ship_reach env s0 s'"

text \<open>Shutdown: the acknowledgements that still arrive, \<open>None\<close> for the end of the stream; the list ends when the
  deadline passes.\<close>

fun wait_acks :: "ship_env \<Rightarrow> AckCode option list \<Rightarrow> shipper \<Rightarrow> shipper option" where
  "wait_acks env [] s = Some s"
| "wait_acks env (r # rs) s =
     (if shPendingAcks s = [] then Some s
      else case r of
        None \<Rightarrow> Some s
      | Some code \<Rightarrow> Option.bind (processAck env code s) (wait_acks env rs))"

definition shutdown :: "ship_env \<Rightarrow> AckCode option list \<Rightarrow> shipper \<Rightarrow> (checkpoint_err option \<times> shipper) option" where
  "shutdown env acks s =
     (let s1 = flushAllAccums env s in
      Option.bind (if shStream s1 then wait_acks env acks s1 else Some s1)
        (\<lambda>s2. Some (commit env ((demoteOutstanding env (shPendingAcks s2) s2)\<lparr>shPendingAcks := []\<rparr>))))"

end
