(* ===== verification/Ship_Safety.thy ===== *)
theory Ship_Safety
  imports Shipper
begin

text \<open>
  What holds in every state a shipper reaches. The interface \<open>ship_invariant\<close> lists what a predicate has to
  withstand, one law per kind of state change the shipper makes; what follows for all handlers and all runs is
  proved once, in the locale.
\<close>

subsection \<open>What the small steps leave alone\<close>

definition ship_conf ::
  "shipper \<Rightarrow> (string \<Rightarrow> LabelSet option) \<times> (bytes \<Rightarrow> string gomap) option \<times> int \<times> int \<times> duration \<times> int \<times> duration \<times> duration" where
  "ship_conf s = (shLabels s, shExtractor s, shMaxBatchRecords s, shMaxBatchBytes s, shMaxBatchDelay s,
     shAckWindow s, shMinBackoff s, shMaxBackoff s)"

abbreviation same_frame :: "shipper \<Rightarrow> shipper \<Rightarrow> bool" where
  "same_frame s s' \<equiv> shAccums s' = shAccums s \<and> shCheckpoint s' = shCheckpoint s \<and> ship_conf s' = ship_conf s"

lemma countDropped_frame [simp]: "same_frame s (countDropped r n s)"
  by (simp add: countDropped_def ship_conf_def)

lemma appendToSpool_frame [simp]: "same_frame s (appendToSpool env b c s)"
  by (auto simp: appendToSpool_def Let_def countDropped_def ship_conf_def split: option.split prod.split sum.split)

lemma popSpoolMeta_frame [simp]: "same_frame s (popSpoolMeta s)"
  by (simp add: popSpoolMeta_def ship_conf_def split: list.split)

lemma releaseSpool_frame [simp]: "same_frame s (releaseSpool env s)"
  by (simp add: releaseSpool_def) (simp add: ship_conf_def)

lemma arm_frame [simp]: "same_frame s (armConnectRetry env s)" "same_frame s (armPause env s)"
  by (simp_all add: armConnectRetry_def armPause_def backoffDelay_def ship_conf_def)

lemma demote_frame [simp]: "same_frame s (demoteOutstanding env obs s)"
  unfolding demoteOutstanding_def
  by (induction obs arbitrary: s) (simp_all add: demote_one_def)

lemma ship_conf_upd [simp]:
  "ship_conf (s\<lparr>shPendingAcks := x1\<rparr>) = ship_conf s" "ship_conf (s\<lparr>shStream := x2\<rparr>) = ship_conf s"
  "ship_conf (s\<lparr>shWire := x3\<rparr>) = ship_conf s" "ship_conf (s\<lparr>shCalls := x4\<rparr>) = ship_conf s"
  "ship_conf (s\<lparr>shAccums := x5\<rparr>) = ship_conf s" "ship_conf (s\<lparr>shAttempt := x6\<rparr>) = ship_conf s"
  "ship_conf (s\<lparr>shAcks := x7\<rparr>) = ship_conf s" "ship_conf (s\<lparr>shBatchSeq := x8\<rparr>) = ship_conf s"
  "ship_conf (s\<lparr>shCheckpoint := x9\<rparr>) = ship_conf s" "ship_conf (s\<lparr>shConnectRetry := y1\<rparr>) = ship_conf s"
  "ship_conf (s\<lparr>shSendPaused := y2\<rparr>) = ship_conf s" "ship_conf (s\<lparr>shPauseTimer := y3\<rparr>) = ship_conf s"
  "ship_conf (s\<lparr>shAccumTimer := y4\<rparr>) = ship_conf s" "ship_conf (s\<lparr>shCheckDisk := y5\<rparr>) = ship_conf s"
  "ship_conf (s\<lparr>shSpoolMeta := y6\<rparr>) = ship_conf s" "ship_conf (s\<lparr>shDropped := y7\<rparr>) = ship_conf s"
  by (simp_all add: ship_conf_def)

lemma teardown_frame [simp]: "same_frame s (teardownStream env s)"
  by (simp add: teardownStream_def)

lemma sendNow_frame [simp]: "same_frame s (sendNow env b c f s)"
  by (simp add: sendNow_def Let_def)

lemma dispatch_frame [simp]: "same_frame s (dispatch env b c s)"
  by (simp add: dispatch_def)

lemma drain_frame: "drain_loop env s = Some s' \<Longrightarrow> same_frame s s'"
proof (induction rule: drain_loop.raw_induct[rotated, consumes 1, case_names step])
  case (step f env s y)
  then show ?case
    by (fastforce simp: Let_def split: if_splits sum.splits option.splits)
qed

lemma tryDrain_frame: "tryDrainSpool env s = Some s' \<Longrightarrow> same_frame s s'"
  by (auto simp: tryDrainSpool_def dest!: drain_frame split: if_splits)

subsection \<open>Batches within their limits\<close>

definition sizes :: "ship_env \<Rightarrow> pb_LogRecord list \<Rightarrow> int" where
  "sizes env rs = sum_list (map (seSizeRecord env) rs)"

definition accum_ok :: "ship_env \<Rightarrow> shipper \<Rightarrow> int \<Rightarrow> accumulator \<Rightarrow> bool" where
  "accum_ok env s k a \<longleftrightarrow> acOverhead a = seSizeBatch env (envelope (acLabels a)) \<and>
     acBytes a = sizes env (acRecords a) \<and> int (length (acRecords a)) \<le> k \<and>
     (acRecords a \<noteq> [] \<longrightarrow> acOverhead a + acBytes a \<le> shMaxBatchBytes s)"

definition accums_ok :: "ship_env \<Rightarrow> shipper \<Rightarrow> bool" where
  "accums_ok env s \<longleftrightarrow> 0 < shMaxBatchRecords s \<and>
     (\<forall>i a. map_of (shAccums s) i = Some a \<longrightarrow> accum_ok env s (shMaxBatchRecords s - 1) a)"

definition formed :: "ship_env \<Rightarrow> shipper \<Rightarrow> pb_LogBatch \<Rightarrow> bool" where
  "formed env s b \<longleftrightarrow> pbRecords b \<noteq> [] \<and> int (length (pbRecords b)) \<le> shMaxBatchRecords s \<and>
     (\<exists>labels. pbLabels b = Some (labels_Proto labels) \<and>
        seSizeBatch env (envelope labels) + sizes env (pbRecords b) \<le> shMaxBatchBytes s)"

lemma conf_eqs:
  assumes "ship_conf s' = ship_conf s"
  shows "shMaxBatchRecords s' = shMaxBatchRecords s" "shMaxBatchBytes s' = shMaxBatchBytes s"
    "shAckWindow s' = shAckWindow s" "shMaxBatchDelay s' = shMaxBatchDelay s" "shLabels s' = shLabels s"
    "shMinBackoff s' = shMinBackoff s" "shMaxBackoff s' = shMaxBackoff s"
  using assms by (simp_all add: ship_conf_def)

lemma accum_ok_conf: "ship_conf s' = ship_conf s \<Longrightarrow> accum_ok env s' k a \<longleftrightarrow> accum_ok env s k a"
  using conf_eqs(2)[of s' s] by (simp add: accum_ok_def)

lemma accums_ok_conf:
  "ship_conf s' = ship_conf s \<Longrightarrow> shAccums s' = shAccums s \<Longrightarrow> accums_ok env s' \<longleftrightarrow> accums_ok env s"
  using conf_eqs(1)[of s' s] accum_ok_conf[of s' s] by (simp add: accums_ok_def)

lemma accums_ok_frame: "same_frame s s' \<Longrightarrow> accums_ok env s \<Longrightarrow> accums_ok env s'"
  using accums_ok_conf by blast

lemma put_frame [simp]:
  "ship_conf (put_accum i a s) = ship_conf s" "shCheckpoint (put_accum i a s) = shCheckpoint s"
  "map_of (shAccums (put_accum i a s)) j = (if j = i then Some a else map_of (shAccums s) j)"
  by (simp_all add: put_accum_def update_conv')

lemma accums_ok_put:
  assumes "accums_ok env s" and "accum_ok env s (shMaxBatchRecords s - 1) a"
  shows "accums_ok env (put_accum i a s)"
proof -
  have c: "ship_conf (put_accum i a s) = ship_conf s" by simp
  show ?thesis using assms conf_eqs(1)[OF c] accum_ok_conf[OF c] by (simp add: accums_ok_def)
qed

lemma accums_ok_delete:
  assumes "accums_ok env s"
  shows "accums_ok env (s\<lparr>shAccums := AList.delete i (shAccums s)\<rparr>)"
proof -
  have c: "ship_conf (s\<lparr>shAccums := AList.delete i (shAccums s)\<rparr>) = ship_conf s" by simp
  show ?thesis using assms conf_eqs(1)[OF c] accum_ok_conf[OF c] by (simp add: accums_ok_def delete_conv')
qed

lemma new_accum_ok: "0 \<le> k \<Longrightarrow> accum_ok env s k (newAccumulator env labels now s')"
  by (simp add: accum_ok_def newAccumulator_def sizes_def)

lemma ship_ctl:
  "shPendingAcks (countDropped r n s) = shPendingAcks s" "shStream (countDropped r n s) = shStream s"
  "shPendingAcks (releaseSpool env s) = shPendingAcks s" "shStream (releaseSpool env s) = shStream s"
  "shPendingAcks (advance_all m s) = shPendingAcks s"
proof -
  show "shPendingAcks (advance_all m s) = shPendingAcks s"
    unfolding advance_all_def
    by (induction m arbitrary: s) (auto simp: advanceCheckpoint_def split: option.split)
qed (simp_all add: countDropped_def releaseSpool_def popSpoolMeta_def split: list.split)

lemma advance_all_frame [simp]:
  "shAccums (advance_all m s) = shAccums s" "ship_conf (advance_all m s) = ship_conf s"
  unfolding advance_all_def
  by (induction m arbitrary: s) (auto simp: advanceCheckpoint_def split: option.split)

lemma flush_frame [simp]:
  "map_of (shAccums (flushAccum env i s)) = (map_of (shAccums s))(i := None)"
  "ship_conf (flushAccum env i s) = ship_conf s"
  by (auto simp: flushAccum_def Let_def delete_conv' fun_upd_idem split: option.split)

lemma settle_frame [simp]: "same_frame s (settle_spooled env ob s)"
  by (simp add: settle_spooled_def)

lemma ack_accums:
  assumes "processAck env code s = Some s'"
  shows "shAccums s' = shAccums s \<and> ship_conf s' = ship_conf s"
proof (cases "shPendingAcks s")
  case Nil
  with assms show ?thesis by (simp add: processAck_def)
next
  case (Cons ob obs)
  let ?s = "s\<lparr>shPendingAcks := obs, shAcks := (shAcks s)(ackLabel code := shAcks s (ackLabel code) + 1)\<rparr>"
  have "shAccums (settleAck env code ob ?s) = shAccums s \<and> ship_conf (settleAck env code ob ?s) = ship_conf s"
    by (simp add: settleAck_def demoteRemaining_def Let_def split: AckCode.split)
  with assms Cons show ?thesis using tryDrain_frame[of env "settleAck env code ob ?s" s'] by (simp add: processAck_def)
qed

text \<open>All accumulators but one are below their limits.\<close>

definition accums_except :: "ship_env \<Rightarrow> u64 \<Rightarrow> shipper \<Rightarrow> bool" where
  "accums_except env i s \<longleftrightarrow> 0 < shMaxBatchRecords s \<and>
     (\<forall>j a. j \<noteq> i \<longrightarrow> map_of (shAccums s) j = Some a \<longrightarrow> accum_ok env s (shMaxBatchRecords s - 1) a)"

lemma accums_except_put: "accums_ok env s \<Longrightarrow> accums_except env i (put_accum i a s)"
  using conf_eqs(1)[of "put_accum i a s" s] accum_ok_conf[of "put_accum i a s" s]
  by (simp add: accums_ok_def accums_except_def)

lemma accums_ok_flush: "accums_except env i s \<Longrightarrow> accums_ok env (flushAccum env i s)"
  using conf_eqs(1)[of "flushAccum env i s" s] accum_ok_conf[of "flushAccum env i s" s]
  by (simp add: accums_ok_def accums_except_def)

lemma accums_ok_except: "accums_ok env s \<Longrightarrow> accums_except env i s"
  by (simp add: accums_ok_def accums_except_def)

lemma accum_ok_mono: "accum_ok env s k a \<Longrightarrow> k \<le> k' \<Longrightarrow> accum_ok env s k' a"
  by (auto simp: accum_ok_def)

subsection \<open>The interface\<close>

definition post :: "ship_env \<Rightarrow> pb_LogBatch \<Rightarrow> Cursor gomap option \<Rightarrow> bool \<Rightarrow> shipper \<Rightarrow> shipper" where
  "post env b c fromSpool s =
     (let b = b\<lparr>pbTraceContext := seTrace env (length (shWire s))\<rparr> in
      s\<lparr>shWire := shWire s @ [b],
        shPendingAcks := shPendingAcks s @ [\<lparr>ouBatch = b, ouCursors = c, ouFromSpool = fromSpool\<rparr>]\<rparr>)"

lemma sendNow_post:
  "sendNow env b c f s =
     (if seSendFails env (length (shWire s)) then teardownStream env (post env b c f s) else post env b c f s)"
  by (simp add: sendNow_def post_def Let_def)

locale ship_invariant =
  fixes env :: ship_env and P :: "shipper \<Rightarrow> bool"
  assumes P_append: "P s \<Longrightarrow> P (appendToSpool env b c s)"
    and P_release: "P s \<Longrightarrow> shPendingAcks s = [] \<Longrightarrow> P (releaseSpool env s)"
    and P_count: "P s \<Longrightarrow> P (countDropped r n s)"
    and P_calls: "P s \<Longrightarrow> P (s\<lparr>shCalls := n'\<rparr>)"
    and P_fresh: "P s \<Longrightarrow> shStream s \<Longrightarrow> \<not> spool_Len (fst (shSpool s)) > 0 \<Longrightarrow>
      int (length (shPendingAcks s)) < shAckWindow s \<Longrightarrow> formed env s b \<Longrightarrow> P (post env b (Some m) False s)"
    and P_replay: "P s \<Longrightarrow> shStream s \<Longrightarrow> shPendingAcks s = [] \<Longrightarrow> spool_Len (fst (shSpool s)) > 0 \<Longrightarrow>
      spool_Peek (seIo env k) (shSpool s) = Inr (Some payload) \<Longrightarrow> seUnmarshal env payload = Some b \<Longrightarrow>
      P (post env b (peekSpoolMeta s) True s)"
    and P_pop: "P s \<Longrightarrow> shPendingAcks s = ob # obs \<Longrightarrow> P (s\<lparr>shPendingAcks := obs, shAcks := f\<rparr>)"
    and P_single: "P s \<Longrightarrow> shPendingAcks s = ob # obs \<Longrightarrow> ouFromSpool ob \<Longrightarrow> obs = []"
    and P_clear: "P s \<Longrightarrow> P (s\<lparr>shPendingAcks := []\<rparr>)"
    and P_down: "P s \<Longrightarrow> P (armConnectRetry env (s\<lparr>shPendingAcks := [], shStream := False\<rparr>))"
    and P_retry: "P s \<Longrightarrow> P (armConnectRetry env (s\<lparr>shConnectRetry := None\<rparr>))"
    and P_up: "P s \<Longrightarrow> P (s\<lparr>shConnectRetry := None, shStream := True, shAttempt := 0\<rparr>)"
    and P_pause: "P s \<Longrightarrow> P (armPause env s)"
    and P_resume: "P s \<Longrightarrow> P (s\<lparr>shPauseTimer := None, shSendPaused := False\<rparr>)"
    and P_attempt: "P s \<Longrightarrow> P (s\<lparr>shAttempt := a\<rparr>)"
    and P_checkpoint: "P s \<Longrightarrow> P (s\<lparr>shCheckpoint := ck\<rparr>)"
    and P_accums: "P s \<Longrightarrow> P (s\<lparr>shAccums := as\<rparr>)"
    and P_seq: "P s \<Longrightarrow> P (s\<lparr>shBatchSeq := q\<rparr>)"
    and P_timer: "P s \<Longrightarrow> P (s\<lparr>shAccumTimer := t\<rparr>)"
    and P_disk: "P s \<Longrightarrow> P (s\<lparr>shCheckDisk := d\<rparr>)"
begin

lemma P_demote: "P s \<Longrightarrow> P (demoteOutstanding env obs s)"
  unfolding demoteOutstanding_def
  by (induction obs arbitrary: s) (simp_all add: demote_one_def P_append)

lemma P_demoteRemaining: "P s \<Longrightarrow> P (demoteRemaining env ob s)"
  by (simp add: demoteRemaining_def Let_def P_demote P_clear)

lemma P_teardown: "P s \<Longrightarrow> P (teardownStream env s)"
  by (simp add: teardownStream_def P_demote P_down)

lemma P_send_fresh:
  "P s \<Longrightarrow> shStream s \<Longrightarrow> \<not> spool_Len (fst (shSpool s)) > 0 \<Longrightarrow> int (length (shPendingAcks s)) < shAckWindow s \<Longrightarrow>
   formed env s b \<Longrightarrow> P (sendNow env b (Some m) False s)"
  by (simp add: sendNow_post P_fresh P_teardown)

lemma P_dispatch: "P s \<Longrightarrow> formed env s b \<Longrightarrow> P (dispatch env b m s)"
  by (auto simp: dispatch_def P_append P_send_fresh)

lemma P_drain:
  "drain_loop e s = Some s' \<Longrightarrow> e = env \<Longrightarrow> P s \<Longrightarrow> shStream s \<Longrightarrow> shPendingAcks s = [] \<Longrightarrow> P s'"
proof (induction rule: drain_loop.raw_induct[rotated, consumes 1, case_names step])
  case (step f e s s')
  let ?s = "s\<lparr>shCalls := shCalls s + 1\<rparr>"
  note prems = step(3-6)
  have P1: "P ?s" using prems by (simp add: P_calls)
  show ?case
  proof (cases "spool_Len (fst (shSpool s)) \<le> 0")
    case True
    with step(2) prems show ?thesis by simp
  next
    case False
    show ?thesis
    proof (cases "spool_Peek (seIo e (shCalls s)) (shSpool s)")
      case (Inl x)
      with step(2) False P1 show ?thesis by (auto simp: Let_def)
    next
      case (Inr r)
      show ?thesis
      proof (cases r)
        case None
        with step(2) False Inr P1 show ?thesis by (auto simp: Let_def)
      next
        case (Some payload)
        show ?thesis
        proof (cases "seUnmarshal e payload")
          case None
          let ?s2 = "countDropped CorruptSpoolEntry 1 ?s"
          have pc: "shPendingAcks ?s2 = []" using prems by (simp add: countDropped_def)
          have "P (releaseSpool e ?s2)" using P_release[OF P_count[OF P1] pc] prems by simp
          moreover have "f e (releaseSpool e ?s2) = Some s'"
            using step(2) False Inr Some None by (simp add: Let_def)
          ultimately show ?thesis using step(1)[of e "releaseSpool e ?s2" s'] prems by (simp add: ship_ctl)
        next
          case (Some batch)
          have m: "peekSpoolMeta ?s = peekSpoolMeta s" by (simp add: peekSpoolMeta_def)
          have "s' = sendNow e batch (peekSpoolMeta ?s) True ?s"
            using step(2) False Inr \<open>r = Some payload\<close> Some by (simp add: Let_def)
          moreover have "P (post e batch (peekSpoolMeta ?s) True ?s)"
            using P_replay[OF P1, of "shCalls s" payload batch] False Inr \<open>r = Some payload\<close> Some prems by simp
          ultimately show ?thesis using P_teardown prems(1) by (simp add: sendNow_post)
        qed
      qed
    qed
  qed
qed

lemma P_tryDrain: "tryDrainSpool env s = Some s' \<Longrightarrow> P s \<Longrightarrow> P s'"
  by (auto simp: tryDrainSpool_def intro: P_drain[OF _ refl] split: if_splits)

lemma P_advance: "P s \<Longrightarrow> P (advanceCheckpoint source cur s)"
  by (simp add: advanceCheckpoint_def P_checkpoint split: option.split)

lemma P_advance_all: "P s \<Longrightarrow> P (advance_all m s)"
  unfolding advance_all_def by (induction m arbitrary: s) (auto simp: P_advance)

lemma P_settle:
  "P s \<Longrightarrow> (ouFromSpool ob \<Longrightarrow> shPendingAcks s = []) \<Longrightarrow> P (settle_spooled env ob s)"
  by (simp add: settle_spooled_def P_release)

lemma P_settleAck:
  assumes "P s" and "shPendingAcks s = ob # obs"
  shows "P (settleAck env code ob (s\<lparr>shPendingAcks := obs, shAcks := f\<rparr>))"
proof -
  have "P (s\<lparr>shPendingAcks := obs, shAcks := f\<rparr>)" by (rule P_pop[OF assms])
  moreover have "ouFromSpool ob \<Longrightarrow> obs = []" using P_single[OF assms] .
  ultimately show ?thesis
    by (auto simp: settleAck_def P_attempt P_settle P_advance_all P_pause P_demoteRemaining P_count ship_ctl
        split: AckCode.split)
qed

lemma P_processAck: "processAck env code s = Some s' \<Longrightarrow> P s \<Longrightarrow> P s'"
  by (cases "shPendingAcks s") (auto simp: processAck_def intro: P_tryDrain P_settleAck)

lemma P_flush:
  assumes "P s" and "\<And>a. map_of (shAccums s) i = Some a \<Longrightarrow> accum_ok env s (shMaxBatchRecords s) a"
  shows "P (flushAccum env i s)"
proof (cases "map_of (shAccums s) i")
  case (Some a)
  let ?s = "s\<lparr>shAccums := AList.delete i (shAccums s)\<rparr>" and ?n = "wrap64 (shBatchSeq s + 1)"
  let ?b = "\<lparr>pbBatchId = ''agent-'' @ itoa_int ?n, pbLabels = Some (labels_Proto (acLabels a)),
       pbRecords = acRecords a, pbTraceContext = []\<rparr>"
  have P1: "P ?s" using assms(1) by (rule P_accums)
  show ?thesis
  proof (cases "acRecords a = []")
    case True
    with Some P1 show ?thesis by (simp add: flushAccum_def P_advance_all)
  next
    case False
    have "formed env (?s\<lparr>shBatchSeq := ?n\<rparr>) ?b"
      using assms(2)[OF Some] False by (auto simp: formed_def accum_ok_def)
    with P_dispatch[OF P_seq[OF P1] this] Some False show ?thesis by (simp add: flushAccum_def Let_def)
  qed
qed (simp add: flushAccum_def assms(1))

definition I :: "shipper \<Rightarrow> bool" where
  "I s \<longleftrightarrow> P s \<and> accums_ok env s"

lemma I_flush:
  assumes "I s"
  shows "I (flushAccum env i s)"
proof -
  have "P s" "accums_ok env s" using assms by (simp_all add: I_def)
  moreover have "accum_ok env s (shMaxBatchRecords s) a" if "map_of (shAccums s) i = Some a" for a
    using \<open>accums_ok env s\<close> that accum_ok_mono[of env s "shMaxBatchRecords s - 1" a "shMaxBatchRecords s"]
    by (auto simp: accums_ok_def)
  ultimately show ?thesis using P_flush accums_ok_flush accums_ok_except unfolding I_def by blast
qed

lemma I_put: "I s \<Longrightarrow> accum_ok env s (shMaxBatchRecords s - 1) a \<Longrightarrow> I (put_accum i a s)"
  by (simp add: I_def accums_ok_put) (simp add: put_accum_def P_accums)

lemma I_pick:
  assumes "I s" and "pick_accum env now labels i s = (a, s1)"
  shows "I s1 \<and> accum_ok env s1 (shMaxBatchRecords s1 - 1) a"
proof (cases "map_of (shAccums s) i")
  case None
  have "accum_ok env s (shMaxBatchRecords s - 1) (newAccumulator env labels now s)"
    using assms(1) by (intro new_accum_ok) (simp add: I_def accums_ok_def)
  with I_put[OF assms(1) this, of i] None assms(2) show ?thesis
    using conf_eqs(1)[of s1 s] accum_ok_conf[of s1 s] by (auto simp: pick_accum_def Let_def)
next
  case (Some b)
  with assms show ?thesis by (auto simp: pick_accum_def I_def accums_ok_def)
qed

lemma I_room:
  assumes "I s" and "accum_ok env s (shMaxBatchRecords s - 1) a" and "make_room env now labels i sz (a, s) = (a', s')"
  shows "I s' \<and> accum_ok env s' (shMaxBatchRecords s' - 1) a' \<and>
    (acRecords a' = [] \<or> acOverhead a' + acBytes a' + sz \<le> shMaxBatchBytes s')"
proof (cases "acRecords a \<noteq> [] \<and> acOverhead a + acBytes a + sz > shMaxBatchBytes s")
  case True
  let ?s = "flushAccum env i s"
  have f: "I ?s" using assms(1) by (rule I_flush)
  then have n: "accum_ok env ?s (shMaxBatchRecords ?s - 1) (newAccumulator env labels now ?s)"
    by (intro new_accum_ok) (simp add: I_def accums_ok_def)
  have s': "a' = newAccumulator env labels now ?s" "s' = put_accum i a' ?s"
    using True assms(3) by (auto simp: make_room_def Let_def)
  have "acRecords a' = []" by (simp add: s'(1) newAccumulator_def)
  with I_put[OF f n, of i] n s' show ?thesis
    using conf_eqs(1)[of s' ?s] accum_ok_conf[of s' ?s] by simp
next
  case False
  with assms show ?thesis by (auto simp: make_room_def)
qed

lemma I_store:
  assumes "I s" and "accum_ok env s (shMaxBatchRecords s - 1) a"
    and "\<And>r. pb = Some r \<Longrightarrow> sz = seSizeRecord env r \<and> acOverhead a + sz \<le> shMaxBatchBytes s \<and>
      (acRecords a = [] \<or> acOverhead a + acBytes a + sz \<le> shMaxBatchBytes s)"
  shows "I (store_line env pb sz l i a s)"
proof -
  let ?a = "add_record pb sz l a" and ?s = "put_accum i (add_record pb sz l a) s"
  have a: "accum_ok env s (shMaxBatchRecords s) ?a"
    using assms(2,3) by (auto simp: accum_ok_def add_record_def sizes_def Let_def split: option.split)
  have conf: "shMaxBatchRecords ?s = shMaxBatchRecords s" using conf_eqs(1)[of ?s s] by simp
  have P1: "P ?s" using assms(1) by (simp add: I_def put_accum_def P_accums)
  have "I (flushAccum env i ?s)"
    using assms(1) a accums_except_put[of env s i ?a] accum_ok_conf[of ?s s] conf
    by (auto simp: I_def accums_ok_flush intro!: P_flush[OF P1])
  moreover have "I ?s" if "\<not> int (length (acRecords ?a)) \<ge> shMaxBatchRecords s"
    using that a assms(1) by (intro I_put) (auto simp: accum_ok_def)
  ultimately show ?thesis by (simp add: store_line_def Let_def conf)
qed

lemma I_frame: "I s \<Longrightarrow> P s' \<Longrightarrow> same_frame s s' \<Longrightarrow> I s'"
  using accums_ok_frame by (auto simp: I_def)

lemma I_count: "I s \<Longrightarrow> I (countDropped r n s)"
  by (rule I_frame) (simp_all add: I_def P_count)

lemma I_rearm: "I s \<Longrightarrow> I (rearmAccumTimer now s)"
  using accums_ok_conf[of "rearmAccumTimer now s" s] by (simp add: I_def rearmAccumTimer_def P_timer)

lemma I_addLine:
  assumes "I s"
  shows "I (addLine env now l s)"
proof (cases "shLabels s (lnSource l)")
  case None
  with assms show ?thesis by (simp add: addLine_def I_count)
next
  case (Some labels)
  let ?i = "label_ID (seLib env) labels" and ?r = "line_record env l s"
  let ?sz = "seSizeRecord env (record_Proto ?r)"
  obtain a s1 where p: "pick_accum env now labels ?i s = (a, s1)" by (cases "pick_accum env now labels ?i s")
  obtain a2 s2 where m: "make_room env now labels ?i ?sz (a, s1) = (a2, s2)"
    by (cases "make_room env now labels ?i ?sz (a, s1)")
  note ip = I_pick[OF assms p]
  note im = I_room[OF conjunct1[OF ip] conjunct2[OF ip] m]
  have c: "accum_ok env (countDropped r n s') (shMaxBatchRecords (countDropped r n s') - 1) b"
    if "accum_ok env s' (shMaxBatchRecords s' - 1) b" for r n s' b
    using that conf_eqs(1)[of "countDropped r n s'" s'] accum_ok_conf[of "countDropped r n s'" s'] by simp
  have "I (store_line env None 0 l ?i a (countDropped InvalidRecord 1 s1))"
    by (rule I_store) (use ip I_count c in auto)
  moreover have "I (store_line env None ?sz l ?i a2 (countDropped RecordTooLarge 1 s2))"
    by (rule I_store) (use im I_count c in auto)
  moreover have "I (store_line env (Some (record_Proto ?r)) ?sz l ?i a2 s2)" if "\<not> acOverhead a2 + ?sz > shMaxBatchBytes s2"
    by (rule I_store) (use im that in auto)
  ultimately show ?thesis by (simp add: addLine_def Some p m I_rearm Let_def)
qed

lemma I_flush_due: "I s \<Longrightarrow> I (flush_due_one env now i s)"
  by (simp add: flush_due_one_def I_flush split: option.split)

lemma I_flushDue: "I s \<Longrightarrow> I (flushDueAccums env now s)"
proof -
  have "I (fold (flush_due_one env now) ids s)" if "I s" for ids s
    using that by (induction ids arbitrary: s) (auto simp: I_flush_due)
  then show "I s \<Longrightarrow> I (flushDueAccums env now s)" by (simp add: flushDueAccums_def)
qed

lemma I_connect:
  assumes "tryConnect env c s = Some s'" and "accums_ok env s" and "P (armConnectRetry env s)"
    and "P (s\<lparr>shStream := True, shAttempt := 0\<rparr>)"
  shows "I s'"
proof (cases c)
  case True
  let ?s = "s\<lparr>shStream := True, shAttempt := 0\<rparr>"
  have t: "tryDrainSpool env ?s = Some s'" using assms(1) True by (simp add: tryConnect_def)
  have "accums_ok env s'" using tryDrain_frame[OF t] accums_ok_conf[of s' s] assms(2) by simp
  with P_tryDrain[OF t assms(4)] show ?thesis by (simp add: I_def)
next
  case False
  have "accums_ok env (armConnectRetry env s)" using accums_ok_conf[of "armConnectRetry env s" s] assms(2) by simp
  with assms(1,3) False show ?thesis by (auto simp: tryConnect_def I_def)
qed

lemma I_step:
  assumes "ship_step env ev s = Some s'" and "I s"
  shows "I s'"
proof (cases ev)
  case (EvLine l now)
  with assms show ?thesis by (auto simp: I_addLine)
next
  case (EvAccumTimer now)
  with assms show ?thesis by (auto simp: I_rearm I_flushDue)
next
  case (EvConnectRetry c)
  let ?s = "s\<lparr>shConnectRetry := None\<rparr>"
  have "P s" "accums_ok env ?s" using assms(2) accums_ok_conf[of ?s s] by (simp_all add: I_def)
  with P_retry P_up I_connect[of c ?s s'] EvConnectRetry assms(1) show ?thesis by simp
next
  case EvPauseOver
  let ?u = "s\<lparr>shPauseTimer := None, shSendPaused := False\<rparr>"
  have "I ?u" using P_resume I_frame[OF assms(2), of ?u] assms(2) by (simp add: I_def)
  moreover have t: "tryDrainSpool env ?u = Some s'" using EvPauseOver assms(1) by simp
  ultimately show ?thesis using P_tryDrain[OF t] tryDrain_frame[OF t] I_frame[of ?u s'] by (simp add: I_def)
next
  case (EvAck code)
  with assms(1) have a: "processAck env code s = Some s'" by simp
  have "accums_ok env s'" using assms(2) ack_accums[OF a] accums_ok_conf[of s' s] by (simp add: I_def)
  with P_processAck[OF a] assms(2) show ?thesis by (simp add: I_def)
next
  case EvStreamEnd
  with assms I_frame[OF assms(2), of "teardownStream env s"] P_teardown show ?thesis by (auto simp: I_def)
next
  case EvCommit
  then obtain d where s': "s' = s\<lparr>shCheckDisk := d, shCalls := shCalls s + 1\<rparr>"
    using assms(1) by (auto simp: commit_def split: prod.splits)
  have "P s'" using assms(2) P_calls[OF P_disk] unfolding s' I_def by blast
  then show ?thesis using I_frame[OF assms(2), of s'] by (simp add: s')
qed

lemma I_reach:
  assumes "ship_reach env s0 s" and "accums_ok env s0" and "P (armConnectRetry env (seed_meta s0))"
    and "P ((seed_meta s0)\<lparr>shStream := True, shAttempt := 0\<rparr>)"
  shows "I s"
  using assms
proof (induction rule: ship_reach.induct)
  case (start c s)
  have "accums_ok env (seed_meta s0)"
    using accums_ok_conf[of "seed_meta s0" s0] start(2) by (simp add: seed_meta_def)
  with I_connect[OF start(1)] start(3,4) show ?case by blast
next
  case (step s ev s')
  then show ?case using I_step by blast
qed

end

subsection \<open>The invariant of a shipper on a readable disk\<close>

definition calm_env :: "ship_env \<Rightarrow> bool" where
  "calm_env env \<longleftrightarrow> (\<forall>k. whole_writes (seIo env k) \<and> readable (seIo env k))"

text \<open>The spool and the cursor maps kept beside it are one queue of pairs: what was in the spool at the start and
  what was appended since, less a number of entries at the front.\<close>

definition paired :: "('p \<times> 'm) list \<Rightarrow> 'p list \<Rightarrow> 'm list \<Rightarrow> bool" where
  "paired q ps ms \<longleftrightarrow> (\<exists>k \<le> length q. ps = map fst (drop k q) \<and> ms = map snd (drop k q))"

lemma paired_push:
  assumes "paired q ps ms" and "n \<le> length ps"
  shows "n \<le> length ms" and "paired (q @ [(p, m)]) (drop n ps @ [p]) (drop n (ms @ [m]))"
proof -
  from assms obtain k where k: "k \<le> length q" "ps = map fst (drop k q)" "ms = map snd (drop k q)"
    by (auto simp: paired_def)
  with assms(2) have n: "n + k \<le> length q" by simp
  then show "n \<le> length ms" using k by simp
  have "drop (n + k) (q @ [(p, m)]) = drop n (drop k q) @ [(p, m)]" using n by (simp add: add.commute)
  with n k show "paired (q @ [(p, m)]) (drop n ps @ [p]) (drop n (ms @ [m]))"
    unfolding paired_def by (intro exI[of _ "n + k"]) (simp add: drop_map)
qed

lemma paired_pop:
  assumes "paired q ps ms"
  shows "paired q (tl ps) (tl ms)"
proof -
  from assms obtain k where k: "k \<le> length q" "ps = map fst (drop k q)" "ms = map snd (drop k q)"
    by (auto simp: paired_def)
  show ?thesis
  proof (cases "k < length q")
    case True
    with k show ?thesis unfolding paired_def
      by (intro exI[of _ "Suc k"]) (simp add: map_tl[symmetric] drop_Suc tl_drop[symmetric])
  next
    case False
    with k have "ps = []" "ms = []" by simp_all
    then show ?thesis using assms by simp
  qed
qed

definition aligned :: "(bytes \<times> Cursor gomap option) list \<Rightarrow> shipper \<Rightarrow> bool" where
  "aligned base s \<longleftrightarrow> paired (base @ shSpooled s) (spool_pending (shSpool s)) (shSpoolMeta s)"

definition outstanding_ok :: "ship_env \<Rightarrow> shipper \<Rightarrow> bool" where
  "outstanding_ok env s \<longleftrightarrow> (\<exists>ob. shPendingAcks s = [ob] \<and> ouFromSpool ob \<and> spool_pending (shSpool s) \<noteq> []) \<or>
     list_all (\<lambda>ob. \<not> ouFromSpool ob \<and> formed env s (ouBatch ob)) (shPendingAcks s)"

definition control_ok :: "shipper \<Rightarrow> bool" where
  "control_ok s \<longleftrightarrow> 0 < shAckWindow s \<and> int (length (shPendingAcks s)) \<le> shAckWindow s \<and>
     (shStream s \<or> shConnectRetry s \<noteq> None \<and> shPendingAcks s = []) \<and> (shSendPaused s \<longrightarrow> shPauseTimer s \<noteq> None) \<and>
     0 < shMaxBackoff s \<and> pred_option (\<lambda>d. 1 \<le> d \<and> d \<le> shMaxBackoff s) (shConnectRetry s) \<and>
     pred_option (\<lambda>d. 1 \<le> d \<and> d \<le> shMaxBackoff s) (shPauseTimer s)"

definition ship_ok :: "(bytes \<times> Cursor gomap option) list \<Rightarrow> ship_env \<Rightarrow> shipper \<Rightarrow> bool" where
  "ship_ok base env s \<longleftrightarrow> calm_env env \<and> spool_ok (shSpool s) \<and> aligned base s \<and> outstanding_ok env s \<and> control_ok s"

lemma formed_conf: "ship_conf s' = ship_conf s \<Longrightarrow> formed env s' b \<longleftrightarrow> formed env s b"
  using conf_eqs(1,2)[of s' s] by (simp add: formed_def)

text \<open>What a change that touches neither the spool nor the outstanding batches has to keep.\<close>

lemma ship_ok_frame:
  assumes "ship_ok base env s" and "shSpool s' = shSpool s" and "shSpooled s' = shSpooled s"
    and "shSpoolMeta s' = shSpoolMeta s" and "ship_conf s' = ship_conf s" and "shPendingAcks s' = shPendingAcks s"
    and "control_ok s'"
  shows "ship_ok base env s'"
  using assms formed_conf[OF assms(5), of env] by (simp add: ship_ok_def aligned_def outstanding_ok_def)

lemma control_frame:
  assumes "control_ok s" and "ship_conf s' = ship_conf s" and "shPendingAcks s' = shPendingAcks s"
    and "shStream s' = shStream s" and "shConnectRetry s' = shConnectRetry s" and "shSendPaused s' = shSendPaused s"
    and "shPauseTimer s' = shPauseTimer s"
  shows "control_ok s'"
  using assms conf_eqs(3,7)[OF assms(2)] by (simp add: control_ok_def)

lemma append_ctl [simp]:
  "shPendingAcks (appendToSpool env b c s) = shPendingAcks s" "shStream (appendToSpool env b c s) = shStream s"
  "shConnectRetry (appendToSpool env b c s) = shConnectRetry s" "shSendPaused (appendToSpool env b c s) = shSendPaused s"
  "shPauseTimer (appendToSpool env b c s) = shPauseTimer s"
  by (auto simp: appendToSpool_def Let_def countDropped_def split: option.split prod.split sum.split)

text \<open>Appending and releasing, over the queue that the spool promises to be.\<close>

lemma append_queue:
  assumes "spool_ok (shSpool s)" and "aligned base s" and "calm_env env"
  shows "spool_ok (shSpool (appendToSpool env b c s)) \<and> aligned base (appendToSpool env b c s) \<and>
    (spool_pending (shSpool s) \<noteq> [] \<longrightarrow> spool_pending (shSpool (appendToSpool env b c s)) \<noteq> [])"
proof (cases "seMarshal env b")
  case None
  with assms show ?thesis by (simp add: appendToSpool_def countDropped_def aligned_def)
next
  case (Some data)
  have w: "whole_writes (seIo env (shCalls s))" using assms(3) by (simp add: calm_env_def)
  obtain r sp where a: "spool_Append (seIo env (shCalls s)) data (shSpool s) = (r, sp)"
    by (cases "spool_Append (seIo env (shCalls s)) data (shSpool s)")
  note ok = spool_fifo.push_ok[OF assms(1) w a]
  show ?thesis
  proof (cases r)
    case (Inl e)
    with spool_fifo.push_Inl[OF assms(1) w] a ok assms(2) Some show ?thesis
      by (simp add: appendToSpool_def countDropped_def aligned_def)
  next
    case (Inr n)
    note push = spool_fifo.push_Inr[OF assms(1) w a[unfolded Inr]]
    have n: "nat n \<le> length (spool_pending (shSpool s))" using push by blast
    note pp = paired_push(1)[OF assms(2)[unfolded aligned_def] n]
      paired_push(2)[OF assms(2)[unfolded aligned_def] n, of data c]
    have cap: "\<not> n > int (length (shSpoolMeta s @ [c]))" using pp(1) push by auto
    have s': "appendToSpool env b c s = s\<lparr>shSpool := sp, shCalls := shCalls s + 1,
        shSpoolMeta := drop (nat n) (shSpoolMeta s @ [c]), shSpooled := shSpooled s @ [(data, c)]\<rparr>"
      using Some a Inr cap by (simp add: appendToSpool_def Let_def)
    have "aligned base (appendToSpool env b c s)" using pp(2) push unfolding s' aligned_def by simp
    with ok push s' show ?thesis by simp
  qed
qed

lemma release_queue:
  assumes "spool_ok (shSpool s)" and "aligned base s" and "calm_env env"
  shows "spool_ok (shSpool (releaseSpool env s)) \<and> aligned base (releaseSpool env s) \<and>
    spool_pending (shSpool (releaseSpool env s)) = tl (spool_pending (shSpool s))"
proof -
  obtain e sp where r: "spool_Release (seIo env (shCalls s)) (shSpool s) = (e, sp)"
    by (cases "spool_Release (seIo env (shCalls s)) (shSpool s)")
  have "readable (seIo env (shCalls s))" using assms(3) by (simp add: calm_env_def)
  note pop = spool_readable.calm_pop_tl[OF assms(1) this r]
  have s': "shSpool (releaseSpool env s) = sp" "shSpooled (releaseSpool env s) = shSpooled s"
    "shSpoolMeta (releaseSpool env s) = tl (shSpoolMeta s)"
    using r by (simp_all add: releaseSpool_def popSpoolMeta_def split: list.split)
  with pop paired_pop[OF assms(2)[unfolded aligned_def]] show ?thesis by (simp add: aligned_def)
qed

lemma ship_ok_append: "ship_ok base env s \<Longrightarrow> ship_ok base env (appendToSpool env b c s)"
  using append_queue[of s base env b c] formed_conf[of "appendToSpool env b c s" s env]
    control_frame[of s "appendToSpool env b c s"]
  by (auto simp: ship_ok_def outstanding_ok_def)

lemma release_ctl [simp]:
  "shConnectRetry (releaseSpool env s) = shConnectRetry s" "shSendPaused (releaseSpool env s) = shSendPaused s"
  "shPauseTimer (releaseSpool env s) = shPauseTimer s"
  by (simp_all add: releaseSpool_def popSpoolMeta_def split: list.split)

lemma ship_ok_release:
  "ship_ok base env s \<Longrightarrow> shPendingAcks s = [] \<Longrightarrow> ship_ok base env (releaseSpool env s)"
  using release_queue[of s base env] control_frame[of s "releaseSpool env s"]
  by (simp add: ship_ok_def outstanding_ok_def ship_ctl)

lemma Len_pending: "spool_ok sp \<Longrightarrow> spool_Len (fst sp) > 0 \<longleftrightarrow> spool_pending sp \<noteq> []"
  using pending_length[of "fst sp" "snd sp"] by (auto simp flip: length_greater_0_conv)

lemma arm_ctl:
  "shPendingAcks (armConnectRetry env s) = shPendingAcks s" "shConnectRetry (armConnectRetry env s) \<noteq> None"
  "shStream (armConnectRetry env s) = shStream s" "shSendPaused (armConnectRetry env s) = shSendPaused s"
  "shPauseTimer (armConnectRetry env s) = shPauseTimer s" "shSpool (armConnectRetry env s) = shSpool s"
  "shSpooled (armConnectRetry env s) = shSpooled s" "shSpoolMeta (armConnectRetry env s) = shSpoolMeta s"
  "shPendingAcks (armPause env s) = shPendingAcks s" "shConnectRetry (armPause env s) = shConnectRetry s"
  "shStream (armPause env s) = shStream s" "shPauseTimer (armPause env s) \<noteq> None"
  "shSpool (armPause env s) = shSpool s" "shSpooled (armPause env s) = shSpooled s"
  "shSpoolMeta (armPause env s) = shSpoolMeta s"
  by (simp_all add: armConnectRetry_def armPause_def backoffDelay_def)

lemma post_simps [simp]:
  "shSpool (post env b c f s) = shSpool s" "shSpooled (post env b c f s) = shSpooled s"
  "shSpoolMeta (post env b c f s) = shSpoolMeta s" "ship_conf (post env b c f s) = ship_conf s"
  "shStream (post env b c f s) = shStream s" "shConnectRetry (post env b c f s) = shConnectRetry s"
  "shSendPaused (post env b c f s) = shSendPaused s" "shPauseTimer (post env b c f s) = shPauseTimer s"
  by (simp_all add: post_def Let_def)

lemma post_pending:
  "\<exists>ob. shPendingAcks (post env b c f s) = shPendingAcks s @ [ob] \<and> ouFromSpool ob = f \<and>
     (formed env s (ouBatch ob) \<longleftrightarrow> formed env s b)"
  by (auto simp: post_def Let_def formed_def)

lemma ship_ok_fresh:
  assumes "ship_ok base env s" and "shStream s" and "\<not> spool_Len (fst (shSpool s)) > 0"
    and "int (length (shPendingAcks s)) < shAckWindow s" and "formed env s b"
  shows "ship_ok base env (post env b (Some m) False s)"
proof -
  obtain ob where ob: "shPendingAcks (post env b (Some m) False s) = shPendingAcks s @ [ob]" "\<not> ouFromSpool ob"
    "formed env s (ouBatch ob)" using post_pending[of env b "Some m" False s] assms(5) by auto
  have "spool_pending (shSpool s) = []" using assms(1,3) Len_pending by (auto simp: ship_ok_def)
  with assms(1) have "list_all (\<lambda>ob. \<not> ouFromSpool ob \<and> formed env s (ouBatch ob)) (shPendingAcks s)"
    by (auto simp: ship_ok_def outstanding_ok_def)
  with ob have "outstanding_ok env (post env b (Some m) False s)"
    using formed_conf[of "post env b (Some m) False s" s env] by (simp add: outstanding_ok_def)
  moreover have "control_ok (post env b (Some m) False s)"
    using assms(1,2,4) ob(1) conf_eqs(3,7)[of "post env b (Some m) False s" s] by (simp add: ship_ok_def control_ok_def)
  ultimately show ?thesis using assms(1) by (simp add: ship_ok_def aligned_def)
qed

lemma ship_ok_replay:
  assumes "ship_ok base env s" and "shStream s" and "shPendingAcks s = []" and "spool_Len (fst (shSpool s)) > 0"
  shows "ship_ok base env (post env b c True s)"
proof -
  obtain ob where ob: "shPendingAcks (post env b c True s) = [ob]" "ouFromSpool ob"
    using post_pending[of env b c True s] assms(3) by auto
  have "spool_pending (shSpool s) \<noteq> []" using assms(1,4) Len_pending by (auto simp: ship_ok_def)
  with ob have "outstanding_ok env (post env b c True s)" by (simp add: outstanding_ok_def)
  moreover have "control_ok (post env b c True s)"
    using assms(1,2) ob(1) conf_eqs(3,7)[of "post env b c True s" s] by (simp add: ship_ok_def control_ok_def)
  ultimately show ?thesis using assms(1) by (simp add: ship_ok_def aligned_def)
qed

lemma ship_ok_fewer:
  assumes "ship_ok base env s" and "shPendingAcks s' = [] \<or> shPendingAcks s = ob # shPendingAcks s'"
    and "shSpool s' = shSpool s" and "shSpooled s' = shSpooled s" and "shSpoolMeta s' = shSpoolMeta s"
    and "ship_conf s' = ship_conf s" and "control_ok s'"
  shows "ship_ok base env s'"
proof -
  have "outstanding_ok env s'"
    using assms(1,2) formed_conf[OF assms(6), of env] by (auto simp: ship_ok_def outstanding_ok_def)
  with assms show ?thesis by (simp add: ship_ok_def aligned_def)
qed

lemma ship_ok_control: "ship_ok base env s \<Longrightarrow> control_ok s"
  by (simp add: ship_ok_def)

lemma backoff_Delay_bounds:
  assumes "0 < maxDelay"
  shows "1 \<le> backoff_Delay r a base maxDelay \<and> backoff_Delay r a base maxDelay \<le> maxDelay"
proof -
  define W where "W = wrap64 (base * 2 ^ nat (min ((if a < 1 then 1 else a) - 1) 16))"
  define D where "D = (if W \<le> 0 \<or> W > maxDelay then maxDelay else W)"
  have D: "0 < D" "D \<le> maxDelay" "backoff_Delay r a base maxDelay = int r mod D + 1"
    using assms by (auto simp: backoff_Delay_def Let_def D_def W_def)
  with pos_mod_bound[OF D(1), of "int r"] pos_mod_sign[OF D(1), of "int r"] show ?thesis by linarith
qed

lemma arm_bounds:
  "0 < m \<Longrightarrow> shMaxBackoff s = m \<Longrightarrow> pred_option (\<lambda>d. 1 \<le> d \<and> d \<le> m) (shConnectRetry (armConnectRetry env s))"
  "0 < m \<Longrightarrow> shMaxBackoff s = m \<Longrightarrow> pred_option (\<lambda>d. 1 \<le> d \<and> d \<le> m) (shPauseTimer (armPause env s))"
  using backoff_Delay_bounds by (simp_all add: armConnectRetry_def armPause_def backoffDelay_def)

lemma arm_conf:
  "shAckWindow (armConnectRetry env s) = shAckWindow s" "shMaxBackoff (armConnectRetry env s) = shMaxBackoff s"
  "shAckWindow (armPause env s) = shAckWindow s" "shMaxBackoff (armPause env s) = shMaxBackoff s"
  using conf_eqs(3,7)[of "armConnectRetry env s" s] conf_eqs(3,7)[of "armPause env s" s] by simp_all

lemma control_pop:
  "control_ok s \<Longrightarrow> shPendingAcks s = ob # obs \<Longrightarrow> control_ok (s\<lparr>shPendingAcks := obs, shAcks := f\<rparr>)"
  by (simp add: control_ok_def)

interpretation shipping: ship_invariant env "ship_ok base env" for env base
proof (unfold_locales, goal_cases)
  case (1 s b c)
  then show ?case by (rule ship_ok_append)
next
  case (2 s)
  then show ?case by (rule ship_ok_release)
next
  case (3 s r n)
  then show ?case by (rule ship_ok_frame) (use 3 in \<open>auto simp: countDropped_def ship_ok_def intro: control_frame\<close>)
next
  case (4 s n)
  then show ?case by (rule ship_ok_frame) (use 4 in \<open>auto simp: ship_ok_def intro: control_frame\<close>)
next
  case (5 s b m)
  then show ?case by (rule ship_ok_fresh)
next
  case (6 s k payload b)
  then show ?case by (intro ship_ok_replay)
next
  case (7 s ob obs f)
  then show ?case using control_pop[OF ship_ok_control[OF 7(1)] 7(2), of f]
    by (intro ship_ok_fewer[OF 7(1), where ob = ob]) simp_all
next
  case (8 s ob obs)
  then show ?case by (auto simp: ship_ok_def outstanding_ok_def)
next
  case (9 s)
  then show ?case by (intro ship_ok_fewer[OF 9]) (auto simp: ship_ok_def control_ok_def)
next
  case (10 s)
  then show ?case
    by (intro ship_ok_fewer[OF 10]) (auto simp: ship_ok_def control_ok_def arm_ctl arm_conf arm_bounds)
next
  case (11 s)
  then show ?case
    by (rule ship_ok_frame) (use 11 in \<open>auto simp: ship_ok_def control_ok_def arm_ctl arm_conf arm_bounds\<close>)
next
  case (12 s)
  then show ?case by (rule ship_ok_frame) (use 12 in \<open>auto simp: ship_ok_def control_ok_def ship_conf_def\<close>)
next
  case (13 s)
  then show ?case by (rule ship_ok_frame) (use 13 in \<open>auto simp: ship_ok_def control_ok_def arm_ctl arm_conf arm_bounds\<close>)
next
  case (14 s)
  then show ?case by (rule ship_ok_frame) (use 14 in \<open>auto simp: ship_ok_def control_ok_def ship_conf_def\<close>)
next
  case (15 s a)
  then show ?case by (rule ship_ok_frame) (use 15 in \<open>auto simp: ship_ok_def intro: control_frame\<close>)
next
  case (16 s a)
  then show ?case by (rule ship_ok_frame) (use 16 in \<open>auto simp: ship_ok_def intro: control_frame\<close>)
next
  case (17 s a)
  then show ?case by (rule ship_ok_frame) (use 17 in \<open>auto simp: ship_ok_def intro: control_frame\<close>)
next
  case (18 s a)
  then show ?case by (rule ship_ok_frame) (use 18 in \<open>auto simp: ship_ok_def intro: control_frame\<close>)
next
  case (19 s a)
  then show ?case by (rule ship_ok_frame) (use 19 in \<open>auto simp: ship_ok_def intro: control_frame\<close>)
next
  case (20 s a)
  then show ?case by (rule ship_ok_frame) (use 20 in \<open>auto simp: ship_ok_def intro: control_frame\<close>)
qed

subsection \<open>Every handler returns\<close>

lemma drain_returns:
  assumes "spool_ok (shSpool s)" and "calm_env env"
  shows "\<exists>s'. drain_loop env s = Some s'"
  using assms
proof (induction "length (spool_pending (shSpool s))" arbitrary: s rule: less_induct)
  case less
  let ?s = "countDropped CorruptSpoolEntry 1 (s\<lparr>shCalls := shCalls s + 1\<rparr>)"
  have sp: "shSpool ?s = shSpool s" by (simp add: countDropped_def)
  obtain e st where r: "spool_Release (seIo env (shCalls ?s)) (shSpool s) = (e, st)"
    by (cases "spool_Release (seIo env (shCalls ?s)) (shSpool s)")
  have q: "shSpool (releaseSpool env ?s) = st"
    using r sp by (simp add: releaseSpool_def popSpoolMeta_def split: list.split)
  have pop: "spool_ok st \<and> spool_pending st = tl (spool_pending (shSpool s))"
    using less.prems by (intro spool_readable.calm_pop_tl[OF _ _ r]) (simp_all add: calm_env_def)
  show ?case
  proof (cases "spool_Len (fst (shSpool s)) \<le> 0")
    case True
    then show ?thesis by (subst drain_loop.simps) simp
  next
    case False
    then have "spool_pending (shSpool s) \<noteq> []" using Len_pending[OF less.prems(1)] by simp
    then have "length (spool_pending (shSpool (releaseSpool env ?s))) < length (spool_pending (shSpool s))"
      using pop q by (cases "spool_pending (shSpool s)") simp_all
    from less.hyps[OF this] pop q less.prems(2) have "\<exists>s'. drain_loop env (releaseSpool env ?s) = Some s'" by simp
    then show ?thesis by (subst drain_loop.simps) (auto simp: Let_def split: sum.split option.split)
  qed
qed

lemma tryDrain_returns: "ship_ok base env s \<Longrightarrow> \<exists>s'. tryDrainSpool env s = Some s'"
  by (simp add: tryDrainSpool_def ship_ok_def drain_returns)

lemma step_returns:
  assumes "ship_ok base env s"
  shows "\<exists>s'. ship_step env ev s = Some s'"
proof (cases ev)
  case (EvConnectRetry c)
  with assms tryDrain_returns[OF shipping.P_up[OF assms]] show ?thesis by (auto simp: tryConnect_def)
next
  case EvPauseOver
  with tryDrain_returns[OF shipping.P_resume[OF assms]] show ?thesis by simp
next
  case (EvAck code)
  show ?thesis
  proof (cases "shPendingAcks s")
    case (Cons ob obs)
    with tryDrain_returns[OF shipping.P_settleAck[OF assms Cons]] EvAck show ?thesis by (simp add: processAck_def)
  qed (simp add: EvAck processAck_def)
qed simp_all

subsection \<open>Runs from the start\<close>

definition before :: "shipper \<Rightarrow> (bytes \<times> Cursor gomap option) list" where
  "before s0 = map (\<lambda>p. (p, None)) (spool_pending (shSpool s0))"

lemma start_ok:
  assumes "NewShipper cfg d = Inr s0" and "spool_ok (shSpool s0)" and "calm_env env"
  shows "ship_ok (before s0) env (armConnectRetry env (seed_meta s0))"
    and "ship_ok (before s0) env ((seed_meta s0)\<lparr>shStream := True, shAttempt := 0\<rparr>)"
    and "accums_ok env s0"
proof -
  have d: "or_default x y > 0" if "y > 0" for x y using that by (simp add: or_default_def)
  have s0: "shPendingAcks s0 = []" "shSpooled s0 = []" "shSendPaused s0 = False" "shPauseTimer s0 = None"
    "shConnectRetry s0 = None" "shAckWindow s0 > 0" "shMaxBackoff s0 > 0" "shMaxBatchRecords s0 > 0" "shAccums s0 = []"
    using assms(1)
    by (auto simp: NewShipper_def Let_def d defaultAckWindow_def defaultMaxBackoff_def second_def
        defaultMaxBatchRecords_def split: if_splits)
  have "nat (spool_Len (fst (shSpool s0))) = length (spool_pending (shSpool s0))"
    using pending_length[of "fst (shSpool s0)" "snd (shSpool s0)"] assms(2) by simp
  then have "shSpoolMeta (seed_meta s0) = map snd (before s0)" "spool_pending (shSpool s0) = map fst (before s0)"
    by (simp_all add: seed_meta_def before_def map_replicate_const comp_def)
  then have al: "paired (before s0) (spool_pending (shSpool s0)) (shSpoolMeta (seed_meta s0))"
    by (auto simp: paired_def intro!: exI[of _ 0])
  have seed: "shPendingAcks (seed_meta s0) = []" "shSpooled (seed_meta s0) = []" "shSpool (seed_meta s0) = shSpool s0"
    "shSendPaused (seed_meta s0) = False" "shPauseTimer (seed_meta s0) = None" "shAckWindow (seed_meta s0) > 0"
    "shMaxBackoff (seed_meta s0) > 0" "shConnectRetry (seed_meta s0) = None"
    using s0 by (simp_all add: seed_meta_def)
  show "ship_ok (before s0) env (armConnectRetry env (seed_meta s0))"
    using seed al assms(2,3) by (simp add: ship_ok_def aligned_def outstanding_ok_def control_ok_def arm_ctl arm_conf arm_bounds)
  show "ship_ok (before s0) env ((seed_meta s0)\<lparr>shStream := True, shAttempt := 0\<rparr>)"
    using seed al assms(2,3) by (simp add: ship_ok_def aligned_def outstanding_ok_def control_ok_def)
  show "accums_ok env s0" using s0 by (simp add: accums_ok_def)
qed

lemma reach_ok:
  assumes "NewShipper cfg d = Inr s0" and "spool_ok (shSpool s0)" and "calm_env env" and "ship_reach env s0 s"
  shows "ship_ok (before s0) env s" and "accums_ok env s"
  using shipping.I_reach[OF assms(4) start_ok(3,1,2)[OF assms(1-3)]] by (simp_all add: shipping.I_def)

subsection \<open>When the checkpoint moves\<close>

lemma advance_ck: "shCheckpoint s = shCheckpoint t \<Longrightarrow> shCheckpoint (advance_all m s) = shCheckpoint (advance_all m t)"
  unfolding advance_all_def
proof (induction m arbitrary: s t)
  case (Cons x m)
  obtain source cur where x: "x = (source, cur)" by (cases x)
  have "shCheckpoint (advanceCheckpoint source cur s) = shCheckpoint (advanceCheckpoint source cur t)"
    using Cons.prems by (simp add: advanceCheckpoint_def split: option.split)
  from Cons.IH[OF this] show ?case by (simp add: x)
qed simp

lemma flush_checkpoint:
  "shCheckpoint (flushAccum env i s) =
     (case map_of (shAccums s) i of
        Some a \<Rightarrow> if acRecords a = [] then shCheckpoint (advance_all (acCursors a) s) else shCheckpoint s
      | None \<Rightarrow> shCheckpoint s)"
  using advance_ck[of "s\<lparr>shAccums := AList.delete i (shAccums s)\<rparr>" s]
  by (auto simp: flushAccum_def Let_def split: option.split)

lemma store_line_checkpoint:
  "0 < shMaxBatchRecords s \<Longrightarrow> shCheckpoint (store_line env pb sz l i a s) = shCheckpoint s"
  using conf_eqs(1)[of "put_accum i (add_record pb sz l a) s" s]
  by (auto simp: store_line_def Let_def flush_checkpoint)

lemma addLine_checkpoint:
  assumes "0 < shMaxBatchRecords s"
  shows "shCheckpoint (addLine env now l s) = shCheckpoint s"
proof (cases "shLabels s (lnSource l)")
  case (Some labels)
  let ?i = "label_ID (seLib env) labels"
  let ?sz = "seSizeRecord env (record_Proto (line_record env l s))"
  obtain a s1 where p: "pick_accum env now labels ?i s = (a, s1)" by (cases "pick_accum env now labels ?i s")
  obtain a2 s2 where m: "make_room env now labels ?i ?sz (a, s1) = (a2, s2)"
    by (cases "make_room env now labels ?i ?sz (a, s1)")
  have 1: "shCheckpoint s1 = shCheckpoint s \<and> ship_conf s1 = ship_conf s \<and> map_of (shAccums s1) ?i = Some a"
    using p by (auto simp: pick_accum_def Let_def split: option.splits)
  have 2: "shCheckpoint s2 = shCheckpoint s1 \<and> ship_conf s2 = ship_conf s1"
    using m 1 by (auto simp: make_room_def Let_def flush_checkpoint split: if_splits)
  have c: "0 < shMaxBatchRecords s1" "0 < shMaxBatchRecords s2" "0 < shMaxBatchRecords (countDropped r n s1)"
    "0 < shMaxBatchRecords (countDropped r n s2)" for r n
    using 1 2 assms conf_eqs(1)[of s1 s] conf_eqs(1)[of s2 s1] conf_eqs(1)[of "countDropped r n s1" s1]
      conf_eqs(1)[of "countDropped r n s2" s2] by auto
  show ?thesis using 1 2 c by (simp add: addLine_def Some p m Let_def rearmAccumTimer_def store_line_checkpoint)
qed (simp add: addLine_def)

text \<open>The accumulators that are due and hold no record, because all of theirs were dropped.\<close>

definition empty_due :: "gotime \<Rightarrow> shipper \<Rightarrow> accumulator \<Rightarrow> bool" where
  "empty_due now s a \<longleftrightarrow> (\<exists>i. map_of (shAccums s) i = Some a) \<and> acRecords a = [] \<and> acDeadline a \<le> now"

lemma flush_due_checkpoint:
  "\<exists>as. list_all (empty_due now s) as \<and>
     shCheckpoint (fold (flush_due_one env now) ids s) = shCheckpoint (fold (\<lambda>a. advance_all (acCursors a)) as s)"
proof (induction ids arbitrary: s)
  case Nil
  show ?case by (intro exI[of _ "[]"]) simp
next
  case (Cons i ids)
  let ?s = "flush_due_one env now i s"
  from Cons[of ?s] obtain as where as: "list_all (empty_due now ?s) as"
    "shCheckpoint (fold (flush_due_one env now) ids ?s) = shCheckpoint (fold (\<lambda>a. advance_all (acCursors a)) as ?s)" by blast
  have sub: "empty_due now ?s a \<Longrightarrow> empty_due now s a" for a
    by (auto simp: empty_due_def flush_due_one_def split: option.splits if_splits)
  have fold_ck: "shCheckpoint (fold (\<lambda>a. advance_all (acCursors a)) as t) = shCheckpoint (fold (\<lambda>a. advance_all (acCursors a)) as u)"
    if "shCheckpoint t = shCheckpoint u" for t u as
    using that
  proof (induction as arbitrary: t u)
    case (Cons x xs)
    from Cons.IH[OF advance_ck[OF Cons.prems, of "acCursors x"]] show ?case by simp
  qed simp
  show ?case
  proof (cases "\<exists>a. map_of (shAccums s) i = Some a \<and> acDeadline a \<le> now \<and> acRecords a = []")
    case True
    then obtain a where a: "map_of (shAccums s) i = Some a" "acDeadline a \<le> now" "acRecords a = []" by blast
    then have "shCheckpoint ?s = shCheckpoint (advance_all (acCursors a) s)"
      by (simp add: flush_due_one_def flush_checkpoint)
    moreover have "empty_due now s a" using a by (auto simp: empty_due_def)
    ultimately show ?thesis using as sub fold_ck[of ?s "advance_all (acCursors a) s" as]
      by (intro exI[of _ "a # as"]) (auto simp: list_all_iff)
  next
    case False
    then have "shCheckpoint ?s = shCheckpoint s"
      by (auto simp: flush_due_one_def flush_checkpoint split: option.split)
    then show ?thesis using as sub fold_ck[of ?s s as] by (intro exI[of _ as]) (auto simp: list_all_iff)
  qed
qed

lemma ack_checkpoint:
  assumes "processAck env code s = Some s'"
  shows "shCheckpoint s' =
    (case shPendingAcks s of
       ob # _ \<Rightarrow> if code = ACCEPTED then shCheckpoint (advance_all (case ouCursors ob of None \<Rightarrow> [] | Some m \<Rightarrow> m) s)
                else shCheckpoint s
     | [] \<Rightarrow> shCheckpoint s)"
proof (cases "shPendingAcks s")
  case Nil
  with assms show ?thesis by (simp add: processAck_def)
next
  case (Cons ob obs)
  let ?s = "s\<lparr>shPendingAcks := obs, shAcks := (shAcks s)(ackLabel code := shAcks s (ackLabel code) + 1)\<rparr>"
  have "tryDrainSpool env (settleAck env code ob ?s) = Some s'" using assms Cons by (simp add: processAck_def)
  note f = tryDrain_frame[OF this]
  have g: "shCheckpoint (settleAck env code ob t) =
      (if code = ACCEPTED then shCheckpoint (advance_all (case ouCursors ob of None \<Rightarrow> [] | Some m \<Rightarrow> m) t)
       else shCheckpoint t)" for t
    by (simp add: settleAck_def demoteRemaining_def Let_def split: AckCode.split)
  have a: "shCheckpoint (advance_all m ?s) = shCheckpoint (advance_all m s)" for m
    by (rule advance_ck) simp
  have c: "shCheckpoint s' = shCheckpoint (settleAck env code ob ?s)" using f by simp
  show ?thesis unfolding c g a by (simp add: Cons)
qed

end
