(* ===== verification/Ship_Runs.thy ===== *)
theory Ship_Runs
  imports Ship_Safety
begin

text \<open>
  Runs of the shipper: the properties of every run, concrete runs on which they are tried, and two runs in which
  an acknowledgement or the order of replay is not what the comments of \<^verbatim>\<open>shipper.go\<close> say.

  The concrete collaborators: every size is 1, a batch is encoded as its id (and decoded to a batch with that id
  and nothing else, which is all the runs look at), nothing fails, and every source has the same labels. Batches
  hold one record. The acknowledgement window is a parameter.
\<close>

subsection \<open>Concrete runs\<close>

fun ship_run :: "ship_env \<Rightarrow> ship_event list \<Rightarrow> shipper \<Rightarrow> shipper option" where
  "ship_run env [] s = Some s"
| "ship_run env (ev # evs) s = (if enabled ev s then Option.bind (ship_step env ev s) (ship_run env evs) else None)"

lemma ship_run_reach: "ship_reach env s0 s \<Longrightarrow> ship_run env evs s = Some s' \<Longrightarrow> ship_reach env s0 s'"
  by (induction evs arbitrary: s) (auto simp: bind_eq_Some_conv split: if_splits intro: ship_reach.step)

definition env_ex :: ship_env where
  "env_ex = \<lparr>seLib = lib0, seSizeRecord = (\<lambda>_. 1), seSizeBatch = (\<lambda>_. 1), seMarshal = (\<lambda>b. Some (pbBatchId b)),
     seUnmarshal = (\<lambda>d. Some \<lparr>pbBatchId = d, pbLabels = None, pbRecords = [], pbTraceContext = []\<rparr>),
     seTrace = (\<lambda>_. []), seSendFails = (\<lambda>_. False), seIo = (\<lambda>_. io_ok), seRand = (\<lambda>_. 0), seCodec = codec_ex\<rparr>"

definition spool_ex :: spool_st where
  "spool_ex = (fresh_spool 1000 500, empty_disk)"

definition cfg_ex :: "int \<Rightarrow> ship_config" where
  "cfg_ex w = \<lparr>scSpool = Some spool_ex, scCheckpoint = Some (NewCheckpointStore ''ckpt''),
     scLabels = Some (\<lambda>_. Some ls_ab), scExtractor = None, scAddr = ''collector'', scMaxBatchRecords = 1,
     scMaxBatchBytes = 0, scMaxBatchDelay = 0, scAckWindow = w, scMinBackoff = 0, scMaxBackoff = 0\<rparr>"

definition line_ex :: "int \<Rightarrow> Line" where
  "line_ex n = \<lparr>lnSource = ''app'', lnTime = 1000, lnBytes = ''m'',
     lnCursor = \<lparr>curStart = n, curOffset = n + 2, curFile = \<lparr>fiDev = 1, fiIno = 2\<rparr>, curHead = noFingerprint\<rparr>\<rparr>"

definition start_ex :: "int \<Rightarrow> shipper" where
  "start_ex w = (case NewShipper (cfg_ex w) empty_disk of Inr s \<Rightarrow> s)"

definition up_ex :: "int \<Rightarrow> shipper" where
  "up_ex w = (seed_meta (start_ex w))\<lparr>shStream := True\<rparr>"

lemma spool_ex: "spool_ok spool_ex" "spool_pending spool_ex = []" "spool_Len (fst spool_ex) = 0"
  using fresh_spool_ok by (simp_all add: spool_ex_def spool_Len_def fresh_spool_def)

lemmas ex_defs = env_ex_def cfg_ex_def line_ex_def start_ex_def up_ex_def NewShipper_def required_def or_default_def
  seed_meta_def spool_ex

lemma start_ex: "NewShipper (cfg_ex w) empty_disk = Inr (start_ex w)"
  by (simp add: ex_defs defaultMinBackoff_def defaultMaxBackoff_def second_def)

lemma up_reach: "ship_reach env_ex (start_ex w) (up_ex w)"
proof (rule ship_reach.start[of _ True])
  show "tryConnect env_ex True (seed_meta (start_ex w)) = Some (up_ex w)"
    by (simp add: tryConnect_def tryDrainSpool_def drain_loop.simps ex_defs defaultMinBackoff_def defaultMaxBackoff_def second_def)
qed

lemma calm_ex: "calm_env env_ex"
  by (simp add: calm_env_def env_ex_def whole_writes_def readable_def)

subsection \<open>One line, one batch\<close>

lemma levelOf_Valid: "level_Valid (levelOf L fm)"
  by (auto simp: levelOf_def level_Valid_iff[of 0] dest: ParseLevel_Valid split: sum.split)

lemma addLine_single:
  assumes "shLabels s (lnSource l) = Some labels" and "record_Validate now (line_record env l s) = None"
    and "shAccums s = []" and "shMaxBatchRecords s = 1"
    and "seSizeBatch env (envelope labels) + seSizeRecord env (record_Proto (line_record env l s)) \<le> shMaxBatchBytes s"
  shows "addLine env now l s = rearmAccumTimer now (dispatch env
    \<lparr>pbBatchId = ''agent-'' @ itoa_int (wrap64 (shBatchSeq s + 1)), pbLabels = Some (labels_Proto labels),
     pbRecords = [record_Proto (line_record env l s)], pbTraceContext = []\<rparr>
    [(lnSource l, lnCursor l)] (s\<lparr>shAccums := [], shBatchSeq := wrap64 (shBatchSeq s + 1)\<rparr>))"
  using assms by (simp add: addLine_def pick_accum_def make_room_def store_line_def add_record_def flushAccum_def
      put_accum_def newAccumulator_def Let_def)

definition batch_ex :: "string \<Rightarrow> int \<Rightarrow> pb_LogBatch" where
  "batch_ex i n = \<lparr>pbBatchId = i, pbLabels = Some (labels_Proto ls_ab),
     pbRecords = [record_Proto (line_record env_ex (line_ex n) (up_ex 1))], pbTraceContext = []\<rparr>"

definition sent_ex :: "string \<Rightarrow> int \<Rightarrow> outstanding" where
  "sent_ex i n = \<lparr>ouBatch = batch_ex i n, ouCursors = Some [(''app'', lnCursor (line_ex n))], ouFromSpool = False\<rparr>"

lemma up_ex_fields [simp]:
  "shLabels (up_ex w) = (\<lambda>_. Some ls_ab)" "shExtractor (up_ex w) = None" "shMaxBatchRecords (up_ex w) = 1"
  "shMaxBatchBytes (up_ex w) = 524288" "0 < w \<Longrightarrow> shAckWindow (up_ex w) = w" "shAccums (up_ex w) = []" "shStream (up_ex w)"
  "\<not> shSendPaused (up_ex w)" "shSpool (up_ex w) = spool_ex" "shPendingAcks (up_ex w) = []" "shWire (up_ex w) = []"
  "shBatchSeq (up_ex w) = 0" "shSpoolMeta (up_ex w) = []" "shCheckpoint (up_ex w) = NewCheckpointStore ''ckpt''" "shCalls (up_ex w) = 0"
  by (simp_all add: ex_defs defaultMinBackoff_def defaultMaxBackoff_def second_def defaultMaxBatchBytes_def)

lemma env_ex_fields [simp]:
  "seSizeRecord env_ex r = 1" "seSizeBatch env_ex b = 1" "seMarshal env_ex b = Some (pbBatchId b)"
  "seTrace env_ex k = []" "\<not> seSendFails env_ex k" "seIo env_ex k = io_ok"
  "seUnmarshal env_ex d = Some \<lparr>pbBatchId = d, pbLabels = None, pbRecords = [], pbTraceContext = []\<rparr>"
  by (simp_all add: env_ex_def)

lemma record_ex:
  assumes "shExtractor s = None"
  shows "line_record env_ex (line_ex n) s = line_record env_ex (line_ex n) (up_ex 1)"
    and "0 \<le> n \<Longrightarrow> record_Validate 1000 (line_record env_ex (line_ex n) s) = None"
  using assms levelOf_Valid
  by (simp_all add: record_Validate_def line_record_def line_ex_def record_limits minute_def hour_def zero_time_def second_def)

lemma send_ex:
  assumes "shLabels s = (\<lambda>_. Some ls_ab)" "shExtractor s = None" "shMaxBatchRecords s = 1"
    and "shMaxBatchBytes s = 524288" "shAccums s = []" "shStream s" "\<not> shSendPaused s"
    and "spool_Len (fst (shSpool s)) = 0" and "int (length (shPendingAcks s)) < shAckWindow s"
    and "i = ''agent-'' @ itoa_int (wrap64 (shBatchSeq s + 1))" and "0 \<le> n"
  shows "addLine env_ex 1000 (line_ex n) s = s\<lparr>shAccums := [], shBatchSeq := wrap64 (shBatchSeq s + 1),
    shWire := shWire s @ [batch_ex i n], shPendingAcks := shPendingAcks s @ [sent_ex i n],
    shAccumTimer := idleWait\<rparr>"
proof -
  have "lnSource (line_ex n) = ''app''" by (simp add: line_ex_def)
  then show ?thesis using assms record_ex[OF assms(2)] addLine_single[of s "line_ex n" ls_ab 1000 env_ex]
  by (simp add: dispatch_def sendNow_def Let_def rearmAccumTimer_def nextWait_def batch_ex_def sent_ex_def)
qed

lemma spool_line_ex:
  assumes "shLabels s = (\<lambda>_. Some ls_ab)" "shExtractor s = None" "shMaxBatchRecords s = 1"
    and "shMaxBatchBytes s = 524288" "shAccums s = []"
    and "shAckWindow s \<le> int (length (shPendingAcks s))"
    and "i = ''agent-'' @ itoa_int (wrap64 (shBatchSeq s + 1))" and "0 \<le> n"
  shows "addLine env_ex 1000 (line_ex n) s = rearmAccumTimer 1000 (appendToSpool env_ex (batch_ex i n)
    (Some [(''app'', lnCursor (line_ex n))]) (s\<lparr>shAccums := [], shBatchSeq := wrap64 (shBatchSeq s + 1)\<rparr>))"
proof -
  have "lnSource (line_ex n) = ''app''" by (simp add: line_ex_def)
  then show ?thesis using assms record_ex[OF assms(2)] addLine_single[of s "line_ex n" ls_ab 1000 env_ex]
    by (simp add: dispatch_def batch_ex_def)
qed

lemma append_ex:
  assumes "length a = 7" and "length b = 7"
  shows "\<exists>sp1 sp2. spool_Append io_ok a spool_ex = (Inr 0, sp1) \<and> spool_Append io_ok b sp1 = (Inr 0, sp2)"
  using assms by (simp add: spool_ex_def spool_eval maxEntryPayloadBytes_def entryHeaderSize_def Let_def)

lemma spool_trace_ex:
  assumes "length a = 7" and "length b = 7"
  obtains sp1 sp2 sp3 e where "spool_Append io_ok a spool_ex = (Inr 0, sp1)"
    "spool_Append io_ok b sp1 = (Inr 0, sp2)" "spool_Release io_ok sp2 = (e, sp3)"
    "spool_Peek io_ok sp2 = Inr (Some a)" "spool_Peek io_ok sp3 = Inr (Some b)"
    "spool_Len (fst sp1) = 1" "spool_Len (fst sp2) = 2" "spool_Len (fst sp3) = 1" "spool_pending sp3 = [b]"
proof -
  have io: "whole_writes io_ok" "readable io_ok" by (simp_all add: whole_writes_def readable_def)
  from append_ex[OF assms] obtain sp1 sp2 where a: "spool_Append io_ok a spool_ex = (Inr 0, sp1)"
    "spool_Append io_ok b sp1 = (Inr 0, sp2)" by blast
  obtain e sp3 where r: "spool_Release io_ok sp2 = (e, sp3)" by (cases "spool_Release io_ok sp2")
  have 1: "spool_ok sp1" "spool_pending sp1 = [a]"
    using spool_fifo.push_ok[OF spool_ex(1) io(1) a(1)] spool_fifo.push_Inr[OF spool_ex(1) io(1) a(1)] spool_ex(2) by simp_all
  have 2: "spool_ok sp2" "spool_pending sp2 = [a, b]"
    using spool_fifo.push_ok[OF 1(1) io(1) a(2)] spool_fifo.push_Inr[OF 1(1) io(1) a(2)] 1(2) by simp_all
  have 3: "spool_ok sp3" "spool_pending sp3 = [b]"
    using spool_readable.calm_pop_tl[OF 2(1) io(2) r] 2(2) by simp_all
  have "spool_Len (fst sp) = int (length (spool_pending sp))" if "spool_ok sp" for sp
    using pending_length[of "fst sp" "snd sp"] that by simp
  with 1 2 3 that[OF a r] spool_readable.calm_peek_hd[OF 2(1) io(2)] spool_readable.calm_peek_hd[OF 3(1) io(2)]
  show ?thesis by simp
qed

lemmas run_eval = processAck_def settleAck_def demoteRemaining_def demoteOutstanding_def demote_one_def
  sent_ex_def appendToSpool_def batch_ex_def tryDrainSpool_def drain_loop.simps sendNow_def peekSpoolMeta_def Let_def
  settle_spooled_def releaseSpool_def popSpoolMeta_def advance_all_def advanceCheckpoint_def armPause_def backoffDelay_def
  rearmAccumTimer_def

lemma ids_ex: "wrap64 1 = 1" "wrap64 2 = 2" "itoa_int 1 = ''1''" "itoa_int 2 = ''2''"
  by (simp_all add: wrap64_def) code_simp+

lemma two_lines_ex:
  obtains s where "ship_run env_ex [EvLine (line_ex 0) 1000, EvLine (line_ex 2) 1000] (up_ex 1) = Some s"
    "ship_reach env_ex (start_ex 1) s" "shPendingAcks s = [sent_ex ''agent-1'' 0]" "length (shSpoolMeta s) = 1"
    "shMaxBatchRecords s = 1" "shAckWindow s = 1"
proof -
  obtain sp1 sp2 where sp: "spool_Append io_ok ''agent-2'' spool_ex = (Inr 0, sp1)"
    using append_ex[of "''agent-2''" "''agent-2''"] by auto
  let ?evs = "[EvLine (line_ex 0) 1000, EvLine (line_ex 2) 1000]"
  have "\<exists>s. ship_run env_ex ?evs (up_ex 1) = Some s \<and> shPendingAcks s = [sent_ex ''agent-1'' 0] \<and>
      length (shSpoolMeta s) = 1 \<and> shMaxBatchRecords s = 1 \<and> shAckWindow s = 1"
    by (simp add: send_ex spool_line_ex ids_ex spool_ex run_eval sp)
  with that ship_run_reach[OF up_reach[of 1], of ?evs] show ?thesis by blast
qed

lemma start_ex_ok: "spool_ok (shSpool (start_ex w))"
  by (simp add: ex_defs defaultMinBackoff_def defaultMaxBackoff_def second_def)

subsection \<open>Properties\<close>



text \<open>Limits. In every state a run reaches there are at most \<^verbatim>\<open>AckWindow\<close> outstanding batches; either one of
  them was read from the spool and it is the only one, or all were built in this run; those have at least one
  and at most \<^verbatim>\<open>MaxBatchRecords\<close> records and, with the largest envelope, fit into \<^verbatim>\<open>MaxBatchBytes\<close>; and no
  accumulator is full.\<close>

theorem ship_limits:
  assumes "NewShipper cfg d = Inr s0" and "spool_ok (shSpool s0)" and "calm_env env" and "ship_reach env s0 s"
  shows "int (length (shPendingAcks s)) \<le> shAckWindow s \<and>
    ((\<exists>ob. shPendingAcks s = [ob] \<and> ouFromSpool ob) \<or>
     list_all (\<lambda>ob. \<not> ouFromSpool ob \<and> formed env s (ouBatch ob)) (shPendingAcks s)) \<and>
    accums_ok env s"
  using reach_ok[OF assms] by (auto simp: ship_ok_def outstanding_ok_def control_ok_def)

theorem ship_limits_witness:
  "\<exists>s ob. ship_run env_ex [EvLine (line_ex 0) 1000, EvLine (line_ex 2) 1000] (up_ex 1) = Some s \<and>
     shPendingAcks s = [ob] \<and> \<not> ouFromSpool ob \<and> formed env_ex s (ouBatch ob) \<and> accums_ok env_ex s"
proof (rule two_lines_ex)
  fix s
  assume s: "ship_run env_ex [EvLine (line_ex 0) 1000, EvLine (line_ex 2) 1000] (up_ex 1) = Some s"
    "ship_reach env_ex (start_ex 1) s" "shPendingAcks s = [sent_ex ''agent-1'' 0]"
  with ship_limits[OF start_ex start_ex_ok calm_ex s(2)] show ?thesis by (simp add: sent_ex_def)
qed






text \<open>Replay does not keep the order in which batches were built when the acknowledgement window was full.
  With a window of one, the second batch goes to the spool while the first is outstanding; OVERLOADED then puts the
  first behind it, the second is sent and accepted first, and the checkpoint passes the first batch, which is
  still only in the spool.\<close>

theorem overload_reorders:
  "\<exists>s. ship_run env_ex [EvLine (line_ex 0) 1000, EvLine (line_ex 2) 1000, EvAck OVERLOADED, EvPauseOver, EvAck ACCEPTED]
       (up_ex 1) = Some s \<and>
     map pbBatchId (shWire s) = [''agent-1'', ''agent-2'', ''agent-1''] \<and>
     map (pbBatchId \<circ> ouBatch) (shPendingAcks s) = [''agent-1''] \<and> spool_pending (shSpool s) = [''agent-1''] \<and>
     check_Get (shCheckpoint s) ''app'' = Some (lnCursor (line_ex 2))"
proof -
  obtain sp1 sp2 sp3 e where sp: "spool_Append io_ok ''agent-2'' spool_ex = (Inr 0, sp1)"
    "spool_Append io_ok ''agent-1'' sp1 = (Inr 0, sp2)" "spool_Release io_ok sp2 = (e, sp3)"
    "spool_Peek io_ok sp2 = Inr (Some ''agent-2'')" "spool_Peek io_ok sp3 = Inr (Some ''agent-1'')"
    "spool_Len (fst sp1) = 1" "spool_Len (fst sp2) = 2" "spool_Len (fst sp3) = 1" "spool_pending sp3 = [''agent-1'']"
    by (rule spool_trace_ex[of "''agent-2''" "''agent-1''"]) simp_all
  show ?thesis by (simp add: send_ex spool_line_ex ids_ex spool_ex run_eval sp)
qed

end
