(* ===== verification/Record_Merge.thy ===== *)
theory Record_Merge
  imports Query_Plan Records "HOL-Library.Product_Lexorder" "HOL-Library.Multiset"
begin

text \<open>
  Merging the answers of shards: \<^verbatim>\<open>container/heap\<close> as \<^verbatim>\<open>mergeRecords\<close> of \<^verbatim>\<open>internal/cluster/coordinator.go\<close>
  uses it, with the sifting of the standard library written out over lists, and \<^verbatim>\<open>mergeRecords\<close> itself.

  The locale \<open>keyed\<close> is what the heap asks of its elements: a comparison that is the strict order of some key.
  Inside it the heap is shown to give back a smallest element each time; the merge is then an instance of taking
  the first rows of the union of sorted lists, stated by \<open>is_top\<close>.
\<close>

subsection \<open>The heap of the standard library\<close>

definition swap :: "nat \<Rightarrow> nat \<Rightarrow> 'a list \<Rightarrow> 'a list" where
  "swap i j xs = xs[i := xs ! j, j := xs ! i]"

function heap_up :: "('a \<Rightarrow> 'a \<Rightarrow> bool) \<Rightarrow> nat \<Rightarrow> 'a list \<Rightarrow> 'a list" where
  "heap_up lt j xs =
     (let i = (j - 1) div 2 in
      if i = j \<or> \<not> lt (xs ! j) (xs ! i) then xs else heap_up lt i (swap i j xs))"
  by auto

termination
  by (relation "measure (\<lambda>(_, j, _). j)") auto

function heap_down :: "('a \<Rightarrow> 'a \<Rightarrow> bool) \<Rightarrow> nat \<Rightarrow> nat \<Rightarrow> 'a list \<Rightarrow> 'a list" where
  "heap_down lt i n xs =
     (let j1 = 2 * i + 1 in
      if j1 \<ge> n then xs
      else
        let j2 = j1 + 1;
            j = (if j2 < n \<and> lt (xs ! j2) (xs ! j1) then j2 else j1)
        in if \<not> lt (xs ! j) (xs ! i) then xs else heap_down lt j n (swap i j xs))"
  by auto

termination
  by (relation "measure (\<lambda>(_, i, n, _). n - i)") (auto split: if_splits)

declare heap_up.simps [simp del] heap_down.simps [simp del]

fun heap_init_from :: "('a \<Rightarrow> 'a \<Rightarrow> bool) \<Rightarrow> nat \<Rightarrow> 'a list \<Rightarrow> 'a list" where
  "heap_init_from lt 0 xs = xs"
| "heap_init_from lt (Suc i) xs = heap_init_from lt i (heap_down lt i (length xs) xs)"

definition heap_Init :: "('a \<Rightarrow> 'a \<Rightarrow> bool) \<Rightarrow> 'a list \<Rightarrow> 'a list" where
  "heap_Init lt xs = heap_init_from lt (length xs div 2) xs"

definition heap_Push :: "('a \<Rightarrow> 'a \<Rightarrow> bool) \<Rightarrow> 'a \<Rightarrow> 'a list \<Rightarrow> 'a list" where
  "heap_Push lt x xs = heap_up lt (length xs) (xs @ [x])"

definition heap_Pop :: "('a \<Rightarrow> 'a \<Rightarrow> bool) \<Rightarrow> 'a list \<Rightarrow> 'a \<times> 'a list" where
  "heap_Pop lt xs =
     (let n = length xs - 1; ys = heap_down lt 0 n (swap 0 n xs) in (ys ! n, take n ys))"

subsection \<open>Merging\<close>

definition recordLess :: "Direction \<Rightarrow> LogRecord \<Rightarrow> LogRecord \<Rightarrow> bool" where
  "recordLess dir a b =
     (if rTime a \<noteq> rTime b then (if dir = Forward then rTime a < rTime b else rTime a > rTime b)
      else if dir = Forward then rSeq a < rSeq b else rSeq a > rSeq b)"

text \<open>A \<^verbatim>\<open>cursor\<close> is a shard and its next record.\<close>

type_synonym mcursor = "nat \<times> LogRecord"

function merge_loop ::
  "Direction \<Rightarrow> LogRecord list list \<Rightarrow> int \<Rightarrow> mcursor list \<Rightarrow> nat list \<Rightarrow> LogRecord list \<Rightarrow> LogRecord list" where
  "merge_loop dir shards limit items pos out =
     (if items \<noteq> [] \<and> int (length out) < limit then
        let lt = (\<lambda>a b. recordLess dir (snd a) (snd b));
            (top, items1) = heap_Pop lt items;
            sh = fst top;
            next = pos ! sh + 1;
            items2 = (if next < length (shards ! sh) then heap_Push lt (sh, shards ! sh ! next) items1 else items1)
        in merge_loop dir shards limit items2 (pos[sh := next]) (out @ [snd top])
      else out)"
  by auto

termination
  by (relation "measure (\<lambda>(_, _, limit, _, _, out). nat (limit - int (length out)))") auto

declare merge_loop.simps [simp del]

text \<open>The cursors the heap starts from.\<close>

definition shard_heads :: "LogRecord list list \<Rightarrow> mcursor list" where
  "shard_heads shards = concat (map (\<lambda>(i, s). case s of [] \<Rightarrow> [] | r # _ \<Rightarrow> [(i, r)]) (enumerate 0 shards))"

definition mergeRecords :: "LogRecord list list \<Rightarrow> Direction \<Rightarrow> int \<Rightarrow> LogRecord list" where
  "mergeRecords shards dir limit =
     merge_loop dir shards limit (heap_Init (\<lambda>a b. recordLess dir (snd a) (snd b)) (shard_heads shards))
       (replicate (length shards) 0) []"

subsection \<open>Swapping\<close>

lemma length_swap [simp]: "length (swap i j xs) = length xs"
  by (simp add: swap_def)

lemma mset_swap' [simp]: "i < length xs \<Longrightarrow> j < length xs \<Longrightarrow> mset (swap i j xs) = mset xs"
  unfolding swap_def by (rule mset_swap)

lemma nth_swap:
  "i < length xs \<Longrightarrow> j < length xs \<Longrightarrow> swap i j xs ! k = (if k = i then xs ! j else if k = j then xs ! i else xs ! k)"
  by (auto simp: swap_def nth_list_update)

lemma swap_out [simp]: "i < n \<Longrightarrow> j < n \<Longrightarrow> n \<le> k \<Longrightarrow> swap i j xs ! k = xs ! k"
  by (simp add: swap_def)

subsection \<open>A heap gives back a smallest element\<close>

definition parent :: "nat \<Rightarrow> nat" where
  "parent j = (j - 1) div 2"

lemma parent_less: "0 < j \<Longrightarrow> parent j < j"
  by (simp add: parent_def)

lemma parent_child [simp]: "parent (2 * i + 1) = i" "parent (2 * i + 2) = i" "parent (Suc (2 * i)) = i"
  "parent (Suc (Suc (2 * i))) = i"
  by (simp_all add: parent_def)

lemma child_cases: "0 < c \<Longrightarrow> parent c = i \<longleftrightarrow> c = 2 * i + 1 \<or> c = 2 * i + 2"
  unfolding parent_def by presburger

locale keyed =
  fixes lt :: "'a \<Rightarrow> 'a \<Rightarrow> bool"
    and key :: "'a \<Rightarrow> 'k::linorder"
  assumes less_key: "lt x y \<longleftrightarrow> key x < key y"
begin

text \<open>The pairs below \<open>n\<close> whose parent is at least \<open>m\<close> are in order.\<close>

definition ordered_from :: "nat \<Rightarrow> nat \<Rightarrow> 'a list \<Rightarrow> bool" where
  "ordered_from m n xs \<longleftrightarrow> (\<forall>c. 0 < c \<and> c < n \<and> m \<le> parent c \<longrightarrow> key (xs ! parent c) \<le> key (xs ! c))"

abbreviation heap :: "'a list \<Rightarrow> bool" where
  "heap xs \<equiv> ordered_from 0 (length xs) xs"

text \<open>Sifting down from \<open>i\<close>: all pairs are in order but those of \<open>i\<close> and its children, and the parent of \<open>i\<close> is
  below those children.\<close>

definition hole :: "nat \<Rightarrow> nat \<Rightarrow> nat \<Rightarrow> 'a list \<Rightarrow> bool" where
  "hole m i n xs \<longleftrightarrow>
     (\<forall>c. 0 < c \<and> c < n \<and> m \<le> parent c \<and> parent c \<noteq> i \<longrightarrow> key (xs ! parent c) \<le> key (xs ! c)) \<and>
     (\<forall>c. 0 < c \<and> c < n \<and> parent c = i \<and> 0 < i \<and> m \<le> parent i \<longrightarrow> key (xs ! parent i) \<le> key (xs ! c))"

lemma hole_start: "ordered_from (Suc i) n xs \<Longrightarrow> hole i i n xs"
  unfolding hole_def ordered_from_def using parent_less[of i] by (metis Suc_leI le_neq_implies_less not_le)

lemma hole_move:
  assumes "hole m i n xs" and "m \<le> i" and "n \<le> length xs" and "j < n" and "parent j = i" and "0 < j"
    and "key (xs ! j) \<le> key (xs ! i)" and "\<And>c. 0 < c \<Longrightarrow> c < n \<Longrightarrow> parent c = i \<Longrightarrow> key (xs ! j) \<le> key (xs ! c)"
  shows "hole m j n (swap i j xs)"
proof -
  have ij: "i < j" "i < length xs" "j < length xs" using assms parent_less[of j] by auto
  note sw = nth_swap[OF ij(2,3)]
  have ch: "parent c \<noteq> c" if "0 < c" for c using parent_less[OF that] by simp
  have 1: "key (swap i j xs ! parent c) \<le> key (swap i j xs ! c)"
    if "0 < c" "c < n" "m \<le> parent c" "parent c \<noteq> j" for c
  proof (cases "parent c = i")
    case True
    then show ?thesis using assms(7,8) that ij ch[OF that(1)] by (auto simp: sw)
  next
    case False
    then have "c \<noteq> j" using assms(5) by auto
    show ?thesis
    proof (cases "c = i")
      case True
      then show ?thesis using assms(1,4-6) that False ij ch[OF that(1)] by (auto simp: sw hole_def)
    next
      case False
      then show ?thesis using assms(1) that \<open>parent c \<noteq> i\<close> \<open>c \<noteq> j\<close> by (auto simp: sw hole_def)
    qed
  qed
  have 2: "key (swap i j xs ! parent j) \<le> key (swap i j xs ! c)" if "0 < c" "c < n" "parent c = j" for c
  proof -
    have "c \<noteq> i" "c \<noteq> j" using that parent_less[OF that(1)] ij by auto
    moreover have "key (xs ! j) \<le> key (xs ! c)" using assms(1,2,5) that ij by (auto simp: hole_def)
    ultimately show ?thesis using assms(5) by (simp add: sw)
  qed
  show ?thesis using 1 2 by (auto simp: hole_def)
qed

lemma down_spec:
  assumes "hole m i n xs" and "m \<le> i" and "n \<le> length xs"
  shows "ordered_from m n (heap_down lt i n xs) \<and> mset (heap_down lt i n xs) = mset xs \<and>
    (\<forall>k. n \<le> k \<longrightarrow> heap_down lt i n xs ! k = xs ! k)"
  using assms
proof (induction "n - i" arbitrary: i xs rule: less_induct)
  case less
  define j where "j = (if 2 * i + 2 < n \<and> lt (xs ! (2 * i + 2)) (xs ! (2 * i + 1)) then 2 * i + 2 else 2 * i + 1)"
  have j: "parent j = i" "0 < j" "i < j" by (auto simp: j_def)
  have d: "heap_down lt i n xs = (if n \<le> 2 * i + 1 \<or> \<not> lt (xs ! j) (xs ! i) then xs else heap_down lt j n (swap i j xs))"
    by (simp add: heap_down.simps[of lt i n xs] j_def Let_def)
  show ?case
  proof (cases "n \<le> 2 * i + 1")
    case True
    then have "ordered_from m n xs" using less.prems(1)
      by (auto simp: hole_def ordered_from_def child_cases)
    with True show ?thesis by (simp add: d)
  next
    case False
    then have jn: "j < n" by (auto simp: j_def)
    have min: "key (xs ! j) \<le> key (xs ! c)" if "0 < c" "c < n" "parent c = i" for c
      using that by (auto simp: child_cases j_def less_key)
    show ?thesis
    proof (cases "lt (xs ! j) (xs ! i)")
      case True
      then have "key (xs ! j) \<le> key (xs ! i)" by (simp add: less_key)
      then have h: "hole m j n (swap i j xs)" by (rule hole_move[OF less.prems jn j(1,2) _ min])
      have "n - j < n - i" "m \<le> j" "n \<le> length (swap i j xs)" using j jn less.prems(2,3) by auto
      from less.hyps[OF this(1) h this(2,3)] have "ordered_from m n (heap_down lt j n (swap i j xs))"
        "mset (heap_down lt j n (swap i j xs)) = mset (swap i j xs)"
        "\<And>k. n \<le> k \<Longrightarrow> heap_down lt j n (swap i j xs) ! k = swap i j xs ! k"
        by blast+
      moreover have "heap_down lt i n xs = heap_down lt j n (swap i j xs)" using True False by (simp add: d)
      ultimately show ?thesis using j jn less.prems(3) by (auto simp: nth_swap)
    next
      case nl: False
      have "ordered_from m n xs"
        unfolding ordered_from_def
      proof (intro allI impI)
        fix c assume c: "0 < c \<and> c < n \<and> m \<le> parent c"
        show "key (xs ! parent c) \<le> key (xs ! c)"
          using c less.prems(1) min[of c] nl by (cases "parent c = i") (auto simp: hole_def less_key)
      qed
      with nl show ?thesis by (simp add: d)
    qed
  qed
qed

lemma init_spec:
  assumes "ordered_from i (length xs) xs"
  shows "heap (heap_init_from lt i xs) \<and> mset (heap_init_from lt i xs) = mset xs"
  using assms
proof (induction i arbitrary: xs)
  case (Suc i)
  from down_spec[OF hole_start[OF Suc.prems]]
  have d: "ordered_from i (length xs) (heap_down lt i (length xs) xs)" "mset (heap_down lt i (length xs) xs) = mset xs"
    by auto
  from mset_eq_length[OF d(2)] d(1) Suc.IH[of "heap_down lt i (length xs) xs"] d(2) show ?case by simp
qed simp

lemma Init_spec: "heap (heap_Init lt xs) \<and> mset (heap_Init lt xs) = mset xs"
  unfolding heap_Init_def by (rule init_spec) (auto simp: ordered_from_def parent_def)

lemma heap_root:
  assumes "heap xs" and "i < length xs"
  shows "key (xs ! 0) \<le> key (xs ! i)"
  using assms(2)
proof (induction i rule: less_induct)
  case (less i)
  show ?case
  proof (cases "i = 0")
    case False
    then have "key (xs ! 0) \<le> key (xs ! parent i)" using less parent_less[of i] by auto
    also have "\<dots> \<le> key (xs ! i)" using assms(1) False less.prems by (simp add: ordered_from_def)
    finally show ?thesis .
  qed simp
qed

lemma Pop_spec:
  assumes "heap xs" and "xs \<noteq> []" and "heap_Pop lt xs = (x, ys)"
  shows "heap ys \<and> mset xs = add_mset x (mset ys) \<and> (\<forall>y \<in> set xs. key x \<le> key y)"
proof -
  define n where "n = length xs - 1"
  let ?s = "swap 0 n xs" and ?d = "heap_down lt 0 n (swap 0 n xs)"
  have n: "n < length xs" "0 < length xs" using assms(2) by (auto simp: n_def)
  have "hole 0 0 n ?s"
  proof (rule hole_start)
    show "ordered_from (Suc 0) n ?s"
      unfolding ordered_from_def
    proof (intro allI impI)
      fix c assume c: "0 < c \<and> c < n \<and> Suc 0 \<le> parent c"
      then have "parent c < n" using parent_less[of c] by simp
      with c n assms(1) show "key (?s ! parent c) \<le> key (?s ! c)" by (simp add: ordered_from_def nth_swap)
    qed
  qed
  from down_spec[OF this] n have d: "ordered_from 0 n ?d" "mset ?d = mset xs" "?d ! n = xs ! 0"
    by (auto simp: nth_swap)
  have l: "length ?d = Suc n" using mset_eq_length[OF d(2)] n by (simp add: n_def)
  have xy: "x = xs ! 0" "ys = take n ?d" using assms(3) d(3) by (auto simp: heap_Pop_def n_def Let_def)
  have "ordered_from 0 n (take n ?d)"
    using d(1) parent_less by (auto simp: ordered_from_def) (metis less_trans nth_take parent_less)
  then have "heap ys" using l by (simp add: xy)
  moreover have "?d = take n ?d @ [?d ! n]" using l by (metis lessI take_Suc_conv_app_nth take_all_iff le_refl)
  then have "mset ?d = mset (take n ?d @ [?d ! n])" by (rule arg_cong)
  then have "mset xs = add_mset x (mset ys)" using d(2,3) xy by simp
  moreover have "key x \<le> key y" if "y \<in> set xs" for y
    using that heap_root[OF assms(1)] by (auto simp: xy in_set_conv_nth)
  ultimately show ?thesis by blast
qed

lemma up_spec:
  assumes "\<And>c. 0 < c \<Longrightarrow> c < length xs \<Longrightarrow> c \<noteq> j \<Longrightarrow> key (xs ! parent c) \<le> key (xs ! c)"
    and "\<And>c. 0 < c \<Longrightarrow> c < length xs \<Longrightarrow> parent c = j \<Longrightarrow> 0 < j \<Longrightarrow> key (xs ! parent j) \<le> key (xs ! c)"
    and "j < length xs"
  shows "heap (heap_up lt j xs) \<and> mset (heap_up lt j xs) = mset xs"
  using assms
proof (induction j arbitrary: xs rule: less_induct)
  case (less j)
  let ?i = "parent j"
  have u: "heap_up lt j xs = (if ?i = j \<or> \<not> lt (xs ! j) (xs ! ?i) then xs else heap_up lt ?i (swap ?i j xs))"
    by (simp add: heap_up.simps[of lt j xs] parent_def Let_def)
  show ?case
  proof (cases "?i = j \<or> \<not> lt (xs ! j) (xs ! ?i)")
    case True
    have "key (xs ! parent c) \<le> key (xs ! c)" if "0 < c" "c < length xs" for c
      using less.prems(1)[OF that] True that parent_less[of j] by (cases "c = j") (auto simp: less_key)
    with True show ?thesis by (simp add: u ordered_from_def)
  next
    case False
    then have ij: "?i < j" "?i < length xs" "0 < j" and lt: "key (xs ! j) < key (xs ! ?i)"
      using parent_less[of j] less.prems(3) by (cases j; auto simp: less_key parent_def)+
    note sw = nth_swap[OF ij(2) less.prems(3)]
    have "heap (heap_up lt ?i (swap ?i j xs)) \<and> mset (heap_up lt ?i (swap ?i j xs)) = mset (swap ?i j xs)"
    proof (rule less.IH[OF ij(1)])
      show "?i < length (swap ?i j xs)" using ij by simp
      fix c assume c: "0 < c" "c < length (swap ?i j xs)"
      have pc: "parent c < c" by (rule parent_less[OF c(1)])
      show "key (swap ?i j xs ! parent c) \<le> key (swap ?i j xs ! c)" if "c \<noteq> ?i"
        using that c pc lt less.prems(1)[of c] less.prems(2)[of c] ij by (auto simp: sw)
      show "key (swap ?i j xs ! parent ?i) \<le> key (swap ?i j xs ! c)" if "parent c = ?i" "0 < ?i"
      proof -
        have p: "parent ?i < ?i" using that(2) by (rule parent_less)
        have 1: "key (xs ! parent ?i) \<le> key (xs ! ?i)" using less.prems(1)[OF that(2)] ij by auto
        have 2: "key (xs ! parent c) \<le> key (xs ! c)" if "c \<noteq> j" using less.prems(1)[OF c(1)] c that by auto
        show ?thesis using 1 2 that p ij pc by (auto simp: sw)
      qed
    qed
    with False ij less.prems(3) show ?thesis by (simp add: u)
  qed
qed

lemma Push_spec:
  assumes "heap xs"
  shows "heap (heap_Push lt x xs) \<and> mset (heap_Push lt x xs) = add_mset x (mset xs)"
proof -
  have "heap (heap_Push lt x xs) \<and> mset (heap_Push lt x xs) = mset (xs @ [x])"
    unfolding heap_Push_def
  proof (rule up_spec)
    fix c assume c: "0 < c" "c < length (xs @ [x])"
    show "key ((xs @ [x]) ! parent c) \<le> key ((xs @ [x]) ! c)" if "c \<noteq> length xs"
      using c that assms parent_less[OF c(1)] by (auto simp: ordered_from_def nth_append)
    show "key ((xs @ [x]) ! parent (length xs)) \<le> key ((xs @ [x]) ! c)" if "parent c = length xs" "0 < length xs"
      using c that parent_less[OF c(1)] by auto
  qed simp
  then show ?thesis by simp
qed

end

subsection \<open>The first rows of a collection\<close>

text \<open>\<open>out\<close> holds the \<open>n\<close> first elements of \<open>M\<close> in the order of the key, with ties broken in any way.\<close>

definition is_top :: "('a \<Rightarrow> 'k::linorder) \<Rightarrow> nat \<Rightarrow> 'a multiset \<Rightarrow> 'a list \<Rightarrow> bool" where
  "is_top k n M out \<longleftrightarrow> sorted (map k out) \<and> length out = min n (size M) \<and>
     (\<exists>R. M = mset out + R \<and> (\<forall>x \<in> set out. \<forall>y \<in># R. k x \<le> k y))"

definition rkey :: "Direction \<Rightarrow> LogRecord \<Rightarrow> int \<times> int" where
  "rkey dir r = (if dir = Forward then (rTime r, rSeq r) else (- rTime r, - rSeq r))"

interpretation record_order: keyed "recordLess dir" "rkey dir" for dir
  by unfold_locales (auto simp: recordLess_def rkey_def less_prod_def less_prod_def')

interpretation cursor_order: keyed "\<lambda>a b. recordLess dir (snd a) (snd b)" "\<lambda>a. rkey dir (snd a)" for dir
  by unfold_locales (simp add: record_order.less_key)

subsection \<open>The merge takes the first rows of the union\<close>

definition head_at :: "LogRecord list list \<Rightarrow> nat \<Rightarrow> nat \<Rightarrow> mcursor multiset" where
  "head_at shards i p = (if p < length (shards ! i) then {#(i, shards ! i ! p)#} else {#})"

definition rest_at :: "LogRecord list list \<Rightarrow> nat \<Rightarrow> nat \<Rightarrow> LogRecord multiset" where
  "rest_at shards i p = mset (drop p (shards ! i))"

lemma sum_update:
  fixes f :: "nat \<Rightarrow> nat \<Rightarrow> 'a multiset"
  assumes "sh < length pos"
  shows "(\<Sum>i<length pos. f i (pos[sh := v] ! i)) + f sh (pos ! sh) = (\<Sum>i<length pos. f i (pos ! i)) + f sh v"
proof -
  let ?S = "{..<length pos} - {sh}"
  have "(\<Sum>i<length pos. g i) = g sh + sum g ?S" for g :: "nat \<Rightarrow> 'a multiset"
    using assms by (intro sum.remove) auto
  moreover have "(\<Sum>i\<in>?S. f i (pos[sh := v] ! i)) = (\<Sum>i\<in>?S. f i (pos ! i))"
    by (rule sum.cong) auto
  ultimately show ?thesis using assms by (simp add: ac_simps)
qed

definition merging :: "Direction \<Rightarrow> LogRecord list list \<Rightarrow> mcursor list \<Rightarrow> nat list \<Rightarrow> LogRecord list \<Rightarrow> bool" where
  "merging dir shards items pos out \<longleftrightarrow>
     length pos = length shards \<and> cursor_order.heap dir items \<and>
     mset items = (\<Sum>i<length pos. head_at shards i (pos ! i)) \<and>
     mset (concat shards) = mset out + (\<Sum>i<length pos. rest_at shards i (pos ! i)) \<and>
     sorted (map (rkey dir) out) \<and>
     (\<forall>x \<in> set out. \<forall>y \<in># (\<Sum>i<length pos. rest_at shards i (pos ! i)). rkey dir x \<le> rkey dir y)"

lemma in_sum: "x \<in># (\<Sum>i<n. f i) \<longleftrightarrow> (\<exists>i<n. x \<in># f i)" for f :: "nat \<Rightarrow> 'a multiset"
  by (induction n) (auto simp: less_Suc_eq)

lemma rest_head:
  assumes "list_all (\<lambda>s. sorted (map k s)) shards" and "y \<in># rest_at shards i p" and "i < length shards"
  shows "p < length (shards ! i) \<and> k (shards ! i ! p) \<le> k y"
proof -
  from assms(2) have p: "p < length (shards ! i)" by (auto simp: rest_at_def intro: ccontr)
  then have d: "drop p (shards ! i) = shards ! i ! p # drop (Suc p) (shards ! i)" by (simp add: Cons_nth_drop_Suc)
  from assms(1,3) have "sorted (map k (drop p (shards ! i)))"
    by (auto simp: list_all_length drop_map[symmetric] intro: sorted_wrt_drop)
  with assms(2) d p show ?thesis by (auto simp: rest_at_def)
qed

lemma merging_step:
  assumes m: "merging dir shards items pos out" and s: "list_all (\<lambda>s. sorted (map (rkey dir) s)) shards"
    and ne: "items \<noteq> []" and pop: "heap_Pop (\<lambda>a b. recordLess dir (snd a) (snd b)) items = ((sh, r), items1)"
  shows "sh < length shards" and "pos ! sh < length (shards ! sh)" and "r = shards ! sh ! (pos ! sh)"
    and "merging dir shards
      (if pos ! sh + 1 < length (shards ! sh)
       then heap_Push (\<lambda>a b. recordLess dir (snd a) (snd b)) (sh, shards ! sh ! (pos ! sh + 1)) items1 else items1)
      (pos[sh := pos ! sh + 1]) (out @ [r])"
proof -
  from m have len: "length pos = length shards" and heap: "cursor_order.heap dir items"
    and it: "mset items = (\<Sum>i<length pos. head_at shards i (pos ! i))"
    and all: "mset (concat shards) = mset out + (\<Sum>i<length pos. rest_at shards i (pos ! i))"
    and so: "sorted (map (rkey dir) out)"
    and le: "\<And>x y. x \<in> set out \<Longrightarrow> y \<in># (\<Sum>i<length pos. rest_at shards i (pos ! i)) \<Longrightarrow> rkey dir x \<le> rkey dir y"
    by (auto simp: merging_def)
  from cursor_order.Pop_spec[OF heap ne pop]
  have h1: "cursor_order.heap dir items1" and p1: "mset items = add_mset (sh, r) (mset items1)"
    and min: "\<And>i q. (i, q) \<in> set items \<Longrightarrow> rkey dir r \<le> rkey dir q" by auto
  have "(sh, r) \<in># (\<Sum>i<length pos. head_at shards i (pos ! i))" using p1 it by simp
  then show sh: "sh < length shards" and ps: "pos ! sh < length (shards ! sh)" and r: "r = shards ! sh ! (pos ! sh)"
    using len by (auto simp: in_sum head_at_def split: if_splits)
  let ?pos = "pos[sh := pos ! sh + 1]"
  have hd: "head_at shards sh (pos ! sh) = {#(sh, r)#}" using ps r by (simp add: head_at_def)
  have rs: "rest_at shards sh (pos ! sh) = add_mset r (rest_at shards sh (pos ! sh + 1))"
    using ps r by (simp add: rest_at_def Cons_nth_drop_Suc[symmetric])
  note up = sum_update[of sh pos, unfolded len, OF sh]
  have old: "(\<Sum>i<length shards. head_at shards i (pos ! i)) = add_mset (sh, r) (mset items1)"
    using it p1 len by simp
  have heads: "(\<Sum>i<length shards. head_at shards i (?pos ! i)) = mset items1 + head_at shards sh (pos ! sh + 1)"
    using up[of "head_at shards" "pos ! sh + 1"] unfolding old hd by simp
  have rests: "(\<Sum>i<length shards. rest_at shards i (pos ! i)) = add_mset r (\<Sum>i<length shards. rest_at shards i (?pos ! i))"
    using up[of "rest_at shards" "pos ! sh + 1"] rs by simp
  have rmin: "rkey dir r \<le> rkey dir y" if "y \<in># (\<Sum>i<length shards. rest_at shards i (pos ! i))" for y
  proof -
    from that obtain i where i: "i < length shards" "y \<in># rest_at shards i (pos ! i)" by (auto simp: in_sum)
    note b = rest_head[OF s i(2,1)]
    then have "(i, shards ! i ! (pos ! i)) \<in># mset items" using i len by (auto simp: it in_sum head_at_def)
    with b min show ?thesis by fastforce
  qed
  show "merging dir shards
      (if pos ! sh + 1 < length (shards ! sh)
       then heap_Push (\<lambda>a b. recordLess dir (snd a) (snd b)) (sh, shards ! sh ! (pos ! sh + 1)) items1 else items1)
      ?pos (out @ [r])"
    unfolding merging_def
  proof (intro conjI)
    show "length ?pos = length shards" using len by simp
    show "cursor_order.heap dir (if pos ! sh + 1 < length (shards ! sh)
       then heap_Push (\<lambda>a b. recordLess dir (snd a) (snd b)) (sh, shards ! sh ! (pos ! sh + 1)) items1 else items1)"
      using h1 cursor_order.Push_spec[OF h1] by auto
    show "mset (if pos ! sh + 1 < length (shards ! sh)
       then heap_Push (\<lambda>a b. recordLess dir (snd a) (snd b)) (sh, shards ! sh ! (pos ! sh + 1)) items1 else items1) =
       (\<Sum>i<length ?pos. head_at shards i (?pos ! i))"
      using heads cursor_order.Push_spec[OF h1] len by (auto simp: head_at_def)
    show "mset (concat shards) = mset (out @ [r]) + (\<Sum>i<length ?pos. rest_at shards i (?pos ! i))"
      using all rests len by simp
    show "sorted (map (rkey dir) (out @ [r]))"
      using so le[of _ r] rests len by (auto simp: sorted_append)
    show "\<forall>x\<in>set (out @ [r]). \<forall>y\<in>#(\<Sum>i<length ?pos. rest_at shards i (?pos ! i)). rkey dir x \<le> rkey dir y"
      using le rmin rests len by auto
  qed
qed

lemma merging_done:
  assumes "merging dir shards items pos out" and "items = [] \<or> limit \<le> length out" and "length out \<le> limit"
    and "list_all (\<lambda>s. sorted (map (rkey dir) s)) shards"
  shows "is_top (rkey dir) limit (mset (concat shards)) out"
proof -
  let ?R = "\<Sum>i<length pos. rest_at shards i (pos ! i)"
  obtain R where R: "R = ?R" by blast
  have len: "length pos = length shards" using assms(1) by (simp add: merging_def)
  have "R = {#}" if "items = []"
  proof (rule ccontr)
    assume "R \<noteq> {#}"
    then obtain y where "y \<in># R" by (rule multiset_nonemptyE)
    then obtain i where i: "i < length shards" "y \<in># rest_at shards i (pos ! i)" using len by (auto simp: R in_sum)
    have "(i, shards ! i ! (pos ! i)) \<in># mset items"
      using rest_head[OF assms(4) i(2,1)] i assms(1) len by (auto simp: merging_def in_sum head_at_def)
    with that show False by simp
  qed
  moreover have "size (mset (concat shards)) = length out + size R"
    using assms(1) unfolding merging_def R[symmetric] by (metis size_mset size_union)
  ultimately have "length out = min limit (size (mset (concat shards)))"
    using assms(2,3) by (auto simp del: size_mset)
  with assms(1) show ?thesis unfolding is_top_def merging_def by blast
qed

lemma merge_loop_top:
  assumes "merging dir shards items pos out" and "int (length out) \<le> limit"
    and s: "list_all (\<lambda>s. sorted (map (rkey dir) s)) shards"
  shows "is_top (rkey dir) (nat limit) (mset (concat shards)) (merge_loop dir shards limit items pos out)"
  using assms(1,2)
proof (induction "nat limit - length out" arbitrary: items pos out rule: less_induct)
  case less
  show ?case
  proof (cases "items \<noteq> [] \<and> int (length out) < limit")
    case False
    then show ?thesis using merging_done[OF less.prems(1) _ _ s, of "nat limit"] less.prems(2)
      by (subst merge_loop.simps) auto
  next
    case True
    obtain sh r items1 where pop: "heap_Pop (\<lambda>a b. recordLess dir (snd a) (snd b)) items = ((sh, r), items1)"
      by (metis surj_pair)
    note st = merging_step[OF less.prems(1) s _ pop]
    have "nat limit - length (out @ [r]) < nat limit - length out" "int (length (out @ [r])) \<le> limit"
      using True by auto
    from less.hyps[OF this(1) st(4) this(2)] True show ?thesis
      by (cases "Suc (pos ! sh) < length (shards ! sh)"; subst merge_loop.simps; simp add: pop Let_def)
  qed
qed

lemma sum_mset_list: "(\<Sum>i<length xs. f (xs ! i)) = (\<Sum>x\<leftarrow>xs. f x)" for f :: "'a \<Rightarrow> 'b multiset"
  by (simp add: sum_list_sum_nth atLeast0LessThan)

lemma merging_start:
  "merging dir shards
     (heap_Init (\<lambda>a b. recordLess dir (snd a) (snd b)) (shard_heads shards)) (replicate (length shards) 0) []"
proof -
  let ?f = "\<lambda>(i, s). case s of [] \<Rightarrow> [] | r # _ \<Rightarrow> [(i, r)]"
  have "mset (shard_heads shards) = (\<Sum>p\<leftarrow>enumerate 0 shards. mset (?f p))"
    by (simp add: shard_heads_def mset_concat comp_def)
  also have "\<dots> = (\<Sum>i<length shards. head_at shards i 0)"
    by (auto simp: sum_list_sum_nth atLeast0LessThan nth_enumerate_eq head_at_def intro!: sum.cong split: list.split)
  finally have h: "mset (shard_heads shards) = (\<Sum>i<length shards. head_at shards i 0)" .
  have r: "mset (concat shards) = (\<Sum>i<length shards. rest_at shards i 0)"
    by (simp add: mset_concat rest_at_def sum_list_sum_nth atLeast0LessThan)
  have z: "(\<Sum>i<length shards. g i (replicate (length shards) 0 ! i)) = (\<Sum>i<length shards. g i 0)"
    for g :: "nat \<Rightarrow> nat \<Rightarrow> 'a multiset" by (rule sum.cong) auto
  show ?thesis unfolding merging_def using cursor_order.Init_spec[of dir "shard_heads shards"] h r by (simp add: z)
qed

theorem mergeRecords_top:
  assumes "list_all (\<lambda>s. sorted (map (rkey dir) s)) shards" and "0 \<le> limit"
  shows "is_top (rkey dir) (nat limit) (mset (concat shards)) (mergeRecords shards dir limit)"
  unfolding mergeRecords_def Let_def using merge_loop_top[OF merging_start _ assms(1), of limit] assms(2) by simp

text \<open>The first rows of the first rows of disjoint shares are the first rows of the whole.\<close>

lemma min_sum_min: "min n (\<Sum>i<l. min n (f i)) = min n (\<Sum>i<l. f i)" for n l :: nat
  by (induction l) (auto simp: min_def split: if_splits)

lemma top_of_tops:
  assumes "length Ms = length outs" and "\<And>i. i < length Ms \<Longrightarrow> is_top k n (Ms ! i) (outs ! i)"
    and "is_top k n (mset (concat outs)) out"
  shows "is_top k n (sum_list Ms) out"
proof -
  from assms(2) obtain Q where Q: "\<And>i. i < length Ms \<Longrightarrow> Ms ! i = mset (outs ! i) + Q i"
    "\<And>i x y. i < length Ms \<Longrightarrow> x \<in> set (outs ! i) \<Longrightarrow> y \<in># Q i \<Longrightarrow> k x \<le> k y"
    unfolding is_top_def by metis
  from assms(2) have l: "length (outs ! i) = min n (size (Ms ! i))" if "i < length Ms" for i
    using that by (simp add: is_top_def)
  from assms(3) obtain R where R: "mset (concat outs) = mset out + R" "\<And>x y. x \<in> set out \<Longrightarrow> y \<in># R \<Longrightarrow> k x \<le> k y"
    and lo: "length out = min n (length (concat outs))" and so: "sorted (map k out)"
    by (auto simp: is_top_def)
  let ?l = "length outs"
  have c: "mset (concat outs) = (\<Sum>i<?l. mset (outs ! i))" "length (concat outs) = (\<Sum>i<?l. length (outs ! i))"
    by (simp_all add: mset_concat length_concat sum_list_sum_nth atLeast0LessThan)
  have M: "sum_list Ms = (\<Sum>i<?l. Ms ! i)" using assms(1) by (simp add: sum_list_sum_nth atLeast0LessThan)
  then have "sum_list Ms = mset out + (R + (\<Sum>i<?l. Q i))"
    using R(1) c(1) Q(1) assms(1) by (simp add: sum.distrib ac_simps)
  moreover have "length out = min n (size (sum_list Ms))"
    using lo c(2) l assms(1) min_sum_min[of n "\<lambda>i. size (Ms ! i)" ?l] M by simp
  moreover have "k x \<le> k y" if x: "x \<in> set out" and y: "y \<in># R + (\<Sum>i<?l. Q i)" for x y
  proof (rule ccontr)
    assume xy: "\<not> k x \<le> k y"
    then obtain i where i: "i < length Ms" "y \<in># Q i" using y R(2)[OF x] assms(1) by (auto simp: in_sum)
    then have full: "length (outs ! i) = n" using l[OF i(1)] Q(1)[OF i(1)] by (cases "Q i") (auto simp: min_def split: if_splits)
    have small: "k z < k x" if "z \<in> set (outs ! i)" for z using Q(2)[OF i(1) that i(2)] xy by simp
    have "mset (outs ! i) \<subseteq># mset (concat outs)"
      using i(1) assms(1) unfolding c(1) by (metis finite_lessThan lessThan_iff mset_subset_eq_add_left sum.remove)
    then have sub: "count (mset (outs ! i)) z \<le> count (mset out) z + count R z" for z
      unfolding R(1) by (metis count_union mset_subset_eq_count)
    have "mset (outs ! i) + {#x#} \<subseteq># mset out"
    proof (rule mset_subset_eqI)
      fix z
      show "count (mset (outs ! i) + {#x#}) z \<le> count (mset out) z"
      proof (cases "z \<in> set (outs ! i)")
        case True
        then have "z \<notin># R" "z \<noteq> x" using small[OF True] R(2)[OF x, of z] by auto
        then show ?thesis using sub[of z] by (simp add: not_in_iff)
      next
        case False
        have "count {#x#} z \<le> count (mset out) z" using x by (cases "z = x") (auto simp: Suc_le_eq)
        moreover have "count (mset (outs ! i)) z = 0" using False by (meson count_inI in_multiset_in_set)
        ultimately show ?thesis unfolding count_union by linarith
      qed
    qed
    from size_mset_mono[OF this] full lo show False by simp
  qed
  ultimately show ?thesis using so unfolding is_top_def by blast
qed

end
