(* ===== verification/Membership.thy ===== *)
theory Membership
  imports Hash_Ring "HOL-Library.AList"
begin

text \<open>
  \<^verbatim>\<open>internal/cluster/cluster.go\<close>: one node's view of who is in the cluster. memberlist (the gossip library) calls
  back with a node that joined, changed or left; the view is a map of members and the ring built from their
  names. What decoding the metadata a node gossips leaves in the variable, complete or not, is the parameter
  \<open>decode\<close> (\<^verbatim>\<open>encoding/json\<close>); an error is only logged. A map range has any order, which \<^verbatim>\<open>NewRing\<close> does not see. Starting, joining and
  leaving the gossip are calls of the library and not modelled.
\<close>

record Member =
  mbName :: string
  mbAddr :: string
  mbPeerPort :: int
  mbHTTPPort :: int
  mbVersion :: string
  mbReady :: bool
  mbVNodes :: int

record meta =
  mtPeerPort :: int
  mtHTTPPort :: int
  mtVNodes :: int
  mtVersion :: string
  mtReady :: bool

definition meta0 :: meta where
  "meta0 = \<lparr>mtPeerPort = 0, mtHTTPPort = 0, mtVNodes = 0, mtVersion = [], mtReady = False\<rparr>"

text \<open>A \<^verbatim>\<open>memberlist.Node\<close>, as far as it is read.\<close>

record ml_node =
  ndName :: string
  ndAddr :: string
  ndMeta :: bytes

record Cluster =
  clVNodes :: int
  clSelf :: string
  clSelfMeta :: meta
  clMembers :: "Member gomap"
  clRing :: Ring
  clGauge :: nat
  clChanges :: nat

text \<open>The state before the first callback.\<close>

definition NewCluster :: "golib \<Rightarrow> string \<Rightarrow> int \<Rightarrow> meta \<Rightarrow> Cluster" where
  "NewCluster L node vnodes self =
     \<lparr>clVNodes = vnodes, clSelf = node, clSelfMeta = self\<lparr>mtVNodes := vnodes\<rparr>, clMembers = [],
      clRing = NewRing L [] vnodes, clGauge = 0, clChanges = 0\<rparr>"

definition SetReady :: "bool \<Rightarrow> Cluster \<Rightarrow> Cluster" where
  "SetReady ready c = c\<lparr>clSelfMeta := (clSelfMeta c)\<lparr>mtReady := ready\<rparr>\<rparr>"

definition member_of :: "(bytes \<Rightarrow> meta) \<Rightarrow> ml_node \<Rightarrow> Member" where
  "member_of decode n =
     (let md = (if ndMeta n = [] then meta0 else decode (ndMeta n)) in
      \<lparr>mbName = ndName n, mbAddr = ndAddr n, mbPeerPort = mtPeerPort md, mbHTTPPort = mtHTTPPort md,
       mbVersion = mtVersion md, mbReady = mtReady md, mbVNodes = mtVNodes md\<rparr>)"

definition cluster_update :: "golib \<Rightarrow> (bytes \<Rightarrow> meta) \<Rightarrow> ml_node \<Rightarrow> bool \<Rightarrow> Cluster \<Rightarrow> Cluster" where
  "cluster_update L decode n alive c =
     (let ms = (if alive then AList.update (ndName n) (member_of decode n) (clMembers c)
                else AList.delete (ndName n) (clMembers c));
          old = clRing c;
          ring = NewRing L (map fst ms) (clVNodes c);
          moves = Diff old ring
      in c\<lparr>clMembers := ms, clGauge := length ms, clRing := ring, clChanges := clChanges c + length moves\<rparr>)"

definition cluster_Members :: "Cluster \<Rightarrow> Member option list" where
  "cluster_Members c = map (map_of (clMembers c)) (rNodes (clRing c))"

definition cluster_Owner :: "Cluster \<Rightarrow> u64 \<Rightarrow> Member option" where
  "cluster_Owner c i = map_of (clMembers c) (Owner (clRing c) i)"

text \<open>The callbacks: \<open>(n, True)\<close> for \<^verbatim>\<open>NotifyJoin\<close> and \<^verbatim>\<open>NotifyUpdate\<close>, \<open>(n, False)\<close> for \<^verbatim>\<open>NotifyLeave\<close>.\<close>

definition notify_all :: "golib \<Rightarrow> (bytes \<Rightarrow> meta) \<Rightarrow> (ml_node \<times> bool) list \<Rightarrow> Cluster \<Rightarrow> Cluster" where
  "notify_all L decode evs c = fold (\<lambda>(n, alive). cluster_update L decode n alive) evs c"

subsection \<open>The view stays consistent\<close>

definition view_ok :: "golib \<Rightarrow> Cluster \<Rightarrow> bool" where
  "view_ok L c \<longleftrightarrow> gomap_ok (clMembers c) \<and> clRing c = NewRing L (map fst (clMembers c)) (clVNodes c) \<and>
     clGauge c = length (clMembers c) \<and> (\<forall>(k, m) \<in> set (clMembers c). mbName m = k)"

lemma update_names:
  "fst ` set (AList.update k v ms) = insert k (fst ` set ms)" "fst ` set (AList.delete k ms) = fst ` set ms - {k}"
  by (auto simp: dom_update AList.delete_eq)

lemma update_view:
  assumes "view_ok L c"
  shows "view_ok L (cluster_update L decode n alive c)"
proof -
  have "mbName m = k" if "(k, m) \<in> set (AList.update (ndName n) (member_of decode n) (clMembers c))" for k m
    using that assms map_of_eq_Some_iff[of "AList.update (ndName n) (member_of decode n) (clMembers c)" k m]
    by (auto simp: view_ok_def distinct_update update_conv' member_of_def Let_def split: if_splits)
  moreover have "mbName m = k" if "(k, m) \<in> set (AList.delete (ndName n) (clMembers c))" for k m
    using that assms by (auto simp: AList.delete_eq view_ok_def)
  ultimately show ?thesis using assms
    by (auto simp: view_ok_def cluster_update_def Let_def distinct_update distinct_delete)
qed

lemma notify_view: "view_ok L c \<Longrightarrow> view_ok L (notify_all L decode evs c)"
  unfolding notify_all_def by (induction evs arbitrary: c) (auto intro: update_view)

lemma start_view: "view_ok L (NewCluster L node v self)"
  by (simp add: view_ok_def NewCluster_def)

lemma notify_vnodes [simp]: "clVNodes (notify_all L decode evs c) = clVNodes c"
  unfolding notify_all_def by (induction evs arbitrary: c) (auto simp: cluster_update_def Let_def)

text \<open>Who is alive after a sequence of callbacks: the members whose last one was not a departure.\<close>

fun alive_names :: "(ml_node \<times> bool) list \<Rightarrow> string set \<Rightarrow> string set" where
  "alive_names [] ns = ns"
| "alive_names ((n, alive) # evs) ns = alive_names evs (if alive then insert (ndName n) ns else ns - {ndName n})"

lemma notify_names: "fst ` set (clMembers (notify_all L decode evs c)) = alive_names evs (fst ` set (clMembers c))"
  unfolding notify_all_def
  by (induction evs arbitrary: c) (auto simp: cluster_update_def Let_def update_names)

text \<open>C28. Nodes agree on owners. Two nodes that were told of the same set of live members, in whatever order and
  however often, and are configured with the same number of virtual nodes, build the same ring; as soon as there
  is a member, every stream has an owner, which is a member of that name.\<close>

theorem cluster_agreement:
  assumes "alive_names evs1 {} = alive_names evs2 {}"
  shows "clRing (notify_all L d1 evs1 (NewCluster L n1 v self1)) = clRing (notify_all L d2 evs2 (NewCluster L n2 v self2)) \<and>
    (alive_names evs1 {} \<noteq> {} \<longrightarrow>
      (\<exists>m. cluster_Owner (notify_all L d1 evs1 (NewCluster L n1 v self1)) i = Some m \<and>
         mbName m = Owner (clRing (notify_all L d2 evs2 (NewCluster L n2 v self2))) i \<and> mbName m \<in> alive_names evs1 {}))"
proof -
  let ?c1 = "notify_all L d1 evs1 (NewCluster L n1 v self1)" and ?c2 = "notify_all L d2 evs2 (NewCluster L n2 v self2)"
  have e: "fst ` set (clMembers (NewCluster L n v s)) = {}" for n s by (simp add: NewCluster_def)
  have ns: "fst ` set (clMembers ?c1) = alive_names evs1 {}" "fst ` set (clMembers ?c2) = alive_names evs1 {}"
    using notify_names[of L d1 evs1 "NewCluster L n1 v self1"] notify_names[of L d2 evs2 "NewCluster L n2 v self2"] assms
    by (simp_all add: e)
  note v1 = notify_view[OF start_view, of L d1 evs1 n1 v self1] and v2 = notify_view[OF start_view, of L d2 evs2 n2 v self2]
  have vn: "clVNodes (NewCluster L n v s) = v" for n s by (simp add: NewCluster_def)
  have r: "clRing ?c1 = NewRing L (map fst (clMembers ?c1)) v" "clRing ?c2 = NewRing L (map fst (clMembers ?c2)) v"
    using v1 v2 by (simp_all add: view_ok_def vn)
  then have same: "clRing ?c1 = clRing ?c2" using NewRing_set[of "map fst (clMembers ?c1)" "map fst (clMembers ?c2)" L v] ns by simp
  moreover have "\<exists>m. cluster_Owner ?c1 i = Some m \<and> mbName m = Owner (clRing ?c2) i \<and> mbName m \<in> alive_names evs1 {}"
    if "alive_names evs1 {} \<noteq> {}"
  proof -
    have "Owner (clRing ?c1) i \<in> set (map fst (clMembers ?c1))"
      unfolding r(1) using that ns(1) by (intro owner_member) auto
    then obtain m where m: "map_of (clMembers ?c1) (Owner (clRing ?c1) i) = Some m"
      by (metis map_of_eq_None_iff not_Some_eq set_map)
    from map_of_SomeD[OF m] v1 have "mbName m = Owner (clRing ?c1) i" by (auto simp: view_ok_def)
    with m same ns(1) map_of_SomeD[OF m] show ?thesis by (force simp: cluster_Owner_def)
  qed
  ultimately show ?thesis by blast
qed

definition node_ex :: "string \<Rightarrow> ml_node" where
  "node_ex n = \<lparr>ndName = n, ndAddr = ''10.0.0.1'', ndMeta = []\<rparr>"

theorem cluster_agreement_witness:
  "let c1 = notify_all lib0 (\<lambda>_. meta0) [(node_ex ''a'', True), (node_ex ''b'', True)] (NewCluster lib0 ''a'' 2 meta0);
       c2 = notify_all lib0 (\<lambda>_. meta0) [(node_ex ''b'', True), (node_ex ''c'', True), (node_ex ''a'', True),
              (node_ex ''c'', False)] (NewCluster lib0 ''b'' 2 meta0)
   in clRing c1 = clRing c2 \<and> (\<exists>m. cluster_Owner c1 7 = Some m \<and> mbName m = Owner (clRing c2) 7)"
proof -
  have "alive_names [(node_ex ''a'', True), (node_ex ''b'', True)] {} =
      alive_names [(node_ex ''b'', True), (node_ex ''c'', True), (node_ex ''a'', True), (node_ex ''c'', False)] {}"
    by (auto simp: node_ex_def)
  from cluster_agreement[OF this, of lib0 "\<lambda>_. meta0" "''a''" 2 meta0 "\<lambda>_. meta0" "''b''" meta0 7] show ?thesis
    by (auto simp: Let_def)
qed

end
