(* ===== verification/Coordinator.thy ===== *)
theory Coordinator
  imports Record_Merge Membership Query_Parser
begin

text \<open>
  Answering a query: \<^verbatim>\<open>internal/query/executor/executor.go\<close> on one node, and \<^verbatim>\<open>internal/cluster/coordinator.go\<close> with
  \<^verbatim>\<open>peer.go\<close> across a cluster.

  The database is a parameter: \<open>ceStreams\<close>, \<open>ceRecords\<close> and \<open>cePoints\<close> are what running a statement and collecting its
  rows gives, on this node (\<open>None\<close>) or at the address of a peer, with the stream ids bound to the first argument
  passed beside the statement. \<open>ceReach\<close> says whether a call reaches the peer at an address and its answer comes back, \<open>ceDone\<close>
  whether the query's context has ended by the time all shards have answered. The shards run concurrently but share
  nothing, so their results are a function of the shard. Values of a series are \<^verbatim>\<open>float64\<close>; their type and addition
  are parameters. Elapsed time and logging are left out.
\<close>

subsection \<open>Results\<close>

record 'f Point =
  ptBucket :: gotime
  ptValue :: 'f
  ptLabels :: "string gomap"

record 'f Result =
  reRecords :: "LogRecord list"
  rePoints :: "'f Point list"
  reSource :: string
  reStart :: gotime
  reEnd :: gotime
  reStreams :: nat
  reTruncated :: bool
  reWarnings :: "(string \<times> nat) list"

text \<open>The columns of a grouped row that \<^verbatim>\<open>scanPoint\<close> reads untyped.\<close>

datatype sql_col = SNull | SInt16 int | SText string | SOther

type_synonym 'f prow = "gotime \<times> 'f \<times> sql_col list"

datatype exec_err =
    PlanErr plan_err | DbErr string | ScanErr string
  | PeerBadQuery parse_err | PeerBadPlan plan_err | PeerFailed | PeerUnreachable
  | CtxErr

record 'f cenv =
  ceLib :: golib
  ceAdd :: "'f \<Rightarrow> 'f \<Rightarrow> 'f"
  ceStreams :: "Stmt \<Rightarrow> string + u64 list"
  ceRecords :: "string option \<Rightarrow> Stmt \<Rightarrow> u64 list \<Rightarrow> string + LogRecord list"
  cePoints :: "string option \<Rightarrow> Stmt \<Rightarrow> u64 list \<Rightarrow> string + 'f prow list"
  ceReach :: "string \<Rightarrow> bool"
  ceDone :: bool

subsection \<open>The executor\<close>

type_synonym shape = "string list option"

text \<open>\<^verbatim>\<open>Shape\<close>: the labels to group by for an aggregation, \<open>None\<close> for log records.\<close>

definition ShapeOf :: "Query \<Rightarrow> shape" where
  "ShapeOf q = (case qAgg q of None \<Rightarrow> None | Some a \<Rightarrow> Some (agBy a))"

definition exec_Plan :: "golib \<Rightarrow> Query \<Rightarrow> Request \<Rightarrow> plan_err + Plan \<times> int" where
  "exec_Plan L q r =
     (let limit = rqLimit r;
          r1 = (if limit > 0 then r\<lparr>rqLimit := wrap64 (rqLimit r + 1)\<rparr> else r) in
      case Compile L q r1 of Inl e \<Rightarrow> Inl e | Inr p \<Rightarrow> Inr (p, limit))"

fun scan_labels :: "string list \<Rightarrow> sql_col list \<Rightarrow> string gomap \<Rightarrow> string + string gomap" where
  "scan_labels (n # ns) (v # vs) m =
     (case v of
        SNull \<Rightarrow> scan_labels ns vs m
      | SInt16 l \<Rightarrow> scan_labels ns vs (AList.update n (level_String l) m)
      | SText t \<Rightarrow> scan_labels ns vs (AList.update n t m)
      | SOther \<Rightarrow> Inl n)"
| "scan_labels _ _ m = Inr m"

definition scanPoint :: "string list \<Rightarrow> 'f prow \<Rightarrow> exec_err + 'f Point" where
  "scanPoint by row =
     (case row of (b, v, cols) \<Rightarrow>
       if length cols \<noteq> length by then Inl (ScanErr [])
       else case scan_labels by cols [] of
         Inl n \<Rightarrow> Inl (ScanErr n)
       | Inr m \<Rightarrow> Inr \<lparr>ptBucket = b, ptValue = v, ptLabels = m\<rparr>)"

fun collect_rows :: "('r \<Rightarrow> exec_err + 'b) \<Rightarrow> 'r list \<Rightarrow> exec_err + 'b list" where
  "collect_rows scan [] = Inr []"
| "collect_rows scan (r # rs) =
     (case scan r of Inl e \<Rightarrow> Inl e
      | Inr x \<Rightarrow> (case collect_rows scan rs of Inl e \<Rightarrow> Inl e | Inr xs \<Rightarrow> Inr (x # xs)))"

definition ExecLogs ::
  "'f cenv \<Rightarrow> string option \<Rightarrow> Stmt \<Rightarrow> u64 list \<Rightarrow> shape \<Rightarrow> exec_err + LogRecord list \<times> 'f Point list" where
  "ExecLogs env node logs ids shape =
     (case shape of
        None \<Rightarrow> (case ceRecords env node logs ids of Inl e \<Rightarrow> Inl (DbErr e) | Inr rs \<Rightarrow> Inr (rs, []))
      | Some by \<Rightarrow>
          (case cePoints env node logs ids of
             Inl e \<Rightarrow> Inl (DbErr e)
           | Inr rows \<Rightarrow> (case collect_rows (scanPoint by) rows of Inl e \<Rightarrow> Inl e | Inr ps \<Rightarrow> Inr ([], ps))))"

definition Truncate :: "int \<Rightarrow> 'f Result \<Rightarrow> 'f Result" where
  "Truncate limit r =
     (let r1 = (if int (length (reRecords r)) > limit
                then r\<lparr>reRecords := take (nat limit) (reRecords r), reTruncated := True\<rparr> else r)
      in if int (length (rePoints r1)) > limit
         then r1\<lparr>rePoints := take (nat limit) (rePoints r1), reTruncated := True\<rparr> else r1)"

definition new_result :: "Plan \<Rightarrow> u64 list \<Rightarrow> 'f Result" where
  "new_result plan ids = \<lparr>reRecords = [], rePoints = [], reSource = plSource plan, reStart = plStart plan,
     reEnd = plEnd plan, reStreams = length ids, reTruncated = False, reWarnings = []\<rparr>"

text \<open>\<^verbatim>\<open>executor.Run\<close>: the whole query on one node.\<close>

definition exec_Run :: "'f cenv \<Rightarrow> Query \<Rightarrow> Request \<Rightarrow> exec_err + 'f Result" where
  "exec_Run env q r =
     (case exec_Plan (ceLib env) q r of
        Inl e \<Rightarrow> Inl (PlanErr e)
      | Inr (plan, limit) \<Rightarrow>
          (case ceStreams env (plStreams plan) of
             Inl e \<Rightarrow> Inl (DbErr e)
           | Inr ids \<Rightarrow>
               (let res = new_result plan ids in
                if ids = [] then Inr (Truncate limit res)
                else case ExecLogs env None (plLogs plan) ids (ShapeOf q) of
                  Inl e \<Rightarrow> Inl e
                | Inr (rs, ps) \<Rightarrow> Inr (Truncate limit (res\<lparr>reRecords := rs, rePoints := ps\<rparr>)))))"

subsection \<open>Peers\<close>

record pb_Record =
  prStreamId :: u64
  prTimeUnixNano :: int
  prSeq :: int
  prLevel :: int
  prMessage :: string
  prTraceId :: bytes
  prSpanId :: bytes
  prFields :: "string gomap"

record 'f pb_Point =
  ppBucketUnixNano :: int
  ppValue :: 'f
  ppLabels :: "string gomap"

record ExecuteRequest =
  erQuery :: string
  erStartUnixNano :: int
  erEndUnixNano :: int
  erLimit :: int
  erForward :: bool
  erStreamIds :: "u64 list"

definition wrap32 :: "int \<Rightarrow> int" where
  "wrap32 x = (x + 2 ^ 31) mod 2 ^ 32 - 2 ^ 31"

definition recordsToProto :: "LogRecord list \<Rightarrow> pb_Record list" where
  "recordsToProto = map (\<lambda>r. \<lparr>prStreamId = rStreamID r, prTimeUnixNano = wrap64 (rTime r), prSeq = rSeq r,
     prLevel = rLevel r, prMessage = rMessage r, prTraceId = rTraceID r, prSpanId = rSpanID r, prFields = rFields r\<rparr>)"

definition recordsFromProto :: "pb_Record list \<Rightarrow> LogRecord list" where
  "recordsFromProto = map (\<lambda>r. \<lparr>rStreamID = prStreamId r, rTime = prTimeUnixNano r, rSeq = prSeq r,
     rLevel = wrap16 (prLevel r), rMessage = prMessage r, rTraceID = prTraceId r, rSpanID = prSpanId r,
     rFields = prFields r\<rparr>)"

definition pointsToProto :: "'f Point list \<Rightarrow> 'f pb_Point list" where
  "pointsToProto = map (\<lambda>p. \<lparr>ppBucketUnixNano = wrap64 (ptBucket p), ppValue = ptValue p, ppLabels = ptLabels p\<rparr>)"

definition pointsFromProto :: "'f pb_Point list \<Rightarrow> 'f Point list" where
  "pointsFromProto = map (\<lambda>p. \<lparr>ptBucket = ppBucketUnixNano p, ptValue = ppValue p, ptLabels = ppLabels p\<rparr>)"

text \<open>\<^verbatim>\<open>PeerServer.Execute\<close> at the address \<open>addr\<close>. A database error becomes a generic code.\<close>

definition peer_Execute ::
  "'f cenv \<Rightarrow> string \<Rightarrow> ExecuteRequest \<Rightarrow> exec_err + pb_Record list \<times> 'f pb_Point list" where
  "peer_Execute env addr req =
     (case Parse (ceLib env) (erQuery req) of
        Inl e \<Rightarrow> Inl (PeerBadQuery e)
      | Inr q \<Rightarrow>
          (let r = \<lparr>rqStart = erStartUnixNano req, rqEnd = erEndUnixNano req, rqLimit = erLimit req,
                    rqDirection = (if erForward req then Forward else Backward)\<rparr> in
           case Compile (ceLib env) q r of
             Inl e \<Rightarrow> Inl (PeerBadPlan e)
           | Inr plan \<Rightarrow>
               if erStreamIds req = [] then Inr ([], [])
               else case ExecLogs env (Some addr) (plLogs plan) (erStreamIds req) (ShapeOf q) of
                 Inl e \<Rightarrow> Inl PeerFailed
               | Inr (rs, ps) \<Rightarrow> Inr (recordsToProto rs, pointsToProto ps)))"

text \<open>\<^verbatim>\<open>Peers.Execute\<close>: the call of the coordinator.\<close>

definition peers_Execute ::
  "'f cenv \<Rightarrow> string \<Rightarrow> Query \<Rightarrow> Request \<Rightarrow> u64 list \<Rightarrow> exec_err + LogRecord list \<times> 'f Point list" where
  "peers_Execute env addr q r ids =
     (let req = \<lparr>erQuery = qText q, erStartUnixNano = wrap64 (rqStart r), erEndUnixNano = wrap64 (rqEnd r),
                 erLimit = wrap32 (rqLimit r), erForward = (rqDirection r = Forward), erStreamIds = ids\<rparr> in
      if \<not> ceReach env addr then Inl PeerUnreachable
      else case peer_Execute env addr req of
        Inl e \<Rightarrow> Inl e
      | Inr (rs, ps) \<Rightarrow> Inr (recordsFromProto rs, pointsFromProto ps))"

subsection \<open>The coordinator\<close>

record shard =
  shMember :: Member
  shLocal :: bool
  shIds :: "u64 list"

text \<open>\<^verbatim>\<open>net.JoinHostPort\<close> brackets a host that holds a colon or a percent sign.\<close>

definition PeerAddr :: "Member \<Rightarrow> string" where
  "PeerAddr m =
     (if CHR '':'' \<in> set (mbAddr m) \<or> CHR ''%'' \<in> set (mbAddr m)
      then ''['' @ mbAddr m @ '']:'' else mbAddr m @ '':'') @ itoa_int (mbPeerPort m)"

definition self_member :: "string \<Rightarrow> Member" where
  "self_member self = \<lparr>mbName = self, mbAddr = [], mbPeerPort = 0, mbHTTPPort = 0, mbVersion = [], mbReady = False,
     mbVNodes = 0\<rparr>"

definition shard_owner :: "Cluster \<Rightarrow> u64 \<Rightarrow> Member" where
  "shard_owner c i =
     (case cluster_Owner c i of
        None \<Rightarrow> self_member (clSelf c)
      | Some m \<Rightarrow> if \<not> mbReady m \<or> mbName m = clSelf c then self_member (clSelf c) else m)"

text \<open>The map by owner and the order of first appearance are one list here.\<close>

fun add_to_shard :: "string \<Rightarrow> Member \<Rightarrow> u64 \<Rightarrow> shard list \<Rightarrow> shard list" where
  "add_to_shard self m i [] = [\<lparr>shMember = m, shLocal = (mbName m = self), shIds = [i]\<rparr>]"
| "add_to_shard self m i (s # ss) =
     (if mbName (shMember s) = mbName m then s\<lparr>shIds := shIds s @ [i]\<rparr> # ss else s # add_to_shard self m i ss)"

definition coord_shards :: "Cluster \<Rightarrow> u64 list \<Rightarrow> shard list" where
  "coord_shards c ids = fold (\<lambda>i ss. add_to_shard (clSelf c) (shard_owner c i) i ss) ids []"

definition coord_execute ::
  "'f cenv \<Rightarrow> Query \<Rightarrow> Request \<Rightarrow> Stmt \<Rightarrow> shape \<Rightarrow> shard \<Rightarrow> exec_err + LogRecord list \<times> 'f Point list" where
  "coord_execute env q r logs shape s =
     (if shLocal s then ExecLogs env None logs (shIds s) shape
      else peers_Execute env (PeerAddr (shMember s)) q r (shIds s))"

definition labelLess :: "golib \<Rightarrow> string \<Rightarrow> string \<Rightarrow> string \<Rightarrow> bool" where
  "labelLess L name a b =
     (case (if name = ''level'' then (ParseLevel L a, ParseLevel L b) else (Inl ErrInvalidLevel, Inl ErrInvalidLevel)) of
        (Inr la, Inr lb) \<Rightarrow> la < lb
      | _ \<Rightarrow> a < b)"

fun labels_less :: "golib \<Rightarrow> string list \<Rightarrow> string gomap \<Rightarrow> string gomap \<Rightarrow> bool" where
  "labels_less L [] a b = False"
| "labels_less L (n # ns) a b =
     (case (map_of a n, map_of b n) of
        (Some _, None) \<Rightarrow> True
      | (None, Some _) \<Rightarrow> False
      | (None, None) \<Rightarrow> labels_less L ns a b
      | (Some av, Some bv) \<Rightarrow> if av \<noteq> bv then labelLess L n av bv else labels_less L ns a b)"

definition point_less :: "golib \<Rightarrow> Direction \<Rightarrow> string list \<Rightarrow> 'f Point \<Rightarrow> 'f Point \<Rightarrow> bool" where
  "point_less L dir by a b =
     (if ptBucket a \<noteq> ptBucket b
      then (if dir = Forward then ptBucket a < ptBucket b else ptBucket a > ptBucket b)
      else labels_less L by (ptLabels a) (ptLabels b))"

text \<open>The timestamp of a key is \<^verbatim>\<open>RFC3339Nano\<close> of the bucket; it is a parameter here, different for different times and
  made of printable characters.\<close>

fun label_key :: "string list \<Rightarrow> string gomap \<Rightarrow> string" where
  "label_key [] m = []"
| "label_key (n # ns) m =
     (case map_of m n of Some v \<Rightarrow> CHR 0x01 # v | None \<Rightarrow> [CHR 0x00]) @ label_key ns m"

definition pointKey :: "(gotime \<Rightarrow> string) \<Rightarrow> 'f Point \<Rightarrow> string list \<Rightarrow> string" where
  "pointKey fmt p by = fmt (ptBucket p) @ label_key by (ptLabels p)"

text \<open>The map and the list of its keys in order of first appearance are one association list.\<close>

fun merge_point :: "('f \<Rightarrow> 'f \<Rightarrow> 'f) \<Rightarrow> string \<Rightarrow> 'f Point \<Rightarrow> (string \<times> 'f Point) list \<Rightarrow> (string \<times> 'f Point) list" where
  "merge_point add k p [] = [(k, p)]"
| "merge_point add k p ((k', p') # ms) =
     (if k' = k then (k', p'\<lparr>ptValue := add (ptValue p') (ptValue p)\<rparr>) # ms else (k', p') # merge_point add k p ms)"

text \<open>\<^verbatim>\<open>sort.SliceStable\<close>; every stable sort gives the same list when the comparison is a strict weak order.\<close>

fun stable_insert :: "('a \<Rightarrow> 'a \<Rightarrow> bool) \<Rightarrow> 'a \<Rightarrow> 'a list \<Rightarrow> 'a list" where
  "stable_insert lt x [] = [x]"
| "stable_insert lt x (y # ys) = (if lt y x then y # stable_insert lt x ys else x # y # ys)"

definition slice_stable :: "('a \<Rightarrow> 'a \<Rightarrow> bool) \<Rightarrow> 'a list \<Rightarrow> 'a list" where
  "slice_stable lt xs = foldr (stable_insert lt) xs []"

definition mergePoints ::
  "golib \<Rightarrow> ('f \<Rightarrow> 'f \<Rightarrow> 'f) \<Rightarrow> (gotime \<Rightarrow> string) \<Rightarrow> 'f Point list list \<Rightarrow> Direction \<Rightarrow> string list \<Rightarrow> 'f Point list" where
  "mergePoints L add fmt shards dir by =
     slice_stable (point_less L dir by)
       (map snd (fold (\<lambda>p. merge_point add (pointKey fmt p by) p) (concat shards) []))"

text \<open>The loop over the results of the shards.\<close>

fun gather ::
  "bool \<Rightarrow> int \<Rightarrow> (shard \<times> (exec_err + LogRecord list \<times> 'f Point list)) list \<Rightarrow> 'f Result \<Rightarrow>
   LogRecord list list \<Rightarrow> 'f Point list list \<Rightarrow> exec_err + 'f Result \<times> LogRecord list list \<times> 'f Point list list" where
  "gather ended limit [] res rss pss = Inr (res, rss, pss)"
| "gather ended limit ((s, sr) # srs) res rss pss =
     (case sr of
        Inl e \<Rightarrow>
          (if ended then Inl CtxErr
           else if shLocal s then Inl e
           else gather ended limit srs
             (res\<lparr>reWarnings := reWarnings res @ [(mbName (shMember s), length (shIds s))]\<rparr>) rss pss)
      | Inr (rs, ps) \<Rightarrow>
          gather ended limit srs
            (if int (length rs) > limit \<or> int (length ps) > limit then res\<lparr>reTruncated := True\<rparr> else res)
            (rss @ [rs]) (pss @ [ps]))"

definition coord_Run :: "'f cenv \<Rightarrow> (gotime \<Rightarrow> string) \<Rightarrow> Cluster \<Rightarrow> Query \<Rightarrow> Request \<Rightarrow> exec_err + 'f Result" where
  "coord_Run env fmt c q r =
     (case exec_Plan (ceLib env) q r of
        Inl e \<Rightarrow> Inl (PlanErr e)
      | Inr (plan, limit) \<Rightarrow>
          (case ceStreams env (plStreams plan) of
             Inl e \<Rightarrow> Inl (DbErr e)
           | Inr ids \<Rightarrow>
               (let res = new_result plan ids in
                if ids = [] then Inr res
                else
                  let shards = coord_shards c ids;
                      shape = ShapeOf q;
                      shipped = r\<lparr>rqLimit := wrap64 (limit + 1)\<rparr>;
                      results = map (\<lambda>s. (s, coord_execute env q shipped (plLogs plan) shape s)) shards
                  in case gather (ceDone env) limit results res [] [] of
                       Inl e \<Rightarrow> Inl e
                     | Inr (res1, rss, pss) \<Rightarrow>
                         Inr (Truncate limit
                           (case shape of
                              Some by \<Rightarrow> res1\<lparr>rePoints := mergePoints (ceLib env) (ceAdd env) fmt pss (rqDirection r) by\<rparr>
                            | None \<Rightarrow> res1\<lparr>reRecords := mergeRecords rss (rqDirection r) (limit + 1)\<rparr>)))))"

end
