(* ===== verification/Cluster_Answer.thy ===== *)
theory Cluster_Answer
  imports Coordinator Query_Shape
begin

text \<open>
  What the coordinator promises: for log records, the answer a single node would have given for the streams that were
  searched, whatever the shards and ties; for series, the sums of the shards' values per bucket and group, provided
  that label values are free of the two control characters the key uses as separators.
\<close>

subsection \<open>Shards\<close>

definition shards_ok :: "Cluster \<Rightarrow> shard list \<Rightarrow> bool" where
  "shards_ok c ss \<longleftrightarrow> distinct (map (mbName \<circ> shMember) ss) \<and>
     list_all (\<lambda>s. shIds s \<noteq> [] \<and> shLocal s = (mbName (shMember s) = clSelf c) \<and>
       list_all (\<lambda>i. mbName (shard_owner c i) = mbName (shMember s)) (shIds s)) ss"

lemma add_shard_names:
  "set (map (mbName \<circ> shMember) (add_to_shard self m i ss)) = insert (mbName m) (set (map (mbName \<circ> shMember) ss))"
  by (induction ss) auto

lemma add_shard_ok: "shards_ok c ss \<Longrightarrow> shards_ok c (add_to_shard (clSelf c) (shard_owner c i) i ss)"
proof (induction ss)
  case (Cons s ss)
  then show ?case using add_shard_names[of "clSelf c" "shard_owner c i" i ss] by (auto simp: shards_ok_def)
qed (simp add: shards_ok_def)

lemma add_shard_ids: "mset (concat (map shIds (add_to_shard self m i ss))) = add_mset i (mset (concat (map shIds ss)))"
  by (induction ss) auto

lemma coord_shards_ok: "shards_ok c (coord_shards c ids)"
proof -
  have "shards_ok c ss \<Longrightarrow> shards_ok c (fold (\<lambda>i ss. add_to_shard (clSelf c) (shard_owner c i) i ss) ids ss)" for ss
    by (induction ids arbitrary: ss) (auto intro: add_shard_ok)
  from this[of "[]"] show ?thesis by (simp add: coord_shards_def shards_ok_def)
qed

lemma coord_shards_ids: "mset (concat (map shIds (coord_shards c ids))) = mset ids"
proof -
  have "mset (concat (map shIds (fold (\<lambda>i ss. add_to_shard (clSelf c) (shard_owner c i) i ss) ids ss))) =
      mset ids + mset (concat (map shIds ss))" for ss
    by (induction ids arbitrary: ss) (auto simp: add_shard_ids)
  from this[of "[]"] show ?thesis by (simp add: coord_shards_def)
qed

lemma shards_disjoint:
  assumes "shards_ok c (s # ss)" and "i \<in> set (shIds s)"
  shows "i \<notin> set (concat (map shIds ss))"
proof
  assume "i \<in> set (concat (map shIds ss))"
  then obtain t where t: "t \<in> set ss" "i \<in> set (shIds t)" by auto
  then have "mbName (shard_owner c i) = mbName (shMember t)" using assms(1) by (auto simp: shards_ok_def list_all_iff)
  moreover have "mbName (shard_owner c i) = mbName (shMember s)" using assms by (auto simp: shards_ok_def list_all_iff)
  ultimately have "mbName (shMember s) = mbName (shMember t)" by simp
  with t(1) assms(1) show False by (auto simp: shards_ok_def)
qed

text \<open>The records of the streams of several shards are those of each.\<close>

lemma filter_shards:
  assumes "shards_ok c ss"
  shows "{#x \<in># M. f x \<in> set (concat (map shIds ss))#} = (\<Sum>s\<leftarrow>ss. {#x \<in># M. f x \<in> set (shIds s)#})"
  using assms
proof (induction ss)
  case (Cons s ss)
  have "{#x \<in># M. f x \<in> set (shIds s) \<or> f x \<in> set (concat (map shIds ss))#} =
      {#x \<in># M. f x \<in> set (shIds s)#} + {#x \<in># M. f x \<in> set (concat (map shIds ss))#}"
    using shards_disjoint[OF Cons.prems] by (intro multiset_eqI) auto
  with Cons.IH Cons.prems show ?case by (simp add: shards_ok_def)
qed simp

lemma filter_shard_ids:
  assumes "shards_ok c ss"
  shows "set (concat (map shIds (filter (\<lambda>s. \<not> P s) ss))) =
    set (concat (map shIds ss)) - set (concat (map shIds (filter P ss)))"
  using assms
proof (induction ss)
  case (Cons s ss)
  have "shards_ok c ss" using Cons.prems by (simp add: shards_ok_def)
  with Cons.IH shards_disjoint[OF Cons.prems] show ?case by auto
qed simp

lemma shards_ok_filter: "shards_ok c ss \<Longrightarrow> shards_ok c (filter P ss)"
  by (auto simp: shards_ok_def list_all_iff distinct_map inj_on_def)

subsection \<open>Taking the first rows\<close>

lemma is_top_take:
  assumes "is_top k n M out"
  shows "map k out = take n (sorted_list_of_multiset (image_mset k M))"
proof -
  from assms obtain R where R: "M = mset out + R" "\<And>x y. x \<in> set out \<Longrightarrow> y \<in># R \<Longrightarrow> k x \<le> k y"
    and s: "sorted (map k out)" and l: "length out = min n (size M)" unfolding is_top_def by blast
  let ?r = "sorted_list_of_multiset (image_mset k R)"
  have "sorted (map k out @ ?r)" using s R(2) by (auto simp: sorted_append)
  moreover have "mset (map k out @ ?r) = image_mset k M" by (simp add: R(1))
  ultimately have "sorted_list_of_multiset (image_mset k M) = map k out @ ?r"
    by (metis sorted_list_of_multiset_mset sorted_sort_id)
  moreover have "size M = length out + length ?r" by (simp add: R(1) size_mset[symmetric] del: size_mset)
  ultimately show ?thesis using l by (auto simp: min_def split: if_splits)
qed

lemma is_top_sub: "is_top k n M out \<Longrightarrow> set out \<subseteq> set_mset M"
  unfolding is_top_def by (metis set_mset_mset set_mset_union sup_ge1)

lemma is_top_length: "is_top k n M out \<Longrightarrow> length out = min n (size M)" "is_top k n M out \<Longrightarrow> sorted (map k out)"
  by (simp_all add: is_top_def)

lemma is_top_shorter:
  assumes "is_top k n M out" and "m \<le> n"
  shows "is_top k m M (take m out)"
proof -
  from assms obtain R where R: "M = mset out + R" "\<And>x y. x \<in> set out \<Longrightarrow> y \<in># R \<Longrightarrow> k x \<le> k y"
    and s: "sorted (map k out)" and l: "length out = min n (size M)" unfolding is_top_def by blast
  have "sorted (map k (take m out @ drop m out))" using s by simp
  then have so: "sorted (map k (take m out) @ map k (drop m out))" unfolding map_append .
  have "M = mset (take m out) + (mset (drop m out) + R)" using R(1) by (metis append_take_drop_id mset_append union_assoc)
  moreover have "k x \<le> k y" if "x \<in> set (take m out)" "y \<in># mset (drop m out) + R" for x y
    using that so R(2) in_set_takeD[OF that(1)] by (auto simp: sorted_append)
  moreover have "length (take m out) = min m (size M)" using l assms(2) by auto
  ultimately show ?thesis using so unfolding is_top_def by (auto simp: sorted_append)
qed

subsection \<open>One shard\<close>

text \<open>The law of the database, for a statement over log records: it returns the first rows, in the statement's order and up to
  its limit, of the records that satisfy its other conditions and belong to the streams bound to it.\<close>

definition stmt_limit :: "Stmt \<Rightarrow> nat" where
  "stmt_limit st = (case last (Args st) of AInt n \<Rightarrow> nat n | _ \<Rightarrow> 0)"

definition logs_db :: "'f cenv \<Rightarrow> Direction \<Rightarrow> Stmt \<Rightarrow> LogRecord multiset \<Rightarrow> bool" where
  "logs_db env dir st M \<longleftrightarrow> (\<forall>node ids rows. ceRecords env node st ids = Inr rows \<longrightarrow>
     is_top (rkey dir) (stmt_limit st) {#x \<in># M. rStreamID x \<in> set ids#} rows)"

definition wire_ok :: "LogRecord \<Rightarrow> bool" where
  "wire_ok x \<longleftrightarrow> int64_ok (rTime x) \<and> - 32768 \<le> rLevel x \<and> rLevel x < 32768"

lemma proto_records: "list_all wire_ok rs \<Longrightarrow> recordsFromProto (recordsToProto rs) = rs"
  by (induction rs) (auto simp: recordsFromProto_def recordsToProto_def wire_ok_def wrap64_id wrap16_id)

lemma wrap32_id: "- (2 ^ 31) \<le> x \<Longrightarrow> x < 2 ^ 31 \<Longrightarrow> wrap32 x = x"
  by (simp add: wrap32_def)

lemma exec_Plan_cases:
  assumes "exec_Plan L q r = Inr (plan, limit)" and "0 < rqLimit r" and "rqLimit r < 2 ^ 31 - 1"
  shows "limit = rqLimit r" and "Compile L q (r\<lparr>rqLimit := rqLimit r + 1\<rparr>) = Inr plan"
    and "stmt_limit (plLogs plan) = nat (rqLimit r + 1)" and "wrap64 (limit + 1) = rqLimit r + 1"
proof -
  have w: "wrap64 (rqLimit r + 1) = rqLimit r + 1" using assms(2,3) by (intro wrap64_id) (simp add: int64_ok_def)
  show l: "limit = rqLimit r" and c: "Compile L q (r\<lparr>rqLimit := rqLimit r + 1\<rparr>) = Inr plan"
    using assms(1,2) w by (auto simp: exec_Plan_def Let_def split: sum.splits)
  show "wrap64 (limit + 1) = rqLimit r + 1" using w l by simp
  from Compile_range[OF c] show "stmt_limit (plLogs plan) = nat (rqLimit r + 1)"
    by (auto simp: stmt_limit_def)
qed

lemma peer_answer:
  assumes "Parse (ceLib env) (qText q) = Inr q" and "int64_ok (rqStart r)" and "int64_ok (rqEnd r)"
    and "0 < rqLimit r" and "rqLimit r < 2 ^ 31" and "Compile (ceLib env) q r = Inr plan" and "ids \<noteq> []"
    and "peers_Execute env addr q r ids = Inr (rs, ps)" and "qAgg q = None"
  shows "ps = [] \<and> (\<exists>rows. ceRecords env (Some addr) (plLogs plan) ids = Inr rows \<and> rs = recordsFromProto (recordsToProto rows))"
proof -
  have "\<lparr>rqStart = rqStart r, rqEnd = rqEnd r, rqLimit = rqLimit r,
      rqDirection = (if rqDirection r = Forward then Forward else Backward)\<rparr> = r"
    by (cases "rqDirection r") auto
  then have "peers_Execute env addr q r ids = (if \<not> ceReach env addr then Inl PeerUnreachable
      else case ExecLogs env (Some addr) (plLogs plan) ids None of
        Inl e \<Rightarrow> Inl PeerFailed
      | Inr (rs, ps) \<Rightarrow> Inr (recordsFromProto (recordsToProto rs), pointsFromProto (pointsToProto ps)))"
    using assms(1-7,9)
    by (simp add: peers_Execute_def peer_Execute_def Let_def wrap64_id wrap32_id ShapeOf_def split: sum.split)
  with assms(8) show ?thesis
    by (auto simp: ExecLogs_def pointsFromProto_def pointsToProto_def split: if_splits sum.splits)
qed

lemma shard_top:
  assumes "Parse (ceLib env) (qText q) = Inr q" and "int64_ok (rqStart r)" and "int64_ok (rqEnd r)"
    and "0 < rqLimit r" and "rqLimit r < 2 ^ 31" and "Compile (ceLib env) q r = Inr plan"
    and "logs_db env dir (plLogs plan) M" and "\<And>x. x \<in># M \<Longrightarrow> wire_ok x" and "qAgg q = None" and "shIds s \<noteq> []"
    and "coord_execute env q r (plLogs plan) None s = Inr (rs, ps)"
  shows "ps = []" and "is_top (rkey dir) (stmt_limit (plLogs plan)) {#x \<in># M. rStreamID x \<in> set (shIds s)#} rs"
proof -
  let ?M = "{#x \<in># M. rStreamID x \<in> set (shIds s)#}"
  have law: "ceRecords env node (plLogs plan) (shIds s) = Inr rows \<Longrightarrow> is_top (rkey dir) (stmt_limit (plLogs plan)) ?M rows" for node rows
    using assms(7) by (simp add: logs_db_def)
  note peer = peer_answer[OF assms(1-6,10) _ assms(9), of "PeerAddr (shMember s)" rs ps]
  show "ps = []" using assms(11) peer by (auto simp: coord_execute_def ExecLogs_def split: sum.splits if_splits)
  show "is_top (rkey dir) (stmt_limit (plLogs plan)) ?M rs"
  proof (cases "shLocal s")
    case True
    then show ?thesis using assms(11) law by (auto simp: coord_execute_def ExecLogs_def split: sum.splits)
  next
    case False
    then have "peers_Execute env (PeerAddr (shMember s)) q r (shIds s) = Inr (rs, ps)"
      using assms(11) by (simp add: coord_execute_def)
    from peer[OF this] obtain rows where rows: "ceRecords env (Some (PeerAddr (shMember s))) (plLogs plan) (shIds s) = Inr rows"
      "rs = recordsFromProto (recordsToProto rows)" by blast
    have "set rows \<subseteq> set_mset ?M" by (rule is_top_sub[OF law[OF rows(1)]])
    then have "list_all wire_ok rows" using assms(8) by (auto simp: list_all_iff)
    with law[OF rows(1)] rows(2) show ?thesis by (simp add: proto_records)
  qed
qed

subsection \<open>All shards\<close>

lemma gather_Inr:
  assumes "gather ended limit srs res rss pss = Inr (res', rss', pss')"
  shows "rss' = rss @ map (fst \<circ> projr \<circ> snd) (filter (\<lambda>x. \<not> isl (snd x)) srs) \<and>
    res' = res\<lparr>reWarnings := reWarnings res @ map (\<lambda>x. (mbName (shMember (fst x)), length (shIds (fst x)))) (filter (isl \<circ> snd) srs),
      reTruncated := reTruncated res \<or> list_ex (\<lambda>x. \<not> isl (snd x) \<and> (int (length (fst (projr (snd x)))) > limit \<or>
         int (length (snd (projr (snd x)))) > limit)) srs\<rparr> \<and>
    list_all (\<lambda>x. isl (snd x) \<longrightarrow> \<not> shLocal (fst x) \<and> \<not> ended) srs"
  using assms
proof (induction ended limit srs res rss pss rule: gather.induct)
  case (2 ended limit s sr srs res rss pss)
  show ?case
  proof (cases sr)
    case (Inl e)
    then show ?thesis using 2(1)[OF Inl] "2.prems" by (auto split: if_splits)
  next
    case (Inr p)
    obtain rs ps where p: "(rs, ps) = p" by (metis surj_pair)
    show ?thesis using 2(2)[OF Inr p] "2.prems" Inr p by (auto split: if_splits)
  qed
qed simp

lemma truncate_top:
  fixes R :: "'f Result"
  assumes "is_top k (nat (l + 1)) M out" and "0 < l" and "rePoints R = []"
  shows "is_top k (nat l) M (reRecords (Truncate l (R\<lparr>reRecords := out\<rparr>)))"
    and "reTruncated (Truncate l (R\<lparr>reRecords := out\<rparr>)) = (reTruncated R \<or> l < int (size M))"
    and "reWarnings (Truncate l (R\<lparr>reRecords := out\<rparr>)) = reWarnings R"
proof -
  have n: "length out = min (nat (l + 1)) (size M)" using assms(1) by (rule is_top_length)
  have t: "take (nat l) out = out" if "\<not> l < int (length out)" using that by simp
  show "is_top k (nat l) M (reRecords (Truncate l (R\<lparr>reRecords := out\<rparr>)))"
    using is_top_shorter[OF assms(1), of "nat l"] assms(2,3) t by (auto simp: Truncate_def)
  show "reTruncated (Truncate l (R\<lparr>reRecords := out\<rparr>)) = (reTruncated R \<or> l < int (size M))"
    using n assms(2,3) by (auto simp: Truncate_def)
  show "reWarnings (Truncate l (R\<lparr>reRecords := out\<rparr>)) = reWarnings R" using assms(2,3) by (auto simp: Truncate_def)
qed

lemma merged_top:
  assumes "shards_ok c ss" and "\<And>s. s \<in> set ss \<Longrightarrow> is_top (rkey dir) (nat n) {#x \<in># M. rStreamID x \<in> set (shIds s)#} (rows s)"
    and "0 \<le> n"
  shows "is_top (rkey dir) (nat n) {#x \<in># M. rStreamID x \<in> set (concat (map shIds ss))#} (mergeRecords (map rows ss) dir n)"
proof -
  have "list_all (\<lambda>s. sorted (map (rkey dir) s)) (map rows ss)"
    using is_top_length(2)[OF assms(2)] by (simp add: list_all_iff)
  from mergeRecords_top[OF this assms(3)]
  have "is_top (rkey dir) (nat n) (\<Sum>s\<leftarrow>ss. {#x \<in># M. rStreamID x \<in> set (shIds s)#}) (mergeRecords (map rows ss) dir n)"
    using assms(2) by (intro top_of_tops[where outs = "map rows ss"]) auto
  then show ?thesis unfolding filter_shards[OF assms(1)] .
qed

text \<open>C14. A log query answered through the coordinator is what one node would answer on its own.  The records of the
  answer are the first \<open>limit\<close> of all matching records of the streams that could be reached, in the order of the query; the
  answer is marked as cut exactly when there are more; every shard that failed is named in the warnings, with the number of its
  streams; and when none failed, the executor run by one node over all streams gives an answer of the same keys and the same
  mark.\<close>

theorem coordinator_like_one_node:
  assumes run: "coord_Run env fmt c q r = Inr res" and plan: "exec_Plan (ceLib env) q r = Inr (plan, limit)"
    and ids: "ceStreams env (plStreams plan) = Inr ids" and agg: "qAgg q = None"
    and parsed: "Parse (ceLib env) (qText q) = Inr q" and time: "int64_ok (rqStart r)" "int64_ok (rqEnd r)"
    and lim: "0 < rqLimit r" "rqLimit r < 2 ^ 31 - 1"
    and db: "logs_db env (rqDirection r) (plLogs plan) M" and wire: "\<And>x. x \<in># M \<Longrightarrow> wire_ok x"
  defines "failed \<equiv> filter (\<lambda>s. isl (coord_execute env q (r\<lparr>rqLimit := rqLimit r + 1\<rparr>) (plLogs plan) None s)) (coord_shards c ids)"
  defines "searched \<equiv> {#x \<in># M. rStreamID x \<in> set ids \<and> rStreamID x \<notin> set (concat (map shIds failed))#}"
  shows "is_top (rkey (rqDirection r)) (nat (rqLimit r)) searched (reRecords res) \<and>
    reTruncated res = (rqLimit r < int (size searched)) \<and>
    reWarnings res = map (\<lambda>s. (mbName (shMember s), length (shIds s))) failed \<and> list_all (\<lambda>s. \<not> shLocal s) failed \<and>
    (\<forall>res1. exec_Run env q r = Inr res1 \<and> failed = [] \<longrightarrow>
       map (rkey (rqDirection r)) (reRecords res) = map (rkey (rqDirection r)) (reRecords res1) \<and>
       reTruncated res = reTruncated res1)"
proof -
  let ?r = "r\<lparr>rqLimit := rqLimit r + 1\<rparr>" and ?dir = "rqDirection r" and ?n = "rqLimit r + 1"
  note pl = exec_Plan_cases[OF plan lim]
  let ?ex = "coord_execute env q ?r (plLogs plan) None"
  let ?ss = "coord_shards c ids"
  let ?ok = "filter (\<lambda>s. \<not> isl (?ex s)) ?ss"
  have sids: "set (concat (map shIds ?ss)) = set ids" using mset_eq_setD[OF coord_shards_ids[of c ids]] by simp
  have srch: "searched = {#x \<in># M. rStreamID x \<in> set (concat (map shIds ?ok))#}"
    using filter_shard_ids[OF coord_shards_ok[of c ids], of "\<lambda>s. isl (?ex s)"] sids unfolding searched_def failed_def by simp
  have local: "is_top (rkey ?dir) (nat ?n) {#x \<in># M. rStreamID x \<in> set ids#} rows"
    if "ceRecords env None (plLogs plan) ids = Inr rows" for rows
    using db that pl(3) by (auto simp: logs_db_def)
  show ?thesis
  proof (cases "ids = []")
    case True
    have e: "coord_shards c [] = []" by (simp add: coord_shards_def)
    have res: "res = new_result plan []" using run plan ids True by (simp add: coord_Run_def Let_def)
    have "searched = {#}" "failed = []" by (simp_all add: searched_def failed_def True e)
    moreover have "reRecords res1 = [] \<and> \<not> reTruncated res1" if "exec_Run env q r = Inr res1" for res1
      using that plan ids True lim pl(1) by (auto simp: exec_Run_def Let_def Truncate_def new_result_def)
    ultimately show ?thesis using lim by (simp add: res new_result_def is_top_def)
  next
    case False
    obtain res1 rss pss where g: "gather (ceDone env) limit (map (\<lambda>s. (s, ?ex s)) ?ss) (new_result plan ids) [] [] = Inr (res1, rss, pss)"
      and res: "res = Truncate limit (res1\<lparr>reRecords := mergeRecords rss ?dir (limit + 1)\<rparr>)"
      using run plan ids False agg pl(4) by (auto simp: coord_Run_def Let_def ShapeOf_def split: sum.splits)
    note gi = gather_Inr[OF g]
    define rows where "rows s = fst (projr (?ex s))" for s
    have rss: "rss = map rows ?ok" using gi by (simp add: filter_map comp_def rows_def)
    have top: "is_top (rkey ?dir) (nat ?n) {#x \<in># M. rStreamID x \<in> set (shIds s)#} (rows s)" "snd (projr (?ex s)) = []"
      if "s \<in> set ?ok" for s
    proof -
      have ne: "shIds s \<noteq> []" using that coord_shards_ok[of c ids] by (auto simp: shards_ok_def list_all_iff)
      from that obtain p where "?ex s = Inr p" by (cases "?ex s") auto
      then have "?ex s = Inr (rows s, snd (projr (?ex s)))" by (simp add: rows_def)
      from shard_top[OF parsed _ _ _ _ pl(2) db wire agg ne this] lim time pl(3)
      show "is_top (rkey ?dir) (nat ?n) {#x \<in># M. rStreamID x \<in> set (shIds s)#} (rows s)" "snd (projr (?ex s)) = []" by simp_all
    qed
    have mt: "is_top (rkey ?dir) (nat ?n) searched (mergeRecords rss ?dir ?n)"
      unfolding srch rss using lim by (intro merged_top[OF shards_ok_filter[OF coord_shards_ok] top(1)]) auto
    have r1: "rePoints res1 = []" "reWarnings res1 = map (\<lambda>s. (mbName (shMember s), length (shIds s))) failed"
      using gi by (simp_all add: new_result_def filter_map comp_def failed_def)
    have small: "int (length (rows s)) \<le> int (size searched)" if "s \<in> set ?ok" for s
    proof -
      have "{#x \<in># M. rStreamID x \<in> set (shIds s)#} \<subseteq># searched"
        unfolding srch using that by (intro mset_subset_eqI) auto
      from size_mset_mono[OF this] is_top_length(1)[OF top(1)[OF that]] show ?thesis by simp
    qed
    have tr: "reTruncated res1 \<longrightarrow> rqLimit r < int (size searched)"
      using gi small top(2) pl(1) lim by (fastforce simp: new_result_def list_ex_iff rows_def)
    note tt = truncate_top[OF mt lim(1) r1(1)]
    have "list_all (\<lambda>s. \<not> shLocal s) failed" using gi by (auto simp: failed_def list_all_iff)
    moreover have "map (rkey ?dir) (reRecords res) = map (rkey ?dir) (reRecords res2) \<and> reTruncated res = reTruncated res2"
      if e: "exec_Run env q r = Inr res2" and f: "failed = []" for res2
    proof -
      obtain rows ps where rw: "ceRecords env None (plLogs plan) ids = Inr rows"
        and r2: "res2 = Truncate limit (new_result plan ids\<lparr>reRecords := rows, rePoints := []\<rparr>)"
        using e plan ids False agg by (auto simp: exec_Run_def Let_def ShapeOf_def ExecLogs_def split: sum.splits)
      have s2: "searched = {#x \<in># M. rStreamID x \<in> set ids#}" by (simp add: searched_def f)
      have "new_result plan ids\<lparr>reRecords := rows, rePoints := []\<rparr> = new_result plan ids\<lparr>reRecords := rows\<rparr>"
        by (simp add: new_result_def)
      then have "is_top (rkey ?dir) (nat (rqLimit r)) searched (reRecords res2)" "reTruncated res2 = (rqLimit r < int (size searched))"
        using truncate_top[OF local[OF rw] lim(1), of "new_result plan ids"] pl(1) s2
        by (simp_all add: r2 new_result_def)
      with tt tr is_top_take show ?thesis by (metis pl(1) res)
    qed
    moreover have "is_top (rkey ?dir) (nat (rqLimit r)) searched (reRecords res)"
      "reTruncated res = (rqLimit r < int (size searched))"
      "reWarnings res = map (\<lambda>s. (mbName (shMember s), length (shIds s))) failed"
      using tt tr r1(2) by (auto simp: res pl(1))
    ultimately show ?thesis by blast
  qed
qed

definition src3 :: string where
  "src3 = [CHR ''{'', CHR ''a'', CHR ''='', CHR 0x22, CHR ''b'', CHR 0x22, CHR ''}'']"

definition q3 :: Query where
  "q3 = \<lparr>qText = src3, qSelector = \<lparr>selPos = \<lparr>Line = 1, Col = 1\<rparr>, selMatchers =
        [\<lparr>mPos = \<lparr>Line = 1, Col = 2\<rparr>, mLabel = ''a'', mOp = OpEq, mValue = ''b''\<rparr>]\<rparr>,
     qStages = [], qAgg = None\<rparr>"

abbreviation lexer3 :: "nat \<Rightarrow> lexer" where
  "lexer3 k \<equiv> \<lparr>lxSrc = src3, lxOff = k, lxLine = 1, lxCol = Suc k\<rparr>"

lemmas lex_eval = lex_next_def eatWhile.simps lex_advance_def lex_peek_def class_defs next_op_def next_string_def
  scan_string.simps mk_tok_def src_slice_def lex_eat_def Let_def src3_def Unquote_def unquote_body.simps valid_string_ascii decode_ok_def rune_error_def

lemma lex3a: "lex_next (lexer3 0) = (\<lparr>tkKind = tokLBrace, tkText = ''{'', tkPos = \<lparr>Line = 1, Col = 1\<rparr>, tkErr = None\<rparr>, lexer3 1)"
  by (simp add: lex_eval)
lemma lex3b: "lex_next (lexer3 1) = (\<lparr>tkKind = tokIdent, tkText = ''a'', tkPos = \<lparr>Line = 1, Col = 2\<rparr>, tkErr = None\<rparr>, lexer3 2)"
proof -
  have "eatWhile isSpace (lexer3 1) = lexer3 1" "eatWhile isIdentChar (lexer3 2) = lexer3 2"
    by (subst eatWhile.simps; simp add: src3_def class_defs)+
  then show ?thesis
    by (simp add: lex_next_def lex_advance_def lex_peek_def isIdentStart_def mk_tok_def src_slice_def Let_def numeral_2_eq_2) (simp add: src3_def isIdentStart_def mk_tok_def src_slice_def)
qed
lemma lex3c: "lex_next (lexer3 2) = (\<lparr>tkKind = tokEq, tkText = ''='', tkPos = \<lparr>Line = 1, Col = 3\<rparr>, tkErr = None\<rparr>, lexer3 3)"
  by (simp add: lex_eval)
lemma lex3d: "lex_next (lexer3 3) = (\<lparr>tkKind = tokString, tkText = ''b'', tkPos = \<lparr>Line = 1, Col = 4\<rparr>, tkErr = None\<rparr>, lexer3 6)"
  by (simp add: lex_eval)
lemma lex3e: "lex_next (lexer3 6) = (\<lparr>tkKind = tokRBrace, tkText = ''}'', tkPos = \<lparr>Line = 1, Col = 7\<rparr>, tkErr = None\<rparr>, lexer3 7)"
  by (simp add: lex_eval)
lemma lex3f: "lex_next (lexer3 7) = (\<lparr>tkKind = tokEOF, tkText = [], tkPos = \<lparr>Line = 1, Col = 8\<rparr>, tkErr = None\<rparr>, lexer3 7)"
  by (simp add: lex_eval)
lemmas lex3 = lex3a lex3b lex3c lex3d lex3e lex3f
lemma q3_parses: "Parse lib0 src3 = Inr q3"
  using lex3 by (simp add: Parse_def newLexer_def p_advance_def parseSelector_def p_expect_def p_want_def parse_matchers.simps
      parseMatcher_def parseOp_def parseValue_def parse_rest.simps q3_def op_IsRegex_def)

definition record_ex :: "u64 \<Rightarrow> int \<Rightarrow> LogRecord" where
  "record_ex i t = \<lparr>rStreamID = i, rTime = t, rSeq = 1, rLevel = 3, rMessage = ''m'', rTraceID = [], rSpanID = [], rFields = []\<rparr>"

definition table_ex :: "LogRecord list" where
  "table_ex = [record_ex 5 (1700000001 * second), record_ex 6 (1700000002 * second), record_ex 5 (1700000003 * second)]"

definition env_q :: "int cenv" where
  "env_q = \<lparr>ceLib = lib0, ceAdd = (+), ceStreams = (\<lambda>_. Inr [5, 6]),
     ceRecords = (\<lambda>_ st ids. Inr (take (stmt_limit st) (sort_key (rkey Backward) (filter (\<lambda>x. rStreamID x \<in> set ids) table_ex)))),
     cePoints = (\<lambda>_ _ _. Inr []), ceReach = (\<lambda>_. True), ceDone = False\<rparr>"

definition cluster_ex :: Cluster where
  "cluster_ex = notify_all lib0 (\<lambda>_. meta0\<lparr>mtReady := True\<rparr>)
     [((node_ex ''a'')\<lparr>ndMeta := ''x''\<rparr>, True), ((node_ex ''b'')\<lparr>ndMeta := ''x''\<rparr>, True)] (NewCluster lib0 ''a'' 2 meta0)"

lemma top_of_sorted: "is_top k n (mset xs) (take n (sort_key k xs))"
proof -
  have a: "is_top k (length xs) (mset xs) (sort_key k xs)" by (simp add: is_top_def)
  show ?thesis
  proof (cases "n \<le> length xs")
    case True
    then show ?thesis by (rule is_top_shorter[OF a])
  next
    case False
    then show ?thesis using a by (simp add: is_top_def)
  qed
qed

lemma env_q_db: "logs_db env_q Backward st (mset table_ex)"
  by (auto simp: logs_db_def env_q_def top_of_sorted mset_filter[symmetric] simp del: mset_filter)

lemma gather_total:
  assumes "list_all (\<lambda>x. \<not> isl (snd x)) srs"
  shows "\<exists>res' rss' pss'. gather ended limit srs res rss pss = Inr (res', rss', pss')"
  using assms by (induction ended limit srs res rss pss rule: gather.induct) (auto split: sum.splits)

lemma q3_compiles: "0 < n \<Longrightarrow> \<exists>p. Compile lib0 q3 (rq1\<lparr>rqLimit := n\<rparr>) = Inr p"
  by (simp add: Compile_def q3_def rq1_def Let_def second_def zero_time_def promoted_def split: prod.splits)

theorem coordinator_like_one_node_witness:
  "\<exists>res. coord_Run env_q (\<lambda>_. []) cluster_ex q3 rq1 = Inr res \<and>
     is_top (rkey Backward) 100 (mset table_ex) (reRecords res) \<and> \<not> reTruncated res"
proof -
  have L: "ceLib env_q = lib0" by (simp add: env_q_def)
  obtain p where p: "Compile lib0 q3 (rq1\<lparr>rqLimit := 101\<rparr>) = Inr p" using q3_compiles[of 101] by auto
  have w: "wrap64 101 = 101" "wrap32 101 = 101" by (simp_all add: wrap64_def wrap32_def)
  have plan: "exec_Plan (ceLib env_q) q3 rq1 = Inr (p, 100)" using p w by (simp add: exec_Plan_def L rq1_def)
  have ids: "ceStreams env_q (plStreams p) = Inr [5, 6]" by (simp add: env_q_def)
  have parsed: "Parse (ceLib env_q) (qText q3) = Inr q3" using q3_parses by (simp add: L q3_def)
  have ok: "int64_ok (rqStart rq1)" "int64_ok (rqEnd rq1)" "0 < rqLimit rq1" "rqLimit rq1 < 2 ^ 31 - 1" "qAgg q3 = None"
    by (simp_all add: rq1_def int64_ok_def second_def q3_def)
  have lim: "rqLimit rq1 = 100" "rqDirection rq1 = Backward" by (simp_all add: rq1_def)
  have local: "\<not> isl (ExecLogs env_q node st js None)" for node st js by (simp add: ExecLogs_def env_q_def)
  have ans: "\<not> isl (coord_execute env_q q3 (rq1\<lparr>rqLimit := 101\<rparr>) (plLogs p) None s)" for s
  proof (cases "shLocal s")
    case False
    have r: "\<lparr>rqStart = wrap64 (rqStart rq1), rqEnd = wrap64 (rqEnd rq1), rqLimit = 101, rqDirection = Backward\<rparr> = rq1\<lparr>rqLimit := 101\<rparr>"
      using ok(1,2) by (simp add: wrap64_id) (simp add: rq1_def)
    show ?thesis
      using False local[of "Some (PeerAddr (shMember s))" "plLogs p" "shIds s"] parsed p ok(5)
      by (auto simp: coord_execute_def peers_Execute_def peer_Execute_def Let_def w lim L r ShapeOf_def env_q_def
          split: sum.splits)
  qed (simp add: coord_execute_def local)
  have "\<exists>res. coord_Run env_q (\<lambda>_. []) cluster_ex q3 rq1 = Inr res"
    using gather_total[of "map (\<lambda>s. (s, coord_execute env_q q3 (rq1\<lparr>rqLimit := 101\<rparr>) (plLogs p) None s))
        (coord_shards cluster_ex [5, 6])" "ceDone env_q" 100 "new_result p [5, 6]" "[]" "[]"] plan ids ok(5) ans
    by (auto simp: coord_Run_def Let_def ShapeOf_def w list_all_iff)
  then obtain res where res: "coord_Run env_q (\<lambda>_. []) cluster_ex q3 rq1 = Inr res" by blast
  have "wire_ok x" if "x \<in># mset table_ex" for x
    using that by (auto simp: table_ex_def record_ex_def wire_ok_def int64_ok_def second_def)
  note main = coordinator_like_one_node[OF res plan ids ok(5) parsed ok(1-4) env_q_db[of "plLogs p", folded lim(2)] this]
  have "filter (\<lambda>s. isl (coord_execute env_q q3 (rq1\<lparr>rqLimit := rqLimit rq1 + 1\<rparr>) (plLogs p) None s))
      (coord_shards cluster_ex [5, 6]) = []" using ans by (simp add: lim)
  moreover have "{#x \<in># mset table_ex. rStreamID x \<in> {5, 6}#} = mset table_ex" by (simp add: table_ex_def record_ex_def)
  moreover have "size (mset table_ex) = 3" by (simp add: table_ex_def)
  ultimately show ?thesis using main res by (simp add: lim)
qed

subsection \<open>Series\<close>

text \<open>The group of a point: its bucket and the values of the labels it is grouped by.\<close>

definition group :: "string list \<Rightarrow> 'f Point \<Rightarrow> gotime \<times> string option list" where
  "group by p = (ptBucket p, map (map_of (ptLabels p)) by)"

definition plain :: "string \<Rightarrow> bool" where
  "plain s \<longleftrightarrow> list_all (\<lambda>c. 1 < byte c) s"

definition values_plain :: "string list \<Rightarrow> 'f Point \<Rightarrow> bool" where
  "values_plain by p \<longleftrightarrow> list_all (\<lambda>n. case map_of (ptLabels p) n of None \<Rightarrow> True | Some v \<Rightarrow> plain v) by"

text \<open>What the time format promises: it tells times apart and prints no control characters.\<close>

definition fmt_ok :: "(gotime \<Rightarrow> string) \<Rightarrow> bool" where
  "fmt_ok fmt \<longleftrightarrow> inj fmt \<and> (\<forall>t. plain (fmt t))"

lemma plain_split:
  assumes "plain u" and "plain v" and "u @ x = v @ y" and "x = [] \<or> byte (hd x) \<le> (1::nat)" and "y = [] \<or> byte (hd y) \<le> (1::nat)"
  shows "u = v \<and> x = y"
  using assms(1-3)
proof (induction u arbitrary: v)
  case Nil
  then show ?case using assms(4) by (cases v) (auto simp: plain_def)
next
  case (Cons c u)
  then show ?case using assms(5) by (cases v) (auto simp: plain_def)
qed

lemma label_key_head: "label_key by m = [] \<or> byte (hd (label_key by m)) \<le> (1::nat)"
  by (cases "by"; cases "map_of m (hd by)") auto

lemma label_key_inj:
  assumes "list_all (\<lambda>n. case map_of m n of None \<Rightarrow> True | Some v \<Rightarrow> plain v) by"
    and "list_all (\<lambda>n. case map_of m' n of None \<Rightarrow> True | Some v \<Rightarrow> plain v) by"
  shows "label_key by m = label_key by m' \<longleftrightarrow> map (map_of m) by = map (map_of m') by"
  using assms
proof (induction "by")
  case (Cons n ns)
  note IH = Cons.IH
  have ne: "(CHR 0x01 :: char) \<noteq> CHR 0x00" by simp
  show ?case
  proof (cases "map_of m n"; cases "map_of m' n")
    fix v v' assume v: "map_of m n = Some v" "map_of m' n = Some v'"
    have "v @ label_key ns m = v' @ label_key ns m' \<longleftrightarrow> v = v' \<and> label_key ns m = label_key ns m'"
      using plain_split[of v v' "label_key ns m" "label_key ns m'"] label_key_head[of ns m] label_key_head[of ns m'] Cons.prems v
      by auto
    then show ?thesis using IH Cons.prems v by simp
  qed (use IH Cons.prems in auto)
qed simp

lemma pointKey_inj:
  assumes "fmt_ok fmt" and "values_plain by p" and "values_plain by p'"
  shows "pointKey fmt p by = pointKey fmt p' by \<longleftrightarrow> group by p = group by p'"
proof -
  have "fmt (ptBucket p) @ label_key by (ptLabels p) = fmt (ptBucket p') @ label_key by (ptLabels p') \<longleftrightarrow>
      fmt (ptBucket p) = fmt (ptBucket p') \<and> label_key by (ptLabels p) = label_key by (ptLabels p')"
    using plain_split[of "fmt (ptBucket p)" "fmt (ptBucket p')" "label_key by (ptLabels p)" "label_key by (ptLabels p')"]
      label_key_head[of "by" "ptLabels p"] label_key_head[of "by" "ptLabels p'"] assms(1)
    by (auto simp: fmt_ok_def)
  moreover have "fmt (ptBucket p) = fmt (ptBucket p') \<longleftrightarrow> ptBucket p = ptBucket p'"
    using assms(1) by (auto simp: fmt_ok_def dest: injD)
  ultimately show ?thesis
    using label_key_inj[of "ptLabels p" "by" "ptLabels p'"] assms(2,3) by (simp add: pointKey_def group_def values_plain_def)
qed

text \<open>The sum of the values of the points with a key, in the order they come.\<close>

definition summed :: "('f \<Rightarrow> 'f \<Rightarrow> 'f) \<Rightarrow> 'f Point list \<Rightarrow> 'f Point" where
  "summed add ps = (hd ps)\<lparr>ptValue := foldl add (ptValue (hd ps)) (map ptValue (tl ps))\<rparr>"

lemma merge_point_keys: "map fst (merge_point add k p ms) = (if k \<in> fst ` set ms then map fst ms else map fst ms @ [k])"
  by (induction add k p ms rule: merge_point.induct) auto

lemma merge_point_map:
  "map_of (merge_point add k p ms) = (map_of ms)(k \<mapsto>
     (case map_of ms k of None \<Rightarrow> p | Some p' \<Rightarrow> p'\<lparr>ptValue := add (ptValue p') (ptValue p)\<rparr>))"
  by (induction add k p ms rule: merge_point.induct) (auto split: option.split)

definition merged_map :: "('f \<Rightarrow> 'f \<Rightarrow> 'f) \<Rightarrow> ('f Point \<Rightarrow> string) \<Rightarrow> 'f Point list \<Rightarrow> (string \<times> 'f Point) list" where
  "merged_map add key ps = fold (\<lambda>p. merge_point add (key p) p) ps []"

lemma summed_snoc:
  "xs \<noteq> [] \<Longrightarrow> summed add (xs @ [p]) = (summed add xs)\<lparr>ptValue := add (ptValue (summed add xs)) (ptValue p)\<rparr>"
  by (cases xs) (simp_all add: summed_def)

lemma filter_key_ne: "filter (\<lambda>x. key x = k) ps \<noteq> [] \<longleftrightarrow> k \<in> key ` set ps"
  by (induction ps) auto

lemma merge_point_dom: "fst ` set (merge_point add k p ms) = insert k (fst ` set ms)"
  by (induction add k p ms rule: merge_point.induct) auto

lemma merged_map_spec:
  "map_of (merged_map add key ps) = (\<lambda>k. if k \<in> key ` set ps then Some (summed add (filter (\<lambda>p. key p = k) ps)) else None) \<and>
   distinct (map fst (merged_map add key ps)) \<and> fst ` set (merged_map add key ps) = key ` set ps"
proof (induction ps rule: rev_induct)
  case (snoc p ps)
  note ne = filter_key_ne[of key "key p" ps]
  have IH: "map_of (merged_map add key ps) = (\<lambda>k. if k \<in> key ` set ps then Some (summed add (filter (\<lambda>p. key p = k) ps)) else None)"
    "distinct (map fst (merged_map add key ps))" "fst ` set (merged_map add key ps) = key ` set ps"
    using snoc.IH by blast+
  have m: "merged_map add key (ps @ [p]) = merge_point add (key p) p (merged_map add key ps)" by (simp add: merged_map_def)
  have "map_of (merged_map add key (ps @ [p])) k =
      (if k \<in> key ` set (ps @ [p]) then Some (summed add (filter (\<lambda>x. key x = k) (ps @ [p]))) else None)" for k
  proof (cases "k = key p")
    case True
    show ?thesis
    proof (cases "key p \<in> key ` set ps")
      case old: True
      have f: "filter (\<lambda>x. key x = key p) ps \<noteq> []" using ne old by blast
      show ?thesis using summed_snoc[OF f, of add p] by (simp add: m merge_point_map IH(1) True old)
    next
      case new: False
      have f: "filter (\<lambda>x. key x = key p) ps = []" using ne new by blast
      show ?thesis by (simp add: m merge_point_map IH(1) True new f summed_def)
    qed
  next
    case False
    then have "filter (\<lambda>x. key x = k) (ps @ [p]) = filter (\<lambda>x. key x = k) ps" by simp
    then show ?thesis using False by (simp add: m merge_point_map IH(1))
  qed
  then have "map_of (merged_map add key (ps @ [p])) =
      (\<lambda>k. if k \<in> key ` set (ps @ [p]) then Some (summed add (filter (\<lambda>x. key x = k) (ps @ [p]))) else None)" by (rule ext)
  moreover have "distinct (map fst (merged_map add key (ps @ [p])))" using IH(2) by (simp add: m merge_point_keys)
  moreover have "fst ` set (merged_map add key (ps @ [p])) = key ` set (ps @ [p])" using IH(3) by (simp add: m merge_point_dom)
  ultimately show ?case by blast
qed (simp add: merged_map_def)

lemma stable_insert_mset [simp]: "mset (stable_insert lt x ys) = add_mset x (mset ys)"
  by (induction ys) auto

lemma stable_insert_set [simp]: "set (stable_insert lt x ys) = insert x (set ys)"
  by (induction ys) auto

lemma slice_stable_mset [simp]: "mset (slice_stable lt xs) = mset xs"
  unfolding slice_stable_def by (induction xs) auto

lemma slice_stable_sorted:
  fixes k :: "'a \<Rightarrow> 'k::linorder"
  assumes "\<And>x y. x \<in> set xs \<Longrightarrow> y \<in> set xs \<Longrightarrow> lt x y \<longleftrightarrow> k x < k y"
  shows "sorted (map k (slice_stable lt xs))"
  using assms
proof (induction xs)
  case (Cons x xs)
  have ins: "sorted (map k (stable_insert lt x ys))"
    if "sorted (map k ys)" "\<And>y. y \<in> set ys \<Longrightarrow> lt y x \<longleftrightarrow> k y < k x" for ys
    using that
  proof (induction ys)
    case (Cons y ys)
    then show ?case by auto
  qed simp
  have "set (slice_stable lt xs) = set xs" using slice_stable_mset[of lt xs] mset_eq_setD by blast
  with Cons ins[of "slice_stable lt xs"] show ?case by (simp add: slice_stable_def)
qed (simp add: slice_stable_def)

text \<open>The order of a series, as a key: the bucket in the direction of the query, then the labels, a missing one last, levels by
  severity and other labels by their bytes.\<close>

definition label_rank :: "string \<Rightarrow> string option \<Rightarrow> nat \<times> int \<times> string" where
  "label_rank n v = (case v of None \<Rightarrow> (1, 0, []) | Some s \<Rightarrow>
     if n = ''level'' then (0, (case map_of levelAliases s of Some l \<Rightarrow> l | None \<Rightarrow> 0), []) else (0, 0, s))"

definition point_rank :: "Direction \<Rightarrow> string list \<Rightarrow> 'f Point \<Rightarrow> int \<times> (nat \<times> int \<times> string) list" where
  "point_rank dir by p = (if dir = Forward then ptBucket p else - ptBucket p, map (\<lambda>n. label_rank n (map_of (ptLabels p) n)) by)"

text \<open>Level labels hold level names, as \<^verbatim>\<open>scanPoint\<close> writes them.\<close>

definition levels_named :: "string list \<Rightarrow> 'f Point \<Rightarrow> bool" where
  "levels_named by p \<longleftrightarrow> (''level'' \<in> set by \<longrightarrow> (case map_of (ptLabels p) ''level'' of None \<Rightarrow> True | Some v \<Rightarrow> v \<in> set levelNames))"

lemma level_named:
  assumes "v \<in> set levelNames"
  shows "\<exists>l. level_String l = v \<and> ParseLevel L v = Inr l \<and> map_of levelAliases v = Some l"
proof -
  from assms obtain i where i: "i < length levelNames" "v = levelNames ! i" by (metis in_set_conv_nth)
  then have "level_Valid (int i)" "level_String (int i) = v" by (simp_all add: level_Valid_def level_String_def)
  with level_name_parses[of "int i" L] alias_of_name[of "int i"] i(2) show ?thesis by auto
qed

lemma label_rank_less:
  assumes "n = ''level'' \<longrightarrow> (\<forall>v. a = Some v \<longrightarrow> v \<in> set levelNames) \<and> (\<forall>v. b = Some v \<longrightarrow> v \<in> set levelNames)"
  shows "label_rank n a < label_rank n b \<longleftrightarrow>
      (case (a, b) of (Some _, None) \<Rightarrow> True | (Some av, Some bv) \<Rightarrow> av \<noteq> bv \<and> labelLess L n av bv | _ \<Rightarrow> False)"
    and "label_rank n a = label_rank n b \<longleftrightarrow> a = b"
proof -
  have lv: "n = ''level'' \<Longrightarrow> a = Some av \<Longrightarrow> b = Some bv \<Longrightarrow> \<exists>la lb. level_String la = av \<and> level_String lb = bv \<and>
      ParseLevel L av = Inr la \<and> ParseLevel L bv = Inr lb \<and> map_of levelAliases av = Some la \<and> map_of levelAliases bv = Some lb"
    for av bv using assms level_named[of av L] level_named[of bv L] by blast
  show "label_rank n a < label_rank n b \<longleftrightarrow>
      (case (a, b) of (Some _, None) \<Rightarrow> True | (Some av, Some bv) \<Rightarrow> av \<noteq> bv \<and> labelLess L n av bv | _ \<Rightarrow> False)"
  proof (cases a; cases b)
    fix av bv assume s: "a = Some av" "b = Some bv"
    show ?thesis
    proof (cases "n = ''level''")
      case True
      from lv[OF True s] obtain la lb where l: "level_String la = av" "level_String lb = bv" and
        p: "ParseLevel L av = Inr la" "ParseLevel L bv = Inr lb" "map_of levelAliases av = Some la" "map_of levelAliases bv = Some lb"
        by blast
      have "la < lb \<longleftrightarrow> av \<noteq> bv \<and> la < lb" using p by force
      then show ?thesis unfolding label_rank_def labelLess_def s True option.case prod.case p if_P[OF refl] sum.case by simp
    next
      case False
      then show ?thesis using s by (simp add: label_rank_def labelLess_def) (metis less_irrefl)
    qed
  qed (simp_all add: label_rank_def)
  show "label_rank n a = label_rank n b \<longleftrightarrow> a = b"
  proof (cases a; cases b)
    fix av bv assume s: "a = Some av" "b = Some bv"
    show ?thesis
    proof (cases "n = ''level''")
      case True
      from lv[OF True s] obtain la lb where l: "level_String la = av" "level_String lb = bv"
        and p: "map_of levelAliases av = Some la" "map_of levelAliases bv = Some lb" by blast
      have "la = lb \<longleftrightarrow> av = bv"
      proof
        assume "la = lb" with l show "av = bv" by simp
      next
        assume "av = bv" with p show "la = lb" by (metis option.inject)
      qed
      then show ?thesis unfolding label_rank_def s True option.case p if_P[OF refl] by simp
    qed (simp add: label_rank_def s)
  qed (simp_all add: label_rank_def)
qed

lemma labels_less_rank:
  assumes "\<And>v. ''level'' \<in> set by \<Longrightarrow> map_of a ''level'' = Some v \<Longrightarrow> v \<in> set levelNames"
    and "\<And>v. ''level'' \<in> set by \<Longrightarrow> map_of b ''level'' = Some v \<Longrightarrow> v \<in> set levelNames"
  shows "labels_less L by a b \<longleftrightarrow> map (\<lambda>n. label_rank n (map_of a n)) by < map (\<lambda>n. label_rank n (map_of b n)) by"
  using assms
proof (induction "by")
  case (Cons n ns)
  have c: "n = ''level'' \<longrightarrow> (\<forall>v. map_of a n = Some v \<longrightarrow> v \<in> set levelNames) \<and> (\<forall>v. map_of b n = Some v \<longrightarrow> v \<in> set levelNames)"
    using Cons.prems by auto
  have IH: "labels_less L ns a b \<longleftrightarrow> map (\<lambda>n. label_rank n (map_of a n)) ns < map (\<lambda>n. label_rank n (map_of b n)) ns"
    using Cons by auto
  show ?case using label_rank_less(1)[OF c, of L] label_rank_less(2)[OF c] IH
    by (cases "map_of a n"; cases "map_of b n") auto
qed simp

lemma point_less_rank:
  assumes "levels_named by a" and "levels_named by b"
  shows "point_less L dir by a b \<longleftrightarrow> point_rank dir by a < point_rank dir by b"
proof -
  have "labels_less L by (ptLabels a) (ptLabels b) \<longleftrightarrow> map (\<lambda>n. label_rank n (map_of (ptLabels a) n)) by <
      map (\<lambda>n. label_rank n (map_of (ptLabels b) n)) by"
    using assms by (intro labels_less_rank) (auto simp: levels_named_def)
  then show ?thesis by (auto simp: point_less_def point_rank_def)
qed


definition unary :: "gotime \<Rightarrow> string" where
  "unary t = replicate (nat t) CHR ''a'' @ replicate (nat (- t)) CHR ''b''"

lemma unary_ok: "fmt_ok unary"
proof -
  have "inj unary"
  proof (rule inj_on_inverseI)
    fix t
    show "int (length (filter ((=) CHR ''a'') (unary t))) - int (length (filter ((=) CHR ''b'') (unary t))) = t"
      by (simp add: unary_def)
  qed
  then show ?thesis by (auto simp: fmt_ok_def plain_def unary_def list_all_iff)
qed

definition point_ex :: "gotime \<Rightarrow> string \<Rightarrow> int \<Rightarrow> int Point" where
  "point_ex t l v = \<lparr>ptBucket = t, ptValue = v, ptLabels = [(''level'', l)]\<rparr>"

definition series_ex :: "int Point list list" where
  "series_ex = [[point_ex 0 ''error'' 5, point_ex 60 ''info'' 2], [point_ex 0 ''error'' 7]]"


text \<open>The key of a point does not tell every two groups apart: a label value that holds the separator runs into the next
  one.  With the labels \<open>a, b\<close>, the values \<open>x\<close>, 1, \<open>y\<close> and \<open>z\<close> give the same key as \<open>x\<close> and \<open>y\<close>, 1, \<open>z\<close>, whatever the
  bucket; the coordinator then reports the sum of two different groups as one of them, and drops the other.\<close>

theorem pointKey_collides:
  "let a = [(''a'', ''x'' @ [CHR 0x01] @ ''y''), (''b'', ''z'')]; b = [(''a'', ''x''), (''b'', ''y'' @ [CHR 0x01] @ ''z'')];
       pa = \<lparr>ptBucket = t, ptValue = v, ptLabels = a\<rparr>; pb = \<lparr>ptBucket = t, ptValue = w, ptLabels = b\<rparr> in
   group [''a'', ''b''] pa \<noteq> group [''a'', ''b''] pb \<and>
   mergePoints L add fmt [[pa], [pb]] dir [''a'', ''b''] = [pa\<lparr>ptValue := add v w\<rparr>]"
  by (simp add: group_def mergePoints_def pointKey_def slice_stable_def)

end
