(* ===== verification/Ingest.thy ===== *)
theory Ingest
  imports Shipper Queue_Subject
begin

text \<open>
  The receiving half of the ingest service (\<^verbatim>\<open>internal/ingest/handler.go\<close>, \<^verbatim>\<open>internal/ingest/pipeline.go\<close>): the handler of
  each agent stream validates a batch, hands it to the publishers through a bounded channel and waits for the broker's
  answer before it acknowledges. Streams, publishers and shutdown are components of one state and interleave freely.

  Parameters: protobuf encoding, the text of a validation error and the prefixes of the broker's subjects. An error is the
  list of the sentinel errors it wraps, which is all \<^verbatim>\<open>errors.Is\<close> sees. The broker answers a publish with success, or with an
  error after which the message may be stored all the same. Spans and logging carry no data.
\<close>

definition MaxAckDetailLen :: nat where "MaxAckDetailLen = 512"

record Ack =
  akBatchId :: string
  akCode :: AckCode
  akAccepted :: nat
  akRejected :: nat
  akDetail :: string

definition uint32 :: "nat \<Rightarrow> nat" where
  "uint32 n = n mod 2 ^ 32"

datatype sentinel = Shed | PipelineClosed | QOverloaded | QTooLarge | QUnavailable | QNotConnected | CanceledErr | DeadlineErr

type_synonym pub_err = "sentinel list"

datatype ingest_reason = InvalidLabels | InvalidRecord | IEncodeFailed | QueueRefused | QueueTooLarge | BufferFull | IShutdown | ClientGone

record ienv =
  igLib :: golib
  igPrefix :: string
  igTailPrefix :: string
  igMarshal :: "pb_LogBatch \<Rightarrow> bytes option"
  igLabelErr :: "LabelSet \<Rightarrow> string"
  igRecordErr :: "gotime \<Rightarrow> LogRecord \<Rightarrow> string"

subsection \<open>Pieces of the handler\<close>

definition truncate_str :: "string \<Rightarrow> nat \<Rightarrow> string" where
  "truncate_str s maxLen = (if length s \<le> maxLen then s else take (cut_back s (maxLen - 3)) s @ ''...'')"

definition ackCodeLabel :: "AckCode \<Rightarrow> string" where
  "ackCodeLabel code =
     (case code of ACCEPTED \<Rightarrow> ''accepted'' | OVERLOADED \<Rightarrow> ''overloaded'' | INVALID \<Rightarrow> ''invalid'' | _ \<Rightarrow> ''internal'')"

definition reject :: "string \<Rightarrow> AckCode \<Rightarrow> nat \<Rightarrow> string \<Rightarrow> Ack" where
  "reject bid code rejected detail =
     \<lparr>akBatchId = bid, akCode = code, akAccepted = 0, akRejected = uint32 rejected, akDetail = truncate_str detail MaxAckDetailLen\<rparr>"

definition acceptable_pb :: "u64 \<Rightarrow> gotime \<Rightarrow> pb_LogRecord list \<Rightarrow> pb_LogRecord list" where
  "acceptable_pb i now rs = filter (\<lambda>pb. record_Validate now (LogRecordFromProto i (Some pb)) = None) rs"

definition first_rejected :: "u64 \<Rightarrow> gotime \<Rightarrow> pb_LogRecord list \<Rightarrow> LogRecord option" where
  "first_rejected i now rs = find (\<lambda>r. record_Validate now r \<noteq> None) (map (\<lambda>pb. LogRecordFromProto i (Some pb)) rs)"

definition publishFailed :: "pub_err \<Rightarrow> AckCode \<times> ingest_reason \<times> string" where
  "publishFailed err =
     (if Shed \<in> set err then (OVERLOADED, BufferFull, ''collector is saturated'')
      else if PipelineClosed \<in> set err then (INTERNAL, IShutdown, ''collector is shutting down'')
      else if QOverloaded \<in> set err then (OVERLOADED, QueueRefused, ''queue rejected the batch'')
      else if QTooLarge \<in> set err then (INVALID, QueueTooLarge, ''queue rejected the batch'')
      else if QUnavailable \<in> set err \<or> QNotConnected \<in> set err then (INTERNAL, QueueRefused, ''queue rejected the batch'')
      else if CanceledErr \<in> set err \<or> DeadlineErr \<in> set err then (INTERNAL, ClientGone, ''client went away'')
      else (INTERNAL, QueueRefused, ''queue rejected the batch''))"

subsection \<open>State\<close>

text \<open>A job is named by its reply channel.\<close>

record job =
  jbReply :: nat
  jbSubject :: string
  jbPayload :: bytes
  jbRecords :: nat

datatype pmode = Publishing | PDraining | PStopped

record publisher =
  puMode :: pmode
  puJob :: "job option"

text \<open>What the handler of a stream still needs when the answer arrives.\<close>

record waiting =
  waReply :: nat
  waBatch :: pb_LogBatch
  waValid :: "pb_LogRecord list"
  waPayload :: bytes

text \<open>\<open>hsBatches\<close> is the history of the batches received on the stream.\<close>

record hstream =
  hsWait :: "waiting option"
  hsEnded :: bool
  hsAcks :: "Ack list"
  hsBatches :: "pb_LogBatch list"

record ingest =
  inStreams :: "hstream list"
  inQueue :: "job list"
  inDepth :: int
  inStopping :: bool
  inClosing :: bool
  inQuit :: bool
  inPublishers :: "publisher list"
  inReplies :: "(nat \<times> pub_err option) list"
  inNext :: nat
  inBroker :: "(string \<times> bytes) list"
  inFanout :: "(string \<times> bytes) list"
  inReceived :: nat
  inAccepted :: nat
  inDropped :: "ingest_reason \<Rightarrow> nat"
  inAckCount :: "string \<Rightarrow> nat"

definition newPipeline :: "int \<Rightarrow> ingest" where
  "newPipeline workers =
     \<lparr>inStreams = [], inQueue = [], inDepth = 0, inStopping = False, inClosing = False, inQuit = False,
      inPublishers = replicate (nat (max workers 1)) \<lparr>puMode = Publishing, puJob = None\<rparr>, inReplies = [], inNext = 0,
      inBroker = [], inFanout = [], inReceived = 0, inAccepted = 0, inDropped = (\<lambda>_. 0), inAckCount = (\<lambda>_. 0)\<rparr>"

definition ingest_drop :: "ingest_reason \<Rightarrow> nat \<Rightarrow> ingest \<Rightarrow> ingest" where
  "ingest_drop reason n s = s\<lparr>inDropped := (inDropped s)(reason := inDropped s reason + n)\<rparr>"

definition set_stream :: "nat \<Rightarrow> hstream \<Rightarrow> ingest \<Rightarrow> ingest" where
  "set_stream i h s = s\<lparr>inStreams := (inStreams s)[i := h]\<rparr>"

subsection \<open>The handler\<close>

text \<open>The end of \<^verbatim>\<open>handle\<close>: the acknowledgement is counted and sent; when sending fails the stream ends.\<close>

definition answer :: "nat \<Rightarrow> Ack \<Rightarrow> bool \<Rightarrow> ingest \<Rightarrow> ingest" where
  "answer i a sent s =
     (let h = inStreams s ! i;
          l = ackCodeLabel (akCode a);
          s1 = s\<lparr>inAckCount := (inAckCount s)(l := inAckCount s l + 1)\<rparr>
      in set_stream i (if sent then h\<lparr>hsWait := None, hsAcks := hsAcks h @ [a]\<rparr> else h\<lparr>hsWait := None, hsEnded := True\<rparr>) s1)"

definition answer_failed :: "nat \<Rightarrow> pb_LogBatch \<Rightarrow> nat \<Rightarrow> pub_err \<Rightarrow> bool \<Rightarrow> ingest \<Rightarrow> ingest" where
  "answer_failed i batch valid err sent s =
     (case publishFailed err of (code, reason, detail) \<Rightarrow>
        answer i (reject (pbBatchId batch) code (length (pbRecords batch)) detail) sent (ingest_drop reason valid s))"

text \<open>The pipeline's \<^verbatim>\<open>submit\<close> up to its second select.\<close>

definition pipeline_submit :: "int \<Rightarrow> job \<Rightarrow> ingest \<Rightarrow> pub_err + ingest" where
  "pipeline_submit bufferSize j s =
     (if inClosing s then Inl [PipelineClosed]
      else if int (length (inQueue s)) < bufferSize
        then Inr (s\<lparr>inQueue := inQueue s @ [j], inDepth := inDepth s + int (jbRecords j)\<rparr>)
        else Inl [Shed])"

text \<open>From \<^verbatim>\<open>stream.Recv\<close> to the answer, or to the wait for the broker's.\<close>

definition stream_recv :: "ienv \<Rightarrow> int \<Rightarrow> nat \<Rightarrow> pb_LogBatch \<Rightarrow> gotime \<Rightarrow> bool \<Rightarrow> ingest \<Rightarrow> ingest option" where
  "stream_recv env bufferSize i batch now sent s =
     (if i < length (inStreams s) \<and> \<not> hsEnded (inStreams s ! i) \<and> hsWait (inStreams s ! i) = None
      then
        (let rs = pbRecords batch;
             n = length rs;
             h = inStreams s ! i;
             s0 = set_stream i (h\<lparr>hsBatches := hsBatches h @ [batch]\<rparr>) (s\<lparr>inReceived := inReceived s + n\<rparr>);
             labels = LabelSetFromProto (pbLabels batch)
         in Some
          (if labels_Validate labels \<noteq> None
           then answer i (reject (pbBatchId batch) INVALID n (''invalid labels: '' @ igLabelErr env labels)) sent
                  (ingest_drop InvalidLabels n s0)
           else
             let sid = label_ID (igLib env) labels;
                 valid = acceptable_pb sid now rs;
                 s1 = ingest_drop InvalidRecord (n - length valid) s0
             in if valid = []
                then answer i (reject (pbBatchId batch) INVALID n
                       (case first_rejected sid now rs of
                          None \<Rightarrow> ''no valid records in batch''
                        | Some r \<Rightarrow> ''no valid records in batch: '' @ igRecordErr env now r)) sent s1
                else case igMarshal env \<lparr>pbBatchId = pbBatchId batch, pbLabels = pbLabels batch, pbRecords = valid, pbTraceContext = []\<rparr> of
                  None \<Rightarrow> answer i (reject (pbBatchId batch) INTERNAL n ''encoding batch failed'') sent
                            (ingest_drop IEncodeFailed (length valid) s1)
                | Some payload \<Rightarrow>
                    (let j = \<lparr>jbReply = inNext s1, jbSubject = Subject (igPrefix env) (Env labels) (Service labels),
                              jbPayload = payload, jbRecords = length valid\<rparr>
                     in case pipeline_submit bufferSize j s1 of
                          Inl err \<Rightarrow> answer_failed i batch (length valid) err sent s1
                        | Inr s2 \<Rightarrow>
                            set_stream i ((inStreams s2 ! i)\<lparr>hsWait := Some \<lparr>waReply = inNext s1, waBatch = batch,
                              waValid = valid, waPayload = payload\<rparr>\<rparr>) (s2\<lparr>inNext := inNext s2 + 1\<rparr>))))
      else None)"

definition accept_ack :: "waiting \<Rightarrow> Ack" where
  "accept_ack w = \<lparr>akBatchId = pbBatchId (waBatch w), akCode = ACCEPTED, akAccepted = uint32 (length (waValid w)),
     akRejected = uint32 (length (pbRecords (waBatch w)) - length (waValid w)), akDetail = []\<rparr>"

text \<open>The broker's answer has arrived on the reply channel.\<close>

definition stream_reply :: "ienv \<Rightarrow> nat \<Rightarrow> bool \<Rightarrow> ingest \<Rightarrow> ingest option" where
  "stream_reply env i sent s =
     (if i < length (inStreams s)
      then (case hsWait (inStreams s ! i) of
              None \<Rightarrow> None
            | Some w \<Rightarrow>
                (case map_of (inReplies s) (waReply w) of
                   None \<Rightarrow> None
                 | Some r \<Rightarrow>
                     (let s1 = s\<lparr>inReplies := AList.delete (waReply w) (inReplies s)\<rparr>;
                          labels = LabelSetFromProto (pbLabels (waBatch w))
                      in Some (case r of
                           Some err \<Rightarrow> answer_failed i (waBatch w) (length (waValid w)) err sent s1
                         | None \<Rightarrow> answer i (accept_ack w) sent
                             (s1\<lparr>inAccepted := inAccepted s1 + length (waValid w),
                                 inFanout := inFanout s1 @ [(Subject (igTailPrefix env) (Env labels) (Service labels), waPayload w)]\<rparr>)))))
      else None)"

text \<open>The client is gone while the handler waits; the acknowledgement cannot be sent either.\<close>

definition stream_gone :: "nat \<Rightarrow> sentinel \<Rightarrow> ingest \<Rightarrow> ingest option" where
  "stream_gone i e s =
     (if i < length (inStreams s) \<and> e \<in> {CanceledErr, DeadlineErr}
      then (case hsWait (inStreams s ! i) of
              None \<Rightarrow> None
            | Some w \<Rightarrow> Some (answer_failed i (waBatch w) (length (waValid w)) [e] False s))
      else None)"

text \<open>\<^verbatim>\<open>Recv\<close> reports the end of the stream, or an error.\<close>

definition stream_end :: "nat \<Rightarrow> ingest \<Rightarrow> ingest option" where
  "stream_end i s =
     (if i < length (inStreams s) \<and> hsWait (inStreams s ! i) = None
      then Some (set_stream i ((inStreams s ! i)\<lparr>hsEnded := True\<rparr>) s) else None)"

definition stream_open :: "ingest \<Rightarrow> ingest option" where
  "stream_open s =
     (if inStopping s then None
      else Some (s\<lparr>inStreams := inStreams s @ [\<lparr>hsWait = None, hsEnded = False, hsAcks = [], hsBatches = []\<rparr>]\<rparr>))"

text \<open>\<^verbatim>\<open>Shutdown\<close> stops the gRPC server, which takes no new streams and returns when every handler has returned, and only then
  closes the pipeline: a handler never passes the check of the closing flag while the pipeline is being closed.\<close>

definition Shutdown_begin :: "ingest \<Rightarrow> ingest" where
  "Shutdown_begin s = s\<lparr>inStopping := True\<rparr>"

definition pipeline_close :: "ingest \<Rightarrow> ingest option" where
  "pipeline_close s = (if inStopping s \<and> list_all hsEnded (inStreams s) then Some (s\<lparr>inClosing := True, inQuit := True\<rparr>) else None)"

subsection \<open>Publishers\<close>

definition set_publisher :: "nat \<Rightarrow> publisher \<Rightarrow> ingest \<Rightarrow> ingest" where
  "set_publisher i p s = s\<lparr>inPublishers := (inPublishers s)[i := p]\<rparr>"

definition free_publisher :: "nat \<Rightarrow> ingest \<Rightarrow> bool" where
  "free_publisher i s \<longleftrightarrow> i < length (inPublishers s) \<and> puJob (inPublishers s ! i) = None \<and> puMode (inPublishers s ! i) \<noteq> PStopped"

text \<open>A job leaves the channel in \<^verbatim>\<open>publish\<close> or in \<^verbatim>\<open>drain\<close>.\<close>

definition publisher_take :: "nat \<Rightarrow> ingest \<Rightarrow> ingest option" where
  "publisher_take i s =
     (if free_publisher i s
      then (case inQueue s of
              [] \<Rightarrow> None
            | j # q \<Rightarrow> Some (set_publisher i ((inPublishers s ! i)\<lparr>puJob := Some j\<rparr>)
                (s\<lparr>inQueue := q, inDepth := inDepth s - int (jbRecords j)\<rparr>)))
      else None)"

datatype pub_result = PubOk | PubErr pub_err bool

fun broker_stores :: "pub_result \<Rightarrow> bool" where
  "broker_stores PubOk = True"
| "broker_stores (PubErr _ stored) = stored"

definition publisher_run :: "nat \<Rightarrow> pub_result \<Rightarrow> ingest \<Rightarrow> ingest option" where
  "publisher_run i res s =
     (if i < length (inPublishers s)
      then (case puJob (inPublishers s ! i) of
              None \<Rightarrow> None
            | Some j \<Rightarrow>
                Some (set_publisher i ((inPublishers s ! i)\<lparr>puJob := None\<rparr>)
                  (s\<lparr>inReplies := (jbReply j, case res of PubOk \<Rightarrow> None | PubErr e _ \<Rightarrow> Some e) # inReplies s,
                     inBroker := (if broker_stores res then inBroker s @ [(jbSubject j, jbPayload j)] else inBroker s)\<rparr>)))
      else None)"

definition publisher_quit :: "nat \<Rightarrow> ingest \<Rightarrow> ingest option" where
  "publisher_quit i s =
     (if free_publisher i s \<and> puMode (inPublishers s ! i) = Publishing \<and> inQuit s
      then Some (set_publisher i ((inPublishers s ! i)\<lparr>puMode := PDraining\<rparr>) s) else None)"

definition publisher_done :: "nat \<Rightarrow> ingest \<Rightarrow> ingest option" where
  "publisher_done i s =
     (if free_publisher i s \<and> puMode (inPublishers s ! i) = PDraining \<and> inQueue s = []
      then Some (set_publisher i ((inPublishers s ! i)\<lparr>puMode := PStopped\<rparr>) s) else None)"

subsection \<open>Steps\<close>

datatype ilabel =
    IOpen
  | IRecv nat pb_LogBatch gotime bool
  | IReply nat bool
  | IGone nat sentinel
  | IEnd nat
  | ITake nat
  | IPublish nat pub_result
  | IPubQuit nat
  | IPubDone nat
  | IShut
  | IClose

fun i_step :: "ienv \<Rightarrow> int \<Rightarrow> ilabel \<Rightarrow> ingest \<Rightarrow> ingest option" where
  "i_step env cap IOpen s = stream_open s"
| "i_step env cap (IRecv i batch now sent) s = stream_recv env cap i batch now sent s"
| "i_step env cap (IReply i sent) s = stream_reply env i sent s"
| "i_step env cap (IGone i e) s = stream_gone i e s"
| "i_step env cap (IEnd i) s = stream_end i s"
| "i_step env cap (ITake i) s = publisher_take i s"
| "i_step env cap (IPublish i res) s = publisher_run i res s"
| "i_step env cap (IPubQuit i) s = publisher_quit i s"
| "i_step env cap (IPubDone i) s = publisher_done i s"
| "i_step env cap IShut s = Some (Shutdown_begin s)"
| "i_step env cap IClose s = pipeline_close s"

fun i_run :: "ienv \<Rightarrow> int \<Rightarrow> ilabel list \<Rightarrow> ingest \<Rightarrow> ingest option" where
  "i_run env cap [] s = Some s"
| "i_run env cap (l # ls) s = (case i_step env cap l s of None \<Rightarrow> None | Some s1 \<Rightarrow> i_run env cap ls s1)"

inductive i_reach :: "ienv \<Rightarrow> int \<Rightarrow> int \<Rightarrow> ingest \<Rightarrow> bool" for env cap workers where
  i_init: "i_reach env cap workers (newPipeline workers)"
| i_more: "i_reach env cap workers s \<Longrightarrow> i_step env cap l s = Some s' \<Longrightarrow> i_reach env cap workers s'"

end
