(* ===== verification/Draining.thy ===== *)
theory Draining
  imports Prelude
begin

text \<open>
  Shutdown of components that step by themselves: an interface for a system whose own steps use up the work that is left, with
  the two facts a shutdown needs, and the lemmas on lists of components (workers, publishers) that its instances share.
\<close>

lemma list_all_update: "list_all P xs \<Longrightarrow> P y \<Longrightarrow> list_all P (xs[i := y])"
  by (induction xs arbitrary: i) (auto split: nat.splits)

definition sum_over :: "('a \<Rightarrow> nat) \<Rightarrow> 'a list \<Rightarrow> nat" where
  "sum_over f xs = (\<Sum>x\<leftarrow>xs. f x)"

lemma sum_over_update:
  assumes "i < length xs"
  shows "sum_over f (xs[i := y]) + f (xs ! i) = sum_over f xs + f y"
proof -
  have app: "sum_over f (as @ z # bs) = sum_over f as + f z + sum_over f bs" for as z bs by (simp add: sum_over_def)
  have "sum_over f xs = sum_over f (take i xs @ xs ! i # drop (Suc i) xs)" by (rule arg_cong[OF id_take_nth_drop[OF assms]])
  moreover have "sum_over f (xs[i := y]) = sum_over f (take i xs @ y # drop (Suc i) xs)"
    by (rule arg_cong[OF upd_conv_take_nth_drop[OF assms]])
  ultimately show ?thesis unfolding app by simp
qed

fun steps :: "('l \<Rightarrow> 's \<Rightarrow> 's option) \<Rightarrow> 'l list \<Rightarrow> 's \<Rightarrow> 's option" where
  "steps step [] s = Some s"
| "steps step (l # ls) s = (case step l s of None \<Rightarrow> None | Some s1 \<Rightarrow> steps step ls s1)"

locale draining =
  fixes step :: "'l \<Rightarrow> 's \<Rightarrow> 's option" and own :: "'l \<Rightarrow> bool" and inv :: "'s \<Rightarrow> bool" and finished :: "'s \<Rightarrow> bool"
    and work :: "'s \<Rightarrow> 'w :: wellorder"
  assumes keeps: "inv s \<Longrightarrow> own l \<Longrightarrow> step l s = Some s' \<Longrightarrow> inv s'"
    and works: "inv s \<Longrightarrow> own l \<Longrightarrow> step l s = Some s' \<Longrightarrow> work s' < work s"
    and moves: "inv s \<Longrightarrow> \<not> finished s \<Longrightarrow> \<exists>l s'. own l \<and> step l s = Some s'"
begin

lemma no_endless_run:
  assumes "inv s"
  shows "\<nexists>f. f 0 = s \<and> (\<forall>n. \<exists>l. own l \<and> step l (f n) = Some (f (Suc n)))"
proof
  assume "\<exists>f. f 0 = s \<and> (\<forall>n. \<exists>l. own l \<and> step l (f n) = Some (f (Suc n)))"
  then obtain f where f: "f 0 = s" "\<And>n. \<exists>l. own l \<and> step l (f n) = Some (f (Suc n))" by blast
  have "inv (f n)" for n by (induction n) (use assms f keeps in blast)+
  then have "work (f (Suc n)) < work (f n)" for n using f(2)[of n] works by blast
  moreover obtain n where "\<not> work (f (Suc n)) < work (f n)"
    using wf_no_infinite_down_chainE[OF wf, of "\<lambda>n. work (f n)"] by (metis case_prodI mem_Collect_eq)
  ultimately show False by blast
qed

lemma reaches_end:
  assumes "inv s"
  shows "\<exists>ls s'. list_all own ls \<and> steps step ls s = Some s' \<and> inv s' \<and> finished s'"
  using assms
proof (induction "work s" arbitrary: s rule: less_induct)
  case less
  show ?case
  proof (cases "finished s")
    case True
    then show ?thesis using less.prems by (intro exI[of _ "[]"]) simp
  next
    case False
    from moves[OF less.prems False] obtain l s' where l: "own l" "step l s = Some s'" by blast
    from less.hyps[OF works[OF less.prems l] keeps[OF less.prems l]]
    obtain ls s2 where "list_all own ls" "steps step ls s' = Some s2" "inv s2" "finished s2" by blast
    with l show ?thesis by (intro exI[of _ "l # ls"]) simp
  qed
qed

end

end
