(* ===== verification/Ingest_Safety.thy ===== *)
theory Ingest_Safety
  imports Ingest Draining
begin

text \<open>
  What holds in every state of the ingest service: an acceptance is backed by a message in the broker's stream, answers come
  in the order of the batches, every record received is accounted for, and the channel is bounded.
\<close>

subsection \<open>Optional parts of a list of components\<close>

definition opts :: "('a \<Rightarrow> 'b option) \<Rightarrow> 'a list \<Rightarrow> 'b list" where
  "opts f xs = concat (map (\<lambda>x. case f x of None \<Rightarrow> [] | Some y \<Rightarrow> [y]) xs)"

lemma opts_simps [simp]:
  "opts f [] = []" "opts f (x # xs) = (case f x of None \<Rightarrow> [] | Some y \<Rightarrow> [y]) @ opts f xs" "opts f (xs @ ys) = opts f xs @ opts f ys"
  by (simp_all add: opts_def)

lemma opts_set: "y \<in> set (opts f xs) \<longleftrightarrow> (\<exists>x\<in>set xs. f x = Some y)"
  by (induction xs) (auto split: option.splits)

lemma opts_update:
  assumes "i < length xs"
  shows "mset (opts f (xs[i := x])) + mset (opts f [xs ! i]) = mset (opts f xs) + mset (opts f [x])"
proof -
  have "opts f xs = opts f (take i xs @ xs ! i # drop (Suc i) xs)" by (rule arg_cong[OF id_take_nth_drop[OF assms]])
  moreover have "opts f (xs[i := x]) = opts f (take i xs @ x # drop (Suc i) xs)"
    by (rule arg_cong[OF upd_conv_take_nth_drop[OF assms]])
  ultimately show ?thesis by simp
qed

lemma opts_replace:
  assumes "i < length xs" and "f (xs ! i) = None" and "f x = Some y"
  shows "mset (opts f (xs[i := x])) = add_mset y (mset (opts f xs))"
  using opts_update[OF assms(1), of f x] assms(2,3) by simp

lemma opts_remove:
  assumes "i < length xs" and "f (xs ! i) = Some y" and "f x = None"
  shows "mset (opts f xs) = add_mset y (mset (opts f (xs[i := x])))"
  using opts_update[OF assms(1), of f x] assms(2,3) by simp

lemma opts_same:
  assumes "i < length xs" and "f (xs ! i) = f x"
  shows "mset (opts f (xs[i := x])) = mset (opts f xs)"
  using opts_update[OF assms(1), of f x] assms(2) by simp

subsection \<open>Invariant\<close>

definition subject_of :: "ienv \<Rightarrow> pb_LogBatch \<Rightarrow> string" where
  "subject_of env b = (let labels = LabelSetFromProto (pbLabels b) in Subject (igPrefix env) (Env labels) (Service labels))"

definition stream_id :: "ienv \<Rightarrow> pb_LogBatch \<Rightarrow> u64" where
  "stream_id env b = label_ID (igLib env) (LabelSetFromProto (pbLabels b))"

text \<open>\<open>forwards env b valid payload\<close>: the batch has good labels, \<open>valid\<close> are its records that pass validation at some time, there
  are some, and the payload carries them.\<close>

definition forwards :: "ienv \<Rightarrow> pb_LogBatch \<Rightarrow> pb_LogRecord list \<Rightarrow> bytes \<Rightarrow> bool" where
  "forwards env b valid payload \<longleftrightarrow>
     labels_Validate (LabelSetFromProto (pbLabels b)) = None \<and> valid \<noteq> [] \<and>
     (\<exists>now. valid = acceptable_pb (stream_id env b) now (pbRecords b)) \<and>
     igMarshal env \<lparr>pbBatchId = pbBatchId b, pbLabels = pbLabels b, pbRecords = valid, pbTraceContext = []\<rparr> = Some payload"

definition answered :: "ienv \<Rightarrow> (string \<times> bytes) list \<Rightarrow> pb_LogBatch \<Rightarrow> Ack \<Rightarrow> bool" where
  "answered env broker b a \<longleftrightarrow>
     akBatchId a = pbBatchId b \<and>
     (if akCode a = ACCEPTED
      then \<exists>valid payload. forwards env b valid payload \<and> (subject_of env b, payload) \<in> set broker \<and>
             akAccepted a = uint32 (length valid) \<and> akRejected a = uint32 (length (pbRecords b) - length valid)
      else akAccepted a = 0 \<and> akRejected a = uint32 (length (pbRecords b)))"

definition stream_ok :: "ienv \<Rightarrow> (string \<times> bytes) list \<Rightarrow> hstream \<Rightarrow> bool" where
  "stream_ok env broker h \<longleftrightarrow>
     (\<exists>rest. hsBatches h = take (length (hsAcks h)) (hsBatches h) @ rest \<and>
        list_all2 (answered env broker) (take (length (hsAcks h)) (hsBatches h)) (hsAcks h) \<and>
        (case hsWait h of
           Some w \<Rightarrow> rest = [waBatch w] \<and> \<not> hsEnded h \<and> forwards env (waBatch w) (waValid w) (waPayload w)
         | None \<Rightarrow> \<not> hsEnded h \<longrightarrow> rest = []))"

definition jobs :: "ingest \<Rightarrow> job list" where
  "jobs s = inQueue s @ opts puJob (inPublishers s)"

definition reply_ids :: "ingest \<Rightarrow> nat list" where
  "reply_ids s = map jbReply (jobs s) @ map fst (inReplies s)"

definition located :: "ienv \<Rightarrow> ingest \<Rightarrow> waiting \<Rightarrow> bool" where
  "located env s w \<longleftrightarrow>
     (\<exists>j\<in>set (jobs s). jbReply j = waReply w \<and> jbPayload j = waPayload w \<and> jbSubject j = subject_of env (waBatch w)) \<or>
     (\<exists>r. (waReply w, r) \<in> set (inReplies s) \<and> (r = None \<longrightarrow> (subject_of env (waBatch w), waPayload w) \<in> set (inBroker s)))"

definition waits :: "ingest \<Rightarrow> waiting list" where
  "waits s = opts hsWait (inStreams s)"

definition dropped :: "ingest \<Rightarrow> nat" where
  "dropped s = (\<Sum>r\<leftarrow>[InvalidLabels, InvalidRecord, IEncodeFailed, QueueRefused, QueueTooLarge, BufferFull, IShutdown, ClientGone]. inDropped s r)"

definition iinv :: "ienv \<Rightarrow> int \<Rightarrow> ingest \<Rightarrow> bool" where
  "iinv env cap s \<longleftrightarrow>
     inDepth s = (\<Sum>j\<leftarrow>inQueue s. int (jbRecords j)) \<and> int (length (inQueue s)) \<le> max cap 0 \<and>
     distinct (reply_ids s) \<and> list_all (\<lambda>i. i < inNext s) (reply_ids s) \<and>
     distinct (map waReply (waits s)) \<and> list_all (located env s) (waits s) \<and>
     list_all (stream_ok env (inBroker s)) (inStreams s) \<and>
     inReceived s = inAccepted s + dropped s + (\<Sum>w\<leftarrow>waits s. length (waValid w))"

lemma answered_mono: "answered env broker b a \<Longrightarrow> set broker \<subseteq> set broker' \<Longrightarrow> answered env broker' b a"
  unfolding answered_def by (auto split: if_splits)

lemma stream_ok_mono:
  assumes "stream_ok env broker h" and "set broker \<subseteq> set broker'"
  shows "stream_ok env broker' h"
proof -
  have "list_all2 (answered env broker') (take (length (hsAcks h)) (hsBatches h)) (hsAcks h)"
    if "list_all2 (answered env broker) (take (length (hsAcks h)) (hsBatches h)) (hsAcks h)"
    using that answered_mono[OF _ assms(2)] by (auto intro: list_all2_mono)
  then show ?thesis using assms(1) unfolding stream_ok_def by blast
qed

lemma reject_answers:
  "code \<noteq> ACCEPTED \<Longrightarrow> answered env broker b (reject (pbBatchId b) code (length (pbRecords b)) detail)"
  by (simp add: answered_def reject_def)

lemma publishFailed_code: "publishFailed err = (code, reason, detail) \<Longrightarrow> code \<noteq> ACCEPTED"
  by (auto simp: publishFailed_def split: if_splits)

lemma dropped_drop [simp]: "dropped (ingest_drop r n s) = dropped s + n"
  by (cases r) (simp_all add: dropped_def ingest_drop_def)

lemma ingest_drop_simps [simp]:
  "inStreams (ingest_drop r n s) = inStreams s" "inQueue (ingest_drop r n s) = inQueue s" "inDepth (ingest_drop r n s) = inDepth s"
  "inClosing (ingest_drop r n s) = inClosing s" "inQuit (ingest_drop r n s) = inQuit s" "inPublishers (ingest_drop r n s) = inPublishers s"
  "inReplies (ingest_drop r n s) = inReplies s" "inNext (ingest_drop r n s) = inNext s" "inBroker (ingest_drop r n s) = inBroker s"
  "inReceived (ingest_drop r n s) = inReceived s" "inAccepted (ingest_drop r n s) = inAccepted s"
  by (simp_all add: ingest_drop_def)

lemma set_stream_simps [simp]:
  "inStreams (set_stream i h s) = (inStreams s)[i := h]" "inQueue (set_stream i h s) = inQueue s" "inDepth (set_stream i h s) = inDepth s"
  "inClosing (set_stream i h s) = inClosing s" "inQuit (set_stream i h s) = inQuit s" "inPublishers (set_stream i h s) = inPublishers s"
  "inReplies (set_stream i h s) = inReplies s" "inNext (set_stream i h s) = inNext s" "inBroker (set_stream i h s) = inBroker s"
  "inReceived (set_stream i h s) = inReceived s" "inAccepted (set_stream i h s) = inAccepted s" "dropped (set_stream i h s) = dropped s"
  by (simp_all add: set_stream_def dropped_def)

subsection \<open>Answering a batch\<close>

text \<open>Stream \<open>i\<close> has received \<open>b\<close> and is about to be answered; nothing else refers to what it waited for.\<close>

lemma stream_ok_answer:
  assumes "list_all2 (answered env broker) bs (hsAcks h)" and "answered env broker b a" and "hsBatches h = bs @ [b]"
  shows "stream_ok env broker (if sent then h\<lparr>hsWait := None, hsAcks := hsAcks h @ [a]\<rparr> else h\<lparr>hsWait := None, hsEnded := True\<rparr>)"
proof -
  have len: "length bs = length (hsAcks h)" using assms(1) by (rule list_all2_lengthD)
  show ?thesis using assms len by (auto simp: stream_ok_def list_all2_append)
qed

lemma perm_facts:
  assumes "mset xs = mset ys"
  shows "distinct (map f xs) \<longleftrightarrow> distinct (map f ys)" and "list_all P xs \<longleftrightarrow> list_all P ys"
    and "(\<Sum>x\<leftarrow>xs. g x) = (\<Sum>x\<leftarrow>ys. (g x :: nat))"
proof -
  show "distinct (map f xs) \<longleftrightarrow> distinct (map f ys)" using assms by (intro mset_eq_imp_distinct_iff) simp
  show "list_all P xs \<longleftrightarrow> list_all P ys" using mset_eq_setD[OF assms] by (simp add: list_all_iff)
  show "(\<Sum>x\<leftarrow>xs. g x) = (\<Sum>x\<leftarrow>ys. g x)" using assms by (metis mset_map sum_mset_sum_list)
qed

lemma located_cong:
  assumes "located env s w" and "set (jobs s) \<subseteq> set (jobs s')" and "set (inBroker s) \<subseteq> set (inBroker s')"
    and "\<And>r. (waReply w, r) \<in> set (inReplies s) \<Longrightarrow> (waReply w, r) \<in> set (inReplies s')"
  shows "located env s' w"
  using assms unfolding located_def by blast

text \<open>The pipeline's half of the invariant and the handlers' half.\<close>

definition pipe_inv :: "int \<Rightarrow> ingest \<Rightarrow> bool" where
  "pipe_inv cap s \<longleftrightarrow>
     inDepth s = (\<Sum>j\<leftarrow>inQueue s. int (jbRecords j)) \<and> int (length (inQueue s)) \<le> max cap 0 \<and>
     distinct (reply_ids s) \<and> list_all (\<lambda>i. i < inNext s) (reply_ids s)"

definition hand_inv :: "ienv \<Rightarrow> ingest \<Rightarrow> bool" where
  "hand_inv env s \<longleftrightarrow>
     distinct (map waReply (waits s)) \<and> list_all (located env s) (waits s) \<and>
     list_all (stream_ok env (inBroker s)) (inStreams s) \<and>
     inReceived s = inAccepted s + dropped s + (\<Sum>w\<leftarrow>waits s. length (waValid w))"

lemma iinv_halves: "iinv env cap s \<longleftrightarrow> pipe_inv cap s \<and> hand_inv env s"
  by (auto simp: iinv_def pipe_inv_def hand_inv_def)

lemma stream_at: "hand_inv env s \<Longrightarrow> i < length (inStreams s) \<Longrightarrow> stream_ok env (inBroker s) (inStreams s ! i)"
  by (simp add: hand_inv_def list_all_length)

lemma pipe_inv_cong:
  assumes "pipe_inv cap s" and "inQueue s' = inQueue s" and "inDepth s' = inDepth s" and "inPublishers s' = inPublishers s"
    and "inReplies s' = inReplies s" and "inNext s' = inNext s"
  shows "pipe_inv cap s'"
  using assms by (simp add: pipe_inv_def reply_ids_def jobs_def)

lemma jobs_cong: "inQueue s' = inQueue s \<Longrightarrow> inPublishers s' = inPublishers s \<Longrightarrow> jobs s' = jobs s"
  by (simp add: jobs_def)

lemma answer_simps [simp]:
  "inQueue (answer i a sent s) = inQueue s" "inDepth (answer i a sent s) = inDepth s" "inPublishers (answer i a sent s) = inPublishers s"
  "inReplies (answer i a sent s) = inReplies s" "inNext (answer i a sent s) = inNext s" "inBroker (answer i a sent s) = inBroker s"
  "inReceived (answer i a sent s) = inReceived s" "inAccepted (answer i a sent s) = inAccepted s" "dropped (answer i a sent s) = dropped s"
  "inStreams (answer i a sent s) = (inStreams s)[i :=
     (if sent then (inStreams s ! i)\<lparr>hsWait := None, hsAcks := hsAcks (inStreams s ! i) @ [a]\<rparr>
      else (inStreams s ! i)\<lparr>hsWait := None, hsEnded := True\<rparr>)]"
  by (simp_all add: answer_def Let_def dropped_def set_stream_def)

text \<open>A batch answered without entering the pipeline: \<open>s0\<close> is the state that has received it.\<close>

lemma answered_at_once:
  assumes inv: "iinv env cap s" and i: "i < length (inStreams s)" "\<not> hsEnded (inStreams s ! i)" "hsWait (inStreams s ! i) = None"
    and s0: "inStreams s0 = (inStreams s)[i := (inStreams s ! i)\<lparr>hsBatches := hsBatches (inStreams s ! i) @ [b]\<rparr>]"
      "inQueue s0 = inQueue s" "inDepth s0 = inDepth s" "inPublishers s0 = inPublishers s" "inReplies s0 = inReplies s"
      "inNext s0 = inNext s" "inBroker s0 = inBroker s" "inAccepted s0 = inAccepted s"
      "inReceived s0 + dropped s = inReceived s + dropped s0"
    and a: "answered env (inBroker s) b a"
  shows "iinv env cap (answer i a sent s0)"
proof -
  let ?s' = "answer i a sent s0" let ?h = "inStreams s ! i"
  have h: "hand_inv env s" and p: "pipe_inv cap s" using inv by (simp_all add: iinv_halves)
  have ok: "stream_ok env (inBroker s) ?h" using stream_at[OF h i(1)] .
  then have "list_all2 (answered env (inBroker s)) (hsBatches ?h) (hsAcks ?h)" using i(2,3) by (auto simp: stream_ok_def)
  from stream_ok_answer[of env "inBroker s" "hsBatches ?h" "?h\<lparr>hsBatches := hsBatches ?h @ [b]\<rparr>" b a sent] this a
  have new: "stream_ok env (inBroker s) (inStreams ?s' ! i)" using i(1) by (cases sent) (simp_all add: s0)
  have st: "inStreams ?s' = (inStreams s)[i := inStreams ?s' ! i]" using i(1) by (simp add: s0)
  have w: "mset (waits ?s') = mset (waits s)"
    unfolding waits_def by (subst st, rule opts_same[OF i(1)]) (use i in \<open>simp add: s0\<close>)
  have "located env ?s' x" if "located env s x" for x
    by (rule located_cong[OF that]) (simp_all add: s0 jobs_def)
  then have "list_all (located env ?s') (waits ?s')" using h perm_facts(2)[OF w] by (auto simp: hand_inv_def list_all_iff)
  moreover have "list_all (stream_ok env (inBroker ?s')) (inStreams ?s')"
    using h new by (subst st) (auto simp: hand_inv_def s0 intro: list_all_update)
  ultimately have "hand_inv env ?s'"
    using h s0(8,9) perm_facts(1)[OF w, of waReply] perm_facts(3)[OF w, of "\<lambda>w. length (waValid w)"] by (simp add: hand_inv_def)
  moreover have "pipe_inv cap ?s'" by (rule pipe_inv_cong[OF p]) (simp_all add: s0)
  ultimately show ?thesis by (simp add: iinv_halves)
qed

text \<open>A waiting handler that answers: \<open>s1\<close> is the state with its reply taken, if it was there.\<close>

lemma answered_later:
  assumes inv: "iinv env cap s" and i: "i < length (inStreams s)" "hsWait (inStreams s ! i) = Some w"
    and s1: "inStreams s1 = inStreams s" "inQueue s1 = inQueue s" "inDepth s1 = inDepth s" "inPublishers s1 = inPublishers s"
      "inReplies s1 = inReplies s \<or> inReplies s1 = AList.delete (waReply w) (inReplies s)"
      "inNext s1 = inNext s" "inBroker s1 = inBroker s" "inReceived s1 = inReceived s"
      "inAccepted s1 + dropped s1 = inAccepted s + dropped s + length (waValid w)"
    and a: "answered env (inBroker s) (waBatch w) a"
  shows "iinv env cap (answer i a sent s1)"
proof -
  let ?s' = "answer i a sent s1" let ?h = "inStreams s ! i"
  have h: "hand_inv env s" and p: "pipe_inv cap s" using inv by (simp_all add: iinv_halves)
  have "stream_ok env (inBroker s) ?h" using stream_at[OF h i(1)] .
  then obtain bs where bs: "hsBatches ?h = bs @ [waBatch w]" "list_all2 (answered env (inBroker s)) bs (hsAcks ?h)"
    using i(2) by (auto simp: stream_ok_def)
  from stream_ok_answer[OF bs(2) a bs(1), of sent] have new: "stream_ok env (inBroker s) (inStreams ?s' ! i)"
    using i(1) by (cases sent) (simp_all add: s1)
  have st: "inStreams ?s' = (inStreams s)[i := inStreams ?s' ! i]" using i(1) by (simp add: s1)
  have w: "mset (waits s) = mset (w # waits ?s')"
    using opts_remove[of i "inStreams s" hsWait w "inStreams ?s' ! i"] i st by (simp add: waits_def s1)
  have dw: "distinct (map waReply (w # waits ?s'))" using h perm_facts(1)[OF w, of waReply] by (simp add: hand_inv_def)
  have "located env ?s' x" if x: "x \<in> set (waits ?s')" for x
  proof -
    have "located env s x" using h x mset_eq_setD[OF w] by (auto simp: hand_inv_def list_all_iff)
    moreover have "waReply x \<noteq> waReply w" using dw imageI[OF x, of waReply] by auto
    ultimately show ?thesis
      by (elim located_cong) (use s1 in \<open>auto simp: jobs_def AList.delete_eq\<close>)
  qed
  then have "list_all (located env ?s') (waits ?s')" by (simp add: list_all_iff)
  moreover have "list_all (stream_ok env (inBroker ?s')) (inStreams ?s')"
    using h new by (subst st) (auto simp: hand_inv_def s1 intro: list_all_update)
  ultimately have "hand_inv env ?s'"
    using h s1(8,9) dw perm_facts(3)[OF w, of "\<lambda>w. length (waValid w)"] by (simp add: hand_inv_def)
  moreover have "pipe_inv cap ?s'"
  proof -
    have d: "distinct (map fst (inReplies s))" using p by (simp add: pipe_inv_def reply_ids_def)
    then have sub: "set (map fst (inReplies s1)) \<subseteq> set (map fst (inReplies s))" "distinct (map fst (inReplies s1))"
      using s1(5) by (elim disjE; simp only: delete_keys distinct_removeAll set_removeAll; blast)+
    have ids: "reply_ids ?s' = map jbReply (jobs s) @ map fst (inReplies s1)" by (simp add: reply_ids_def jobs_def s1)
    have old: "distinct (map jbReply (jobs s))" "set (map jbReply (jobs s)) \<inter> set (map fst (inReplies s)) = {}"
      using p by (simp_all only: pipe_inv_def reply_ids_def distinct_append)
    have "distinct (reply_ids ?s')" unfolding ids distinct_append using old sub by blast
    moreover have "set (reply_ids ?s') \<subseteq> set (reply_ids s)" unfolding ids reply_ids_def[of s] set_append using sub(1) by blast
    ultimately have "distinct (reply_ids ?s')" "set (reply_ids ?s') \<subseteq> set (reply_ids s)" by blast+
    then show ?thesis using p s1 by (auto simp: pipe_inv_def list_all_iff)
  qed
  ultimately show ?thesis by (simp add: iinv_halves)
qed

lemma answer_failed_answers:
  "publishFailed err = (code, reason, detail) \<Longrightarrow>
     answer_failed i b n err sent s = answer i (reject (pbBatchId b) code (length (pbRecords b)) detail) sent (ingest_drop reason n s) \<and>
     answered env broker b (reject (pbBatchId b) code (length (pbRecords b)) detail)"
  using publishFailed_code reject_answers by (simp add: answer_failed_def)

subsection \<open>Every step keeps it\<close>

lemma acceptable_shorter: "length (acceptable_pb i now rs) \<le> length rs"
  by (simp add: acceptable_pb_def)

lemma iinv_enqueue:
  assumes inv: "iinv env cap s" and i: "i < length (inStreams s)" "\<not> hsEnded (inStreams s ! i)" "hsWait (inStreams s ! i) = None"
    and f: "forwards env b valid payload" and q: "int (length (inQueue s)) < cap"
    and h': "h' = (inStreams s ! i)\<lparr>hsBatches := hsBatches (inStreams s ! i) @ [b], hsWait := Some w\<rparr>"
      "w = \<lparr>waReply = inNext s, waBatch = b, waValid = valid, waPayload = payload\<rparr>"
    and j: "jbReply j = inNext s" "jbPayload j = payload" "jbSubject j = subject_of env b" "jbRecords j = length valid"
    and s': "inStreams s' = (inStreams s)[i := h']" "inQueue s' = inQueue s @ [j]" "inDepth s' = inDepth s + int (length valid)"
      "inPublishers s' = inPublishers s" "inReplies s' = inReplies s" "inNext s' = inNext s + 1" "inBroker s' = inBroker s"
      "inAccepted s' = inAccepted s" "inReceived s' + dropped s = inReceived s + dropped s' + length valid"
  shows "iinv env cap s'"
proof -
  have h: "hand_inv env s" and p: "pipe_inv cap s" using inv by (simp_all add: iinv_halves)
  have m: "mset (reply_ids s') = mset (inNext s # reply_ids s)" by (simp add: reply_ids_def jobs_def s' j)
  have fresh: "inNext s \<notin> set (reply_ids s)" using p by (auto simp: pipe_inv_def list_all_iff)
  have "distinct (reply_ids s')" using perm_facts(1)[OF m, of "\<lambda>x. x"] fresh p by (simp add: pipe_inv_def)
  moreover have "list_all (\<lambda>i. i < inNext s') (reply_ids s')"
    using perm_facts(2)[OF m, of "\<lambda>i. i < inNext s'"] p s'(6) by (auto simp: pipe_inv_def list_all_iff)
  ultimately have "pipe_inv cap s'" using p q by (simp add: pipe_inv_def s' j)
  moreover have "hand_inv env s'"
  proof -
    have w: "mset (waits s') = mset (w # waits s)"
      unfolding waits_def s'(1) by (simp only: mset.simps, rule opts_replace[OF i(1)]) (use i(3) h' in simp_all)
    have loc: "located env s' w" by (auto simp: located_def jobs_def s' h'(2) j)
    have "located env s' x" if "located env s x" for x
      by (rule located_cong[OF that]) (auto simp: s' jobs_def)
    then have "list_all (located env s') (waits s')"
      using h loc perm_facts(2)[OF w] by (auto simp: hand_inv_def list_all_iff)
    moreover have "waReply w \<notin> waReply ` set (waits s)"
    proof
      assume "waReply w \<in> waReply ` set (waits s)"
      then obtain x where x: "located env s x" "waReply x = inNext s" using h h'(2) by (auto simp: hand_inv_def list_all_iff)
      then have "inNext s \<in> set (reply_ids s)" by (force simp: located_def reply_ids_def)
      with fresh show False by blast
    qed
    then have "distinct (map waReply (waits s'))" using perm_facts(1)[OF w, of waReply] h by (simp add: hand_inv_def)
    moreover have all: "list_all2 (answered env (inBroker s)) (hsBatches (inStreams s ! i)) (hsAcks (inStreams s ! i))"
      using stream_at[OF h i(1)] i(2,3) by (auto simp: stream_ok_def)
    then have "stream_ok env (inBroker s) h'"
      using list_all2_lengthD[OF all] i(2) f by (simp add: stream_ok_def h')
    then have "list_all (stream_ok env (inBroker s')) (inStreams s')"
      using h by (auto simp: s' hand_inv_def intro: list_all_update)
    ultimately show ?thesis using h s'(8,9) perm_facts(3)[OF w, of "\<lambda>w. length (waValid w)"] h'(2) by (simp add: hand_inv_def)
  qed
  ultimately show ?thesis by (simp add: iinv_halves)
qed

lemma iinv_recv:
  assumes inv: "iinv env cap s" and f: "stream_recv env cap i b now sent s = Some s'"
  shows "iinv env cap s'"
proof -
  have i: "i < length (inStreams s)" "\<not> hsEnded (inStreams s ! i)" "hsWait (inStreams s ! i) = None"
    using f by (simp_all add: stream_recv_def split: if_splits)
  let ?h = "inStreams s ! i"
  let ?s0 = "set_stream i (?h\<lparr>hsBatches := hsBatches ?h @ [b]\<rparr>) (s\<lparr>inReceived := inReceived s + length (pbRecords b)\<rparr>)"
  let ?labels = "LabelSetFromProto (pbLabels b)"
  let ?valid = "acceptable_pb (stream_id env b) now (pbRecords b)"
  let ?s1 = "ingest_drop InvalidRecord (length (pbRecords b) - length ?valid) ?s0"
  have d0: "dropped ?s0 = dropped s" by (simp add: dropped_def set_stream_def)
  note once = answered_at_once[OF inv i]
  have rej: "iinv env cap (answer i (reject (pbBatchId b) code (length (pbRecords b)) detail) sent (ingest_drop reason n (ingest_drop reason' m ?s0)))"
    if "code \<noteq> ACCEPTED" "n + m = length (pbRecords b)" for code detail reason n reason' m
    by (rule once[where b = b]) (use that d0 reject_answers in \<open>simp_all\<close>)
  have rej1: "iinv env cap (answer i (reject (pbBatchId b) code (length (pbRecords b)) detail) sent (ingest_drop reason (length (pbRecords b)) ?s0))"
    if "code \<noteq> ACCEPTED" for code detail reason
    by (rule once[where b = b]) (use that d0 reject_answers in \<open>simp_all\<close>)
  have len: "length ?valid \<le> length (pbRecords b)" by (rule acceptable_shorter)
  note unf = stream_recv_def Let_def i stream_id_def[symmetric]
  consider "labels_Validate ?labels \<noteq> None" | "labels_Validate ?labels = None" "?valid = []"
    | "labels_Validate ?labels = None" "?valid \<noteq> []"
      "igMarshal env \<lparr>pbBatchId = pbBatchId b, pbLabels = pbLabels b, pbRecords = ?valid, pbTraceContext = []\<rparr> = None"
    | payload where "labels_Validate ?labels = None" "?valid \<noteq> []"
      "igMarshal env \<lparr>pbBatchId = pbBatchId b, pbLabels = pbLabels b, pbRecords = ?valid, pbTraceContext = []\<rparr> = Some payload"
    by (cases "igMarshal env \<lparr>pbBatchId = pbBatchId b, pbLabels = pbLabels b, pbRecords = ?valid, pbTraceContext = []\<rparr>") auto
  then show ?thesis
  proof cases
    case 1
    then show ?thesis using f rej1[of INVALID _ InvalidLabels] by (auto simp: unf)
  next
    case 2
    then show ?thesis using f rej1[of INVALID _ InvalidRecord] by (auto simp: unf)
  next
    case 3
    then show ?thesis using f rej[of INTERNAL "length ?valid" "length (pbRecords b) - length ?valid" _ IEncodeFailed InvalidRecord] len
      by (auto simp: unf)
  next
    case 4
    let ?j = "\<lparr>jbReply = inNext ?s1, jbSubject = Subject (igPrefix env) (Env ?labels) (Service ?labels), jbPayload = payload, jbRecords = length ?valid\<rparr>"
    show ?thesis
    proof (cases "pipeline_submit cap ?j ?s1")
      case (Inl err)
      obtain code reason detail where pf: "publishFailed err = (code, reason, detail)" by (cases "publishFailed err")
      have "s' = answer_failed i b (length ?valid) err sent ?s1" using f 4 Inl by (simp add: unf)
      then have "s' = answer i (reject (pbBatchId b) code (length (pbRecords b)) detail) sent (ingest_drop reason (length ?valid) ?s1)"
        using answer_failed_answers[OF pf] by blast
      then show ?thesis using rej[of code "length ?valid" "length (pbRecords b) - length ?valid" detail reason InvalidRecord] len publishFailed_code[OF pf]
        by simp
    next
      case (Inr s2)
      then have q: "int (length (inQueue s)) < cap" and s2: "s2 = ?s1\<lparr>inQueue := inQueue s @ [?j], inDepth := inDepth s + int (length ?valid)\<rparr>"
        by (simp_all add: pipeline_submit_def split: if_splits)
      have s': "s' = set_stream i ((inStreams s2 ! i)\<lparr>hsWait := Some \<lparr>waReply = inNext ?s1, waBatch = b, waValid = ?valid, waPayload = payload\<rparr>\<rparr>)
          (s2\<lparr>inNext := inNext s2 + 1\<rparr>)" using f 4 Inr by (simp add: unf)
      have d: "dropped s' = dropped s + (length (pbRecords b) - length ?valid)"
        unfolding s' s2 by (simp add: dropped_def ingest_drop_def set_stream_def)
      show ?thesis
        by (rule iinv_enqueue[OF inv i, where b = b and valid = ?valid and payload = payload and j = ?j and
              w = "\<lparr>waReply = inNext s, waBatch = b, waValid = ?valid, waPayload = payload\<rparr>" and h' = "inStreams s' ! i"])
           (use 4 q d len i in \<open>auto simp: s' s2 forwards_def stream_id_def subject_of_def Let_def ingest_drop_def set_stream_def\<close>)
    qed
  qed
qed

lemma iinv_failed_later:
  assumes "iinv env cap s" and "i < length (inStreams s)" "hsWait (inStreams s ! i) = Some w"
    and "s1 = s \<or> s1 = s\<lparr>inReplies := AList.delete (waReply w) (inReplies s)\<rparr>"
  shows "iinv env cap (answer_failed i (waBatch w) (length (waValid w)) err sent s1)"
proof -
  obtain code reason detail where pf: "publishFailed err = (code, reason, detail)" by (cases "publishFailed err")
  note af = answer_failed_answers[OF pf, of i "waBatch w" "length (waValid w)" sent s1 env "inBroker s"]
  have d: "dropped s1 = dropped s" using assms(4) by (auto simp: dropped_def)
  show ?thesis unfolding af[THEN conjunct1]
    by (rule answered_later[OF assms(1-3)]) (use assms(4) d af in auto)
qed

lemma iinv_reply:
  assumes inv: "iinv env cap s" and f: "stream_reply env i sent s = Some s'"
  shows "iinv env cap s'"
proof -
  from f obtain w r where i: "i < length (inStreams s)" "hsWait (inStreams s ! i) = Some w" and r: "map_of (inReplies s) (waReply w) = Some r"
    by (auto simp: stream_reply_def split: if_splits option.splits)
  let ?s1 = "s\<lparr>inReplies := AList.delete (waReply w) (inReplies s)\<rparr>"
  show ?thesis
  proof (cases r)
    case (Some err)
    then have "s' = answer_failed i (waBatch w) (length (waValid w)) err sent ?s1" using f i r by (simp add: stream_reply_def Let_def)
    then show ?thesis using iinv_failed_later[OF inv i, of ?s1 err sent] by simp
  next
    case None
    have h: "hand_inv env s" and p: "pipe_inv cap s" using inv by (simp_all add: iinv_halves)
    have "w \<in> set (waits s)" using i by (auto simp: waits_def opts_set intro!: bexI[of _ "inStreams s ! i"])
    then have loc: "located env s w" using h by (simp add: hand_inv_def list_all_iff)
    have mem: "(waReply w, None) \<in> set (inReplies s)" using r None map_of_SomeD by fastforce
    have "waReply w \<notin> jbReply ` set (jobs s)" using p mem by (force simp: pipe_inv_def reply_ids_def)
    moreover have "r' = None" if "(waReply w, r') \<in> set (inReplies s)" for r'
      using that mem p eq_key_imp_eq_value[of "inReplies s" "waReply w" r' None] by (simp add: pipe_inv_def reply_ids_def)
    ultimately have "(subject_of env (waBatch w), waPayload w) \<in> set (inBroker s)" using loc unfolding located_def by (metis image_eqI)
    moreover have "forwards env (waBatch w) (waValid w) (waPayload w)"
      using stream_at[OF h i(1)] i(2) by (auto simp: stream_ok_def)
    ultimately have a: "answered env (inBroker s) (waBatch w) (accept_ack w)" by (auto simp: answered_def accept_ack_def)
    let ?s2 = "?s1\<lparr>inAccepted := inAccepted ?s1 + length (waValid w), inFanout := inFanout ?s1 @ [(Subject (igTailPrefix env)
        (Env (LabelSetFromProto (pbLabels (waBatch w)))) (Service (LabelSetFromProto (pbLabels (waBatch w)))), waPayload w)]\<rparr>"
    have "s' = answer i (accept_ack w) sent ?s2" using f i r None by (simp add: stream_reply_def Let_def)
    moreover have "dropped ?s2 = dropped s" by (simp add: dropped_def)
    ultimately show ?thesis using answered_later[OF inv i, of ?s2 "accept_ack w" sent] a by simp
  qed
qed

lemma iinv_handler_only:
  assumes inv: "iinv env cap s" and same: "inQueue s' = inQueue s" "inDepth s' = inDepth s" "inPublishers s' = inPublishers s"
      "inReplies s' = inReplies s" "inNext s' = inNext s" "inBroker s' = inBroker s" "inAccepted s' = inAccepted s"
      "inReceived s' = inReceived s" "dropped s' = dropped s" "waits s' = waits s" "list_all (stream_ok env (inBroker s)) (inStreams s')"
  shows "iinv env cap s'"
proof -
  have "located env s' w" if "located env s w" for w by (rule located_cong[OF that]) (simp_all add: same jobs_def)
  then have "list_all (located env s') (waits s')" using inv same(10) by (auto simp: iinv_def list_all_iff)
  then show ?thesis using assms by (simp add: iinv_def reply_ids_def jobs_def)
qed

text \<open>A publisher's step: the jobs move, the replies and the broker's stream grow, and what a reply promises is there.\<close>

lemma iinv_pipeline:
  assumes inv: "iinv env cap s" and ids: "mset (reply_ids s') = mset (reply_ids s)" and st: "inStreams s' = inStreams s"
    and same: "inNext s' = inNext s" "inAccepted s' = inAccepted s" "inReceived s' = inReceived s" "dropped s' = dropped s"
    and b: "set (inBroker s) \<subseteq> set (inBroker s')"
    and q: "inDepth s' = (\<Sum>j\<leftarrow>inQueue s'. int (jbRecords j))" "length (inQueue s') \<le> length (inQueue s)"
    and loc: "\<And>w. located env s w \<Longrightarrow> located env s' w"
  shows "iinv env cap s'"
proof -
  have "waits s' = waits s" by (simp add: waits_def st)
  moreover have "list_all (located env s') (waits s)" using inv loc by (auto simp: iinv_def list_all_iff)
  moreover have "list_all (stream_ok env (inBroker s')) (inStreams s')"
    using inv stream_ok_mono[OF _ b] by (auto simp: iinv_def st list_all_iff)
  moreover have "distinct (reply_ids s')" "list_all (\<lambda>i. i < inNext s') (reply_ids s')"
    using perm_facts(1)[OF ids, of "\<lambda>x. x"] perm_facts(2)[OF ids] inv same(1) by (simp_all add: iinv_def)
  ultimately show ?thesis using inv same q by (simp add: iinv_def)
qed

lemma iinv_take:
  assumes inv: "iinv env cap s" and f: "publisher_take i s = Some s'"
  shows "iinv env cap s'"
proof -
  from f obtain j q where i: "i < length (inPublishers s)" "puJob (inPublishers s ! i) = None" and q: "inQueue s = j # q"
    and s': "s' = set_publisher i ((inPublishers s ! i)\<lparr>puJob := Some j\<rparr>) (s\<lparr>inQueue := q, inDepth := inDepth s - int (jbRecords j)\<rparr>)"
    by (auto simp: publisher_take_def free_publisher_def split: if_splits list.splits)
  have m: "mset (jobs s') = mset (jobs s)"
    using opts_replace[of i "inPublishers s" puJob "(inPublishers s ! i)\<lparr>puJob := Some j\<rparr>" j] i by (simp add: jobs_def s' set_publisher_def q)
  show ?thesis
  proof (rule iinv_pipeline[OF inv])
    show "mset (reply_ids s') = mset (reply_ids s)" using m by (simp add: reply_ids_def s' set_publisher_def)
    show "located env s' w" if "located env s w" for w
      by (rule located_cong[OF that]) (use mset_eq_setD[OF m] in \<open>simp_all add: s' set_publisher_def\<close>)
    show "inDepth s' = (\<Sum>j\<leftarrow>inQueue s'. int (jbRecords j))" using inv q by (simp add: s' set_publisher_def iinv_def)
  qed (use q in \<open>simp_all add: s' set_publisher_def dropped_def\<close>)
qed

lemma iinv_publish:
  assumes inv: "iinv env cap s" and f: "publisher_run i res s = Some s'"
  shows "iinv env cap s'"
proof -
  from f obtain j where i: "i < length (inPublishers s)" "puJob (inPublishers s ! i) = Some j"
    and s': "s' = set_publisher i ((inPublishers s ! i)\<lparr>puJob := None\<rparr>)
       (s\<lparr>inReplies := (jbReply j, case res of PubOk \<Rightarrow> None | PubErr e _ \<Rightarrow> Some e) # inReplies s,
          inBroker := (if broker_stores res then inBroker s @ [(jbSubject j, jbPayload j)] else inBroker s)\<rparr>)"
    by (auto simp: publisher_run_def split: if_splits option.splits)
  have m: "mset (jobs s) = mset (j # jobs s')"
    using opts_remove[of i "inPublishers s" puJob j "(inPublishers s ! i)\<lparr>puJob := None\<rparr>"] i by (simp add: jobs_def s' set_publisher_def)
  show ?thesis
  proof (rule iinv_pipeline[OF inv])
    show "mset (reply_ids s') = mset (reply_ids s)" using m by (simp add: reply_ids_def s' set_publisher_def)
    show "located env s' w" if "located env s w" for w
    proof -
      have sub: "set (inBroker s) \<subseteq> set (inBroker s')" "set (inReplies s) \<subseteq> set (inReplies s')" by (auto simp: s' set_publisher_def)
      from that consider j' where "j' \<in> set (jobs s)" "jbReply j' = waReply w" "jbPayload j' = waPayload w" "jbSubject j' = subject_of env (waBatch w)"
        | r where "(waReply w, r) \<in> set (inReplies s)" "r = None \<longrightarrow> (subject_of env (waBatch w), waPayload w) \<in> set (inBroker s)"
        unfolding located_def by blast
      then show ?thesis
      proof cases
        case 1
        show ?thesis
        proof (cases "j' = j")
          case True
          then show ?thesis using 1 by (cases res) (auto simp: located_def s' set_publisher_def)
        next
          case False
          then show ?thesis using 1 mset_eq_setD[OF m] unfolding located_def by auto
        qed
      next
        case 2
        then show ?thesis using sub unfolding located_def by blast
      qed
    qed
    show "inDepth s' = (\<Sum>j\<leftarrow>inQueue s'. int (jbRecords j))" using inv by (simp add: s' set_publisher_def iinv_def)
  qed (auto simp: s' set_publisher_def dropped_def)
qed

lemma iinv_mode:
  assumes inv: "iinv env cap s" and i: "i < length (inPublishers s)"
    and s': "s' = set_publisher i ((inPublishers s ! i)\<lparr>puMode := m\<rparr>) s"
  shows "iinv env cap s'"
proof -
  have m: "mset (jobs s') = mset (jobs s)"
    using opts_same[OF i, of puJob "(inPublishers s ! i)\<lparr>puMode := m\<rparr>"] by (simp add: jobs_def s' set_publisher_def)
  show ?thesis
  proof (rule iinv_pipeline[OF inv])
    show "mset (reply_ids s') = mset (reply_ids s)" using m by (simp add: reply_ids_def s' set_publisher_def)
    show "located env s' w" if "located env s w" for w
      by (rule located_cong[OF that]) (use mset_eq_setD[OF m] in \<open>simp_all add: s' set_publisher_def\<close>)
    show "inDepth s' = (\<Sum>j\<leftarrow>inQueue s'. int (jbRecords j))" using inv by (simp add: s' set_publisher_def iinv_def)
  qed (simp_all add: s' set_publisher_def dropped_def)
qed

lemma iinv_step:
  assumes inv: "iinv env cap s" and f: "i_step env cap l s = Some s'"
  shows "iinv env cap s'"
proof (cases l)
  case IOpen
  then show ?thesis using f inv
    by (intro iinv_handler_only[OF inv]) (auto simp: stream_open_def dropped_def waits_def iinv_def stream_ok_def split: if_splits)
next
  case (IRecv i b now sent)
  then show ?thesis using f iinv_recv[OF inv] by simp
next
  case (IReply i sent)
  then show ?thesis using f iinv_reply[OF inv] by simp
next
  case (IGone i e)
  then obtain w where i: "i < length (inStreams s)" "hsWait (inStreams s ! i) = Some w"
    and "s' = answer_failed i (waBatch w) (length (waValid w)) [e] False s"
    using f by (auto simp: stream_gone_def split: if_splits option.splits)
  then show ?thesis using iinv_failed_later[OF inv i, of s] by simp
next
  case (IEnd i)
  then have i: "i < length (inStreams s)" "hsWait (inStreams s ! i) = None" and s': "s' = set_stream i ((inStreams s ! i)\<lparr>hsEnded := True\<rparr>) s"
    using f by (auto simp: stream_end_def split: if_splits)
  have w: "mset (waits s') = mset (waits s)"
    unfolding waits_def s' set_stream_simps by (rule opts_same[OF i(1)]) (simp add: i)
  have ok: "stream_ok env (inBroker s) ((inStreams s ! i)\<lparr>hsEnded := True\<rparr>)"
    using stream_at[of env s i] inv i by (auto simp: iinv_halves stream_ok_def)
  have "located env s' x" if "located env s x" for x by (rule located_cong[OF that]) (simp_all add: s' jobs_def)
  then have "list_all (located env s') (waits s')" using inv perm_facts(2)[OF w] by (auto simp: iinv_def list_all_iff)
  then have "hand_inv env s'"
    using inv ok perm_facts(1)[OF w, of waReply] perm_facts(3)[OF w, of "\<lambda>w. length (waValid w)"]
    by (simp add: iinv_halves hand_inv_def s' list_all_update)
  moreover have "pipe_inv cap s'" by (rule pipe_inv_cong[of cap s]) (use inv in \<open>simp_all add: iinv_halves s'\<close>)
  ultimately show ?thesis by (simp add: iinv_halves)
next
  case (ITake i)
  then show ?thesis using f iinv_take[OF inv] by simp
next
  case (IPublish i res)
  then show ?thesis using f iinv_publish[OF inv] by simp
next
  case (IPubQuit i)
  then show ?thesis using f iinv_mode[OF inv, of i] by (auto simp: publisher_quit_def free_publisher_def split: if_splits)
next
  case (IPubDone i)
  then show ?thesis using f iinv_mode[OF inv, of i] by (auto simp: publisher_done_def free_publisher_def split: if_splits)
next
  case IShut
  then show ?thesis using f inv by (intro iinv_handler_only[OF inv]) (auto simp: Shutdown_begin_def dropped_def waits_def iinv_def)
next
  case IClose
  then show ?thesis using f inv by (intro iinv_handler_only[OF inv]) (auto simp: pipeline_close_def dropped_def waits_def iinv_def split: if_splits)
qed

theorem iinv_reach: "i_reach env cap workers s \<Longrightarrow> iinv env cap s"
proof (induction rule: i_reach.induct)
  case i_init
  have "opts puJob (replicate n \<lparr>puMode = Publishing, puJob = None\<rparr>) = []" for n by (induction n) simp_all
  then show ?case by (simp add: iinv_def newPipeline_def reply_ids_def jobs_def waits_def dropped_def)
next
  case (i_more s l s')
  then show ?case using iinv_step by blast
qed

end
