(* ===== verification/Ingest_Runs.thy ===== *)
theory Ingest_Runs
  imports Ingest_Safety
begin

text \<open>
  What the ingest service guarantees the agents that stream to it: answers are honest and in order, every record is accounted
  for, the detail of an answer can be encoded, and shutdown publishes everything that was queued and ends.
\<close>

subsection \<open>Answers\<close>

lemma stream_answers:
  assumes "i_reach env cap workers s" and "i < length (inStreams s)" and "k < length (hsAcks (inStreams s ! i))"
  shows "k < length (hsBatches (inStreams s ! i)) \<and> answered env (inBroker s) (hsBatches (inStreams s ! i) ! k) (hsAcks (inStreams s ! i) ! k)"
proof -
  let ?h = "inStreams s ! i"
  have "stream_ok env (inBroker s) ?h" using stream_at[of env s i] iinv_reach[OF assms(1)] assms(2) by (simp add: iinv_halves)
  then have l: "list_all2 (answered env (inBroker s)) (take (length (hsAcks ?h)) (hsBatches ?h)) (hsAcks ?h)" by (auto simp: stream_ok_def)
  from list_all2_lengthD[OF l] have "length (hsAcks ?h) \<le> length (hsBatches ?h)" by simp
  then show ?thesis using list_all2_nthD2[OF l assms(3)] assms(3) by simp
qed

text \<open>C8. Answers are honest and in order. The answer number \<open>k\<close> of a stream answers the batch number \<open>k\<close>: it carries its name; if it
  says accepted, the labels of the batch are good, its records that passed validation are in the broker's stream as one message
  under the subject of its labels, and the two counts say how many passed and how many did not; any other answer reports every
  record as rejected.\<close>

theorem ingest_ack_honest:
  assumes "i_reach env cap workers s" and "i < length (inStreams s)" and "k < length (hsAcks (inStreams s ! i))"
  shows "k < length (hsBatches (inStreams s ! i)) \<and> answered env (inBroker s) (hsBatches (inStreams s ! i) ! k) (hsAcks (inStreams s ! i) ! k)"
  using stream_answers[OF assms] .


text \<open>The detail of an answer fits. Truncation keeps a string within the limit, marks a cut, and never cuts inside a rune: a
  string that is valid UTF-8 stays valid, so the answer can be encoded.\<close>

theorem truncate_ok:
  assumes "3 \<le> m"
  shows "length (truncate_str s m) \<le> m \<and> (length s \<le> m \<longrightarrow> truncate_str s m = s) \<and>
    (m < length s \<longrightarrow> (\<exists>n. truncate_str s m = take n s @ ''...'')) \<and> (valid_string s \<longrightarrow> valid_string (truncate_str s m))"
proof (cases "length s \<le> m")
  case False
  let ?n = "cut_back s (m - 3)"
  have n: "?n \<le> m - 3" using cut_back_spec by blast
  have "valid_string (take ?n s @ ''...'')" if v: "valid_string s"
    by (rule valid_string_append[OF valid_string_cut[OF v]]) (use False assms in \<open>simp_all add: valid_string_ascii\<close>)
  then show ?thesis using False n assms by (auto simp: truncate_str_def)
qed (simp add: truncate_str_def)

subsection \<open>Shutdown\<close>

text \<open>The publishers' own steps.\<close>

fun publishing :: "ilabel \<Rightarrow> bool" where
  "publishing (ITake _) = True"
| "publishing (IPublish _ _) = True"
| "publishing (IPubQuit _) = True"
| "publishing (IPubDone _) = True"
| "publishing _ = False"

definition pub_ok :: "ingest \<Rightarrow> publisher \<Rightarrow> bool" where
  "pub_ok s p \<longleftrightarrow> (puMode p \<noteq> Publishing \<longrightarrow> inQuit s) \<and> (puMode p = PStopped \<longrightarrow> puJob p = None \<and> inQueue s = [])"

definition sinv :: "ingest \<Rightarrow> bool" where
  "sinv s \<longleftrightarrow> (inClosing s \<longrightarrow> inStopping s \<and> list_all hsEnded (inStreams s)) \<and> inQuit s = inClosing s \<and>
     list_all (pub_ok s) (inPublishers s)"

lemma sinv_handler:
  assumes "sinv s" and "inPublishers s' = inPublishers s" and "inQuit s' = inQuit s" and "inClosing s' = inClosing s" and "\<not> inClosing s"
  shows "sinv s'"
  using assms by (auto simp: sinv_def pub_ok_def list_all_iff)

lemma answer_flags [simp]:
  "inQuit (answer i a sent s) = inQuit s" "inClosing (answer i a sent s) = inClosing s" "inStopping (answer i a sent s) = inStopping s"
  "inQuit (ingest_drop r n s) = inQuit s" "inClosing (ingest_drop r n s) = inClosing s" "inStopping (ingest_drop r n s) = inStopping s"
  "inQuit (set_stream i h s) = inQuit s" "inClosing (set_stream i h s) = inClosing s" "inStopping (set_stream i h s) = inStopping s"
  by (simp_all add: answer_def Let_def ingest_drop_def set_stream_def)

lemma answer_failed_flags [simp]:
  "inQuit (answer_failed i b n err sent s) = inQuit s" "inClosing (answer_failed i b n err sent s) = inClosing s"
  "inPublishers (answer_failed i b n err sent s) = inPublishers s"
  by (simp_all add: answer_failed_def ingest_drop_def split: prod.splits)

lemma sinv_recv:
  assumes inv: "sinv s" and f: "stream_recv env cap i b now sent s = Some s'"
  shows "sinv s'"
proof -
  have "i < length (inStreams s)" "\<not> hsEnded (inStreams s ! i)" using f by (simp_all add: stream_recv_def split: if_splits)
  then have "\<not> inClosing s" using inv by (auto simp: sinv_def list_all_length)
  then show ?thesis
  proof (intro sinv_handler[OF inv])
    show "inPublishers s' = inPublishers s" "inQuit s' = inQuit s" "inClosing s' = inClosing s"
      using f by (auto simp: stream_recv_def Let_def pipeline_submit_def split: if_splits option.splits sum.splits)
  qed
qed

lemma sinv_waiting:
  assumes inv: "sinv s" and i: "i < length (inStreams s)" "hsWait (inStreams s ! i) = Some w" and h: "iinv env cap s"
  shows "\<not> inClosing s"
proof -
  have "\<not> hsEnded (inStreams s ! i)" using stream_at[of env s i] h i by (auto simp: iinv_halves stream_ok_def)
  then show ?thesis using inv i(1) by (auto simp: sinv_def list_all_length)
qed

lemma sinv_publisher:
  assumes inv: "sinv s" and s': "inPublishers s' = (inPublishers s)[i := p]" "inStreams s' = inStreams s" "inClosing s' = inClosing s"
      "inStopping s' = inStopping s" "inQuit s' = inQuit s" and q: "inQueue s = [] \<longrightarrow> inQueue s' = []" and p: "pub_ok s' p"
  shows "sinv s'"
proof -
  have "list_all (pub_ok s') (inPublishers s)" using inv s' q by (auto simp: sinv_def pub_ok_def list_all_iff)
  then have "list_all (pub_ok s') (inPublishers s')" unfolding s'(1) using p by (rule list_all_update)
  then show ?thesis using inv s' by (simp add: sinv_def)
qed

lemma sinv_step:
  assumes inv: "sinv s" "iinv env cap s" and f: "i_step env cap l s = Some s'"
  shows "sinv s'"
proof (cases l)
  case (IReply i sent)
  with f obtain w where i: "i < length (inStreams s)" "hsWait (inStreams s ! i) = Some w"
    by (auto simp: stream_reply_def split: if_splits option.splits)
  have "inPublishers s' = inPublishers s" "inQuit s' = inQuit s" "inClosing s' = inClosing s"
    using f IReply by (auto simp: stream_reply_def Let_def split: if_splits option.splits)
  then show ?thesis using sinv_handler[OF inv(1)] sinv_waiting[OF inv(1) i inv(2)] by blast
next
  case (IGone i e)
  with f obtain w where i: "i < length (inStreams s)" "hsWait (inStreams s ! i) = Some w"
    by (auto simp: stream_gone_def split: if_splits option.splits)
  have "inPublishers s' = inPublishers s" "inQuit s' = inQuit s" "inClosing s' = inClosing s"
    using f IGone by (auto simp: stream_gone_def split: if_splits option.splits)
  then show ?thesis using sinv_handler[OF inv(1)] sinv_waiting[OF inv(1) i inv(2)] by blast
next
  case (IRecv i b now sent)
  then show ?thesis using f sinv_recv[OF inv(1)] by simp
next
  case (IEnd i)
  then have s': "s' = set_stream i ((inStreams s ! i)\<lparr>hsEnded := True\<rparr>) s" using f by (auto simp: stream_end_def split: if_splits)
  have "pub_ok s' = pub_ok s" by (simp add: fun_eq_iff pub_ok_def s')
  then show ?thesis using inv(1) by (auto simp: sinv_def s' intro: list_all_update)
next
  case (ITake i)
  then obtain j q where i: "i < length (inPublishers s)" "puMode (inPublishers s ! i) \<noteq> PStopped" "inQueue s = j # q"
    and s': "s' = set_publisher i ((inPublishers s ! i)\<lparr>puJob := Some j\<rparr>) (s\<lparr>inQueue := q, inDepth := inDepth s - int (jbRecords j)\<rparr>)"
    using f by (auto simp: publisher_take_def free_publisher_def split: if_splits list.splits)
  have "pub_ok s (inPublishers s ! i)" using inv(1) i(1) by (simp add: sinv_def list_all_length)
  then show ?thesis using i by (intro sinv_publisher[OF inv(1)]) (auto simp: s' set_publisher_def pub_ok_def)
next
  case (IPublish i res)
  then obtain j where i: "i < length (inPublishers s)" "puJob (inPublishers s ! i) = Some j"
    and s': "s' = set_publisher i ((inPublishers s ! i)\<lparr>puJob := None\<rparr>)
       (s\<lparr>inReplies := (jbReply j, case res of PubOk \<Rightarrow> None | PubErr e _ \<Rightarrow> Some e) # inReplies s,
          inBroker := (if broker_stores res then inBroker s @ [(jbSubject j, jbPayload j)] else inBroker s)\<rparr>)"
    using f by (auto simp: publisher_run_def split: if_splits option.splits)
  have "pub_ok s (inPublishers s ! i)" using inv(1) i(1) by (simp add: sinv_def list_all_length)
  then show ?thesis by (intro sinv_publisher[OF inv(1), where i = i and p = "(inPublishers s ! i)\<lparr>puJob := None\<rparr>"]) (auto simp: s' set_publisher_def pub_ok_def)
next
  case (IPubQuit i)
  then show ?thesis using f
    by (auto simp: publisher_quit_def set_publisher_def pub_ok_def split: if_splits intro!: sinv_publisher[OF inv(1)])
next
  case (IPubDone i)
  then have i: "i < length (inPublishers s)" "puJob (inPublishers s ! i) = None" "puMode (inPublishers s ! i) = PDraining" "inQueue s = []"
    and s': "s' = set_publisher i ((inPublishers s ! i)\<lparr>puMode := PStopped\<rparr>) s"
    using f by (auto simp: publisher_done_def free_publisher_def split: if_splits)
  have "pub_ok s (inPublishers s ! i)" using inv(1) i(1) by (simp add: sinv_def list_all_length)
  then show ?thesis using i by (intro sinv_publisher[OF inv(1)]) (auto simp: s' set_publisher_def pub_ok_def)
qed (use f inv(1) in \<open>auto simp: stream_open_def Shutdown_begin_def pipeline_close_def sinv_def pub_ok_def list_all_iff split: if_splits\<close>)

lemma sinv_reach: "i_reach env cap workers s \<Longrightarrow> sinv s"
proof (induction rule: i_reach.induct)
  case i_init
  show ?case by (simp add: sinv_def newPipeline_def pub_ok_def list_all_iff)
next
  case (i_more s l s')
  then show ?case using sinv_step iinv_reach by blast
qed

definition pub_rank :: "publisher \<Rightarrow> nat" where
  "pub_rank p = (case puMode p of Publishing \<Rightarrow> 2 | PDraining \<Rightarrow> 1 | PStopped \<Rightarrow> 0) + (if puJob p = None then 0 else 1)"

definition pipe_work :: "ingest \<Rightarrow> nat" where
  "pipe_work s = 2 * length (inQueue s) + sum_over pub_rank (inPublishers s)"

definition pipeline_stopped :: "ingest \<Rightarrow> bool" where
  "pipeline_stopped s \<longleftrightarrow> list_all (\<lambda>p. puMode p = PStopped) (inPublishers s)"

lemma pipe_work_publisher:
  assumes "i < length (inPublishers s)" and "inPublishers s' = (inPublishers s)[i := p]"
    and "2 * length (inQueue s') + pub_rank p < 2 * length (inQueue s) + pub_rank (inPublishers s ! i)"
  shows "pipe_work s' < pipe_work s"
  using sum_over_update[OF assms(1), of pub_rank p] assms(2,3) by (simp add: pipe_work_def)

lemma publishing_works:
  assumes "publishing l" and "i_step env cap l s = Some s'"
  shows "pipe_work s' < pipe_work s" "inQuit s' = inQuit s"
proof -
  have "pipe_work s' < pipe_work s \<and> inQuit s' = inQuit s"
    using assms
    by (cases l) (auto simp: publisher_take_def publisher_run_def publisher_quit_def publisher_done_def free_publisher_def set_publisher_def
        pub_rank_def split: if_splits list.splits option.splits intro!: pipe_work_publisher)
  then show "pipe_work s' < pipe_work s" "inQuit s' = inQuit s" by blast+
qed

lemma publishing_moves:
  assumes "inQuit s" and "\<not> pipeline_stopped s"
  shows "\<exists>l s'. publishing l \<and> i_step env cap l s = Some s'" (is ?thesis)
proof -
  from assms(2) obtain i where i: "i < length (inPublishers s)" "puMode (inPublishers s ! i) \<noteq> PStopped"
    by (auto simp: pipeline_stopped_def list_all_length)
  have by_label: ?thesis if "publishing l" "i_step env cap l s \<noteq> None" for l using that by blast
  show ?thesis
  proof (cases "puJob (inPublishers s ! i)")
    case (Some j)
    show ?thesis by (rule by_label[of "IPublish i PubOk"]) (use Some i in \<open>simp_all add: publisher_run_def\<close>)
  next
    case None
    then have free: "free_publisher i s" using i by (simp add: free_publisher_def)
    show ?thesis
    proof (cases "puMode (inPublishers s ! i)")
      case Publishing
      show ?thesis by (rule by_label[of "IPubQuit i"]) (use Publishing free assms(1) in \<open>simp_all add: publisher_quit_def\<close>)
    next
      case PDraining
      show ?thesis
      proof (cases "inQueue s")
        case Nil
        show ?thesis by (rule by_label[of "IPubDone i"]) (use Nil PDraining free in \<open>simp_all add: publisher_done_def\<close>)
      next
        case (Cons j q)
        show ?thesis by (rule by_label[of "ITake i"]) (use Cons free in \<open>simp_all add: publisher_take_def\<close>)
      qed
    qed (use i in simp)
  qed
qed

lemma i_run_steps: "i_run env cap ls s = steps (i_step env cap) ls s"
  by (induction ls arbitrary: s) (auto split: option.splits)

interpretation publishers: draining "i_step env cap" publishing "\<lambda>s. iinv env cap s \<and> sinv s \<and> inQuit s \<and> inPublishers s \<noteq> []" pipeline_stopped pipe_work
  for env cap
proof unfold_locales
  fix s l s' assume "iinv env cap s \<and> sinv s \<and> inQuit s \<and> inPublishers s \<noteq> []" and l: "publishing l" "i_step env cap l s = Some s'"
  then have i: "iinv env cap s" "sinv s" "inQuit s" "inPublishers s \<noteq> []" by blast+
  have "length (inPublishers s') = length (inPublishers s)"
    using l by (cases l) (auto simp: publisher_take_def publisher_run_def publisher_quit_def publisher_done_def set_publisher_def
        split: if_splits list.splits option.splits)
  then show "iinv env cap s' \<and> sinv s' \<and> inQuit s' \<and> inPublishers s' \<noteq> []"
    using iinv_step[OF i(1) l(2)] sinv_step[OF i(2,1) l(2)] publishing_works[OF l] i(3,4) by fastforce
  show "pipe_work s' < pipe_work s" using publishing_works(1)[OF l] .
qed (use publishing_moves in blast)

lemma publishers_exist: "i_reach env cap workers s \<Longrightarrow> inPublishers s \<noteq> []"
proof (induction rule: i_reach.induct)
  case i_init
  then show ?case by (simp add: newPipeline_def)
next
  case (i_more s l s')
  have "length (inPublishers s') = length (inPublishers s)"
    using i_more.hyps by (cases l) (auto simp: stream_open_def stream_recv_def stream_reply_def stream_gone_def stream_end_def publisher_take_def
        publisher_run_def publisher_quit_def publisher_done_def set_publisher_def Shutdown_begin_def pipeline_close_def pipeline_submit_def Let_def
        split: if_splits list.splits option.splits sum.splits)
  then show ?case using i_more.IH by (metis length_0_conv)
qed

lemma stopped_empty:
  assumes "iinv env cap s" and "sinv s" and "inQuit s" and "inPublishers s \<noteq> []" and "pipeline_stopped s"
  shows "jobs s = []" "waits s = []"
proof -
  have p: "puJob p = None \<and> inQueue s = []" if "p \<in> set (inPublishers s)" for p
    using assms(2,5) that by (auto simp: sinv_def pub_ok_def pipeline_stopped_def list_all_iff)
  then have "opts puJob (inPublishers s) = []" by (auto simp: opts_def split: option.splits)
  moreover obtain p where "p \<in> set (inPublishers s)" using assms(4) by (cases "inPublishers s") auto
  ultimately show "jobs s = []" using p by (simp add: jobs_def)
  have "hsWait h = None" if h: "h \<in> set (inStreams s)" for h
  proof -
    have "hsEnded h" "stream_ok env (inBroker s) h" using assms(1-3) h by (auto simp: sinv_def iinv_def list_all_iff)
    then show ?thesis by (cases "hsWait h") (auto simp: stream_ok_def)
  qed
  then show "waits s = []" by (auto simp: waits_def opts_def split: option.splits)
qed

text \<open>C19. Shutdown publishes what is queued and ends. Once the pipeline is closed there is no endless run of publisher steps,
  whatever the broker answers; until all publishers have stopped one of them can go on; and so there is a run at whose end all
  have stopped, no job is left in the channel or with a publisher, and no handler waits.\<close>

theorem pipeline_close_drains:
  assumes "i_reach env cap workers s" and "inQuit s"
  shows "(\<nexists>f. f 0 = s \<and> (\<forall>n. \<exists>l. publishing l \<and> i_step env cap l (f n) = Some (f (Suc n)))) \<and>
    (pipeline_stopped s \<or> (\<exists>l s'. publishing l \<and> i_step env cap l s = Some s')) \<and>
    (\<exists>ls s'. list_all publishing ls \<and> i_run env cap ls s = Some s' \<and> pipeline_stopped s' \<and> jobs s' = [] \<and> waits s' = [])"
proof -
  have i: "iinv env cap s \<and> sinv s \<and> inQuit s \<and> inPublishers s \<noteq> []"
    using iinv_reach[OF assms(1)] sinv_reach[OF assms(1)] publishers_exist[OF assms(1)] assms(2) by blast
  from publishers.reaches_end[OF i] obtain ls s' where "list_all publishing ls" "steps (i_step env cap) ls s = Some s'" "pipeline_stopped s'"
    "iinv env cap s'" "sinv s'" "inQuit s'" "inPublishers s' \<noteq> []" by blast
  then show ?thesis using stopped_empty[of env cap s'] publishers.no_endless_run[OF i] publishers.moves[OF i] unfolding i_run_steps by blast
qed

subsection \<open>A run\<close>

text \<open>One publisher and a channel of one place: a batch with one good and one bad record is received, published and answered,
  and the service shuts down.\<close>

definition pb_i :: "int \<Rightarrow> pb_LogRecord" where
  "pb_i t = \<lparr>pbTimeUnixNano = t, pbSeq = 1, pbLevel = 0, pbMessage = ''m'', pbTraceId = [], pbSpanId = [], pbFields = []\<rparr>"

definition batch_i :: pb_LogBatch where
  "batch_i = \<lparr>pbBatchId = ''b'', pbLabels = Some \<lparr>pbService = ''s'', pbHost = ''h'', pbEnv = ''e'', pbExtra = []\<rparr>,
     pbRecords = [pb_i 1, (pb_i 1)\<lparr>pbSeq := -1\<rparr>], pbTraceContext = []\<rparr>"

definition env_i :: ienv where
  "env_i = \<lparr>igLib = lib0\<lparr>xxh64 := (\<lambda>_. 5)\<rparr>, igPrefix = ''logs'', igTailPrefix = ''tail'', igMarshal = (\<lambda>b. Some (pbBatchId b)),
     igLabelErr = (\<lambda>_. []), igRecordErr = (\<lambda>_ _. [])\<rparr>"

definition run_i :: "ilabel list" where
  "run_i = [IOpen, IRecv 0 batch_i 0 True, ITake 0, IPublish 0 PubOk, IReply 0 True]"

lemmas i_eval = acceptable_pb_def batch_i_def pb_i_def env_i_def LabelSetFromProto_def LogRecordFromProto_def
  labels_Validate_def check_promoted_def MaxLabelValueLen_def label_ID_def record_Validate_def level_Valid_def levelNames_def record_limits
  zero_time_def duration_defs wrap16_def uint32_def

lemma batch_i_simps [simp]:
  "labels_Validate (LabelSetFromProto (pbLabels batch_i)) = None" "acceptable_pb 5 0 (pbRecords batch_i) = [pb_i 1]"
  "label_ID (igLib env_i) ls = 5" "pbBatchId batch_i = ''b''" "length (pbRecords batch_i) = 2" "igMarshal env_i b = Some (pbBatchId b)"
  "uint32 1 = 1" "uint32 (Suc 0) = 1"
  by (simp_all add: i_eval)

lemmas i_step_eval = newPipeline_def stream_open_def stream_recv_def set_stream_def ingest_drop_def answer_def
  pipeline_submit_def publisher_take_def free_publisher_def set_publisher_def publisher_run_def stream_reply_def stream_end_def
  accept_ack_def ackCodeLabel_def Shutdown_begin_def pipeline_close_def

lemma run_i_result:
  "map_option (\<lambda>s. (map hsAcks (inStreams s), map hsBatches (inStreams s), inReceived s, map snd (inBroker s), inPublishers s, waits s, inQueue s)) (i_run env_i 1 run_i (newPipeline 1)) =
     Some ([[\<lparr>akBatchId = ''b'', akCode = ACCEPTED, akAccepted = 1, akRejected = 1, akDetail = []\<rparr>]], [[batch_i]], 2, [''b''],
       [\<lparr>puMode = Publishing, puJob = None\<rparr>], [], [])"
  by (simp add: run_i_def i_step_eval Let_def waits_def)

lemma i_run_reach: "i_reach env cap workers s \<Longrightarrow> i_run env cap ls s = Some s' \<Longrightarrow> i_reach env cap workers s'"
  by (induction env cap ls s rule: i_run.induct) (auto split: option.splits intro: i_more)

lemma run_i_state:
  obtains s where "i_reach env_i 1 1 s" "map hsAcks (inStreams s) = [[\<lparr>akBatchId = ''b'', akCode = ACCEPTED, akAccepted = 1, akRejected = 1, akDetail = []\<rparr>]]"
    "map hsBatches (inStreams s) = [[batch_i]]" "inReceived s = 2" "waits s = []" "inQueue s = []"
  using run_i_result i_run_reach[OF i_init, of env_i 1 run_i 1] by (cases "i_run env_i 1 run_i (newPipeline 1)") auto

theorem ingest_ack_honest_witness:
  "\<exists>s. i_reach env_i 1 1 s \<and> length (inStreams s) = 1 \<and> akCode (hsAcks (inStreams s ! 0) ! 0) = ACCEPTED \<and>
     answered env_i (inBroker s) batch_i (hsAcks (inStreams s ! 0) ! 0)"
proof -
  obtain s where s: "i_reach env_i 1 1 s" "map hsAcks (inStreams s) = [[\<lparr>akBatchId = ''b'', akCode = ACCEPTED, akAccepted = 1, akRejected = 1, akDetail = []\<rparr>]]"
    "map hsBatches (inStreams s) = [[batch_i]]" by (rule run_i_state)
  then obtain h where h: "inStreams s = [h]" "hsBatches h = [batch_i]" "length (hsAcks h) = 1" "akCode (hsAcks h ! 0) = ACCEPTED"
    by (auto simp: map_eq_Cons_conv)
  from ingest_ack_honest[OF s(1), of 0 0] h s(1) show ?thesis by auto
qed


theorem truncate_ok_witness:
  "truncate_str (replicate 4 CHR ''a'' @ [CHR 0xC3, CHR 0xA9]) 5 = ''aa...'' \<and>
   truncate_str (''a'' @ [CHR 0xC3, CHR 0xA9, CHR 0xC3, CHR 0xA9]) 5 = ''a'' @ [CHR 0xC3, CHR 0xA9, CHR 0xC3, CHR 0xA9] \<and>
   length (truncate_str (''a'' @ [CHR 0xC3, CHR 0xA9, CHR 0xC3, CHR 0xA9]) 4) \<le> 4"
  using truncate_ok[of 4 "''a'' @ [CHR 0xC3, CHR 0xA9, CHR 0xC3, CHR 0xA9]"]
  by (simp add: truncate_str_def eval_nat_numeral rune_start_def cont_byte_def)

theorem pipeline_close_drains_witness:
  "\<exists>s ls s'. i_run env_i 1 (run_i @ [IShut, IEnd 0, IClose]) (newPipeline 1) = Some s \<and> list_all publishing ls \<and>
     i_run env_i 1 ls s = Some s' \<and> pipeline_stopped s' \<and> jobs s' = []"
proof -
  have "map_option inQuit (i_run env_i 1 (run_i @ [IShut, IEnd 0, IClose]) (newPipeline 1)) = Some True"
    by (simp add: run_i_def i_step_eval Let_def)
  then obtain s where s: "i_run env_i 1 (run_i @ [IShut, IEnd 0, IClose]) (newPipeline 1) = Some s" "inQuit s"
    by (cases "i_run env_i 1 (run_i @ [IShut, IEnd 0, IClose]) (newPipeline 1)") auto
  from pipeline_close_drains[OF i_run_reach[OF i_init s(1)] s(2)] s(1) show ?thesis by blast
qed

end
