(* ===== verification/Writer.thy ===== *)
theory Writer
  imports Streams "HOL-Library.Product_Lexorder"
begin

text \<open>
  The storage writer (\<^verbatim>\<open>internal/storage/writer.go\<close>): a bounded channel of shipments, a pool of workers that batch
  them, and the two transactions that bring a batch into the database. Every goroutine is a component of the state
  and every action that others can observe between is one step, so that submissions, workers, shutdown and the
  transactions of other nodes interleave freely.

  The database is two tables: \<^verbatim>\<open>streams\<close>, keyed by stream, and \<^verbatim>\<open>logs\<close>, whose rows refer to a stream and are unique
  in stream, sequence number and time (\<^verbatim>\<open>migrations/0001_streams_and_logs.up.sql\<close>). A transaction takes effect at
  once or not at all; an error may be reported although it took effect, as when the connection is lost during a
  commit. What a column keeps of a time, the JSON of a map and which rows a column type refuses are parameters.
  Metrics other than the drop counters, logging and trace spans carry no data and are left out.
\<close>

subsection \<open>Configuration\<close>

record wconfig =
  wcWorkers :: int
  wcBatchSize :: int
  wcFlushInterval :: duration
  wcQueueDepth :: int
  wcWriteTimeout :: duration
  wcMaxAttempts :: int
  wcRetryBaseDelay :: duration
  wcRetryMaxDelay :: duration
  wcStreamCacheSize :: int
  wcStreamRefreshInterval :: duration
  wcCopyMode :: string

definition CopyModeStaging :: string where "CopyModeStaging = ''staging''"
definition CopyModeDirect :: string where "CopyModeDirect = ''direct''"

datatype wcfg_err = BadWorkers | BadBatchSize | BadFlushInterval | BadCopyMode | BadQueueDepth | BadWriteTimeout
  | BadMaxAttempts | BadRetryBase | BadRetryMax | BadCacheSize | BadRefreshInterval

definition writer_Validate :: "wconfig \<Rightarrow> wcfg_err list" where
  "writer_Validate w =
     (if wcWorkers w < 1 then [BadWorkers] else []) @
     (if wcBatchSize w < 1 then [BadBatchSize] else []) @
     (if wcFlushInterval w \<le> 0 then [BadFlushInterval] else []) @
     (if wcCopyMode w \<noteq> CopyModeStaging \<and> wcCopyMode w \<noteq> CopyModeDirect then [BadCopyMode] else []) @
     (if wcQueueDepth w < 1 then [BadQueueDepth] else []) @
     (if wcWriteTimeout w \<le> 0 then [BadWriteTimeout] else []) @
     (if wcMaxAttempts w < 1 then [BadMaxAttempts] else []) @
     (if wcRetryBaseDelay w \<le> 0 then [BadRetryBase] else []) @
     (if wcRetryMaxDelay w < wcRetryBaseDelay w then [BadRetryMax] else []) @
     (if wcStreamCacheSize w < 1 then [BadCacheSize] else []) @
     (if wcStreamRefreshInterval w \<le> 0 then [BadRefreshInterval] else [])"

subsection \<open>The database\<close>

record log_row =
  lrTime :: int
  lrStream :: int
  lrSeq :: int
  lrLevel :: int
  lrMessage :: string
  lrTrace :: "bytes option"
  lrSpan :: "bytes option"
  lrFields :: "bytes option"

definition row_key :: "log_row \<Rightarrow> int \<times> int \<times> int" where
  "row_key r = (lrStream r, lrSeq r, lrTime r)"

record database =
  dbStreams :: "(int \<times> stream_row) list"
  dbLogs :: "log_row list"

record wenv =
  weLib :: golib
  wePgTime :: "gotime \<Rightarrow> int"
  weJson :: "string gomap \<Rightarrow> bytes"
  weStorable :: "log_row \<Rightarrow> bool"

definition nilIfEmpty :: "bytes \<Rightarrow> bytes option" where
  "nilIfEmpty b = (if b = [] then None else Some b)"

definition fill :: "wenv \<Rightarrow> LogRecord \<Rightarrow> log_row" where
  "fill env r =
     \<lparr>lrTime = wePgTime env (rTime r), lrStream = sint (rStreamID r), lrSeq = rSeq r, lrLevel = wrap16 (rLevel r),
      lrMessage = rMessage r, lrTrace = nilIfEmpty (rTraceID r), lrSpan = nilIfEmpty (rSpanID r),
      lrFields = nilIfEmpty (if rFields r \<noteq> [] then weJson env (rFields r) else [])\<rparr>"

text \<open>\<^verbatim>\<open>ON CONFLICT (stream_id) DO UPDATE SET last_seen = GREATEST(...)\<close> over the rows of one statement.\<close>

fun refresh_row :: "stream_row \<Rightarrow> stream_row \<Rightarrow> stream_row" where
  "refresh_row (_, _, _, _, _, _, seen) (i, svc, host, env, labels, first, seen0) =
     (i, svc, host, env, labels, first, max seen0 seen)"

definition upsert_stream :: "stream_row \<Rightarrow> (int \<times> stream_row) list \<Rightarrow> (int \<times> stream_row) list" where
  "upsert_stream row tbl =
     (case map_of tbl (fst row) of
        None \<Rightarrow> tbl @ [(fst row, row)]
      | Some old \<Rightarrow> AList.update (fst row) (refresh_row row old) tbl)"

definition upsert_streams :: "stream_row list \<Rightarrow> database \<Rightarrow> database" where
  "upsert_streams rows db = db\<lparr>dbStreams := fold upsert_stream rows (dbStreams db)\<rparr>"

text \<open>\<^verbatim>\<open>INSERT ... ON CONFLICT DO NOTHING\<close>.\<close>

fun insert_new :: "log_row list \<Rightarrow> log_row list \<Rightarrow> log_row list" where
  "insert_new [] tbl = tbl"
| "insert_new (r # rs) tbl = insert_new rs (if row_key r \<in> row_key ` set tbl then tbl else tbl @ [r])"

definition rows_ok :: "wenv \<Rightarrow> database \<Rightarrow> log_row list \<Rightarrow> bool" where
  "rows_ok env db rows \<longleftrightarrow> list_all (\<lambda>r. weStorable env r \<and> lrStream r \<in> fst ` set (dbStreams db)) rows"

definition unique_ok :: "database \<Rightarrow> log_row list \<Rightarrow> bool" where
  "unique_ok db rows \<longleftrightarrow> distinct (map row_key (dbLogs db @ rows))"

datatype db_err = CtxCanceled | CtxDeadline | PgError string | OtherError

definition isUniqueViolation :: "db_err \<Rightarrow> bool" where
  "isUniqueViolation e = (e = PgError ''23505'')"

definition isRetryable :: "db_err \<Rightarrow> bool" where
  "isRetryable e =
     (case e of
        CtxCanceled \<Rightarrow> False
      | CtxDeadline \<Rightarrow> False
      | PgError code \<Rightarrow>
          (if length code < 2 then False else take 2 code \<in> set [''08'', ''40'', ''53'', ''57'', ''58''])
      | OtherError \<Rightarrow> True)"

text \<open>What a transaction reports: that it committed, or an error with whether it took effect all the same.\<close>

datatype tx_result = TxOk | TxErr db_err bool

subsection \<open>Shipments and batches\<close>

text \<open>A callback is named by a number.\<close>

record Shipment =
  smStream :: Stream
  smRecords :: "LogRecord list"
  smAck :: "nat option"

record writeBatch =
  wbRecords :: "LogRecord list"
  wbStreams :: "(u64 \<times> Stream) list"
  wbAcks :: "nat list"

definition newWriteBatch :: writeBatch where
  "newWriteBatch = \<lparr>wbRecords = [], wbStreams = [], wbAcks = []\<rparr>"

definition stamp_stream :: "gotime \<Rightarrow> Stream \<Rightarrow> Stream" where
  "stamp_stream now st =
     (if stFirstSeen st = zero_time then st\<lparr>stFirstSeen := now\<rparr> else st)\<lparr>stLastSeen := now\<rparr>"

definition batch_add :: "Shipment \<Rightarrow> gotime \<Rightarrow> streamCache \<Rightarrow> writeBatch \<Rightarrow> writeBatch \<times> streamCache" where
  "batch_add sh now sc b =
     (let b1 = b\<lparr>wbRecords := wbRecords b @ smRecords sh,
                 wbAcks := wbAcks b @ (case smAck sh of None \<Rightarrow> [] | Some k \<Rightarrow> [k])\<rparr>;
          i = stID (smStream sh)
      in if i \<in> fst ` set (wbStreams b1) then (b1, sc)
         else case needsUpsert i now sc of (needs, sc1) \<Rightarrow>
           if \<not> needs then (b1, sc1)
           else (b1\<lparr>wbStreams := AList.update i (stamp_stream now (smStream sh)) (wbStreams b1)\<rparr>, sc1))"

text \<open>Stream identities are compared as signed numbers; the keys of the map are distinct, so the order is total.\<close>

definition streamSlice :: "writeBatch \<Rightarrow> Stream list" where
  "streamSlice b = sort_key (\<lambda>s. sint (stID s)) (map snd (wbStreams b))"

definition batch_empty :: "writeBatch \<Rightarrow> bool" where
  "batch_empty b \<longleftrightarrow> length (wbRecords b) = 0"

definition batch_full :: "int \<Rightarrow> writeBatch \<Rightarrow> bool" where
  "batch_full threshold b \<longleftrightarrow> int (length (wbRecords b)) \<ge> threshold"

definition batch_reset :: "writeBatch \<Rightarrow> writeBatch" where
  "batch_reset b = b\<lparr>wbRecords := [], wbAcks := [], wbStreams := []\<rparr>"

definition record_rank :: "LogRecord \<Rightarrow> int \<times> int \<times> gotime" where
  "record_rank r = (sint (rStreamID r), rSeq r, rTime r)"

subsection \<open>The writer\<close>

text \<open>Where a worker is inside \<^verbatim>\<open>flush\<close>: before the sort, and in attempt \<open>n\<close> before the streams, before the cache is
  told of them, before the records and before the second try of the records through the staging table.\<close>

datatype flush_stage = FSort | FStreams nat | FMark nat "Stream list" | FRecords nat | FStaging nat

text \<open>\<open>Collect\<close> is the loop of \<^verbatim>\<open>work\<close>, \<open>Drain\<close> the loop of \<^verbatim>\<open>drainInto\<close>, \<open>Final\<close> its last flush.\<close>

datatype wmode = Collect | Drain | Final | Stopped

record worker =
  wkBatch :: writeBatch
  wkTimer :: bool
  wkMode :: wmode
  wkFlush :: "flush_stage option"

datatype submit_err = ErrWriterNotStarted | ErrWriterClosed | InvalidStream model_err | SubmitCtx

datatype ack_err = WriteFailed nat db_err | AckWriterClosed

datatype wreason = DropInvalid | DropShutdown | DropQueueFull | DropWriteFailed

text \<open>\<open>wrPending\<close> are the calls of \<^verbatim>\<open>Submit\<close> waiting in their select, \<open>wrResults\<close> what calls returned, \<open>wrAcks\<close> the
  callbacks made. \<open>wrSent\<close> is the history of shipments the channel took; the code does not keep it.\<close>

record wstate =
  wrStarted :: bool
  wrClosing :: bool
  wrQuit :: bool
  wrCtxDone :: bool
  wrClosed :: bool
  wrQueue :: "Shipment list"
  wrDepth :: int
  wrPending :: "Shipment list"
  wrWorkers :: "worker list"
  wrCache :: streamCache
  wrDb :: database
  wrAcks :: "(nat \<times> ack_err option) list"
  wrDrops :: "wreason \<Rightarrow> nat"
  wrResults :: "(submit_err + nat) list"
  wrSent :: "Shipment list"

definition NewWriter :: "wconfig \<Rightarrow> database \<Rightarrow> wcfg_err list + wstate" where
  "NewWriter cfg db =
     (if writer_Validate cfg \<noteq> [] then Inl (writer_Validate cfg)
      else Inr \<lparr>wrStarted = False, wrClosing = False, wrQuit = False, wrCtxDone = False, wrClosed = False,
        wrQueue = [], wrDepth = 0, wrPending = [], wrWorkers = [],
        wrCache = newStreamCache (wcStreamCacheSize cfg) (wcStreamRefreshInterval cfg), wrDb = db,
        wrAcks = [], wrDrops = (\<lambda>_. 0), wrResults = [], wrSent = []\<rparr>)"

definition new_worker :: worker where
  "new_worker = \<lparr>wkBatch = newWriteBatch, wkTimer = False, wkMode = Collect, wkFlush = None\<rparr>"

definition writer_Start :: "wconfig \<Rightarrow> wstate \<Rightarrow> wstate" where
  "writer_Start cfg s =
     (if wrStarted s then s else s\<lparr>wrStarted := True, wrWorkers := replicate (nat (wcWorkers cfg)) new_worker\<rparr>)"

definition writer_drop :: "wreason \<Rightarrow> nat \<Rightarrow> wstate \<Rightarrow> wstate" where
  "writer_drop reason n s = s\<lparr>wrDrops := (wrDrops s)(reason := wrDrops s reason + n)\<rparr>"

definition acceptable :: "u64 \<Rightarrow> LogRecord list \<Rightarrow> gotime \<Rightarrow> LogRecord list" where
  "acceptable i rs now = filter (\<lambda>r. record_Validate now r = None) (map (\<lambda>r. r\<lparr>rStreamID := i\<rparr>) rs)"

subsection \<open>Submit\<close>

definition submit_return :: "submit_err + nat \<Rightarrow> wstate \<Rightarrow> wstate" where
  "submit_return r s = s\<lparr>wrResults := wrResults s @ [r]\<rparr>"

definition writer_Submit :: "wenv \<Rightarrow> Shipment \<Rightarrow> gotime \<Rightarrow> wstate \<Rightarrow> wstate" where
  "writer_Submit env sh now s =
     (if \<not> wrStarted s then submit_return (Inl ErrWriterNotStarted) s
      else if wrClosing s then submit_return (Inl ErrWriterClosed) s
      else case labels_Validate (stLabels (smStream sh)) of
        Some e \<Rightarrow> submit_return (Inl (InvalidStream e)) (writer_drop DropInvalid (length (smRecords sh)) s)
      | None \<Rightarrow>
          (let i = label_ID (weLib env) (stLabels (smStream sh));
               rs = acceptable i (smRecords sh) now;
               s1 = writer_drop DropInvalid (length (smRecords sh) - length rs) s
           in if rs = [] then submit_return (Inr 0) s1
              else s1\<lparr>wrDepth := wrDepth s1 + int (length rs),
                wrPending := wrPending s1 @ [sh\<lparr>smStream := (smStream sh)\<lparr>stID := i\<rparr>, smRecords := rs\<rparr>]\<rparr>))"

definition take_pending :: "nat \<Rightarrow> wstate \<Rightarrow> (Shipment \<times> wstate) option" where
  "take_pending j s =
     (if j < length (wrPending s)
      then Some (wrPending s ! j, s\<lparr>wrPending := take j (wrPending s) @ drop (Suc j) (wrPending s)\<rparr>)
      else None)"

definition submit_send :: "wconfig \<Rightarrow> nat \<Rightarrow> wstate \<Rightarrow> wstate option" where
  "submit_send cfg j s =
     (case take_pending j s of
        None \<Rightarrow> None
      | Some (sh, s1) \<Rightarrow>
          if int (length (wrQueue s)) < wcQueueDepth cfg
          then Some (submit_return (Inr (length (smRecords sh)))
                 (s1\<lparr>wrQueue := wrQueue s1 @ [sh], wrSent := wrSent s1 @ [sh]\<rparr>))
          else None)"

definition submit_refuse :: "nat \<Rightarrow> wreason \<Rightarrow> submit_err \<Rightarrow> wstate \<Rightarrow> wstate option" where
  "submit_refuse j reason e s =
     (case take_pending j s of
        None \<Rightarrow> None
      | Some (sh, s1) \<Rightarrow>
          Some (submit_return (Inl e)
            (writer_drop reason (length (smRecords sh)) (s1\<lparr>wrDepth := wrDepth s1 - int (length (smRecords sh))\<rparr>))))"

definition submit_quit :: "nat \<Rightarrow> wstate \<Rightarrow> wstate option" where
  "submit_quit j s = (if wrQuit s then submit_refuse j DropShutdown ErrWriterClosed s else None)"

definition submit_ctx :: "nat \<Rightarrow> wstate \<Rightarrow> wstate option" where
  "submit_ctx j s = submit_refuse j DropQueueFull SubmitCtx s"

subsection \<open>Workers\<close>

definition flush_start :: "worker \<Rightarrow> worker" where
  "flush_start w =
     (if batch_empty (wkBatch w) then (if wkMode w = Final then w\<lparr>wkMode := Stopped\<rparr> else w)
      else w\<lparr>wkFlush := Some FSort\<rparr>)"

definition flush_return :: "worker \<Rightarrow> worker" where
  "flush_return w = w\<lparr>wkBatch := batch_reset (wkBatch w), wkFlush := None,
     wkMode := (if wkMode w = Final then Stopped else wkMode w)\<rparr>"

text \<open>A worker at the top of a loop, and a worker at a stage of a flush.\<close>

definition idle_worker :: "nat \<Rightarrow> wmode \<Rightarrow> wstate \<Rightarrow> worker option" where
  "idle_worker i m s =
     (if i < length (wrWorkers s) \<and> wkMode (wrWorkers s ! i) = m \<and> wkFlush (wrWorkers s ! i) = None
      then Some (wrWorkers s ! i) else None)"

definition flushing_worker :: "nat \<Rightarrow> wstate \<Rightarrow> (worker \<times> flush_stage) option" where
  "flushing_worker i s =
     (if i < length (wrWorkers s)
      then (case wkFlush (wrWorkers s ! i) of None \<Rightarrow> None | Some st \<Rightarrow> Some (wrWorkers s ! i, st)) else None)"

definition set_worker :: "nat \<Rightarrow> worker \<Rightarrow> wstate \<Rightarrow> wstate" where
  "set_worker i w s = s\<lparr>wrWorkers := (wrWorkers s)[i := w]\<rparr>"

definition worker_receive :: "nat \<Rightarrow> worker \<Rightarrow> gotime \<Rightarrow> (worker \<Rightarrow> worker) \<Rightarrow> wstate \<Rightarrow> wstate option" where
  "worker_receive i w now after s =
     (case wrQueue s of
        [] \<Rightarrow> None
      | sh # q \<Rightarrow>
          (case batch_add sh now (wrCache s) (wkBatch w) of (b, sc) \<Rightarrow>
             Some (set_worker i (after (w\<lparr>wkBatch := b\<rparr>))
               (s\<lparr>wrQueue := q, wrDepth := wrDepth s - int (length (smRecords sh)), wrCache := sc\<rparr>))))"

definition worker_take :: "wconfig \<Rightarrow> nat \<Rightarrow> gotime \<Rightarrow> wstate \<Rightarrow> wstate option" where
  "worker_take cfg i now s =
     (case idle_worker i Collect s of
        None \<Rightarrow> None
      | Some w \<Rightarrow> worker_receive i w now
          (\<lambda>w1. if batch_full (wcBatchSize cfg) (wkBatch w1) then flush_start (w1\<lparr>wkTimer := False\<rparr>)
                else w1\<lparr>wkTimer := True\<rparr>) s)"

definition worker_timer :: "nat \<Rightarrow> wstate \<Rightarrow> wstate option" where
  "worker_timer i s =
     (case idle_worker i Collect s of
        None \<Rightarrow> None
      | Some w \<Rightarrow> if wkTimer w then Some (set_worker i (flush_start (w\<lparr>wkTimer := False\<rparr>)) s) else None)"

definition worker_stop :: "nat \<Rightarrow> wstate \<Rightarrow> wstate option" where
  "worker_stop i s =
     (case idle_worker i Collect s of
        None \<Rightarrow> None
      | Some w \<Rightarrow> if wrQuit s \<or> wrCtxDone s then Some (set_worker i (w\<lparr>wkTimer := False, wkMode := Drain\<rparr>) s) else None)"

definition drain_take :: "wconfig \<Rightarrow> nat \<Rightarrow> gotime \<Rightarrow> wstate \<Rightarrow> wstate option" where
  "drain_take cfg i now s =
     (case idle_worker i Drain s of
        None \<Rightarrow> None
      | Some w \<Rightarrow> worker_receive i w now (\<lambda>w1. if batch_full (wcBatchSize cfg) (wkBatch w1) then flush_start w1 else w1) s)"

definition drain_end :: "nat \<Rightarrow> wstate \<Rightarrow> wstate option" where
  "drain_end i s =
     (case idle_worker i Drain s of
        None \<Rightarrow> None
      | Some w \<Rightarrow> if wrQueue s = [] then Some (set_worker i (flush_start (w\<lparr>wkMode := Final\<rparr>)) s) else None)"

subsection \<open>Flush\<close>

definition ackAll :: "ack_err option \<Rightarrow> writeBatch \<Rightarrow> wstate \<Rightarrow> wstate" where
  "ackAll e b s = s\<lparr>wrAcks := wrAcks s @ map (\<lambda>k. (k, e)) (wbAcks b)\<rparr>"

text \<open>The order of equal elements is whatever \<^verbatim>\<open>slices.SortFunc\<close> leaves, so the sorted list comes with the step. The
  configuration allows at least one attempt.\<close>

definition flush_sort :: "nat \<Rightarrow> LogRecord list \<Rightarrow> wstate \<Rightarrow> wstate option" where
  "flush_sort i rs s =
     (case flushing_worker i s of
        Some (w, FSort) \<Rightarrow>
          if mset rs = mset (wbRecords (wkBatch w)) \<and> sorted (map record_rank rs)
          then Some (set_worker i (w\<lparr>wkBatch := (wkBatch w)\<lparr>wbRecords := rs\<rparr>, wkFlush := Some (FStreams 1)\<rparr>) s)
          else None
      | _ \<Rightarrow> None)"

definition attempt_failed :: "wconfig \<Rightarrow> nat \<Rightarrow> worker \<Rightarrow> nat \<Rightarrow> db_err \<Rightarrow> wstate \<Rightarrow> wstate" where
  "attempt_failed cfg i w n e s =
     (if \<not> isRetryable e \<or> int n = wcMaxAttempts cfg
      then set_worker i (flush_return w)
        (ackAll (Some (WriteFailed (length (wbRecords (wkBatch w))) e)) (wkBatch w)
          (writer_drop DropWriteFailed (length (wbRecords (wkBatch w))) s))
      else set_worker i (w\<lparr>wkFlush := Some (FStreams (n + 1))\<rparr>) s)"

definition attempt_ok :: "nat \<Rightarrow> worker \<Rightarrow> wstate \<Rightarrow> wstate" where
  "attempt_ok i w s = set_worker i (flush_return w) (ackAll None (wkBatch w) s)"

definition the_rows :: "(string gomap \<Rightarrow> bytes) \<Rightarrow> Stream list \<Rightarrow> stream_row list" where
  "the_rows json ss = (case upsert_rows json ss of None \<Rightarrow> [] | Some rows \<Rightarrow> rows)"

definition commitStreams :: "wconfig \<Rightarrow> wenv \<Rightarrow> nat \<Rightarrow> tx_result \<Rightarrow> wstate \<Rightarrow> wstate option" where
  "commitStreams cfg env i res s =
     (case flushing_worker i s of
        Some (w, FStreams n) \<Rightarrow>
          (let ss = streamSlice (wkBatch w); db = upsert_streams (the_rows (weJson env) ss) (wrDb s) in
           if ss = [] then (if res = TxOk then Some (set_worker i (w\<lparr>wkFlush := Some (FRecords n)\<rparr>) s) else None)
           else case res of
             TxOk \<Rightarrow> Some (set_worker i (w\<lparr>wkFlush := Some (FMark n ss)\<rparr>) (s\<lparr>wrDb := db\<rparr>))
           | TxErr e took \<Rightarrow> Some (attempt_failed cfg i w n e (if took then s\<lparr>wrDb := db\<rparr> else s)))
      | _ \<Rightarrow> None)"

definition mark_streams :: "nat \<Rightarrow> gotime \<Rightarrow> wstate \<Rightarrow> wstate option" where
  "mark_streams i now s =
     (case flushing_worker i s of
        Some (w, FMark n ss) \<Rightarrow>
          Some (set_worker i (w\<lparr>wkBatch := (wkBatch w)\<lparr>wbStreams := []\<rparr>, wkFlush := Some (FRecords n)\<rparr>)
            (s\<lparr>wrCache := fold (\<lambda>st. markUpserted (stID st) now) ss (wrCache s)\<rparr>))
      | _ \<Rightarrow> None)"

definition copyDirect :: "wenv \<Rightarrow> log_row list \<Rightarrow> tx_result \<Rightarrow> database \<Rightarrow> database option" where
  "copyDirect env rows res db =
     (let possible = rows_ok env db rows \<and> unique_ok db rows; db1 = db\<lparr>dbLogs := dbLogs db @ rows\<rparr> in
      case res of
        TxOk \<Rightarrow> if possible then Some db1 else None
      | TxErr e took \<Rightarrow>
          if \<not> took then Some db else if possible \<and> \<not> isUniqueViolation e then Some db1 else None)"

text \<open>The rows of the staging table leave it in the order of the dedup index, equal ones in any order.\<close>

definition copyViaStaging :: "wenv \<Rightarrow> log_row list \<Rightarrow> log_row list \<Rightarrow> tx_result \<Rightarrow> database \<Rightarrow> database option" where
  "copyViaStaging env rows staged res db =
     (let possible = rows_ok env db rows \<and> mset staged = mset rows \<and> sorted (map row_key staged);
          db1 = db\<lparr>dbLogs := insert_new staged (dbLogs db)\<rparr>
      in case res of
           TxOk \<Rightarrow> if possible then Some db1 else None
         | TxErr e took \<Rightarrow> if \<not> took then Some db else if possible then Some db1 else None)"

definition commitRecords :: "wconfig \<Rightarrow> wenv \<Rightarrow> nat \<Rightarrow> log_row list \<Rightarrow> tx_result \<Rightarrow> wstate \<Rightarrow> wstate option" where
  "commitRecords cfg env i staged res s =
     (case flushing_worker i s of
        Some (w, st) \<Rightarrow>
          (let rows = map (fill env) (wbRecords (wkBatch w));
               finish = (\<lambda>n db. case res of
                   TxOk \<Rightarrow> attempt_ok i w (s\<lparr>wrDb := db\<rparr>)
                 | TxErr e _ \<Rightarrow> attempt_failed cfg i w n e (s\<lparr>wrDb := db\<rparr>))
           in case st of
                FRecords n \<Rightarrow>
                  (if wcCopyMode cfg = CopyModeDirect
                   then (case copyDirect env rows res (wrDb s) of
                           None \<Rightarrow> None
                         | Some db \<Rightarrow>
                             (case res of
                                TxErr e _ \<Rightarrow>
                                  if isUniqueViolation e
                                  then Some (set_worker i (w\<lparr>wkFlush := Some (FStaging n)\<rparr>) (s\<lparr>wrDb := db\<rparr>))
                                  else Some (finish n db)
                              | TxOk \<Rightarrow> Some (finish n db)))
                   else map_option (finish n) (copyViaStaging env rows staged res (wrDb s)))
              | FStaging n \<Rightarrow> map_option (finish n) (copyViaStaging env rows staged res (wrDb s))
              | _ \<Rightarrow> None)
      | None \<Rightarrow> None)"

subsection \<open>Shutdown\<close>

definition close_begin :: "wstate \<Rightarrow> wstate option" where
  "close_begin s = (if wrStarted s then Some (s\<lparr>wrClosing := True\<rparr>) else None)"

definition close_quit :: "wstate \<Rightarrow> wstate option" where
  "close_quit s = (if wrClosing s then Some (s\<lparr>wrQuit := True\<rparr>) else None)"

definition drained :: "wstate \<Rightarrow> bool" where
  "drained s \<longleftrightarrow> wrQuit s \<and> list_all (\<lambda>w. wkMode w = Stopped) (wrWorkers s)"

definition drainAbandoned :: "wstate \<Rightarrow> wstate option" where
  "drainAbandoned s =
     (if drained s \<and> \<not> wrClosed s
      then (case wrQueue s of
              [] \<Rightarrow> Some (s\<lparr>wrClosed := True\<rparr>)
            | sh # q \<Rightarrow>
                (let s1 = writer_drop DropShutdown (length (smRecords sh))
                       (s\<lparr>wrQueue := q, wrDepth := wrDepth s - int (length (smRecords sh))\<rparr>)
                 in Some (case smAck sh of
                      None \<Rightarrow> s1
                    | Some k \<Rightarrow> s1\<lparr>wrAcks := wrAcks s1 @ [(k, Some AckWriterClosed)]\<rparr>)))
      else None)"

subsection \<open>Steps\<close>

datatype wlabel =
    LSubmit Shipment gotime
  | LSend nat
  | LSubmitQuit nat
  | LSubmitCtx nat
  | LTake nat gotime
  | LTimer nat
  | LStop nat
  | LDrainTake nat gotime
  | LDrainEnd nat
  | LSort nat "LogRecord list"
  | LStreams nat tx_result
  | LMark nat gotime
  | LRecords nat "log_row list" tx_result
  | LCancel
  | LClose
  | LQuit
  | LAbandon
  | LPeerStreams "stream_row list"
  | LPeerLogs "log_row list"

fun w_step :: "wconfig \<Rightarrow> wenv \<Rightarrow> wlabel \<Rightarrow> wstate \<Rightarrow> wstate option" where
  "w_step cfg env (LSubmit sh now) s = Some (writer_Submit env sh now s)"
| "w_step cfg env (LSend j) s = submit_send cfg j s"
| "w_step cfg env (LSubmitQuit j) s = submit_quit j s"
| "w_step cfg env (LSubmitCtx j) s = submit_ctx j s"
| "w_step cfg env (LTake i now) s = worker_take cfg i now s"
| "w_step cfg env (LTimer i) s = worker_timer i s"
| "w_step cfg env (LStop i) s = worker_stop i s"
| "w_step cfg env (LDrainTake i now) s = drain_take cfg i now s"
| "w_step cfg env (LDrainEnd i) s = drain_end i s"
| "w_step cfg env (LSort i rs) s = flush_sort i rs s"
| "w_step cfg env (LStreams i res) s = commitStreams cfg env i res s"
| "w_step cfg env (LMark i now) s = mark_streams i now s"
| "w_step cfg env (LRecords i staged res) s = commitRecords cfg env i staged res s"
| "w_step cfg env LCancel s = Some (s\<lparr>wrCtxDone := True\<rparr>)"
| "w_step cfg env LClose s = close_begin s"
| "w_step cfg env LQuit s = close_quit s"
| "w_step cfg env LAbandon s = drainAbandoned s"
| "w_step cfg env (LPeerStreams rows) s = Some (s\<lparr>wrDb := upsert_streams rows (wrDb s)\<rparr>)"
| "w_step cfg env (LPeerLogs rows) s =
     (if rows_ok env (wrDb s) rows
      then Some (s\<lparr>wrDb := (wrDb s)\<lparr>dbLogs := insert_new rows (dbLogs (wrDb s))\<rparr>\<rparr>) else None)"

fun w_run :: "wconfig \<Rightarrow> wenv \<Rightarrow> wlabel list \<Rightarrow> wstate \<Rightarrow> wstate option" where
  "w_run cfg env [] s = Some s"
| "w_run cfg env (l # ls) s = (case w_step cfg env l s of None \<Rightarrow> None | Some s1 \<Rightarrow> w_run cfg env ls s1)"

text \<open>What a writer started on a database can reach.\<close>

inductive w_reach :: "wconfig \<Rightarrow> wenv \<Rightarrow> database \<Rightarrow> wstate \<Rightarrow> bool" for cfg env db where
  w_init: "NewWriter cfg db = Inr s0 \<Longrightarrow> w_reach cfg env db (writer_Start cfg s0)"
| w_more: "w_reach cfg env db s \<Longrightarrow> w_step cfg env l s = Some s' \<Longrightarrow> w_reach cfg env db s'"

end
