(* ===== verification/Writer_Safety.thy ===== *)
theory Writer_Safety
  imports Writer Draining
begin

text \<open>
  What holds in every state the writer reaches: where each callback is, what an acknowledgement means, that the
  stream of every record exists before the record is written, and the bounds of queue and batches.
\<close>

subsection \<open>The tables\<close>

definition stream_ids :: "database \<Rightarrow> int set" where
  "stream_ids db = fst ` set (dbStreams db)"

definition stored :: "wenv \<Rightarrow> database \<Rightarrow> LogRecord \<Rightarrow> bool" where
  "stored env db r \<longleftrightarrow> row_key (fill env r) \<in> row_key ` set (dbLogs db)"

definition db_ok :: "database \<Rightarrow> bool" where
  "db_ok db \<longleftrightarrow> distinct (map row_key (dbLogs db)) \<and> lrStream ` set (dbLogs db) \<subseteq> stream_ids db"

definition db_grows :: "database \<Rightarrow> database \<Rightarrow> bool" where
  "db_grows db db' \<longleftrightarrow> stream_ids db \<subseteq> stream_ids db' \<and> set (dbLogs db) \<subseteq> set (dbLogs db')"

lemma db_grows_refl [simp]: "db_grows db db"
  by (simp add: db_grows_def)

lemma db_grows_stored: "db_grows db db' \<Longrightarrow> stored env db r \<Longrightarrow> stored env db' r"
  by (auto simp: db_grows_def stored_def)

lemma upsert_stream_keys [simp]: "fst ` set (upsert_stream row tbl) = insert (fst row) (fst ` set tbl)"
  by (cases "map_of tbl (fst row)") (simp_all add: upsert_stream_def dom_update)

lemma upsert_streams_ids: "stream_ids (upsert_streams rows db) = stream_ids db \<union> fst ` set rows"
proof -
  have "fst ` set (fold upsert_stream rows tbl) = fst ` set tbl \<union> fst ` set rows" for tbl
    by (induction rows arbitrary: tbl) auto
  then show ?thesis by (simp add: upsert_streams_def stream_ids_def)
qed

lemma upsert_streams_logs [simp]: "dbLogs (upsert_streams rows db) = dbLogs db"
  by (simp add: upsert_streams_def)

lemma upsert_streams_ok: "db_ok db \<Longrightarrow> db_ok (upsert_streams rows db) \<and> db_grows db (upsert_streams rows db)"
  by (auto simp: db_ok_def db_grows_def upsert_streams_ids)

lemma insert_new_spec:
  "distinct (map row_key tbl) \<Longrightarrow>
     distinct (map row_key (insert_new rows tbl)) \<and> set tbl \<subseteq> set (insert_new rows tbl) \<and>
     set (insert_new rows tbl) \<subseteq> set tbl \<union> set rows \<and>
     row_key ` set (insert_new rows tbl) = row_key ` set tbl \<union> row_key ` set rows"
proof (induction rows arbitrary: tbl)
  case (Cons r rows)
  let ?t = "if row_key r \<in> row_key ` set tbl then tbl else tbl @ [r]"
  have "distinct (map row_key ?t)" using Cons.prems by auto
  from Cons.IH[OF this] show ?case by (auto split: if_splits)
qed simp

lemma insert_new_ok:
  assumes "db_ok db" and "rows_ok env db rows" and "set staged = set rows"
  shows "db_ok (db\<lparr>dbLogs := insert_new staged (dbLogs db)\<rparr>) \<and> db_grows db (db\<lparr>dbLogs := insert_new staged (dbLogs db)\<rparr>) \<and>
    row_key ` set rows \<subseteq> row_key ` set (insert_new staged (dbLogs db))"
proof -
  have d: "distinct (map row_key (dbLogs db))" using assms(1) by (simp add: db_ok_def)
  have "lrStream ` set rows \<subseteq> stream_ids db" using assms(2) by (auto simp: rows_ok_def list_all_iff stream_ids_def)
  then show ?thesis using insert_new_spec[OF d, of staged] assms(1,3)
    by (auto simp: db_ok_def db_grows_def stream_ids_def image_subset_iff subset_iff)
qed

lemma append_rows_ok:
  assumes "db_ok db" and "rows_ok env db rows" and "unique_ok db rows"
  shows "db_ok (db\<lparr>dbLogs := dbLogs db @ rows\<rparr>) \<and> db_grows db (db\<lparr>dbLogs := dbLogs db @ rows\<rparr>)"
  using assms by (auto simp: db_ok_def db_grows_def unique_ok_def rows_ok_def list_all_iff stream_ids_def)

lemma copyDirect_spec:
  assumes "copyDirect env rows res db = Some db'" and "db_ok db"
  shows "db_ok db' \<and> db_grows db db' \<and> (res = TxOk \<longrightarrow> row_key ` set rows \<subseteq> row_key ` set (dbLogs db'))"
  using assms append_rows_ok[OF assms(2), of env rows] by (auto simp: copyDirect_def Let_def split: tx_result.splits if_splits)

lemma copyViaStaging_spec:
  assumes "copyViaStaging env rows staged res db = Some db'" and "db_ok db"
  shows "db_ok db' \<and> db_grows db db' \<and> (res = TxOk \<longrightarrow> row_key ` set rows \<subseteq> row_key ` set (dbLogs db'))"
proof -
  have "rows_ok env db rows \<Longrightarrow> mset staged = mset rows \<Longrightarrow> ?thesis" if "db' = db\<lparr>dbLogs := insert_new staged (dbLogs db)\<rparr>"
    using insert_new_ok[OF assms(2), of env rows staged] that by (auto dest: mset_eq_setD)
  with assms show ?thesis by (auto simp: copyViaStaging_def Let_def split: tx_result.splits if_splits)
qed

subsection \<open>Batches and the stream cache\<close>

definition ack_ids :: "Shipment list \<Rightarrow> nat list" where
  "ack_ids shs = concat (map (\<lambda>sh. case smAck sh of None \<Rightarrow> [] | Some k \<Rightarrow> [k]) shs)"

lemma ack_ids_simps [simp]:
  "ack_ids [] = []" "ack_ids (sh # shs) = (case smAck sh of None \<Rightarrow> [] | Some k \<Rightarrow> [k]) @ ack_ids shs"
  "ack_ids (xs @ ys) = ack_ids xs @ ack_ids ys"
  by (simp_all add: ack_ids_def)

definition ship_ok :: "Shipment \<Rightarrow> bool" where
  "ship_ok sh \<longleftrightarrow> smRecords sh \<noteq> [] \<and> list_all (\<lambda>r. rStreamID r = stID (smStream sh)) (smRecords sh)"

definition cache_ok :: "database \<Rightarrow> streamCache \<Rightarrow> bool" where
  "cache_ok db sc \<longleftrightarrow> lru_inv (scEntries sc) \<and> (\<forall>i t. lru_sees (scEntries sc) i = Some t \<longrightarrow> sint i \<in> stream_ids db)"

lemma cache_ok_mono: "cache_ok db sc \<Longrightarrow> db_grows db db' \<Longrightarrow> cache_ok db' sc"
  by (auto simp: cache_ok_def db_grows_def)

lemma cache_ok_needs:
  assumes "cache_ok db sc" and "needsUpsert i now sc = (needs, sc')"
  shows "cache_ok db sc' \<and> (needs \<or> sint i \<in> stream_ids db)"
  using needsUpsert_cache[of sc i now] assms by (auto simp: cache_ok_def)

lemma cache_ok_mark: "cache_ok db sc \<Longrightarrow> sint i \<in> stream_ids db \<Longrightarrow> cache_ok db (markUpserted i now sc)"
proof -
  assume c: "cache_ok db sc" "sint i \<in> stream_ids db"
  then have inv: "lru_inv (scEntries sc)" by (simp add: cache_ok_def)
  have "sint j \<in> stream_ids db" if "lru_sees (lru_Put i now (scEntries sc)) j = Some t" for j t
    using lru_cache.put_sound[OF inv that] c by (auto simp: cache_ok_def)
  then show ?thesis using lru_cache.put_keeps[OF inv] by (auto simp: cache_ok_def markUpserted_def Let_def)
qed

lemma cache_ok_marks:
  "cache_ok db sc \<Longrightarrow> (\<And>st. st \<in> set ss \<Longrightarrow> sint (stID st) \<in> stream_ids db) \<Longrightarrow>
     cache_ok db (fold (\<lambda>st. markUpserted (stID st) now) ss sc)"
  by (induction ss arbitrary: sc) (auto intro: cache_ok_mark)

definition covered :: "database \<Rightarrow> writeBatch \<Rightarrow> bool" where
  "covered db b \<longleftrightarrow> (\<forall>r\<in>set (wbRecords b). rStreamID r \<in> fst ` set (wbStreams b) \<or> sint (rStreamID r) \<in> stream_ids db)"

definition batch_ok :: "database \<Rightarrow> Shipment list \<Rightarrow> writeBatch \<Rightarrow> bool" where
  "batch_ok db sent b \<longleftrightarrow>
     (wbRecords b = [] \<longrightarrow> wbAcks b = [] \<and> wbStreams b = []) \<and> covered db b \<and>
     (\<forall>(k, st)\<in>set (wbStreams b). stID st = k) \<and>
     (\<forall>k\<in>set (wbAcks b). \<exists>sh\<in>set sent. smAck sh = Some k \<and> set (smRecords sh) \<subseteq> set (wbRecords b))"

lemma batch_ok_mono: "batch_ok db sent b \<Longrightarrow> db_grows db db' \<Longrightarrow> set sent \<subseteq> set sent' \<Longrightarrow> batch_ok db' sent' b"
  unfolding batch_ok_def covered_def db_grows_def by blast

lemma batch_ok_reset [simp]: "batch_ok db sent (batch_reset b)" "wbRecords (batch_reset b) = []" "wbAcks (batch_reset b) = []"
  by (simp_all add: batch_ok_def batch_reset_def covered_def)

lemma batch_ok_permute: "batch_ok db sent b \<Longrightarrow> mset rs = mset (wbRecords b) \<Longrightarrow> batch_ok db sent (b\<lparr>wbRecords := rs\<rparr>)"
  using mset_eq_setD[of rs "wbRecords b"] by (auto simp: batch_ok_def covered_def)

lemma streamSlice_set: "set (streamSlice b) = snd ` set (wbStreams b)"
  by (simp add: streamSlice_def)

lemma set_update_subset: "set (AList.update k v al) \<subseteq> insert (k, v) (set al)"
  by (induction al) auto

lemma batch_add_spec:
  assumes "batch_add sh now sc b = (b', sc')" and "batch_ok db sent b" and "ship_ok sh" and "sh \<in> set sent" and "cache_ok db sc"
  shows "batch_ok db sent b' \<and> cache_ok db sc' \<and> wbRecords b' = wbRecords b @ smRecords sh \<and>
    wbAcks b' = wbAcks b @ ack_ids [sh] \<and> wbRecords b' \<noteq> []"
proof -
  let ?b1 = "b\<lparr>wbRecords := wbRecords b @ smRecords sh, wbAcks := wbAcks b @ ack_ids [sh]\<rparr>"
  let ?i = "stID (smStream sh)"
  have acks: "\<forall>k\<in>set (wbAcks ?b1). \<exists>x\<in>set sent. smAck x = Some k \<and> set (smRecords x) \<subseteq> set (wbRecords ?b1)"
  proof
    fix k assume "k \<in> set (wbAcks ?b1)"
    then consider "k \<in> set (wbAcks b)" | "smAck sh = Some k" by (auto split: option.splits)
    then show "\<exists>x\<in>set sent. smAck x = Some k \<and> set (smRecords x) \<subseteq> set (wbRecords ?b1)"
    proof cases
      case 1
      then obtain x where "x \<in> set sent" "smAck x = Some k" "set (smRecords x) \<subseteq> set (wbRecords b)"
        using assms(2) unfolding batch_ok_def by blast
      then show ?thesis by fastforce
    qed (use assms(4) in auto)
  qed
  have ids: "\<forall>r\<in>set (smRecords sh). rStreamID r = ?i" and ne: "smRecords sh \<noteq> []"
    using assms(3) by (simp_all add: ship_ok_def list_all_iff)
  have b: "wbStreams b' = wbStreams b \<or> wbStreams b' = AList.update ?i (stamp_stream now (smStream sh)) (wbStreams b)"
      "wbRecords b' = wbRecords ?b1" "wbAcks b' = wbAcks ?b1"
    using assms(1) by (auto simp: batch_add_def Let_def split: prod.splits if_splits option.splits)
  have ok: "cache_ok db sc' \<and> (?i \<in> fst ` set (wbStreams b') \<or> sint ?i \<in> stream_ids db)"
  proof (cases "?i \<in> fst ` set (wbStreams b)")
    case True
    then show ?thesis using assms(1,5) by (auto simp: batch_add_def Let_def)
  next
    case False
    obtain needs sc1 where n: "needsUpsert ?i now sc = (needs, sc1)" by fastforce
    with cache_ok_needs[OF assms(5) n] assms(1) False show ?thesis
      by (auto simp: batch_add_def Let_def dom_update split: if_splits)
  qed
  have keys: "fst ` set (wbStreams b) \<subseteq> fst ` set (wbStreams b')" using b(1)
    by (elim disjE) (simp_all add: dom_update subset_insertI)
  have "covered db b'"
    unfolding covered_def
  proof
    fix r assume "r \<in> set (wbRecords b')"
    then consider "r \<in> set (wbRecords b)" | "r \<in> set (smRecords sh)" using b(2) by auto
    then show "rStreamID r \<in> fst ` set (wbStreams b') \<or> sint (rStreamID r) \<in> stream_ids db"
    proof cases
      case 1
      then show ?thesis using assms(2) keys unfolding batch_ok_def covered_def by blast
    next
      case 2
      then have "rStreamID r = ?i" using ids by blast
      then show ?thesis using ok by simp
    qed
  qed
  moreover have "stID (stamp_stream now (smStream sh)) = ?i" by (simp add: stamp_stream_def)
  then have "\<forall>(k, st)\<in>set (wbStreams b'). stID st = k"
    using b(1) assms(2) set_update_subset[of ?i "stamp_stream now (smStream sh)" "wbStreams b"]
    unfolding batch_ok_def by fastforce
  ultimately show ?thesis using acks b ok ne by (simp add: batch_ok_def)
qed

subsection \<open>The invariant\<close>

definition stage_ok :: "database \<Rightarrow> worker \<Rightarrow> bool" where
  "stage_ok db w \<longleftrightarrow>
     (case wkFlush w of
        None \<Rightarrow> wkMode w \<noteq> Final \<and> (wkMode w = Stopped \<longrightarrow> wbRecords (wkBatch w) = [])
      | Some st \<Rightarrow> wkMode w \<noteq> Stopped \<and> wbRecords (wkBatch w) \<noteq> [] \<and>
          (case st of
             FMark n ss \<Rightarrow> ss = streamSlice (wkBatch w) \<and> (\<forall>x\<in>set ss. sint (stID x) \<in> stream_ids db)
           | FRecords n \<Rightarrow> wbStreams (wkBatch w) = []
           | FStaging n \<Rightarrow> wbStreams (wkBatch w) = []
           | _ \<Rightarrow> True))"

definition attempt_of :: "flush_stage \<Rightarrow> nat" where
  "attempt_of st = (case st of FSort \<Rightarrow> 1 | FStreams n \<Rightarrow> n | FMark n _ \<Rightarrow> n | FRecords n \<Rightarrow> n | FStaging n \<Rightarrow> n)"

definition limits_ok :: "wconfig \<Rightarrow> worker \<Rightarrow> bool" where
  "limits_ok cfg w \<longleftrightarrow>
     (case wkFlush w of
        None \<Rightarrow> int (length (wbRecords (wkBatch w))) < wcBatchSize cfg
      | Some st \<Rightarrow> 1 \<le> attempt_of st \<and> int (attempt_of st) \<le> wcMaxAttempts cfg)"

definition worker_ok :: "wconfig \<Rightarrow> database \<Rightarrow> Shipment list \<Rightarrow> worker \<Rightarrow> bool" where
  "worker_ok cfg db sent w \<longleftrightarrow> batch_ok db sent (wkBatch w) \<and> stage_ok db w \<and> limits_ok cfg w"

definition batch_acks :: "worker list \<Rightarrow> nat multiset" where
  "batch_acks ws = (\<Sum>w\<leftarrow>ws. mset (wbAcks (wkBatch w)))"

definition acked_ok :: "wenv \<Rightarrow> database \<Rightarrow> Shipment list \<Rightarrow> (nat \<times> ack_err option) list \<Rightarrow> bool" where
  "acked_ok env db sent acks \<longleftrightarrow>
     (\<forall>k. (k, None) \<in> set acks \<longrightarrow> (\<exists>sh\<in>set sent. smAck sh = Some k \<and> list_all (stored env db) (smRecords sh)))"

definition queued :: "Shipment list \<Rightarrow> int" where
  "queued shs = (\<Sum>sh\<leftarrow>shs. int (length (smRecords sh)))"

definition winv :: "wconfig \<Rightarrow> wenv \<Rightarrow> wstate \<Rightarrow> bool" where
  "winv cfg env s \<longleftrightarrow>
     db_ok (wrDb s) \<and> cache_ok (wrDb s) (wrCache s) \<and> list_all (worker_ok cfg (wrDb s) (wrSent s)) (wrWorkers s) \<and>
     list_all ship_ok (wrQueue s) \<and> list_all ship_ok (wrPending s) \<and> set (wrQueue s) \<subseteq> set (wrSent s) \<and>
     wrDepth s = queued (wrQueue s) + queued (wrPending s) \<and> int (length (wrQueue s)) \<le> wcQueueDepth cfg \<and>
     mset (ack_ids (wrSent s)) = mset (ack_ids (wrQueue s)) + batch_acks (wrWorkers s) + mset (map fst (wrAcks s)) \<and>
     acked_ok env (wrDb s) (wrSent s) (wrAcks s)"

lemma queued_simps [simp]:
  "queued [] = 0" "queued (sh # shs) = int (length (smRecords sh)) + queued shs" "queued (xs @ ys) = queued xs + queued ys"
  by (simp_all add: queued_def)

lemma batch_acks_update:
  assumes "i < length ws"
  shows "batch_acks (ws[i := w]) + mset (wbAcks (wkBatch (ws ! i))) = batch_acks ws + mset (wbAcks (wkBatch w))"
proof -
  have app: "batch_acks (xs @ y # ys) = batch_acks xs + mset (wbAcks (wkBatch y)) + batch_acks ys" for xs y ys
    by (simp add: batch_acks_def)
  have "batch_acks ws = batch_acks (take i ws @ ws ! i # drop (Suc i) ws)"
    by (rule arg_cong[OF id_take_nth_drop[OF assms]])
  moreover have "batch_acks (ws[i := w]) = batch_acks (take i ws @ w # drop (Suc i) ws)"
    by (rule arg_cong[OF upd_conv_take_nth_drop[OF assms]])
  ultimately show ?thesis unfolding app by (simp add: ac_simps)
qed

lemma stage_ok_mono: "stage_ok db w \<Longrightarrow> db_grows db db' \<Longrightarrow> stage_ok db' w"
  by (auto simp: stage_ok_def db_grows_def split: option.splits flush_stage.splits)

lemma worker_ok_mono:
  "worker_ok cfg db sent w \<Longrightarrow> db_grows db db' \<Longrightarrow> set sent \<subseteq> set sent' \<Longrightarrow> worker_ok cfg db' sent' w"
  using batch_ok_mono stage_ok_mono unfolding worker_ok_def by blast

lemma workers_ok_mono:
  "list_all (worker_ok cfg db sent) ws \<Longrightarrow> db_grows db db' \<Longrightarrow> set sent \<subseteq> set sent' \<Longrightarrow> list_all (worker_ok cfg db' sent') ws"
  using worker_ok_mono by (auto simp: list_all_iff)

lemma acked_ok_mono:
  assumes "acked_ok env db sent acks" and "db_grows db db'" and "set sent \<subseteq> set sent'"
  shows "acked_ok env db' sent' acks"
  unfolding acked_ok_def
proof (intro allI impI)
  fix k assume "(k, None) \<in> set acks"
  then obtain sh where sh: "sh \<in> set sent" "smAck sh = Some k" "list_all (stored env db) (smRecords sh)"
    using assms(1) unfolding acked_ok_def by blast
  then have "list_all (stored env db') (smRecords sh)" using db_grows_stored[OF assms(2)] by (auto simp: list_all_iff)
  then show "\<exists>sh\<in>set sent'. smAck sh = Some k \<and> list_all (stored env db') (smRecords sh)" using sh assms(3) by blast
qed

text \<open>A step of one worker that leaves channel and submissions alone: the database may grow, callbacks of its batch may
  be made, and what it acknowledges is stored.\<close>

lemma winv_worker:
  assumes "winv cfg env s" and i: "i < length (wrWorkers s)"
    and w: "worker_ok cfg (wrDb s') (wrSent s) w" "wrWorkers s' = (wrWorkers s)[i := w]"
    and db: "db_ok (wrDb s')" "db_grows (wrDb s) (wrDb s')" "cache_ok (wrDb s') (wrCache s')"
    and same: "wrQueue s' = wrQueue s" "wrPending s' = wrPending s" "wrSent s' = wrSent s" "wrDepth s' = wrDepth s"
    and acks: "wrAcks s' = wrAcks s @ map (\<lambda>k. (k, e)) A" "mset (wbAcks (wkBatch (wrWorkers s ! i))) = mset (wbAcks (wkBatch w)) + mset A"
    and ok: "e = None \<Longrightarrow> A \<noteq> [] \<Longrightarrow> list_all (stored env (wrDb s')) (wbRecords (wkBatch (wrWorkers s ! i)))"
  shows "winv cfg env s'"
proof -
  have "batch_ok (wrDb s) (wrSent s) (wkBatch (wrWorkers s ! i))"
    using assms(1) i by (auto simp: winv_def worker_ok_def list_all_length)
  then have b: "\<And>k. k \<in> set (wbAcks (wkBatch (wrWorkers s ! i))) \<Longrightarrow>
      \<exists>sh\<in>set (wrSent s). smAck sh = Some k \<and> set (smRecords sh) \<subseteq> set (wbRecords (wkBatch (wrWorkers s ! i)))"
    unfolding batch_ok_def by blast
  have "acked_ok env (wrDb s') (wrSent s') (wrAcks s')"
    unfolding acked_ok_def
  proof (intro allI impI)
    fix k assume "(k, None) \<in> set (wrAcks s')"
    then consider "(k, None) \<in> set (wrAcks s)" | "e = None" "k \<in> set A" using acks(1) by auto
    then show "\<exists>sh\<in>set (wrSent s'). smAck sh = Some k \<and> list_all (stored env (wrDb s')) (smRecords sh)"
    proof cases
      case 1
      have "acked_ok env (wrDb s') (wrSent s') (wrAcks s)"
        using assms(1) db(2) same(3) acked_ok_mono by (auto simp: winv_def)
      with 1 show ?thesis by (simp add: acked_ok_def)
    next
      case 2
      then have "k \<in> set (wbAcks (wkBatch (wrWorkers s ! i)))"
        using acks(2) by (metis Un_iff set_mset_mset set_mset_union)
      from b[OF this] obtain sh where sh: "sh \<in> set (wrSent s)" "smAck sh = Some k"
        "set (smRecords sh) \<subseteq> set (wbRecords (wkBatch (wrWorkers s ! i)))" by blast
      moreover have "list_all (stored env (wrDb s')) (wbRecords (wkBatch (wrWorkers s ! i)))" using ok 2 by fastforce
      ultimately show ?thesis unfolding list_all_iff same(3) by blast
    qed
  qed
  moreover have "list_all (worker_ok cfg (wrDb s') (wrSent s')) (wrWorkers s')"
    using workers_ok_mono[of cfg "wrDb s" "wrSent s" "wrWorkers s" "wrDb s'" "wrSent s'"] assms(1) db(2) w same(3) list_all_update
    by (auto simp: winv_def)
  moreover have "batch_acks (wrWorkers s') + mset A = batch_acks (wrWorkers s)"
    using batch_acks_update[OF i, of w] acks(2) w(2) by (simp add: add.assoc[symmetric])
  then have "mset (ack_ids (wrSent s')) = mset (ack_ids (wrQueue s')) + batch_acks (wrWorkers s') + mset (map fst (wrAcks s'))"
    using assms(1) same acks(1) by (simp add: winv_def comp_def)
  ultimately show ?thesis using assms(1) db same by (simp add: winv_def)
qed

subsection \<open>Every step keeps it\<close>

lemma config_ok:
  assumes "writer_Validate cfg = []"
  shows "1 \<le> wcBatchSize cfg" "1 \<le> wcMaxAttempts cfg" "1 \<le> wcQueueDepth cfg" "1 \<le> wcWorkers cfg"
  using assms by (simp_all add: writer_Validate_def split: if_splits)

lemma flush_start_ok:
  assumes "writer_Validate cfg = []" and "batch_ok db sent (wkBatch w)" and "wkFlush w = None" and "wkMode w \<noteq> Stopped"
  shows "worker_ok cfg db sent (flush_start w)" and "wkBatch (flush_start w) = wkBatch w"
  using assms config_ok[OF assms(1)]
  by (auto simp: flush_start_def worker_ok_def stage_ok_def limits_ok_def batch_empty_def attempt_of_def split: wmode.splits)

lemma flush_return_ok:
  assumes "writer_Validate cfg = []"
  shows "worker_ok cfg db sent (flush_return w)" and "wbAcks (wkBatch (flush_return w)) = []"
  using config_ok[OF assms] by (simp_all add: flush_return_def worker_ok_def stage_ok_def limits_ok_def)

lemma worker_at:
  assumes "winv cfg env s" and "i < length (wrWorkers s)"
  shows "worker_ok cfg (wrDb s) (wrSent s) (wrWorkers s ! i)"
  using assms by (simp add: winv_def list_all_length)

lemma idle_workerD:
  assumes "idle_worker i m s = Some w"
  shows "i < length (wrWorkers s)" "w = wrWorkers s ! i" "wkMode w = m" "wkFlush w = None"
  using assms by (auto simp: idle_worker_def split: if_splits)

lemma flushing_workerD:
  assumes "flushing_worker i s = Some (w, st)"
  shows "i < length (wrWorkers s)" "w = wrWorkers s ! i" "wkFlush w = Some st"
  using assms by (auto simp: flushing_worker_def split: if_splits option.splits)

text \<open>A step that only moves one worker.\<close>

lemma winv_move:
  assumes "winv cfg env s" and "i < length (wrWorkers s)" and "worker_ok cfg (wrDb s) (wrSent s) w"
    and "mset (wbAcks (wkBatch w)) = mset (wbAcks (wkBatch (wrWorkers s ! i)))"
  shows "winv cfg env (set_worker i w s)"
  by (rule winv_worker[OF assms(1,2), where w = w and A = "[]" and e = "Some AckWriterClosed"])
     (use assms in \<open>simp_all add: set_worker_def winv_def\<close>)

lemma winv_attempt_ok:
  assumes "winv cfg env s" and "writer_Validate cfg = []" and "i < length (wrWorkers s)" and "w = wrWorkers s ! i"
    and "db_ok db" and "db_grows (wrDb s) db" and "list_all (stored env db) (wbRecords (wkBatch w))"
  shows "winv cfg env (attempt_ok i w (s\<lparr>wrDb := db\<rparr>))"
  by (rule winv_worker[OF assms(1,3), where w = "flush_return w" and A = "wbAcks (wkBatch w)" and e = None])
     (use assms flush_return_ok[OF assms(2)] cache_ok_mono[of "wrDb s" "wrCache s" db] in
       \<open>simp_all add: attempt_ok_def set_worker_def ackAll_def winv_def\<close>)

lemma winv_attempt_failed:
  assumes "winv cfg env s" and "writer_Validate cfg = []" and w: "i < length (wrWorkers s)" "w = wrWorkers s ! i"
    and st: "wkFlush w = Some st" "attempt_of st = n" and db: "db_ok db" "db_grows (wrDb s) db"
  shows "winv cfg env (attempt_failed cfg i w n e (s\<lparr>wrDb := db\<rparr>))"
proof -
  have cache: "cache_ok db (wrCache s)" using assms(1) db(2) cache_ok_mono by (auto simp: winv_def)
  show ?thesis
  proof (cases "\<not> isRetryable e \<or> int n = wcMaxAttempts cfg")
    case True
    show ?thesis
      by (rule winv_worker[OF assms(1) w(1), where w = "flush_return w" and A = "wbAcks (wkBatch w)" and
            e = "Some (WriteFailed (length (wbRecords (wkBatch w))) e)"])
         (use True w db cache flush_return_ok[OF assms(2)] in \<open>simp_all add: attempt_failed_def set_worker_def ackAll_def writer_drop_def\<close>)
  next
    case False
    have ok: "worker_ok cfg db (wrSent s) w"
      using worker_at[OF assms(1) w(1)] worker_ok_mono[OF _ db(2)] w(2) by blast
    then have "worker_ok cfg db (wrSent s) (w\<lparr>wkFlush := Some (FStreams (n + 1))\<rparr>)"
      using False st by (auto simp: worker_ok_def stage_ok_def limits_ok_def attempt_of_def)
    then show ?thesis
      by (intro winv_worker[OF assms(1) w(1), where w = "w\<lparr>wkFlush := Some (FStreams (n + 1))\<rparr>" and A = "[]" and e = "Some AckWriterClosed"])
         (use False w db cache in \<open>simp_all add: attempt_failed_def set_worker_def\<close>)
  qed
qed

lemma winv_receive:
  assumes inv: "winv cfg env s" and cfg: "writer_Validate cfg = []" and w: "idle_worker i m s = Some w" "m \<noteq> Stopped"
    and r: "worker_receive i w now after s = Some s'"
    and after: "\<And>w1. wkFlush w1 = None \<Longrightarrow> wkMode w1 = m \<Longrightarrow> batch_ok (wrDb s) (wrSent s) (wkBatch w1) \<Longrightarrow>
      worker_ok cfg (wrDb s) (wrSent s) (after w1) \<and> wkBatch (after w1) = wkBatch w1"
  shows "winv cfg env s'"
proof -
  note wd = idle_workerD[OF w(1)]
  from r obtain sh q b sc where q: "wrQueue s = sh # q" and add: "batch_add sh now (wrCache s) (wkBatch w) = (b, sc)"
    and s': "s' = set_worker i (after (w\<lparr>wkBatch := b\<rparr>)) (s\<lparr>wrQueue := q, wrDepth := wrDepth s - int (length (smRecords sh)), wrCache := sc\<rparr>)"
    by (auto simp: worker_receive_def split: list.splits prod.splits)
  have "batch_ok (wrDb s) (wrSent s) (wkBatch w)" using worker_at[OF inv wd(1)] wd(2) by (simp add: worker_ok_def)
  moreover have "ship_ok sh" "sh \<in> set (wrSent s)" "cache_ok (wrDb s) (wrCache s)" using inv q by (auto simp: winv_def)
  ultimately have b: "batch_ok (wrDb s) (wrSent s) b" "cache_ok (wrDb s) sc" "wbAcks b = wbAcks (wkBatch w) @ ack_ids [sh]"
    using batch_add_spec[OF add] by blast+
  from after[of "w\<lparr>wkBatch := b\<rparr>"] b(1) wd(3,4) have ok: "worker_ok cfg (wrDb s) (wrSent s) (after (w\<lparr>wkBatch := b\<rparr>))"
    and same: "wkBatch (after (w\<lparr>wkBatch := b\<rparr>)) = b" by auto
  have "batch_acks ((wrWorkers s)[i := after (w\<lparr>wkBatch := b\<rparr>)]) = batch_acks (wrWorkers s) + mset (ack_ids [sh])"
    using batch_acks_update[OF wd(1), of "after (w\<lparr>wkBatch := b\<rparr>)"] same b(3) wd(2) by (simp add: ac_simps)
  then show ?thesis using inv b(2) ok q by (auto simp: s' set_worker_def winv_def list_all_update ac_simps)
qed

lemma winv_take: "winv cfg env s \<Longrightarrow> writer_Validate cfg = [] \<Longrightarrow> worker_take cfg i now s = Some s' \<Longrightarrow> winv cfg env s'"
proof -
  assume inv: "winv cfg env s" and cfg: "writer_Validate cfg = []" and t: "worker_take cfg i now s = Some s'"
  from t obtain w where w: "idle_worker i Collect s = Some w" by (auto simp: worker_take_def split: option.splits)
  with t have r: "worker_receive i w now (\<lambda>w1. if batch_full (wcBatchSize cfg) (wkBatch w1) then flush_start (w1\<lparr>wkTimer := False\<rparr>)
      else w1\<lparr>wkTimer := True\<rparr>) s = Some s'" by (simp add: worker_take_def)
  show ?thesis
  proof (rule winv_receive[OF inv cfg w _ r])
    fix w1 :: worker assume "wkFlush w1 = None" "wkMode w1 = Collect" "batch_ok (wrDb s) (wrSent s) (wkBatch w1)"
    then show "worker_ok cfg (wrDb s) (wrSent s) (if batch_full (wcBatchSize cfg) (wkBatch w1) then flush_start (w1\<lparr>wkTimer := False\<rparr>)
      else w1\<lparr>wkTimer := True\<rparr>) \<and> wkBatch (if batch_full (wcBatchSize cfg) (wkBatch w1) then flush_start (w1\<lparr>wkTimer := False\<rparr>)
      else w1\<lparr>wkTimer := True\<rparr>) = wkBatch w1"
      using flush_start_ok[OF cfg, of "wrDb s" "wrSent s" "w1\<lparr>wkTimer := False\<rparr>"]
      by (auto simp: worker_ok_def stage_ok_def limits_ok_def batch_full_def)
  qed simp
qed

lemma winv_drain_take: "winv cfg env s \<Longrightarrow> writer_Validate cfg = [] \<Longrightarrow> drain_take cfg i now s = Some s' \<Longrightarrow> winv cfg env s'"
proof -
  assume inv: "winv cfg env s" and cfg: "writer_Validate cfg = []" and t: "drain_take cfg i now s = Some s'"
  from t obtain w where w: "idle_worker i Drain s = Some w" by (auto simp: drain_take_def split: option.splits)
  with t have r: "worker_receive i w now (\<lambda>w1. if batch_full (wcBatchSize cfg) (wkBatch w1) then flush_start w1 else w1) s = Some s'"
    by (simp add: drain_take_def)
  show ?thesis
  proof (rule winv_receive[OF inv cfg w _ r])
    fix w1 :: worker assume "wkFlush w1 = None" "wkMode w1 = Drain" "batch_ok (wrDb s) (wrSent s) (wkBatch w1)"
    then show "worker_ok cfg (wrDb s) (wrSent s) (if batch_full (wcBatchSize cfg) (wkBatch w1) then flush_start w1 else w1) \<and>
      wkBatch (if batch_full (wcBatchSize cfg) (wkBatch w1) then flush_start w1 else w1) = wkBatch w1"
      using flush_start_ok[OF cfg, of "wrDb s" "wrSent s" w1]
      by (auto simp: worker_ok_def stage_ok_def limits_ok_def batch_full_def)
  qed simp
qed

text \<open>The steps of a worker between receives.\<close>

lemma winv_idle_moves:
  assumes "winv cfg env s" and "writer_Validate cfg = []"
  shows "worker_timer i s = Some s' \<Longrightarrow> winv cfg env s'"
    and "worker_stop i s = Some s' \<Longrightarrow> winv cfg env s'"
    and "drain_end i s = Some s' \<Longrightarrow> winv cfg env s'"
proof -
  have start: "winv cfg env (set_worker i (flush_start w1) s)"
    if "idle_worker i m s = Some w" "m \<noteq> Stopped" "wkBatch w1 = wkBatch w" "wkFlush w1 = None" "wkMode w1 \<noteq> Stopped" for m w w1
  proof -
    note wd = idle_workerD[OF that(1)]
    have b: "batch_ok (wrDb s) (wrSent s) (wkBatch w1)" using worker_at[OF assms(1) wd(1)] wd(2) that(3) by (simp add: worker_ok_def)
    show ?thesis using flush_start_ok[OF assms(2) b that(4,5)] that(3) wd(2) by (intro winv_move[OF assms(1) wd(1)]) simp_all
  qed
  show "winv cfg env s'" if "worker_timer i s = Some s'"
  proof -
    from that obtain w where "idle_worker i Collect s = Some w" "s' = set_worker i (flush_start (w\<lparr>wkTimer := False\<rparr>)) s"
      by (auto simp: worker_timer_def split: option.splits if_splits)
    with start[of Collect w "w\<lparr>wkTimer := False\<rparr>"] idle_workerD[of i Collect s w] show ?thesis by simp
  qed
  show "winv cfg env s'" if "drain_end i s = Some s'"
  proof -
    from that obtain w where "idle_worker i Drain s = Some w" "s' = set_worker i (flush_start (w\<lparr>wkMode := Final\<rparr>)) s"
      by (auto simp: drain_end_def split: option.splits if_splits)
    with start[of Drain w "w\<lparr>wkMode := Final\<rparr>"] idle_workerD[of i Drain s w] show ?thesis by simp
  qed
  show "winv cfg env s'" if "worker_stop i s = Some s'"
  proof -
    from that obtain w where w: "idle_worker i Collect s = Some w" and s': "s' = set_worker i (w\<lparr>wkTimer := False, wkMode := Drain\<rparr>) s"
      by (auto simp: worker_stop_def split: option.splits if_splits)
    note wd = idle_workerD[OF w]
    have "worker_ok cfg (wrDb s) (wrSent s) (w\<lparr>wkTimer := False, wkMode := Drain\<rparr>)"
      using worker_at[OF assms(1) wd(1)] wd by (simp add: worker_ok_def stage_ok_def limits_ok_def)
    then show ?thesis unfolding s' using wd(2) by (intro winv_move[OF assms(1) wd(1)]) simp_all
  qed
qed

lemma winv_sort:
  assumes inv: "winv cfg env s" and cfg: "writer_Validate cfg = []" and f: "flush_sort i rs s = Some s'"
  shows "winv cfg env s'"
proof -
  from f obtain w where w: "flushing_worker i s = Some (w, FSort)" and m: "mset rs = mset (wbRecords (wkBatch w))"
    and s': "s' = set_worker i (w\<lparr>wkBatch := (wkBatch w)\<lparr>wbRecords := rs\<rparr>, wkFlush := Some (FStreams 1)\<rparr>) s"
    by (auto simp: flush_sort_def split: option.splits prod.splits flush_stage.splits if_splits)
  note wd = flushing_workerD[OF w]
  have "worker_ok cfg (wrDb s) (wrSent s) w" using worker_at[OF inv wd(1)] wd(2) by simp
  then have "worker_ok cfg (wrDb s) (wrSent s) (w\<lparr>wkBatch := (wkBatch w)\<lparr>wbRecords := rs\<rparr>, wkFlush := Some (FStreams 1)\<rparr>)"
    using batch_ok_permute[OF _ m] wd(3) m config_ok[OF cfg] by (auto simp: worker_ok_def stage_ok_def limits_ok_def attempt_of_def)
  then show ?thesis unfolding s' using wd(2) by (intro winv_move[OF inv wd(1)]) simp_all
qed

lemma the_rows_ids: "fst ` set (the_rows json ss) = (\<lambda>st. sint (stID st)) ` set ss"
  by (cases "ss = []") (simp_all add: the_rows_def upsert_rows_def image_image)

lemma winv_streams:
  assumes inv: "winv cfg env s" and cfg: "writer_Validate cfg = []" and f: "commitStreams cfg env i res s = Some s'"
  shows "winv cfg env s'"
proof -
  from f obtain w n where w: "flushing_worker i s = Some (w, FStreams n)"
    by (auto simp: commitStreams_def split: option.splits prod.splits flush_stage.splits)
  note wd = flushing_workerD[OF w]
  let ?ss = "streamSlice (wkBatch w)" let ?db = "upsert_streams (the_rows (weJson env) (streamSlice (wkBatch w))) (wrDb s)"
  have ok: "worker_ok cfg (wrDb s) (wrSent s) w" using worker_at[OF inv wd(1)] wd(2) by simp
  have db: "db_ok ?db" "db_grows (wrDb s) ?db" using upsert_streams_ok inv by (auto simp: winv_def)
  have cache: "cache_ok ?db (wrCache s)" using inv db(2) cache_ok_mono by (auto simp: winv_def)
  have fail: "winv cfg env (attempt_failed cfg i w n e (s\<lparr>wrDb := d\<rparr>))" if "d = wrDb s \<or> d = ?db" for d e
    by (rule winv_attempt_failed[OF inv cfg wd(1,2,3)])
       (use that db inv in \<open>auto simp: attempt_of_def winv_def\<close>)
  show ?thesis
  proof (cases "?ss = []")
    case True
    then have s': "s' = set_worker i (w\<lparr>wkFlush := Some (FRecords n)\<rparr>) s"
      using f by (auto simp: commitStreams_def w Let_def split: if_splits)
    have "wbStreams (wkBatch w) = []" using True streamSlice_set[of "wkBatch w"] by simp
    then have "worker_ok cfg (wrDb s) (wrSent s) (w\<lparr>wkFlush := Some (FRecords n)\<rparr>)"
      using ok wd(3) by (auto simp: worker_ok_def stage_ok_def limits_ok_def attempt_of_def)
    then show ?thesis unfolding s' using wd(2) by (intro winv_move[OF inv wd(1)]) simp_all
  next
    case False
    show ?thesis
    proof (cases res)
      case TxOk
      with False f have s': "s' = set_worker i (w\<lparr>wkFlush := Some (FMark n ?ss)\<rparr>) (s\<lparr>wrDb := ?db\<rparr>)"
        by (simp add: commitStreams_def w Let_def)
      have "worker_ok cfg ?db (wrSent s) w" using worker_ok_mono[OF ok db(2)] by simp
      then have "worker_ok cfg ?db (wrSent s) (w\<lparr>wkFlush := Some (FMark n ?ss)\<rparr>)"
        using wd(3) by (auto simp: worker_ok_def stage_ok_def limits_ok_def attempt_of_def upsert_streams_ids the_rows_ids)
      then show ?thesis
        by (intro winv_worker[OF inv wd(1), where w = "w\<lparr>wkFlush := Some (FMark n ?ss)\<rparr>" and A = "[]" and e = "Some AckWriterClosed"])
           (use db cache wd(2) in \<open>simp_all add: s' set_worker_def\<close>)
    next
      case (TxErr e took)
      with False f have "s' = attempt_failed cfg i w n e (s\<lparr>wrDb := (if took then ?db else wrDb s)\<rparr>)"
        by (auto simp: commitStreams_def w Let_def)
      then show ?thesis using fail[of "if took then ?db else wrDb s" e] by simp
    qed
  qed
qed

lemma winv_mark:
  assumes inv: "winv cfg env s" and f: "mark_streams i now s = Some s'"
  shows "winv cfg env s'"
proof -
  from f obtain w n ss where w: "flushing_worker i s = Some (w, FMark n ss)"
    and s': "s' = set_worker i (w\<lparr>wkBatch := (wkBatch w)\<lparr>wbStreams := []\<rparr>, wkFlush := Some (FRecords n)\<rparr>)
        (s\<lparr>wrCache := fold (\<lambda>st. markUpserted (stID st) now) ss (wrCache s)\<rparr>)"
    by (auto simp: mark_streams_def split: option.splits prod.splits flush_stage.splits)
  note wd = flushing_workerD[OF w]
  let ?w = "w\<lparr>wkBatch := (wkBatch w)\<lparr>wbStreams := []\<rparr>, wkFlush := Some (FRecords n)\<rparr>"
  have ok: "worker_ok cfg (wrDb s) (wrSent s) w" using worker_at[OF inv wd(1)] wd(2) by simp
  then have ss: "ss = streamSlice (wkBatch w)" "\<And>x. x \<in> set ss \<Longrightarrow> sint (stID x) \<in> stream_ids (wrDb s)"
    using wd(3) by (auto simp: worker_ok_def stage_ok_def)
  have cov: "covered (wrDb s) ((wkBatch w)\<lparr>wbStreams := []\<rparr>)"
    unfolding covered_def
  proof
    fix r assume r: "r \<in> set (wbRecords ((wkBatch w)\<lparr>wbStreams := []\<rparr>))"
    then consider "rStreamID r \<in> fst ` set (wbStreams (wkBatch w))" | "sint (rStreamID r) \<in> stream_ids (wrDb s)"
      using ok by (auto simp: worker_ok_def batch_ok_def covered_def)
    then have "sint (rStreamID r) \<in> stream_ids (wrDb s)"
    proof cases
      case 1
      then obtain st where st: "(rStreamID r, st) \<in> set (wbStreams (wkBatch w))" by force
      then have "stID st = rStreamID r" "st \<in> set ss"
        using ok ss(1) streamSlice_set[of "wkBatch w"] by (force simp: worker_ok_def batch_ok_def)+
      then show ?thesis using ss(2) by fastforce
    qed
    then show "rStreamID r \<in> fst ` set (wbStreams ((wkBatch w)\<lparr>wbStreams := []\<rparr>)) \<or> sint (rStreamID r) \<in> stream_ids (wrDb s)" ..
  qed
  then have "worker_ok cfg (wrDb s) (wrSent s) ?w"
    using ok wd(3) by (auto simp: worker_ok_def batch_ok_def stage_ok_def limits_ok_def attempt_of_def)
  moreover have "cache_ok (wrDb s) (fold (\<lambda>st. markUpserted (stID st) now) ss (wrCache s))"
    using cache_ok_marks ss(2) inv by (auto simp: winv_def)
  ultimately show ?thesis
    by (intro winv_worker[OF inv wd(1), where w = ?w and A = "[]" and e = "Some AckWriterClosed"])
       (use inv wd(2) in \<open>simp_all add: s' set_worker_def winv_def\<close>)
qed

lemma stored_rows: "row_key ` set (map (fill env) rs) \<subseteq> row_key ` set (dbLogs db) \<longleftrightarrow> list_all (stored env db) rs"
  by (auto simp: stored_def list_all_iff)

text \<open>What a transaction of the records leaves: the new database, and the worker done, trying again or turning to the
  staging table.\<close>

lemma commitRecords_cases:
  assumes "commitRecords cfg env i staged res s = Some s'" and "db_ok (wrDb s)"
  obtains w st n db where "flushing_worker i s = Some (w, st)" "st = FRecords n \<or> st = FStaging n"
    "db_ok db" "db_grows (wrDb s) db"
    "(res = TxOk \<and> list_all (stored env db) (wbRecords (wkBatch w)) \<and> s' = attempt_ok i w (s\<lparr>wrDb := db\<rparr>)) \<or>
     (\<exists>e took. res = TxErr e took \<and> s' = attempt_failed cfg i w n e (s\<lparr>wrDb := db\<rparr>)) \<or>
     (st = FRecords n \<and> (\<exists>e took. res = TxErr e took \<and> isUniqueViolation e) \<and>
        s' = set_worker i (w\<lparr>wkFlush := Some (FStaging n)\<rparr>) (s\<lparr>wrDb := db\<rparr>))"
proof -
  obtain w st where w: "flushing_worker i s = Some (w, st)" using assms(1) by (auto simp: commitRecords_def split: option.splits)
  let ?rows = "map (fill env) (wbRecords (wkBatch w))"
  obtain n where n: "st = FRecords n \<or> st = FStaging n"
    using assms(1) by (auto simp: commitRecords_def w Let_def split: flush_stage.splits)
  show thesis
  proof (cases "st = FRecords n \<and> wcCopyMode cfg = CopyModeDirect")
    case True
    with assms(1) obtain db where db: "copyDirect env ?rows res (wrDb s) = Some db"
      by (auto simp: commitRecords_def w Let_def split: option.splits)
    note spec = copyDirect_spec[OF db assms(2)]
    show thesis
      by (rule that[OF w n, of db])
         (use assms(1) True db spec stored_rows[of env "wbRecords (wkBatch w)" db] in
           \<open>auto simp: commitRecords_def w Let_def split: tx_result.splits if_splits\<close>)
  next
    case False
    with assms(1) n obtain db where db: "copyViaStaging env ?rows staged res (wrDb s) = Some db"
      by (auto simp: commitRecords_def w Let_def)
    note spec = copyViaStaging_spec[OF db assms(2)]
    show thesis
      by (rule that[OF w n, of db])
         (use assms(1) False n db spec stored_rows[of env "wbRecords (wkBatch w)" db] in
           \<open>auto simp: commitRecords_def w Let_def split: tx_result.splits if_splits\<close>)
  qed
qed

lemma winv_records:
  assumes inv: "winv cfg env s" and cfg: "writer_Validate cfg = []" and f: "commitRecords cfg env i staged res s = Some s'"
  shows "winv cfg env s'"
proof -
  have ok: "db_ok (wrDb s)" using inv by (simp add: winv_def)
  from f ok obtain w st n db where w: "flushing_worker i s = Some (w, st)" and st: "st = FRecords n \<or> st = FStaging n"
    and db: "db_ok db" "db_grows (wrDb s) db" and r:
      "(res = TxOk \<and> list_all (stored env db) (wbRecords (wkBatch w)) \<and> s' = attempt_ok i w (s\<lparr>wrDb := db\<rparr>)) \<or>
       (\<exists>e took. res = TxErr e took \<and> s' = attempt_failed cfg i w n e (s\<lparr>wrDb := db\<rparr>)) \<or>
       (st = FRecords n \<and> (\<exists>e took. res = TxErr e took \<and> isUniqueViolation e) \<and>
          s' = set_worker i (w\<lparr>wkFlush := Some (FStaging n)\<rparr>) (s\<lparr>wrDb := db\<rparr>))"
    by (rule commitRecords_cases)
  note wd = flushing_workerD[OF w]
  have n: "attempt_of st = n" using st by (auto simp: attempt_of_def)
  from r consider "list_all (stored env db) (wbRecords (wkBatch w))" "s' = attempt_ok i w (s\<lparr>wrDb := db\<rparr>)"
    | e where "s' = attempt_failed cfg i w n e (s\<lparr>wrDb := db\<rparr>)"
    | "st = FRecords n" "s' = set_worker i (w\<lparr>wkFlush := Some (FStaging n)\<rparr>) (s\<lparr>wrDb := db\<rparr>)" by blast
  then show ?thesis
  proof cases
    case 1
    then show ?thesis using winv_attempt_ok[OF inv cfg wd(1,2) db] by simp
  next
    case 2
    then show ?thesis using winv_attempt_failed[OF inv cfg wd n db] by simp
  next
    case 3
    let ?w = "w\<lparr>wkFlush := Some (FStaging n)\<rparr>"
    have "worker_ok cfg db (wrSent s) w" using worker_at[OF inv wd(1)] worker_ok_mono[OF _ db(2)] wd(2) by blast
    then have "worker_ok cfg db (wrSent s) ?w"
      using wd(3) 3(1) by (auto simp: worker_ok_def stage_ok_def limits_ok_def attempt_of_def)
    moreover have "cache_ok db (wrCache s)" using inv db(2) cache_ok_mono by (auto simp: winv_def)
    ultimately show ?thesis
      by (intro winv_worker[OF inv wd(1), where w = ?w and A = "[]" and e = "Some AckWriterClosed"])
         (use db wd(2) in \<open>simp_all add: 3(2) set_worker_def\<close>)
  qed
qed

text \<open>Submissions.\<close>

lemma writer_drop_simps [simp]:
  "wrQueue (writer_drop r n s) = wrQueue s" "wrPending (writer_drop r n s) = wrPending s" "wrSent (writer_drop r n s) = wrSent s"
  "wrDepth (writer_drop r n s) = wrDepth s" "wrWorkers (writer_drop r n s) = wrWorkers s" "wrCache (writer_drop r n s) = wrCache s"
  "wrDb (writer_drop r n s) = wrDb s" "wrAcks (writer_drop r n s) = wrAcks s" "wrQuit (writer_drop r n s) = wrQuit s"
  "wrClosing (writer_drop r n s) = wrClosing s" "wrClosed (writer_drop r n s) = wrClosed s"
  by (simp_all add: writer_drop_def)

lemma winv_irrelevant:
  assumes "winv cfg env s" and "wrQueue s' = wrQueue s" and "wrPending s' = wrPending s" and "wrSent s' = wrSent s"
    and "wrDepth s' = wrDepth s" and "wrWorkers s' = wrWorkers s" and "wrCache s' = wrCache s" and "wrDb s' = wrDb s" and "wrAcks s' = wrAcks s"
  shows "winv cfg env s'"
  using assms by (simp add: winv_def)

lemma acceptable_ids: "r \<in> set (acceptable i rs now) \<Longrightarrow> rStreamID r = i"
  by (auto simp: acceptable_def)

lemma winv_submit: "winv cfg env s \<Longrightarrow> winv cfg env (writer_Submit env sh now s)"
proof -
  assume inv: "winv cfg env s"
  let ?i = "label_ID (weLib env) (stLabels (smStream sh))"
  let ?rs = "acceptable ?i (smRecords sh) now"
  let ?sh = "sh\<lparr>smStream := (smStream sh)\<lparr>stID := ?i\<rparr>, smRecords := ?rs\<rparr>"
  show ?thesis
  proof (cases "\<not> wrStarted s \<or> wrClosing s \<or> labels_Validate (stLabels (smStream sh)) \<noteq> None \<or> ?rs = []")
    case True
    then show ?thesis
      by (intro winv_irrelevant[OF inv]) (auto simp: writer_Submit_def submit_return_def Let_def split: option.splits)
  next
    case False
    then have "ship_ok ?sh" by (simp add: ship_ok_def list_all_iff acceptable_ids)
    then show ?thesis using False inv by (simp add: writer_Submit_def Let_def winv_def)
  qed
qed

lemma take_pendingD:
  assumes "take_pending j s = Some (sh, s1)"
  shows "sh \<in> set (wrPending s)" "s1 = s\<lparr>wrPending := wrPending s1\<rparr>" "queued (wrPending s) = int (length (smRecords sh)) + queued (wrPending s1)"
    "set (wrPending s1) \<subseteq> set (wrPending s)"
proof -
  have j: "j < length (wrPending s)" "sh = wrPending s ! j" "s1 = s\<lparr>wrPending := take j (wrPending s) @ drop (Suc j) (wrPending s)\<rparr>"
    using assms by (auto simp: take_pending_def split: if_splits)
  show "sh \<in> set (wrPending s)" "s1 = s\<lparr>wrPending := wrPending s1\<rparr>" using j by simp_all
  show "set (wrPending s1) \<subseteq> set (wrPending s)" using j(3) set_take_subset[of j] set_drop_subset[of "Suc j"] by fastforce
  have "queued (wrPending s) = queued (take j (wrPending s) @ wrPending s ! j # drop (Suc j) (wrPending s))"
    by (rule arg_cong[OF id_take_nth_drop[OF j(1)]])
  then show "queued (wrPending s) = int (length (smRecords sh)) + queued (wrPending s1)" by (simp add: j(2,3))
qed

lemma winv_send:
  assumes inv: "winv cfg env s" and f: "submit_send cfg j s = Some s'"
  shows "winv cfg env s'"
proof -
  from f obtain sh s1 where t: "take_pending j s = Some (sh, s1)" and q: "int (length (wrQueue s)) < wcQueueDepth cfg"
    and s': "s' = submit_return (Inr (length (smRecords sh))) (s1\<lparr>wrQueue := wrQueue s1 @ [sh], wrSent := wrSent s1 @ [sh]\<rparr>)"
    by (auto simp: submit_send_def split: option.splits if_splits)
  note td = take_pendingD[OF t]
  have s1: "wrQueue s1 = wrQueue s" "wrSent s1 = wrSent s" "wrDepth s1 = wrDepth s" "wrWorkers s1 = wrWorkers s" "wrCache s1 = wrCache s"
    "wrDb s1 = wrDb s" "wrAcks s1 = wrAcks s" by (subst td(2), simp)+
  have "ship_ok sh" using inv td(1) by (auto simp: winv_def list_all_iff)
  moreover have "list_all (worker_ok cfg (wrDb s) (wrSent s @ [sh])) (wrWorkers s)"
    using inv workers_ok_mono[of cfg "wrDb s" "wrSent s" "wrWorkers s" "wrDb s" "wrSent s @ [sh]"] by (simp add: winv_def subset_insertI)
  moreover have "acked_ok env (wrDb s) (wrSent s @ [sh]) (wrAcks s)"
    using inv acked_ok_mono[of env "wrDb s" "wrSent s" "wrAcks s" "wrDb s" "wrSent s @ [sh]"] by (simp add: winv_def subset_insertI)
  moreover have "list_all ship_ok (wrPending s1)" using inv td(4) by (auto simp: winv_def list_all_iff)
  ultimately show ?thesis using inv td(3) q s1 by (auto simp: s' submit_return_def winv_def ac_simps)
qed

lemma winv_refuse:
  assumes inv: "winv cfg env s" and f: "submit_refuse j reason e s = Some s'"
  shows "winv cfg env s'"
proof -
  from f obtain sh s1 where t: "take_pending j s = Some (sh, s1)" and s': "s' = submit_return (Inl e)
      (writer_drop reason (length (smRecords sh)) (s1\<lparr>wrDepth := wrDepth s1 - int (length (smRecords sh))\<rparr>))"
    by (auto simp: submit_refuse_def split: option.splits)
  note td = take_pendingD[OF t]
  have s1: "wrQueue s1 = wrQueue s" "wrSent s1 = wrSent s" "wrDepth s1 = wrDepth s" "wrWorkers s1 = wrWorkers s" "wrCache s1 = wrCache s"
    "wrDb s1 = wrDb s" "wrAcks s1 = wrAcks s" by (subst td(2), simp)+
  have "list_all ship_ok (wrPending s1)" using inv td(4) by (auto simp: winv_def list_all_iff)
  then show ?thesis using inv td(3) s1 by (simp add: s' submit_return_def winv_def)
qed

lemma winv_abandon:
  assumes inv: "winv cfg env s" and f: "drainAbandoned s = Some s'"
  shows "winv cfg env s'"
proof (cases "wrQueue s")
  case Nil
  then show ?thesis using f by (intro winv_irrelevant[OF inv]) (auto simp: drainAbandoned_def split: if_splits)
next
  case (Cons sh q)
  have "acked_ok env db sent (acks @ [(k, Some x)]) = acked_ok env db sent acks" for db sent acks k x by (simp add: acked_ok_def)
  then show ?thesis using f inv Cons
    by (auto simp: drainAbandoned_def Let_def winv_def split: if_splits option.splits)
qed

lemma winv_db:
  assumes "winv cfg env s" and "db_ok db" and "db_grows (wrDb s) db"
  shows "winv cfg env (s\<lparr>wrDb := db\<rparr>)"
  using assms cache_ok_mono[of "wrDb s" "wrCache s" db] workers_ok_mono[of cfg "wrDb s" "wrSent s" "wrWorkers s" db "wrSent s"]
    acked_ok_mono[of env "wrDb s" "wrSent s" "wrAcks s" db "wrSent s"]
  by (simp add: winv_def)

lemma winv_step:
  assumes inv: "winv cfg env s" and cfg: "writer_Validate cfg = []" and f: "w_step cfg env l s = Some s'"
  shows "winv cfg env s'"
proof (cases l)
  case (LPeerStreams rows)
  then show ?thesis using f winv_db[OF inv] upsert_streams_ok[of "wrDb s" rows] inv by (auto simp: winv_def)
next
  case (LPeerLogs rows)
  then show ?thesis using f winv_db[OF inv] insert_new_ok[of "wrDb s" env rows rows] inv by (auto simp: winv_def split: if_splits)
qed (use f winv_submit[OF inv] winv_send[OF inv] winv_refuse[OF inv] winv_take[OF inv cfg] winv_drain_take[OF inv cfg]
    winv_idle_moves[OF inv cfg] winv_sort[OF inv cfg] winv_streams[OF inv cfg] winv_mark[OF inv] winv_records[OF inv cfg]
    winv_abandon[OF inv] winv_irrelevant[OF inv] in
    \<open>auto simp: submit_quit_def submit_ctx_def close_begin_def close_quit_def split: if_splits\<close>)

lemma w_reach_config: "w_reach cfg env db s \<Longrightarrow> writer_Validate cfg = []"
  by (induction rule: w_reach.induct) (auto simp: NewWriter_def split: if_splits)

lemma winv_start:
  assumes "NewWriter cfg db = Inr s0" and "db_ok db"
  shows "winv cfg env (writer_Start cfg s0)"
proof -
  have v: "writer_Validate cfg = []" using assms(1) by (simp add: NewWriter_def split: if_splits)
  have "lru_inv (newLRU n :: (u64, gotime) lru)" for n using newLRU_rel by (auto simp: lru_inv_def)
  then have c: "cache_ok db (newStreamCache n d)" for n d by (simp add: cache_ok_def newStreamCache_def lru_sees_def newLRU_def)
  have w: "worker_ok cfg db [] new_worker"
    using config_ok[OF v] by (simp add: worker_ok_def new_worker_def newWriteBatch_def batch_ok_def covered_def stage_ok_def limits_ok_def)
  have "batch_acks (replicate n new_worker) = {#}" for n by (induction n) (simp_all add: batch_acks_def new_worker_def newWriteBatch_def)
  then show ?thesis using assms config_ok[OF v] c w
    by (auto simp: NewWriter_def writer_Start_def winv_def acked_ok_def list_all_iff split: if_splits)
qed

theorem winv_reach: "w_reach cfg env db s \<Longrightarrow> db_ok db \<Longrightarrow> winv cfg env s"
proof (induction rule: w_reach.induct)
  case (w_init s0)
  then show ?case by (rule winv_start)
next
  case (w_more s l s')
  then show ?case using winv_step w_reach_config by blast
qed

end
