(* ===== verification/Writer_Runs.thy ===== *)
theory Writer_Runs
  imports Writer_Safety
begin

text \<open>
  What the storage writer guarantees its callers, over every interleaving of submissions, workers, shutdown, failing
  transactions and the transactions of other nodes; that shutdown ends; and two runs in which it does less than its
  comments promise.
\<close>

subsection \<open>Shutdown ends\<close>

text \<open>The steps the writer takes on its own once it is quitting.\<close>

fun internal :: "wlabel \<Rightarrow> bool" where
  "internal (LSubmit _ _) = False"
| "internal LCancel = False"
| "internal LClose = False"
| "internal LQuit = False"
| "internal (LPeerStreams _) = False"
| "internal (LPeerLogs _) = False"
| "internal _ = True"

definition mode_rank :: "wmode \<Rightarrow> nat" where
  "mode_rank m = (case m of Collect \<Rightarrow> 3 | Drain \<Rightarrow> 2 | Final \<Rightarrow> 1 | Stopped \<Rightarrow> 0)"

definition flush_rank :: "nat \<Rightarrow> flush_stage option \<Rightarrow> nat" where
  "flush_rank N f =
     (case f of
        None \<Rightarrow> 0
      | Some FSort \<Rightarrow> 5 * N
      | Some (FStreams n) \<Rightarrow> 5 * (N - n) + 4
      | Some (FMark n _) \<Rightarrow> 5 * (N - n) + 3
      | Some (FRecords n) \<Rightarrow> 5 * (N - n) + 2
      | Some (FStaging n) \<Rightarrow> 5 * (N - n) + 1)"

definition left_to_do :: "wconfig \<Rightarrow> wstate \<Rightarrow> nat \<times> nat \<times> nat \<times> nat \<times> nat \<times> nat" where
  "left_to_do cfg s =
     (length (wrPending s), length (wrQueue s), sum_over (\<lambda>w. mode_rank (wkMode w)) (wrWorkers s),
      sum_over (\<lambda>w. if wkTimer w then 1 else 0) (wrWorkers s),
      sum_over (\<lambda>w. flush_rank (nat (wcMaxAttempts cfg)) (wkFlush w)) (wrWorkers s), if wrClosed s then 0 else 1)"

text \<open>A worker step that lowers the rank of its worker: in mode, or in timer with the same mode, or in flush with the same
  mode and timer.\<close>

definition lower :: "wconfig \<Rightarrow> worker \<Rightarrow> worker \<Rightarrow> bool" where
  "lower cfg w w' \<longleftrightarrow>
     mode_rank (wkMode w') < mode_rank (wkMode w) \<or>
     wkMode w' = wkMode w \<and> (wkTimer w \<and> \<not> wkTimer w' \<or> wkTimer w' = wkTimer w \<and>
       flush_rank (nat (wcMaxAttempts cfg)) (wkFlush w') < flush_rank (nat (wcMaxAttempts cfg)) (wkFlush w))"

lemma lower_measure:
  assumes "i < length (wrWorkers s)" and "wrWorkers s' = (wrWorkers s)[i := w]" and "lower cfg (wrWorkers s ! i) w"
    and "wrPending s' = wrPending s" and "wrQueue s' = wrQueue s" and "wrClosed s' = wrClosed s"
  shows "left_to_do cfg s' < left_to_do cfg s"
proof -
  note u = sum_over_update[OF assms(1), of _ w, folded assms(2)]
  show ?thesis
    using assms(3-6) u[of "\<lambda>w. mode_rank (wkMode w)"] u[of "\<lambda>w. if wkTimer w then 1 else 0"]
      u[of "\<lambda>w. flush_rank (nat (wcMaxAttempts cfg)) (wkFlush w)"]
    by (auto simp: left_to_do_def lower_def)
qed

lemma lower_return: "wkFlush w = Some st \<Longrightarrow> wcMaxAttempts cfg \<ge> 1 \<Longrightarrow> lower cfg w (flush_return w)"
  by (cases "wkMode w"; cases st) (auto simp: lower_def flush_return_def mode_rank_def flush_rank_def)

lemma lower_flush:
  assumes "flush_rank (nat (wcMaxAttempts cfg)) (wkFlush w') < flush_rank (nat (wcMaxAttempts cfg)) (wkFlush w)"
    and "wkMode w' = wkMode w" and "wkTimer w' = wkTimer w"
  shows "lower cfg w w'"
  using assms by (simp add: lower_def)

lemma attempt_failed_lower:
  assumes "winv cfg env s" and "writer_Validate cfg = []" and w: "i < length (wrWorkers s)" "w = wrWorkers s ! i"
    and st: "wkFlush w = Some st" "attempt_of st = n" "st \<noteq> FSort"
    and s1: "wrWorkers s1 = wrWorkers s" "wrPending s1 = wrPending s" "wrQueue s1 = wrQueue s" "wrClosed s1 = wrClosed s"
  shows "left_to_do cfg (attempt_failed cfg i w n e s1) < left_to_do cfg s"
proof -
  have lim: "1 \<le> n" "int n \<le> wcMaxAttempts cfg"
    using worker_at[OF assms(1) w(1)] w(2) st(1,2) by (simp_all add: worker_ok_def limits_ok_def)
  have "lower cfg w (w\<lparr>wkFlush := Some (FStreams (n + 1))\<rparr>)" if "int n \<noteq> wcMaxAttempts cfg"
  proof (rule lower_flush)
    have "Suc n \<le> nat (wcMaxAttempts cfg)" using that lim by linarith
    then show "flush_rank (nat (wcMaxAttempts cfg)) (wkFlush (w\<lparr>wkFlush := Some (FStreams (n + 1))\<rparr>)) < flush_rank (nat (wcMaxAttempts cfg)) (wkFlush w)"
      using st by (cases st) (auto simp: flush_rank_def attempt_of_def)
  qed simp_all
  moreover have "lower cfg w (flush_return w)" using lower_return[OF st(1)] config_ok[OF assms(2)] by simp
  ultimately show ?thesis
    using w s1 by (auto simp: attempt_failed_def set_worker_def ackAll_def intro!: lower_measure[OF w(1)])
qed

lemma receive_less:
  assumes "worker_receive i w now after s = Some s'"
  shows "left_to_do cfg s' < left_to_do cfg s"
  using assms by (auto simp: worker_receive_def set_worker_def left_to_do_def split: list.splits prod.splits)

lemma take_pending_length:
  assumes "take_pending j s = Some (sh, s1)"
  shows "Suc (length (wrPending s1)) = length (wrPending s)" "wrQueue s1 = wrQueue s"
  using assms by (auto simp: take_pending_def split: if_splits)

lemma lower_start:
  assumes "wkMode w' = wkMode w" and "wkTimer w" and "\<not> wkTimer w'" and "wkMode w \<noteq> Final"
  shows "lower cfg w (flush_start w')"
  using assms by (simp add: lower_def flush_start_def)

lemma lower_final: "wkMode w = Drain \<Longrightarrow> lower cfg w (flush_start (w\<lparr>wkMode := Final\<rparr>))"
  by (simp add: lower_def flush_start_def mode_rank_def)

lemma internal_less:
  assumes inv: "winv cfg env s" and cfg: "writer_Validate cfg = []" and l: "internal l" and f: "w_step cfg env l s = Some s'"
  shows "left_to_do cfg s' < left_to_do cfg s"
proof (cases l)
  case (LSend j)
  then show ?thesis using f take_pending_length
    by (fastforce simp: submit_send_def submit_return_def left_to_do_def split: option.splits if_splits)
next
  case (LSubmitQuit j)
  then show ?thesis using f take_pending_length
    by (fastforce simp: submit_quit_def submit_refuse_def submit_return_def left_to_do_def split: option.splits if_splits)
next
  case (LSubmitCtx j)
  then show ?thesis using f take_pending_length
    by (fastforce simp: submit_ctx_def submit_refuse_def submit_return_def left_to_do_def split: option.splits if_splits)
next
  case (LTake i now)
  then show ?thesis using f receive_less by (auto simp: worker_take_def split: option.splits)
next
  case (LDrainTake i now)
  then show ?thesis using f receive_less by (auto simp: drain_take_def split: option.splits)
next
  case (LTimer i)
  with f obtain w where w: "idle_worker i Collect s = Some w" "wkTimer w" "s' = set_worker i (flush_start (w\<lparr>wkTimer := False\<rparr>)) s"
    by (auto simp: worker_timer_def split: option.splits if_splits)
  note wd = idle_workerD[OF w(1)]
  show ?thesis using w wd by (intro lower_measure[OF wd(1)]) (auto simp: set_worker_def intro: lower_start)
next
  case (LStop i)
  with f obtain w where w: "idle_worker i Collect s = Some w" "s' = set_worker i (w\<lparr>wkTimer := False, wkMode := Drain\<rparr>) s"
    by (auto simp: worker_stop_def split: option.splits if_splits)
  note wd = idle_workerD[OF w(1)]
  show ?thesis using w wd by (intro lower_measure[OF wd(1)]) (auto simp: set_worker_def lower_def mode_rank_def)
next
  case (LDrainEnd i)
  with f obtain w where w: "idle_worker i Drain s = Some w" "s' = set_worker i (flush_start (w\<lparr>wkMode := Final\<rparr>)) s"
    by (auto simp: drain_end_def split: option.splits if_splits)
  note wd = idle_workerD[OF w(1)]
  show ?thesis using w wd by (intro lower_measure[OF wd(1)]) (auto simp: set_worker_def lower_final)
next
  case (LSort i rs)
  with f obtain w where w: "flushing_worker i s = Some (w, FSort)"
    "s' = set_worker i (w\<lparr>wkBatch := (wkBatch w)\<lparr>wbRecords := rs\<rparr>, wkFlush := Some (FStreams 1)\<rparr>) s"
    by (auto simp: flush_sort_def split: option.splits prod.splits flush_stage.splits if_splits)
  note wd = flushing_workerD[OF w(1)]
  have "1 \<le> nat (wcMaxAttempts cfg)" using config_ok[OF cfg] by linarith
  then show ?thesis using w wd by (intro lower_measure[OF wd(1)]) (auto simp: set_worker_def flush_rank_def intro!: lower_flush)
next
  case (LStreams i res)
  with f obtain w n where w: "flushing_worker i s = Some (w, FStreams n)"
    by (auto simp: commitStreams_def split: option.splits prod.splits flush_stage.splits)
  note wd = flushing_workerD[OF w]
  have fail: "left_to_do cfg (attempt_failed cfg i w n e s1) < left_to_do cfg s"
    if "wrWorkers s1 = wrWorkers s" "wrPending s1 = wrPending s" "wrQueue s1 = wrQueue s" "wrClosed s1 = wrClosed s" for e s1
    using attempt_failed_lower[OF inv cfg wd _ _ that] by (simp add: attempt_of_def)
  consider w' s1 where "s' = set_worker i w' s1" "wrWorkers s1 = wrWorkers s" "wrPending s1 = wrPending s" "wrQueue s1 = wrQueue s"
      "wrClosed s1 = wrClosed s" "lower cfg w w'"
    | e s1 where "s' = attempt_failed cfg i w n e s1" "wrWorkers s1 = wrWorkers s" "wrPending s1 = wrPending s"
      "wrQueue s1 = wrQueue s" "wrClosed s1 = wrClosed s"
  proof -
    have "lower cfg w (w\<lparr>wkFlush := Some (FRecords n)\<rparr>)" "lower cfg w (w\<lparr>wkFlush := Some (FMark n ss)\<rparr>)" for ss
      using wd(3) by (auto simp: flush_rank_def intro!: lower_flush)
    then show thesis using that f LStreams by (auto simp: commitStreams_def w Let_def split: if_splits tx_result.splits)
  qed
  then show ?thesis
  proof cases
    case 1
    then show ?thesis using wd by (intro lower_measure[OF wd(1)]) (auto simp: set_worker_def)
  next
    case 2
    then show ?thesis using fail by simp
  qed
next
  case (LMark i now)
  with f obtain w n ss where w: "flushing_worker i s = Some (w, FMark n ss)"
    "s' = set_worker i (w\<lparr>wkBatch := (wkBatch w)\<lparr>wbStreams := []\<rparr>, wkFlush := Some (FRecords n)\<rparr>)
        (s\<lparr>wrCache := fold (\<lambda>st. markUpserted (stID st) now) ss (wrCache s)\<rparr>)"
    by (auto simp: mark_streams_def split: option.splits prod.splits flush_stage.splits)
  note wd = flushing_workerD[OF w(1)]
  show ?thesis using w wd by (intro lower_measure[OF wd(1)]) (auto simp: set_worker_def flush_rank_def intro!: lower_flush)
next
  case (LRecords i staged res)
  have ok: "db_ok (wrDb s)" using inv by (simp add: winv_def)
  from f LRecords have f': "commitRecords cfg env i staged res s = Some s'" by simp
  from f' ok obtain w st n db where w: "flushing_worker i s = Some (w, st)" and st: "st = FRecords n \<or> st = FStaging n"
    and r: "(res = TxOk \<and> list_all (stored env db) (wbRecords (wkBatch w)) \<and> s' = attempt_ok i w (s\<lparr>wrDb := db\<rparr>)) \<or>
       (\<exists>e took. res = TxErr e took \<and> s' = attempt_failed cfg i w n e (s\<lparr>wrDb := db\<rparr>)) \<or>
       (st = FRecords n \<and> (\<exists>e took. res = TxErr e took \<and> isUniqueViolation e) \<and>
          s' = set_worker i (w\<lparr>wkFlush := Some (FStaging n)\<rparr>) (s\<lparr>wrDb := db\<rparr>))"
    by (rule commitRecords_cases)
  note wd = flushing_workerD[OF w]
  from r consider "s' = attempt_ok i w (s\<lparr>wrDb := db\<rparr>)" | e where "s' = attempt_failed cfg i w n e (s\<lparr>wrDb := db\<rparr>)"
    | "st = FRecords n" "s' = set_worker i (w\<lparr>wkFlush := Some (FStaging n)\<rparr>) (s\<lparr>wrDb := db\<rparr>)" by blast
  then show ?thesis
  proof cases
    case 1
    then show ?thesis using wd lower_return[OF wd(3)] config_ok[OF cfg]
      by (intro lower_measure[OF wd(1)]) (auto simp: attempt_ok_def set_worker_def ackAll_def)
  next
    case (2 e)
    show ?thesis unfolding 2
      by (rule attempt_failed_lower[OF inv cfg wd]) (use st in \<open>auto simp: attempt_of_def\<close>)
  next
    case 3
    then show ?thesis using wd
      by (intro lower_measure[OF wd(1)]) (auto simp: set_worker_def flush_rank_def intro!: lower_flush)
  qed
next
  case LAbandon
  then show ?thesis using f
    by (auto simp: drainAbandoned_def Let_def left_to_do_def split: if_splits list.splits option.splits)
qed (use l in simp_all)

lemma quitting_moves:
  assumes inv: "winv cfg env s" and q: "wrQuit s" and open': "\<not> wrClosed s"
  shows "\<exists>l s'. internal l \<and> w_step cfg env l s = Some s'" (is ?thesis)
proof (cases "drained s")
  case True
  then have "\<exists>s'. drainAbandoned s = Some s'" using open' by (auto simp: drainAbandoned_def Let_def split: list.splits)
  then show ?thesis by (intro exI[of _ LAbandon]) auto
next
  case False
  then obtain i where i: "i < length (wrWorkers s)" "wkMode (wrWorkers s ! i) \<noteq> Stopped" using q by (auto simp: drained_def list_all_length)
  let ?w = "wrWorkers s ! i"
  have some: "?thesis" if "internal l" "\<exists>s'. w_step cfg env l s = Some s'" for l using that by blast
  have ok: "stage_ok (wrDb s) ?w" using worker_at[OF inv i(1)] by (simp add: worker_ok_def)
  show ?thesis
  proof (cases "wkFlush ?w")
    case None
    with ok i(2) consider "wkMode ?w = Collect" | "wkMode ?w = Drain" by (cases "wkMode ?w") (auto simp: stage_ok_def)
    then show ?thesis
    proof cases
      case 1
      then have "\<exists>s'. w_step cfg env (LStop i) s = Some s'" using None i q by (simp add: worker_stop_def idle_worker_def)
      then show ?thesis by (rule some[rotated]) simp
    next
      case 2
      show ?thesis
      proof (cases "wrQueue s")
        case Nil
        then have "\<exists>s'. w_step cfg env (LDrainEnd i) s = Some s'" using None 2 i by (simp add: drain_end_def idle_worker_def)
        then show ?thesis by (rule some[rotated]) simp
      next
        case (Cons sh sq)
        then have "\<exists>s'. w_step cfg env (LDrainTake i 0) s = Some s'"
          using None 2 i by (simp add: drain_take_def idle_worker_def worker_receive_def split: prod.splits)
        then show ?thesis by (rule some[rotated]) simp
      qed
    qed
  next
    case (Some st)
    then have fw: "flushing_worker i s = Some (?w, st)" using i by (simp add: flushing_worker_def)
    show ?thesis
    proof (cases st)
      case FSort
      have "\<exists>s'. w_step cfg env (LSort i (sort_key record_rank (wbRecords (wkBatch ?w)))) s = Some s'"
        using fw FSort by (simp add: flush_sort_def)
      then show ?thesis by (rule some[rotated]) simp
    next
      case (FStreams n)
      have "\<exists>s'. w_step cfg env (LStreams i (if streamSlice (wkBatch ?w) = [] then TxOk else TxErr OtherError False)) s = Some s'"
        using fw FStreams by (simp add: commitStreams_def Let_def)
      then show ?thesis by (rule some[rotated]) simp
    next
      case (FMark n ss)
      have "\<exists>s'. w_step cfg env (LMark i 0) s = Some s'" using fw FMark by (simp add: mark_streams_def)
      then show ?thesis by (rule some[rotated]) simp
    next
      case (FRecords n)
      have "\<exists>s'. w_step cfg env (LRecords i [] (TxErr OtherError False)) s = Some s'"
        using fw FRecords by (simp add: commitRecords_def Let_def copyDirect_def copyViaStaging_def isUniqueViolation_def)
      then show ?thesis by (rule some[rotated]) simp
    next
      case (FStaging n)
      have "\<exists>s'. w_step cfg env (LRecords i [] (TxErr OtherError False)) s = Some s'"
        using fw FStaging by (simp add: commitRecords_def Let_def copyViaStaging_def)
      then show ?thesis by (rule some[rotated]) simp
    qed
  qed
qed

lemma quit_simps [simp]:
  "wrQuit (set_worker i w s) = wrQuit s" "wrQuit (ackAll e b s) = wrQuit s" "wrQuit (attempt_ok i w s) = wrQuit s"
  "wrQuit (attempt_failed cfg i w n e1 s) = wrQuit s" "wrQuit (submit_return r s) = wrQuit s"
  by (simp_all add: set_worker_def ackAll_def attempt_ok_def attempt_failed_def submit_return_def)

lemma quit_stays:
  assumes "w_step cfg env l s = Some s'" and "wrQuit s"
  shows "wrQuit s'"
proof (cases l)
  case (LRecords i staged res)
  then show ?thesis using assms
    by (cases res) (auto simp: commitRecords_def Let_def split: option.splits if_splits flush_stage.splits)
qed (use assms in \<open>auto simp: writer_Submit_def submit_send_def take_pending_def submit_quit_def submit_ctx_def
      submit_refuse_def worker_take_def worker_receive_def worker_timer_def worker_stop_def drain_take_def drain_end_def
      flush_sort_def commitStreams_def mark_streams_def close_begin_def close_quit_def drainAbandoned_def Let_def
      split: option.splits if_splits list.splits prod.splits flush_stage.splits tx_result.splits\<close>)

lemma ack_shipment:
  assumes "distinct (ack_ids shs)" and "sh \<in> set shs" and "sh' \<in> set shs" and "smAck sh = Some k" and "smAck sh' = Some k"
  shows "sh = sh'"
  using assms
proof (induction shs)
  case (Cons x shs)
  have mem: "k \<in> set (ack_ids shs)" if "y \<in> set shs" "smAck y = Some k" for y using that by (auto simp: ack_ids_def intro!: bexI[of _ y])
  with Cons show ?case by (auto split: option.splits)
qed simp

subsection \<open>Properties\<close>


text \<open>C20. Every callback is made at most once, and none is lost. Of the shipments the channel took, each callback is either
  still in the channel, or in the batch of one worker, or has been made; when the workers are done and the channel is empty,
  each has been made exactly once.\<close>

theorem writer_ack_once:
  assumes "w_reach cfg env db s" and "db_ok db"
  shows "mset (ack_ids (wrSent s)) = mset (ack_ids (wrQueue s)) + batch_acks (wrWorkers s) + mset (map fst (wrAcks s)) \<and>
    (drained s \<and> wrQueue s = [] \<longrightarrow> mset (map fst (wrAcks s)) = mset (ack_ids (wrSent s)))"
proof (intro conjI impI)
  have inv: "winv cfg env s" using winv_reach[OF assms] .
  then show once: "mset (ack_ids (wrSent s)) = mset (ack_ids (wrQueue s)) + batch_acks (wrWorkers s) + mset (map fst (wrAcks s))"
    by (simp add: winv_def)
  assume d: "drained s \<and> wrQueue s = []"
  have "batch_acks ws = {#}" if "\<And>w. w \<in> set ws \<Longrightarrow> wbAcks (wkBatch w) = []" for ws
    using that by (induction ws) (simp_all add: batch_acks_def)
  moreover have "wbAcks (wkBatch w) = []" if "w \<in> set (wrWorkers s)" for w
  proof -
    have "worker_ok cfg (wrDb s) (wrSent s) w" "wkMode w = Stopped"
      using that inv d by (auto simp: winv_def drained_def list_all_iff)
    then show ?thesis by (auto simp: worker_ok_def stage_ok_def batch_ok_def split: option.splits)
  qed
  ultimately have "batch_acks (wrWorkers s) = {#}" by blast
  with d once show "mset (map fst (wrAcks s)) = mset (ack_ids (wrSent s))" by simp
qed

text \<open>Records never wait for their stream. Whenever a worker is about to write the records of a batch, the row of the
  stream of each of them is in the database, so the foreign key holds; and if the columns can hold the rows, the attempt
  through the staging table can commit, whatever is in the table already.\<close>

theorem writer_streams_first:
  assumes "w_reach cfg env db s" and "db_ok db" and "i < length (wrWorkers s)" and "wkFlush (wrWorkers s ! i) = Some st"
    and "st = FRecords n \<or> st = FStaging n"
  shows "list_all (\<lambda>r. sint (rStreamID r) \<in> stream_ids (wrDb s)) (wbRecords (wkBatch (wrWorkers s ! i))) \<and>
    (list_all (\<lambda>r. weStorable env (fill env r)) (wbRecords (wkBatch (wrWorkers s ! i))) \<and>
       (st = FStaging n \<or> wcCopyMode cfg = CopyModeStaging) \<longrightarrow>
       (\<exists>s'. w_step cfg env (LRecords i (sort_key row_key (map (fill env) (wbRecords (wkBatch (wrWorkers s ! i))))) TxOk) s = Some s'))"
proof -
  let ?w = "wrWorkers s ! i"
  have ok: "worker_ok cfg (wrDb s) (wrSent s) ?w" using worker_at[OF winv_reach[OF assms(1,2)] assms(3)] .
  then have "wbStreams (wkBatch ?w) = []" using assms(4,5) by (auto simp: worker_ok_def stage_ok_def)
  with ok have ids: "list_all (\<lambda>r. sint (rStreamID r) \<in> stream_ids (wrDb s)) (wbRecords (wkBatch ?w))"
    by (auto simp: worker_ok_def batch_ok_def covered_def list_all_iff)
  then have "rows_ok env (wrDb s) (map (fill env) (wbRecords (wkBatch ?w)))"
    if "list_all (\<lambda>r. weStorable env (fill env r)) (wbRecords (wkBatch ?w))"
    using that by (simp add: rows_ok_def list_all_iff fill_def stream_ids_def)
  with ids assms(3-5) show ?thesis
    by (auto simp: commitRecords_def flushing_worker_def copyViaStaging_def CopyModeStaging_def CopyModeDirect_def Let_def)
qed

text \<open>The writer's memory is bounded: the depth it reports is the number of records in the channel and in waiting
  submissions, the channel never holds more shipments than configured, a worker that is not writing holds less than a full
  batch, and a worker that is writing is within its attempts.\<close>

theorem writer_bounded:
  assumes "w_reach cfg env db s" and "db_ok db"
  shows "wrDepth s = queued (wrQueue s) + queued (wrPending s) \<and> int (length (wrQueue s)) \<le> wcQueueDepth cfg \<and>
    list_all (\<lambda>w. case wkFlush w of None \<Rightarrow> int (length (wbRecords (wkBatch w))) < wcBatchSize cfg
        | Some st \<Rightarrow> 1 \<le> attempt_of st \<and> int (attempt_of st) \<le> wcMaxAttempts cfg) (wrWorkers s)"
  using winv_reach[OF assms] by (simp add: winv_def worker_ok_def limits_ok_def[abs_def] list_all_iff)

lemma w_run_steps: "w_run cfg env ls s = steps (w_step cfg env) ls s"
  by (induction ls arbitrary: s) (auto split: option.splits)

interpretation closing: draining "w_step cfg env" internal "\<lambda>s. winv cfg env s \<and> writer_Validate cfg = [] \<and> wrQuit s" wrClosed "left_to_do cfg"
  for cfg env
proof unfold_locales
  fix s l s' assume "winv cfg env s \<and> writer_Validate cfg = [] \<and> wrQuit s" and l: "internal l" "w_step cfg env l s = Some s'"
  then have i: "winv cfg env s" "writer_Validate cfg = []" "wrQuit s" by blast+
  then show "winv cfg env s' \<and> writer_Validate cfg = [] \<and> wrQuit s'" using l winv_step[OF i(1,2)] quit_stays by blast
  show "left_to_do cfg s' < left_to_do cfg s" using internal_less[OF i(1,2) l] .
qed (use quitting_moves in blast)

text \<open>C18. Closing ends. Once the writer is told to quit, there is no endless run of its own steps, whatever the database
  answers; until it has closed there is always a next step; and so there is a run to the end in which \<^verbatim>\<open>Close\<close> returns.\<close>

theorem writer_close_terminates:
  assumes "w_reach cfg env db s" and "db_ok db" and "wrQuit s"
  shows "(\<nexists>f. f 0 = s \<and> (\<forall>n. \<exists>l. internal l \<and> w_step cfg env l (f n) = Some (f (Suc n)))) \<and>
    (wrClosed s \<or> (\<exists>l s'. internal l \<and> w_step cfg env l s = Some s')) \<and>
    (\<exists>ls s'. list_all internal ls \<and> w_run cfg env ls s = Some s' \<and> wrClosed s')"
proof -
  have i: "winv cfg env s \<and> writer_Validate cfg = [] \<and> wrQuit s" using winv_reach[OF assms(1,2)] w_reach_config[OF assms(1)] assms(3) by blast
  from closing.no_endless_run[OF i] closing.moves[OF i] closing.reaches_end[OF i] show ?thesis unfolding w_run_steps by blast
qed

subsection \<open>Runs\<close>

text \<open>One worker, batches of two, direct copying; a hash that maps every label set to 5; a column that refuses the byte 0.\<close>

definition cfg_w :: wconfig where
  "cfg_w = \<lparr>wcWorkers = 1, wcBatchSize = 2, wcFlushInterval = 1, wcQueueDepth = 1, wcWriteTimeout = 1,
     wcMaxAttempts = 2, wcRetryBaseDelay = 1, wcRetryMaxDelay = 2, wcStreamCacheSize = 4, wcStreamRefreshInterval = 1,
     wcCopyMode = CopyModeDirect\<rparr>"

definition env_w :: wenv where
  "env_w = \<lparr>weLib = lib0\<lparr>xxh64 := (\<lambda>_. 5)\<rparr>, wePgTime = (\<lambda>t. t div 1000), weJson = (\<lambda>_. ''{}''),
     weStorable = (\<lambda>r. CHR 0x00 \<notin> set (lrMessage r))\<rparr>"

definition db_w :: database where "db_w = \<lparr>dbStreams = [], dbLogs = []\<rparr>"

definition rec_w :: "int \<Rightarrow> string \<Rightarrow> LogRecord" where
  "rec_w seq msg = \<lparr>rStreamID = 5, rTime = 0, rSeq = seq, rLevel = 0, rMessage = msg, rTraceID = [], rSpanID = [], rFields = []\<rparr>"

definition ship_w :: "nat \<Rightarrow> int \<Rightarrow> string \<Rightarrow> Shipment" where
  "ship_w k seq msg = \<lparr>smStream = \<lparr>stID = 5, stLabels = \<lparr>Service = ''s'', Host = ''h'', Env = ''e'', Extra = []\<rparr>,
     stFirstSeen = 0, stLastSeen = 0\<rparr>, smRecords = [rec_w seq msg], smAck = Some k\<rparr>"

definition start_w :: wstate where
  "start_w = writer_Start cfg_w \<lparr>wrStarted = False, wrClosing = False, wrQuit = False, wrCtxDone = False, wrClosed = False,
        wrQueue = [], wrDepth = 0, wrPending = [], wrWorkers = [], wrCache = newStreamCache 4 1, wrDb = db_w,
        wrAcks = [], wrDrops = (\<lambda>_. 0), wrResults = [], wrSent = []\<rparr>"

lemma start_w_reach: "w_reach cfg_w env_w db_w start_w"
proof -
  have "NewWriter cfg_w db_w = Inr \<lparr>wrStarted = False, wrClosing = False, wrQuit = False, wrCtxDone = False, wrClosed = False,
        wrQueue = [], wrDepth = 0, wrPending = [], wrWorkers = [], wrCache = newStreamCache 4 1, wrDb = db_w,
        wrAcks = [], wrDrops = (\<lambda>_. 0), wrResults = [], wrSent = []\<rparr>"
    by (simp add: NewWriter_def writer_Validate_def cfg_w_def)
  from w_init[OF this] show ?thesis by (simp add: start_w_def)
qed

lemma w_run_reach: "w_reach cfg env db s \<Longrightarrow> w_run cfg env ls s = Some s' \<Longrightarrow> w_reach cfg env db s'"
  by (induction cfg env ls s rule: w_run.induct) (auto split: option.splits intro: w_more)

lemma db_w_ok: "db_ok db_w"
  by (simp add: db_w_def db_ok_def)

lemmas w_eval = start_w_def cfg_w_def writer_Start_def CopyModeDirect_def CopyModeStaging_def
  writer_Submit_def submit_return_def writer_drop_def acceptable_def labels_Validate_def submit_send_def take_pending_def
  worker_take_def idle_worker_def worker_receive_def batch_add_def needsUpsert_def newStreamCache_def lru_Get_def newLRU_def
  new_worker_def newWriteBatch_def set_worker_def batch_full_def worker_timer_def flush_start_def batch_empty_def
  flush_sort_def flushing_worker_def commitStreams_def streamSlice_def stamp_stream_def the_rows_def upsert_rows_def upsert_streams_def
  upsert_stream_def mark_streams_def commitRecords_def copyDirect_def rows_ok_def unique_ok_def row_key_def
  fill_def nilIfEmpty_def attempt_ok_def attempt_failed_def flush_return_def batch_reset_def ackAll_def env_w_def db_w_def ship_w_def rec_w_def
  check_promoted_def label_ID_def record_Validate_def level_Valid_def record_limits zero_time_def duration_defs MaxLabelValueLen_def
  levelNames_def close_begin_def close_quit_def worker_stop_def drain_end_def drainAbandoned_def drained_def isRetryable_def
  record_rank_def isUniqueViolation_def

definition write_w :: "wlabel list" where
  "write_w = [LSubmit (ship_w 7 1 ''m'') 0, LSend 0, LTake 0 0, LTimer 0, LSort 0 [rec_w 1 ''m''], LStreams 0 TxOk, LMark 0 0]"

lemma write_w_run:
  "map_option (\<lambda>s. (wrSent s, wrAcks s, map (\<lambda>w. (wkFlush w, wbRecords (wkBatch w))) (wrWorkers s))) (w_run cfg_w env_w write_w start_w) =
     Some ([ship_w 7 1 ''m''], [], [(Some (FRecords 1), [rec_w 1 ''m''])])"
  by (simp add: write_w_def w_eval Let_def)

lemma write_w_done:
  "map_option (\<lambda>s. (wrSent s, wrAcks s)) (w_run cfg_w env_w (write_w @ [LRecords 0 [] TxOk]) start_w) =
     Some ([ship_w 7 1 ''m''], [(7, None)])"
  by (simp add: write_w_def w_eval Let_def)

text \<open>A batch with a record the database refuses.\<close>

definition poison_w :: "wlabel list" where
  "poison_w = [LSubmit (ship_w 7 1 ''m'') 0, LSend 0, LTake 0 0, LSubmit (ship_w 8 2 [CHR 0x00]) 0, LSend 0, LTake 0 0,
     LSort 0 [rec_w 1 ''m'', rec_w 2 [CHR 0x00]], LStreams 0 TxOk, LMark 0 0]"

lemma poison_w_run:
  "map_option (\<lambda>s. (wrAcks s, map (\<lambda>w. (wkFlush w, wkBatch w)) (wrWorkers s))) (w_run cfg_w env_w poison_w start_w) =
     Some ([], [(Some (FRecords 1), \<lparr>wbRecords = [rec_w 1 ''m'', rec_w 2 [CHR 0x00]], wbStreams = [], wbAcks = [7, 8]\<rparr>)])"
  by (simp add: poison_w_def w_eval Let_def markUpserted_def lru_Put_def lru_insert_def)

definition late_w :: "wlabel list" where
  "late_w = [LSubmit (ship_w 7 1 ''m'') 0, LClose, LQuit, LStop 0, LDrainEnd 0, LAbandon, LSend 0]"

lemma late_w_run:
  "map_option (\<lambda>s. (wrResults s, wrQueue s, wrAcks s, wrClosed s, drained s)) (w_run cfg_w env_w late_w start_w) =
     Some ([Inr 1], [ship_w 7 1 ''m''], [], True, True)"
  by (simp add: late_w_def w_eval Let_def)

lemma write_w_state:
  obtains s where "w_reach cfg_w env_w db_w s" "wrSent s = [ship_w 7 1 ''m'']" "wrAcks s = []"
    "map (\<lambda>w. (wkFlush w, wbRecords (wkBatch w))) (wrWorkers s) = [(Some (FRecords 1), [rec_w 1 ''m''])]"
  using write_w_run w_run_reach[OF start_w_reach, of write_w] by (cases "w_run cfg_w env_w write_w start_w") auto

lemma write_w_acked:
  obtains s where "w_reach cfg_w env_w db_w s" "wrSent s = [ship_w 7 1 ''m'']" "wrAcks s = [(7, None)]"
  using write_w_done w_run_reach[OF start_w_reach, of "write_w @ [LRecords 0 [] TxOk]"]
  by (cases "w_run cfg_w env_w (write_w @ [LRecords 0 [] TxOk]) start_w") auto


theorem writer_ack_once_witness:
  "\<exists>s. w_reach cfg_w env_w db_w s \<and> ack_ids (wrSent s) = [7] \<and>
     mset (ack_ids (wrQueue s)) + batch_acks (wrWorkers s) + mset (map fst (wrAcks s)) = {#7#}"
proof -
  obtain s where s: "w_reach cfg_w env_w db_w s" "wrSent s = [ship_w 7 1 ''m'']" "wrAcks s = [(7, None)]" by (rule write_w_acked)
  moreover have "ack_ids [ship_w 7 1 ''m''] = [7]" by (simp add: ship_w_def)
  ultimately show ?thesis using writer_ack_once[OF s(1) db_w_ok] by (intro exI[of _ s]) simp
qed

theorem writer_streams_first_witness:
  "\<exists>s. w_reach cfg_w env_w db_w s \<and> wkFlush (wrWorkers s ! 0) = Some (FRecords 1) \<and> 5 \<in> stream_ids (wrDb s)"
proof -
  obtain s where s: "w_reach cfg_w env_w db_w s"
    "map (\<lambda>w. (wkFlush w, wbRecords (wkBatch w))) (wrWorkers s) = [(Some (FRecords 1), [rec_w 1 ''m''])]" by (rule write_w_state)
  then have w: "0 < length (wrWorkers s)" "wkFlush (wrWorkers s ! 0) = Some (FRecords 1)" "wbRecords (wkBatch (wrWorkers s ! 0)) = [rec_w 1 ''m'']"
    by (auto simp: map_eq_Cons_conv)
  from writer_streams_first[OF s(1) db_w_ok w(1,2), of 1] w show ?thesis
    using s(1) by (intro exI[of _ s]) (simp add: rec_w_def)
qed

theorem writer_bounded_witness:
  "\<exists>s. w_reach cfg_w env_w db_w s \<and> wrSent s = [ship_w 7 1 ''m''] \<and> int (length (wrQueue s)) \<le> 1 \<and>
     wrDepth s = queued (wrQueue s) + queued (wrPending s)"
proof -
  obtain s where s: "w_reach cfg_w env_w db_w s" "wrSent s = [ship_w 7 1 ''m'']" by (rule write_w_acked)
  then show ?thesis using writer_bounded[OF s(1) db_w_ok] by (intro exI[of _ s]) (simp add: cfg_w_def)
qed

theorem writer_close_terminates_witness:
  "\<exists>s ls s'. w_run cfg_w env_w [LSubmit (ship_w 7 1 ''m'') 0, LSend 0, LClose, LQuit] start_w = Some s \<and>
     list_all internal ls \<and> w_run cfg_w env_w ls s = Some s' \<and> wrClosed s'"
proof -
  have "map_option wrQuit (w_run cfg_w env_w [LSubmit (ship_w 7 1 ''m'') 0, LSend 0, LClose, LQuit] start_w) = Some True"
    by (simp add: w_eval Let_def)
  then obtain s where s: "w_run cfg_w env_w [LSubmit (ship_w 7 1 ''m'') 0, LSend 0, LClose, LQuit] start_w = Some s" "wrQuit s"
    by (cases "w_run cfg_w env_w [LSubmit (ship_w 7 1 ''m'') 0, LSend 0, LClose, LQuit] start_w") auto
  from writer_close_terminates[OF w_run_reach[OF start_w_reach s(1)] db_w_ok s(2)] s(1) show ?thesis by blast
qed

subsection \<open>Two gaps\<close>

lemma closed_stuck:
  assumes inv: "winv cfg env s" and c: "wrClosed s" "drained s" and f: "w_step cfg env l s = Some s'"
  shows "wrClosed s' \<and> drained s' \<and> wrAcks s' = wrAcks s"
proof -
  have idle: "idle_worker i m s = None" if "m \<noteq> Stopped" for i m
    using c(2) that by (auto simp: idle_worker_def drained_def list_all_length)
  have "wkFlush w = None" if "w \<in> set (wrWorkers s)" for w
    using inv c(2) that by (auto simp: winv_def worker_ok_def stage_ok_def drained_def list_all_iff split: option.splits)
  then have "flushing_worker i s = None" for i by (auto simp: flushing_worker_def)
  then show ?thesis using f c idle
    by (cases l) (auto simp: writer_Submit_def submit_return_def submit_send_def take_pending_def submit_quit_def submit_ctx_def
        submit_refuse_def worker_take_def worker_timer_def worker_stop_def drain_take_def drain_end_def flush_sort_def commitStreams_def
        mark_streams_def commitRecords_def close_begin_def close_quit_def drainAbandoned_def drained_def Let_def
        split: option.splits if_splits)
qed

lemma closed_stuck_run:
  "winv cfg env s \<Longrightarrow> writer_Validate cfg = [] \<Longrightarrow> wrClosed s \<Longrightarrow> drained s \<Longrightarrow> w_run cfg env ls s = Some s' \<Longrightarrow> wrAcks s' = wrAcks s"
proof (induction cfg env ls s rule: w_run.induct)
  case (2 cfg env l ls s)
  then obtain s1 where s1: "w_step cfg env l s = Some s1" "w_run cfg env ls s1 = Some s'" by (auto split: option.splits)
  with closed_stuck[OF 2(2,4,5) s1(1)] winv_step[OF 2(2,3) s1(1)] 2(1)[OF s1(1)] 2(3) show ?case by auto
qed simp

text \<open>C38. A shipment can be accepted and then forgotten. A call of \<^verbatim>\<open>Submit\<close> that passed the check of the closing flag before
  \<^verbatim>\<open>Close\<close> was called may reach its select only after \<^verbatim>\<open>Close\<close> has drained the channel and returned; the channel has room, so the
  call may send, and it reports the record as accepted although nobody will ever read it: in no continuation is its callback
  made.\<close>

theorem late_submit_unacked:
  "\<exists>s. w_run cfg_w env_w late_w start_w = Some s \<and> wrResults s = [Inr 1] \<and> wrQueue s = [ship_w 7 1 ''m''] \<and> wrClosed s \<and>
     (\<nexists>ls s' e. w_run cfg_w env_w ls s = Some s' \<and> (7, e) \<in> set (wrAcks s'))"
proof -
  from late_w_run obtain s where s: "w_run cfg_w env_w late_w start_w = Some s" "wrResults s = [Inr 1]" "wrQueue s = [ship_w 7 1 ''m'']"
    "wrAcks s = []" "wrClosed s" "drained s" by (cases "w_run cfg_w env_w late_w start_w") auto
  have r: "w_reach cfg_w env_w db_w s" using w_run_reach[OF start_w_reach s(1)] .
  have "wrAcks s' = []" if "w_run cfg_w env_w ls s = Some s'" for ls s'
    using closed_stuck_run[OF winv_reach[OF r db_w_ok] w_reach_config[OF r] s(5,6) that] s(4) by simp
  then show ?thesis using s by fastforce
qed

text \<open>One record poisons a batch. If the database refuses the row of one record of a batch, as PostgreSQL refuses the byte 0 in
  a text although validation lets it pass, no attempt to write the batch succeeds: a transaction leaves all its callbacks
  unmade, or makes every one of them with an error, those of the other shipments too.\<close>

theorem poison_fails_batch:
  assumes "w_reach cfg env db s" and "db_ok db" and "flushing_worker i s = Some (w, st)" and "r \<in> set (wbRecords (wkBatch w))"
    and "\<not> weStorable env (fill env r)" and "w_step cfg env (LRecords i staged res) s = Some s'"
  shows "res \<noteq> TxOk \<and> (wrAcks s' = wrAcks s \<or>
    (\<exists>e. wrAcks s' = wrAcks s @ map (\<lambda>k. (k, Some (WriteFailed (length (wbRecords (wkBatch w))) e))) (wbAcks (wkBatch w))))"
proof -
  have bad: "\<not> rows_ok env (wrDb s) (map (fill env) (wbRecords (wkBatch w)))" using assms(4,5) by (auto simp: rows_ok_def list_all_iff)
  have "res \<noteq> TxOk"
  proof
    assume "res = TxOk"
    then show False using assms(3,6) bad
      by (auto simp: commitRecords_def copyDirect_def copyViaStaging_def Let_def split: flush_stage.splits if_splits)
  qed
  moreover have "db_ok (wrDb s)" using winv_reach[OF assms(1,2)] by (simp add: winv_def)
  ultimately show ?thesis using assms(3,6)
    by (auto simp: attempt_failed_def ackAll_def set_worker_def elim!: commitRecords_cases[of cfg env i staged res s s'])
qed

theorem poison_fails_batch_witness:
  "\<exists>s s' e. w_run cfg_w env_w poison_w start_w = Some s \<and> record_Validate 0 (rec_w 2 [CHR 0x00]) = None \<and>
     w_step cfg_w env_w (LRecords 0 [] (TxErr (PgError ''22021'') False)) s = Some s' \<and>
     wrAcks s' = [(7, Some (WriteFailed 2 e)), (8, Some (WriteFailed 2 e))]"
proof -
  from poison_w_run obtain s w where s: "w_run cfg_w env_w poison_w start_w = Some s" "wrAcks s = []" "wrWorkers s = [w]"
    "wkFlush w = Some (FRecords 1)" "wkBatch w = \<lparr>wbRecords = [rec_w 1 ''m'', rec_w 2 [CHR 0x00]], wbStreams = [], wbAcks = [7, 8]\<rparr>"
    by (cases "w_run cfg_w env_w poison_w start_w") (auto simp: map_eq_Cons_conv)
  then have fw: "flushing_worker 0 s = Some (w, FRecords 1)" by (simp add: flushing_worker_def)
  obtain s' where s': "w_step cfg_w env_w (LRecords 0 [] (TxErr (PgError ''22021'') False)) s = Some s'" "wrAcks s' \<noteq> []"
    by (simp add: commitRecords_def fw copyDirect_def isUniqueViolation_def attempt_failed_def isRetryable_def cfg_w_def
        CopyModeDirect_def Let_def ackAll_def set_worker_def s)
  have "rec_w 2 [CHR 0x00] \<in> set (wbRecords (wkBatch w))" "\<not> weStorable env_w (fill env_w (rec_w 2 [CHR 0x00]))"
    by (simp_all add: s env_w_def fill_def rec_w_def)
  from poison_fails_batch[OF w_run_reach[OF start_w_reach s(1)] db_w_ok fw this s'(1)] s' s
  obtain e where "wrAcks s' = [(7, Some (WriteFailed 2 e)), (8, Some (WriteFailed 2 e))]" by auto
  moreover have "record_Validate 0 (rec_w 2 [CHR 0x00]) = None" by (simp add: w_eval)
  ultimately show ?thesis using s s' by blast
qed

end
