(* ===== verification/Consumer.thy ===== *)
theory Consumer
  imports Writer_Runs
begin

text \<open>
  The draining half of the ingest service (\<^verbatim>\<open>internal/ingest/consumer.go\<close>) on top of the storage writer: a delivered message is
  decoded, handed to the writer as a shipment and ended exactly once, by an ack, a nak or a term. The state is the writer's
  state and the consumer's bookkeeping; writer steps, deliveries and shutdown interleave freely.

  A delivery is named by a number, so a redelivered message is a new delivery. Decoding is a parameter.
\<close>

datatype terminal = TAck | TNak | TTerm

text \<open>\<open>coMsgs\<close> is the history of deliveries that were let in: name, payload, and the two clock readings of \<^verbatim>\<open>handle\<close> and
  \<^verbatim>\<open>Submit\<close>. A message refused by \<^verbatim>\<open>enter\<close> appears in \<open>coRefused\<close> only.\<close>

record consumer =
  coWriter :: wstate
  coClosing :: bool
  coInFlight :: nat
  coTerms :: "(nat \<times> terminal) list"
  coDropped :: nat
  coMsgs :: "(nat \<times> bytes \<times> gotime \<times> gotime) list"
  coRefused :: "(nat \<times> terminal) list"

definition NewConsumer :: "wstate \<Rightarrow> consumer" where
  "NewConsumer w = \<lparr>coWriter = w, coClosing = False, coInFlight = 0, coTerms = [], coDropped = 0, coMsgs = [], coRefused = []\<rparr>"

definition enter :: "consumer \<Rightarrow> consumer option" where
  "enter c = (if coClosing c then None else Some (c\<lparr>coInFlight := coInFlight c + 1\<rparr>))"

definition leave :: "consumer \<Rightarrow> consumer" where
  "leave c = c\<lparr>coInFlight := coInFlight c - 1\<rparr>"

definition terminate :: "nat \<Rightarrow> terminal \<Rightarrow> consumer \<Rightarrow> consumer" where
  "terminate k t c = c\<lparr>coTerms := coTerms c @ [(k, t)]\<rparr>"

definition finish :: "nat \<times> ack_err option \<Rightarrow> nat \<times> terminal" where
  "finish a = (case a of (k, None) \<Rightarrow> (k, TAck) | (k, Some _) \<Rightarrow> (k, TNak))"

text \<open>The shipment of a batch.\<close>

definition batch_records :: "wenv \<Rightarrow> pb_LogBatch \<Rightarrow> LogRecord list" where
  "batch_records env b =
     map (\<lambda>pb. LogRecordFromProto (label_ID (weLib env) (LabelSetFromProto (pbLabels b))) (Some pb)) (pbRecords b)"

definition batch_shipment :: "wenv \<Rightarrow> nat \<Rightarrow> gotime \<Rightarrow> pb_LogBatch \<Rightarrow> Shipment" where
  "batch_shipment env k now b =
     \<lparr>smStream = NewStream (weLib env) (LabelSetFromProto (pbLabels b)) now, smRecords = batch_records env b, smAck = Some k\<rparr>"

text \<open>\<^verbatim>\<open>handle\<close> up to the select of \<^verbatim>\<open>Submit\<close>, where the call may wait, or to its end.\<close>

definition handle :: "wenv \<Rightarrow> (bytes \<Rightarrow> pb_LogBatch option) \<Rightarrow> nat \<Rightarrow> bytes \<Rightarrow> gotime \<Rightarrow> gotime \<Rightarrow> consumer \<Rightarrow> consumer" where
  "handle env unmarshal k payload now now' c =
     (case unmarshal payload of
        None \<Rightarrow> leave (terminate k TTerm c)
      | Some b \<Rightarrow>
          if labels_Validate (LabelSetFromProto (pbLabels b)) \<noteq> None
          then leave (terminate k TTerm (c\<lparr>coDropped := coDropped c + length (pbRecords b)\<rparr>))
          else
            (let w = writer_Submit env (batch_shipment env k now b) now' (coWriter c);
                 c1 = c\<lparr>coWriter := w\<rparr>
             in if length (wrPending w) > length (wrPending (coWriter c)) then c1
                else case last (wrResults w) of
                  Inl e \<Rightarrow> leave (terminate k TNak c1)
                | Inr n \<Rightarrow> leave (if n = 0 then terminate k TAck c1 else c1)))"

definition on_delivery :: "wenv \<Rightarrow> (bytes \<Rightarrow> pb_LogBatch option) \<Rightarrow> nat \<Rightarrow> bytes \<Rightarrow> gotime \<Rightarrow> gotime \<Rightarrow> consumer \<Rightarrow> consumer" where
  "on_delivery env unmarshal k payload now now' c =
     (case enter c of
        None \<Rightarrow> c\<lparr>coRefused := coRefused c @ [(k, TNak)]\<rparr>
      | Some c1 \<Rightarrow> handle env unmarshal k payload now now' (c1\<lparr>coMsgs := coMsgs c1 @ [(k, payload, now, now')]\<rparr>))"

text \<open>A waiting call of \<^verbatim>\<open>Submit\<close> goes on: the shipment is sent and the handler returns, or the writer quits and the message is
  returned. The call's context is never canceled.\<close>

definition submit_sent :: "wconfig \<Rightarrow> nat \<Rightarrow> consumer \<Rightarrow> consumer option" where
  "submit_sent cfg j c =
     (case submit_send cfg j (coWriter c) of None \<Rightarrow> None | Some w \<Rightarrow> Some (leave (c\<lparr>coWriter := w\<rparr>)))"

definition submit_refused :: "nat \<Rightarrow> consumer \<Rightarrow> consumer option" where
  "submit_refused j c =
     (case submit_quit j (coWriter c) of
        None \<Rightarrow> None
      | Some w \<Rightarrow>
          (let c1 = c\<lparr>coWriter := w\<rparr> in
           Some (leave (case smAck (wrPending (coWriter c) ! j) of None \<Rightarrow> c1 | Some k \<Rightarrow> terminate k TNak c1))))"

text \<open>A step of the writer's workers or of its shutdown, with the callbacks it makes.\<close>

definition writer_moves :: "wconfig \<Rightarrow> wenv \<Rightarrow> wlabel \<Rightarrow> consumer \<Rightarrow> consumer option" where
  "writer_moves cfg env l c =
     (case l of
        LSubmit _ _ \<Rightarrow> None
      | LSend _ \<Rightarrow> None
      | LSubmitQuit _ \<Rightarrow> None
      | LSubmitCtx _ \<Rightarrow> None
      | _ \<Rightarrow>
          (case w_step cfg env l (coWriter c) of
             None \<Rightarrow> None
           | Some w \<Rightarrow>
               Some (c\<lparr>coWriter := w,
                 coTerms := coTerms c @ map finish (drop (length (wrAcks (coWriter c))) (wrAcks w))\<rparr>)))"

definition consumer_stop :: "consumer \<Rightarrow> consumer" where
  "consumer_stop c = c\<lparr>coClosing := True\<rparr>"

datatype clabel =
    CDeliver nat bytes gotime gotime
  | CSent nat
  | CRefused nat
  | CWriter wlabel
  | CStop

text \<open>Deliveries have fresh names.\<close>

fun c_step :: "wconfig \<Rightarrow> wenv \<Rightarrow> (bytes \<Rightarrow> pb_LogBatch option) \<Rightarrow> clabel \<Rightarrow> consumer \<Rightarrow> consumer option" where
  "c_step cfg env um (CDeliver k payload now now') c =
     (if k \<in> fst ` set (coMsgs c) then None else Some (on_delivery env um k payload now now' c))"
| "c_step cfg env um (CSent j) c = submit_sent cfg j c"
| "c_step cfg env um (CRefused j) c = submit_refused j c"
| "c_step cfg env um (CWriter l) c = writer_moves cfg env l c"
| "c_step cfg env um CStop c = Some (consumer_stop c)"

fun c_run :: "wconfig \<Rightarrow> wenv \<Rightarrow> (bytes \<Rightarrow> pb_LogBatch option) \<Rightarrow> clabel list \<Rightarrow> consumer \<Rightarrow> consumer option" where
  "c_run cfg env um [] c = Some c"
| "c_run cfg env um (l # ls) c = (case c_step cfg env um l c of None \<Rightarrow> None | Some c1 \<Rightarrow> c_run cfg env um ls c1)"

inductive c_reach :: "wconfig \<Rightarrow> wenv \<Rightarrow> (bytes \<Rightarrow> pb_LogBatch option) \<Rightarrow> database \<Rightarrow> consumer \<Rightarrow> bool" for cfg env um db where
  c_init: "NewWriter cfg db = Inr w \<Longrightarrow> c_reach cfg env um db (NewConsumer (writer_Start cfg w))"
| c_more: "c_reach cfg env um db c \<Longrightarrow> c_step cfg env um l c = Some c' \<Longrightarrow> c_reach cfg env um db c'"

subsection \<open>The writer underneath\<close>

lemma leave_simps [simp]:
  "coWriter (leave c) = coWriter c" "coTerms (leave c) = coTerms c" "coMsgs (leave c) = coMsgs c" "coClosing (leave c) = coClosing c"
  by (simp_all add: leave_def)

lemma terminate_simps [simp]:
  "coWriter (terminate k t c) = coWriter c" "coTerms (terminate k t c) = coTerms c @ [(k, t)]" "coMsgs (terminate k t c) = coMsgs c"
  by (simp_all add: terminate_def)

text \<open>What \<^verbatim>\<open>Submit\<close> does with a shipment whose labels are good: it waits with the records that pass, or returns at once.\<close>

lemma submit_cases:
  fixes env :: wenv
  assumes "labels_Validate (stLabels (smStream sh)) = None"
  defines "i \<equiv> label_ID (weLib env) (stLabels (smStream sh))"
  obtains (pending) "acceptable i (smRecords sh) now \<noteq> []"
      "wrPending (writer_Submit env sh now w) = wrPending w @ [sh\<lparr>smStream := (smStream sh)\<lparr>stID := i\<rparr>, smRecords := acceptable i (smRecords sh) now\<rparr>]"
    | (empty) "acceptable i (smRecords sh) now = []" "wrPending (writer_Submit env sh now w) = wrPending w" "last (wrResults (writer_Submit env sh now w)) = Inr 0"
    | (error) e where "wrPending (writer_Submit env sh now w) = wrPending w" "last (wrResults (writer_Submit env sh now w)) = Inl e"
proof (cases "wrStarted w \<and> \<not> wrClosing w")
  case False
  show thesis
    by (rule error[of "if wrStarted w then ErrWriterClosed else ErrWriterNotStarted"]) (use False in \<open>auto simp: writer_Submit_def submit_return_def\<close>)
next
  case True
  then show thesis
  proof (cases "acceptable i (smRecords sh) now = []")
    case empty': True
    show thesis by (rule empty[OF empty']) (use True empty' assms in \<open>simp_all add: writer_Submit_def submit_return_def Let_def\<close>)
  next
    case ne: False
    show thesis by (rule pending[OF ne]) (use True ne assms in \<open>simp add: writer_Submit_def Let_def\<close>)
  qed
qed

lemma submit_same [simp]:
  "wrQueue (writer_Submit env sh now w) = wrQueue w" "wrAcks (writer_Submit env sh now w) = wrAcks w" "wrSent (writer_Submit env sh now w) = wrSent w"
  "wrWorkers (writer_Submit env sh now w) = wrWorkers w" "wrDb (writer_Submit env sh now w) = wrDb w"
  by (auto simp: writer_Submit_def submit_return_def writer_drop_def Let_def split: option.splits)

fun own_step :: "wlabel \<Rightarrow> bool" where
  "own_step (LSubmit _ _) = False"
| "own_step (LSend _) = False"
| "own_step (LSubmitQuit _) = False"
| "own_step (LSubmitCtx _) = False"
| "own_step _ = True"

lemma writer_moves_own: "writer_moves cfg env l c =
    (if own_step l then map_option (\<lambda>w. c\<lparr>coWriter := w, coTerms := coTerms c @ map finish (drop (length (wrAcks (coWriter c))) (wrAcks w))\<rparr>)
       (w_step cfg env l (coWriter c)) else None)"
  by (cases l) (simp_all add: writer_moves_def split: option.splits)

definition quiet :: "wstate \<Rightarrow> wstate \<Rightarrow> bool" where
  "quiet s s' \<longleftrightarrow> wrPending s' = wrPending s \<and> wrSent s' = wrSent s \<and> (\<exists>A. wrAcks s' = wrAcks s @ A) \<and> db_grows (wrDb s) (wrDb s')"

lemma quiet_set_worker [simp]: "quiet s (set_worker i w s1) = quiet s s1"
  by (simp add: quiet_def set_worker_def)

lemma quiet_failed: "quiet s s1 \<Longrightarrow> quiet s (attempt_failed cfg i w n e s1)"
  by (auto simp: quiet_def attempt_failed_def set_worker_def ackAll_def)

lemma quiet_ok: "quiet s s1 \<Longrightarrow> quiet s (attempt_ok i w s1)"
  by (auto simp: quiet_def attempt_ok_def set_worker_def ackAll_def)

lemma quiet_db: "db_grows (wrDb s) db \<Longrightarrow> quiet s (s\<lparr>wrDb := db\<rparr>)"
  by (simp add: quiet_def)

lemma quiet_refl [simp]: "quiet s s"
  by (simp add: quiet_def)

lemma own_step_quiet:
  assumes f: "w_step cfg env l s = Some s'" and ok: "db_ok (wrDb s)" and own: "own_step l"
  shows "quiet s s'"
proof (cases l)
  case (LRecords i staged res)
  then have f': "commitRecords cfg env i staged res s = Some s'" using f by simp
  from f' ok obtain w st n db where db: "db_grows (wrDb s) db" and r:
      "(res = TxOk \<and> list_all (stored env db) (wbRecords (wkBatch w)) \<and> s' = attempt_ok i w (s\<lparr>wrDb := db\<rparr>)) \<or>
       (\<exists>e took. res = TxErr e took \<and> s' = attempt_failed cfg i w n e (s\<lparr>wrDb := db\<rparr>)) \<or>
       (st = FRecords n \<and> (\<exists>e took. res = TxErr e took \<and> isUniqueViolation e) \<and>
          s' = set_worker i (w\<lparr>wkFlush := Some (FStaging n)\<rparr>) (s\<lparr>wrDb := db\<rparr>))"
    by (rule commitRecords_cases) blast
  from r show ?thesis using quiet_db[OF db] quiet_ok quiet_failed by auto
next
  case (LStreams i res)
  have "quiet s (s\<lparr>wrDb := upsert_streams rows (wrDb s)\<rparr>)" for rows using quiet_db upsert_streams_ok[OF ok] by blast
  then show ?thesis using f LStreams quiet_failed
    by (auto simp: commitStreams_def Let_def split: option.splits prod.splits flush_stage.splits if_splits tx_result.splits)
next
  case (LPeerStreams rows)
  then show ?thesis using f quiet_db upsert_streams_ok[OF ok] by auto
next
  case (LPeerLogs rows)
  then show ?thesis using f quiet_db insert_new_ok[OF ok, of env rows rows] by (auto split: if_splits)
qed (use f own in \<open>auto simp: worker_take_def worker_receive_def worker_timer_def worker_stop_def drain_take_def drain_end_def flush_sort_def
      mark_streams_def close_begin_def close_quit_def drainAbandoned_def Let_def quiet_def set_worker_def
      split: option.splits if_splits list.splits prod.splits flush_stage.splits\<close>)

subsection \<open>The invariant\<close>

definition msg_of :: "wenv \<Rightarrow> (bytes \<Rightarrow> pb_LogBatch option) \<Rightarrow> consumer \<Rightarrow> Shipment \<Rightarrow> bool" where
  "msg_of env um c sh \<longleftrightarrow>
     (\<exists>k payload now now' b. smAck sh = Some k \<and> (k, payload, now, now') \<in> set (coMsgs c) \<and> um payload = Some b \<and>
        smRecords sh = filter (\<lambda>r. record_Validate now' r = None) (batch_records env b))"

definition end_ok :: "wenv \<Rightarrow> (bytes \<Rightarrow> pb_LogBatch option) \<Rightarrow> database \<Rightarrow> bytes \<Rightarrow> gotime \<Rightarrow> terminal \<Rightarrow> bool" where
  "end_ok env um db payload now' t =
     (case t of
        TAck \<Rightarrow>
          (case um payload of
             None \<Rightarrow> False
           | Some b \<Rightarrow> list_all (\<lambda>r. record_Validate now' r = None \<longrightarrow> stored env db r) (batch_records env b))
      | TTerm \<Rightarrow> (case um payload of None \<Rightarrow> True | Some b \<Rightarrow> labels_Validate (LabelSetFromProto (pbLabels b)) \<noteq> None)
      | TNak \<Rightarrow> True)"

definition ended_ok :: "wenv \<Rightarrow> (bytes \<Rightarrow> pb_LogBatch option) \<Rightarrow> consumer \<Rightarrow> nat \<times> terminal \<Rightarrow> bool" where
  "ended_ok env um c kt \<longleftrightarrow>
     (\<exists>payload now now'. (fst kt, payload, now, now') \<in> set (coMsgs c) \<and> end_ok env um (wrDb (coWriter c)) payload now' (snd kt))"

definition cinv :: "wconfig \<Rightarrow> wenv \<Rightarrow> (bytes \<Rightarrow> pb_LogBatch option) \<Rightarrow> database \<Rightarrow> consumer \<Rightarrow> bool" where
  "cinv cfg env um db c \<longleftrightarrow>
     w_reach cfg env db (coWriter c) \<and> distinct (map fst (coMsgs c)) \<and>
     mset (map fst (coMsgs c)) = mset (map fst (coTerms c)) + mset (ack_ids (wrPending (coWriter c))) +
       mset (ack_ids (wrQueue (coWriter c))) + batch_acks (wrWorkers (coWriter c)) \<and>
     list_all (msg_of env um c) (wrPending (coWriter c)) \<and> list_all (msg_of env um c) (wrSent (coWriter c)) \<and>
     list_all (ended_ok env um c) (coTerms c) \<and> coInFlight c = length (wrPending (coWriter c))"

lemma msg_of_mono: "msg_of env um c sh \<Longrightarrow> set (coMsgs c) \<subseteq> set (coMsgs c') \<Longrightarrow> msg_of env um c' sh"
  unfolding msg_of_def by blast

lemma end_ok_mono: "end_ok env um db payload now' t \<Longrightarrow> db_grows db db' \<Longrightarrow> end_ok env um db' payload now' t"
  using db_grows_stored by (cases t) (auto simp: end_ok_def list_all_iff split: option.splits)

lemma ended_ok_mono:
  assumes "ended_ok env um c kt" and "set (coMsgs c) \<subseteq> set (coMsgs c')" and "db_grows (wrDb (coWriter c)) (wrDb (coWriter c'))"
  shows "ended_ok env um c' kt"
  using assms end_ok_mono[OF _ assms(3)] unfolding ended_ok_def by blast

lemma cinv_same:
  "cinv cfg env um db (c\<lparr>coRefused := x\<rparr>) = cinv cfg env um db c" "cinv cfg env um db (c\<lparr>coClosing := y\<rparr>) = cinv cfg env um db c"
proof -
  have "msg_of env um (c\<lparr>coRefused := x\<rparr>) = msg_of env um c" "msg_of env um (c\<lparr>coClosing := y\<rparr>) = msg_of env um c"
    "ended_ok env um (c\<lparr>coRefused := x\<rparr>) = ended_ok env um c" "ended_ok env um (c\<lparr>coClosing := y\<rparr>) = ended_ok env um c"
    by (simp_all add: fun_eq_iff msg_of_def ended_ok_def)
  then show "cinv cfg env um db (c\<lparr>coRefused := x\<rparr>) = cinv cfg env um db c" "cinv cfg env um db (c\<lparr>coClosing := y\<rparr>) = cinv cfg env um db c"
    by (simp_all add: cinv_def)
qed

lemma ack_ids_mset:
  assumes "mset xs = add_mset sh (mset ys)"
  shows "mset (ack_ids xs) = mset (ack_ids [sh]) + mset (ack_ids ys)"
proof -
  have "mset (ack_ids zs) = \<Sum>\<^sub># (image_mset (\<lambda>sh. mset (ack_ids [sh])) (mset zs))" for zs
    by (induction zs) (auto split: option.splits)
  then show ?thesis using assms by simp
qed

lemma batch_records_accept:
  "acceptable (label_ID (weLib env) (LabelSetFromProto (pbLabels b))) (batch_records env b) now =
     filter (\<lambda>r. record_Validate now r = None) (batch_records env b)"
proof -
  have "map (\<lambda>r. r\<lparr>rStreamID := label_ID (weLib env) (LabelSetFromProto (pbLabels b))\<rparr>) (batch_records env b) = batch_records env b"
    by (simp add: batch_records_def LogRecordFromProto_def comp_def)
  then show ?thesis by (simp add: acceptable_def)
qed

text \<open>A delivery that ends within the call.\<close>

lemma cinv_end:
  assumes inv: "cinv cfg env um db c" and fresh: "k \<notin> fst ` set (coMsgs c)"
    and w: "w_reach cfg env db (coWriter c')" "wrPending (coWriter c') = wrPending (coWriter c)" "wrQueue (coWriter c') = wrQueue (coWriter c)"
      "wrSent (coWriter c') = wrSent (coWriter c)" "wrWorkers (coWriter c') = wrWorkers (coWriter c)" "wrDb (coWriter c') = wrDb (coWriter c)"
    and c': "coMsgs c' = coMsgs c @ [(k, payload, now, now')]" "coTerms c' = coTerms c @ [(k, t)]" "coInFlight c' = coInFlight c"
    and t: "end_ok env um (wrDb (coWriter c)) payload now' t"
  shows "cinv cfg env um db c'"
proof -
  have t: "ended_ok env um c' (k, t)" using t w(6) c'(1) by (force simp: ended_ok_def)
  have sub: "set (coMsgs c) \<subseteq> set (coMsgs c')" by (auto simp: c')
  have "list_all (ended_ok env um c') (coTerms c')"
    using inv ended_ok_mono[OF _ sub] t w(6) by (auto simp: cinv_def c' list_all_iff)
  moreover have "list_all (msg_of env um c') xs" if "list_all (msg_of env um c) xs" for xs
    using that msg_of_mono[OF _ sub] by (auto simp: list_all_iff)
  ultimately show ?thesis using inv fresh w c' by (simp add: cinv_def)
qed

lemma cinv_deliver:
  assumes inv: "cinv cfg env um db c" and fresh: "k \<notin> fst ` set (coMsgs c)"
  shows "cinv cfg env um db (on_delivery env um k payload now now' c)"
proof (cases "coClosing c")
  case True
  then show ?thesis using inv by (simp add: on_delivery_def enter_def cinv_same)
next
  case open': False
  let ?c0 = "c\<lparr>coInFlight := coInFlight c + 1, coMsgs := coMsgs c @ [(k, payload, now, now')]\<rparr>"
  have d: "on_delivery env um k payload now now' c = handle env um k payload now now' ?c0" using open' by (simp add: on_delivery_def enter_def)
  have reach: "w_reach cfg env db (coWriter c)" using inv by (simp add: cinv_def)
  note fin = cinv_end[OF inv fresh, where payload = payload and now = now and now' = now']
  show ?thesis
  proof (cases "um payload")
    case None
    show ?thesis unfolding d
      by (rule fin[where t = TTerm]) (use None reach in \<open>simp_all add: handle_def end_ok_def leave_def terminate_def\<close>)
  next
    case (Some b)
    show ?thesis
    proof (cases "labels_Validate (LabelSetFromProto (pbLabels b)) = None")
      case False
      show ?thesis unfolding d
        by (rule fin[where t = TTerm]) (use Some False reach in \<open>auto simp: handle_def end_ok_def leave_def terminate_def\<close>)
    next
      case True
      let ?sh = "batch_shipment env k now b"
      let ?w = "writer_Submit env ?sh now' (coWriter c)"
      let ?i = "label_ID (weLib env) (LabelSetFromProto (pbLabels b))"
      have sh: "stLabels (smStream ?sh) = LabelSetFromProto (pbLabels b)" "smRecords ?sh = batch_records env b" "smAck ?sh = Some k"
        by (simp_all add: batch_shipment_def NewStream_def)
      have w: "w_reach cfg env db ?w" using w_more[OF reach, of "LSubmit ?sh now'" ?w] by simp
      from True have v: "labels_Validate (stLabels (smStream ?sh)) = None" by (simp add: sh)
      note acc = batch_records_accept[of env b now']
      show ?thesis
      proof (rule submit_cases[OF v, where env = env and now = now' and w = "coWriter c"])
        assume p: "wrPending ?w = wrPending (coWriter c) @ [?sh\<lparr>smStream := (smStream ?sh)\<lparr>stID := label_ID (weLib env) (stLabels (smStream ?sh))\<rparr>,
            smRecords := acceptable (label_ID (weLib env) (stLabels (smStream ?sh))) (smRecords ?sh) now'\<rparr>]"
        then have c': "handle env um k payload now now' ?c0 = ?c0\<lparr>coWriter := ?w\<rparr>" using Some True by (simp add: handle_def)
        let ?c' = "?c0\<lparr>coWriter := ?w\<rparr>"
        have sub: "set (coMsgs c) \<subseteq> set (coMsgs ?c')" by auto
        have "list_all (msg_of env um ?c') xs" if "list_all (msg_of env um c) xs" for xs
          using that msg_of_mono[OF _ sub] by (auto simp: list_all_iff)
        moreover have "msg_of env um ?c' (last (wrPending ?w))"
          unfolding p msg_of_def using Some acc by (auto simp: sh)
        moreover have "list_all (ended_ok env um ?c') (coTerms c)"
          using inv ended_ok_mono[OF _ sub] by (auto simp: cinv_def list_all_iff)
        ultimately show ?thesis unfolding d c' using inv fresh w p sh(3) by (simp add: cinv_def)
      next
        assume e: "acceptable (label_ID (weLib env) (stLabels (smStream ?sh))) (smRecords ?sh) now' = []"
          "wrPending ?w = wrPending (coWriter c)" "last (wrResults ?w) = Inr 0"
        then have none: "list_all (\<lambda>r. record_Validate now' r = None \<longrightarrow> stored env db' r) (batch_records env b)" for db'
          using acc by (auto simp: sh list_all_iff filter_empty_conv)
        show ?thesis unfolding d
          by (rule fin[where t = TAck]) (use Some True e w none in \<open>simp_all add: handle_def end_ok_def leave_def terminate_def Let_def\<close>)
      next
        fix e assume e: "wrPending ?w = wrPending (coWriter c)" "last (wrResults ?w) = Inl e"
        show ?thesis unfolding d
          by (rule fin[where t = TNak]) (use Some True e w in \<open>simp_all add: handle_def end_ok_def leave_def terminate_def Let_def\<close>)
      qed
    qed
  qed
qed

text \<open>A waiting call of \<^verbatim>\<open>Submit\<close> that goes on.\<close>

lemma cinv_left:
  assumes inv: "cinv cfg env um db c"
    and w: "w_reach cfg env db (coWriter c')" "wrDb (coWriter c') = wrDb (coWriter c)" "wrWorkers (coWriter c') = wrWorkers (coWriter c)"
    and p: "mset (wrPending (coWriter c)) = add_mset sh (mset (wrPending (coWriter c')))"
    and c': "coMsgs c' = coMsgs c" "coInFlight c' = coInFlight c - 1"
    and how: "(wrSent (coWriter c') = wrSent (coWriter c) @ [sh] \<and> wrQueue (coWriter c') = wrQueue (coWriter c) @ [sh] \<and> coTerms c' = coTerms c) \<or>
      (wrSent (coWriter c') = wrSent (coWriter c) \<and> wrQueue (coWriter c') = wrQueue (coWriter c) \<and>
        (\<forall>k. smAck sh = Some k \<longrightarrow> coTerms c' = coTerms c @ [(k, TNak)]))"
  shows "cinv cfg env um db c'"
proof -
  have mem: "set (wrPending (coWriter c)) = insert sh (set (wrPending (coWriter c')))" using arg_cong[OF p, of set_mset] by simp
  have len: "length (wrPending (coWriter c)) = Suc (length (wrPending (coWriter c')))" using arg_cong[OF p, of size] by simp
  have ids: "mset (ack_ids (wrPending (coWriter c))) = mset (ack_ids [sh]) + mset (ack_ids (wrPending (coWriter c')))"
    using ack_ids_mset[OF p] .
  have msg: "msg_of env um c' x" if "msg_of env um c x" for x using msg_of_mono[OF that] c' by simp
  have sh: "msg_of env um c sh" using inv mem by (simp add: cinv_def list_all_iff)
  then obtain k where k: "smAck sh = Some k" "k \<in> fst ` set (coMsgs c)" by (force simp: msg_of_def)
  have end': "ended_ok env um c' kt" if "ended_ok env um c kt" for kt using ended_ok_mono[OF that] w c' by simp
  have nak: "ended_ok env um c' (k, TNak)" using k(2) c' by (force simp: ended_ok_def end_ok_def)
  show ?thesis
    using how inv w(1,3) c' len ids msg[OF sh] mem k(1) nak
    by (auto simp: cinv_def list_all_iff msg end')
qed

lemma take_pending_mset:
  assumes "take_pending j s = Some (sh, s1)"
  shows "mset (wrPending s) = add_mset sh (mset (wrPending s1))" "sh = wrPending s ! j"
proof -
  have j: "j < length (wrPending s)" "sh = wrPending s ! j" "s1 = s\<lparr>wrPending := take j (wrPending s) @ drop (Suc j) (wrPending s)\<rparr>"
    using assms by (auto simp: take_pending_def split: if_splits)
  have "mset (wrPending s) = mset (take j (wrPending s) @ wrPending s ! j # drop (Suc j) (wrPending s))"
    by (rule arg_cong[OF id_take_nth_drop[OF j(1)]])
  then show "mset (wrPending s) = add_mset sh (mset (wrPending s1))" by (simp add: j(2,3))
qed (use assms in \<open>auto simp: take_pending_def split: if_splits\<close>)

lemma cinv_sent:
  assumes inv: "cinv cfg env um db c" and f: "submit_sent cfg j c = Some c'"
  shows "cinv cfg env um db c'"
proof -
  from f obtain w where w: "submit_send cfg j (coWriter c) = Some w" "c' = leave (c\<lparr>coWriter := w\<rparr>)"
    by (auto simp: submit_sent_def split: option.splits)
  then obtain sh s1 where t: "take_pending j (coWriter c) = Some (sh, s1)"
    and w': "w = submit_return (Inr (length (smRecords sh))) (s1\<lparr>wrQueue := wrQueue s1 @ [sh], wrSent := wrSent s1 @ [sh]\<rparr>)"
    by (auto simp: submit_send_def split: option.splits if_splits)
  have s1: "s1 = (coWriter c)\<lparr>wrPending := wrPending s1\<rparr>" using take_pendingD(2)[OF t] .
  have same: "wrQueue s1 = wrQueue (coWriter c)" "wrSent s1 = wrSent (coWriter c)" "wrDb s1 = wrDb (coWriter c)" "wrWorkers s1 = wrWorkers (coWriter c)"
    by (subst s1, simp)+
  have reach: "w_reach cfg env db w" using inv w_more[of cfg env db "coWriter c" "LSend j" w] w(1) by (simp add: cinv_def)
  show ?thesis
    by (rule cinv_left[OF inv]) (use reach take_pending_mset[OF t] in \<open>simp_all add: w(2) w' same submit_return_def leave_def\<close>)
qed

lemma cinv_refused:
  assumes inv: "cinv cfg env um db c" and f: "submit_refused j c = Some c'"
  shows "cinv cfg env um db c'"
proof -
  from f obtain w where w: "submit_quit j (coWriter c) = Some w"
    "c' = leave (case smAck (wrPending (coWriter c) ! j) of None \<Rightarrow> c\<lparr>coWriter := w\<rparr> | Some k \<Rightarrow> terminate k TNak (c\<lparr>coWriter := w\<rparr>))"
    by (auto simp: submit_refused_def Let_def split: option.splits)
  then obtain sh s1 where t: "take_pending j (coWriter c) = Some (sh, s1)"
    and w': "w = submit_return (Inl ErrWriterClosed) (writer_drop DropShutdown (length (smRecords sh)) (s1\<lparr>wrDepth := wrDepth s1 - int (length (smRecords sh))\<rparr>))"
    by (auto simp: submit_quit_def submit_refuse_def split: option.splits if_splits)
  have s1: "s1 = (coWriter c)\<lparr>wrPending := wrPending s1\<rparr>" using take_pendingD(2)[OF t] .
  have same: "wrQueue s1 = wrQueue (coWriter c)" "wrSent s1 = wrSent (coWriter c)" "wrDb s1 = wrDb (coWriter c)" "wrWorkers s1 = wrWorkers (coWriter c)"
    by (subst s1, simp)+
  have reach: "w_reach cfg env db w" using inv w_more[of cfg env db "coWriter c" "LSubmitQuit j" w] w(1) by (simp add: cinv_def)
  show ?thesis
    by (rule cinv_left[OF inv, where sh = sh])
      (use reach take_pending_mset[OF t] in \<open>simp_all add: w(2) w' same submit_return_def writer_drop_def leave_def terminate_def split: option.splits\<close>)
qed

text \<open>A step of the writer turns callbacks into endings.\<close>

lemma cinv_writer:
  assumes inv: "cinv cfg env um db c" and ok: "db_ok db" and f: "writer_moves cfg env l c = Some c'"
  shows "cinv cfg env um db c'"
proof -
  let ?s = "coWriter c"
  from f obtain s' where own: "own_step l" and s': "w_step cfg env l ?s = Some s'"
    and c': "c' = c\<lparr>coWriter := s', coTerms := coTerms c @ map finish (drop (length (wrAcks ?s)) (wrAcks s'))\<rparr>"
    by (auto simp: writer_moves_own split: if_splits)
  have r: "w_reach cfg env db ?s" using inv by (simp add: cinv_def)
  have r': "w_reach cfg env db s'" using w_more[OF r s'] .
  have i: "winv cfg env ?s" "winv cfg env s'" using winv_reach[OF _ ok] r r' by blast+
  have q: "quiet ?s s'" using own_step_quiet[OF s' _ own] i(1) by (simp add: winv_def)
  then obtain A where A: "wrAcks s' = wrAcks ?s @ A" and same: "wrPending s' = wrPending ?s" "wrSent s' = wrSent ?s"
    and grow: "db_grows (wrDb ?s) (wrDb s')" by (auto simp: quiet_def)
  have terms: "coTerms c' = coTerms c @ map finish A" "coMsgs c' = coMsgs c" "coWriter c' = s'" "coInFlight c' = coInFlight c" using A by (simp_all add: c')
  have moved: "mset (ack_ids (wrQueue ?s)) + batch_acks (wrWorkers ?s) = mset (ack_ids (wrQueue s')) + batch_acks (wrWorkers s') + mset (map fst A)"
    using i A same by (simp add: winv_def)
  have fst_finish: "mset (map fst (map finish A)) = mset (map fst A)"
    by (rule arg_cong[where f = mset]) (simp add: finish_def split: prod.splits option.splits)
  have msg: "msg_of env um c' x = msg_of env um c x" for x by (simp add: msg_of_def terms)
  have old: "ended_ok env um c' kt" if "ended_ok env um c kt" for kt using ended_ok_mono[OF that] grow terms by simp
  have new: "ended_ok env um c' (finish a)" if a: "a \<in> set A" for a
  proof (cases "snd a")
    case None
    then have "(fst a, None) \<in> set (wrAcks s')" using a A by (cases a) auto
    then obtain sh where sh: "sh \<in> set (wrSent s')" "smAck sh = Some (fst a)" "list_all (stored env (wrDb s')) (smRecords sh)"
      using i(2) by (auto simp: winv_def acked_ok_def)
    then have "msg_of env um c sh" using inv same by (auto simp: cinv_def list_all_iff)
    then obtain payload now now' b where m: "(fst a, payload, now, now') \<in> set (coMsgs c)" "um payload = Some b"
      "smRecords sh = filter (\<lambda>r. record_Validate now' r = None) (batch_records env b)" using sh(2) by (auto simp: msg_of_def)
    then have "list_all (\<lambda>r. record_Validate now' r = None \<longrightarrow> stored env (wrDb s') r) (batch_records env b)"
      using sh(3) by (auto simp: list_all_iff)
    then show ?thesis using m None by (cases a) (force simp: ended_ok_def end_ok_def finish_def terms)
  next
    case (Some e)
    have "fst a \<in># mset (ack_ids (wrQueue ?s)) + batch_acks (wrWorkers ?s)" unfolding moved using a by simp
    then have "fst a \<in># mset (map fst (coMsgs c))" using inv by (auto simp: cinv_def)
    then obtain payload now now' where "(fst a, payload, now, now') \<in> set (coMsgs c)" by auto
    then show ?thesis using Some by (cases a) (force simp: ended_ok_def end_ok_def finish_def terms)
  qed
  have "list_all (ended_ok env um c') (coTerms c')" using inv old new by (auto simp: cinv_def list_all_iff terms)
  moreover have "mset (map fst (coMsgs c)) = mset (map fst (coTerms c')) + mset (ack_ids (wrPending s')) + mset (ack_ids (wrQueue s')) + batch_acks (wrWorkers s')"
  proof -
    have "mset (map fst (coMsgs c)) = mset (map fst (coTerms c)) + mset (ack_ids (wrPending ?s)) + (mset (ack_ids (wrQueue ?s)) + batch_acks (wrWorkers ?s))"
      using inv unfolding cinv_def by (metis add.assoc)
    then show ?thesis unfolding moved terms map_append mset_append fst_finish same by (simp only: ac_simps)
  qed
  ultimately show ?thesis using inv r' same by (simp add: cinv_def terms msg list_all_iff)
qed

lemma cinv_step:
  assumes "cinv cfg env um db c" and "db_ok db" and "c_step cfg env um l c = Some c'"
  shows "cinv cfg env um db c'"
proof (cases l)
  case (CDeliver k payload now now')
  then show ?thesis using assms(3) cinv_deliver[OF assms(1)] by (auto split: if_splits)
next
  case CStop
  then show ?thesis using assms(1,3) by (auto simp: consumer_stop_def cinv_same)
next
  case (CSent j)
  then show ?thesis using assms(3) cinv_sent[OF assms(1)] by simp
next
  case (CRefused j)
  then show ?thesis using assms(3) cinv_refused[OF assms(1)] by simp
next
  case (CWriter l')
  then show ?thesis using assms(3) cinv_writer[OF assms(1,2)] by simp
qed

lemma cinv_start:
  assumes "NewWriter cfg db = Inr w"
  shows "cinv cfg env um db (NewConsumer (writer_Start cfg w))"
proof -
  have [simp]: "sum_list (replicate n {#}) = ({#} :: nat multiset)" for n by (induction n) simp_all
  have "wrPending (writer_Start cfg w) = []" "wrQueue (writer_Start cfg w) = []" "wrSent (writer_Start cfg w) = []"
    "batch_acks (wrWorkers (writer_Start cfg w)) = {#}"
    using assms by (auto simp: NewWriter_def writer_Start_def batch_acks_def new_worker_def newWriteBatch_def split: if_splits list.splits)
  then show ?thesis using w_init[OF assms] by (simp add: cinv_def NewConsumer_def)
qed

theorem cinv_reach: "c_reach cfg env um db c \<Longrightarrow> db_ok db \<Longrightarrow> cinv cfg env um db c"
  by (induction rule: c_reach.induct) (auto intro: cinv_start cinv_step)

subsection \<open>What the consumer guarantees\<close>

lemma at_most_once:
  assumes "mset xs = mset ys + M" and "distinct xs"
  shows "distinct ys" "set ys \<subseteq> set xs"
proof -
  obtain zs where "mset zs = M" using ex_mset by blast
  with assms(1) have m: "mset xs = mset (ys @ zs)" by simp
  then show "distinct ys" "set ys \<subseteq> set xs" using assms(2) mset_eq_imp_distinct_iff[OF m] mset_eq_setD[OF m] by simp_all
qed

text \<open>C9. Every delivery that was let in is ended at most once, and none is lost: it has been ended, or its shipment is waiting in
  \<^verbatim>\<open>Submit\<close>, in the writer's channel, or in the batch of a worker. The counter of running handlers is the number of calls
  waiting in \<^verbatim>\<open>Submit\<close>.\<close>

theorem consumer_ends_once:
  assumes "c_reach cfg env um db c" and "db_ok db"
  shows "distinct (map fst (coTerms c)) \<and>
    mset (map fst (coMsgs c)) = mset (map fst (coTerms c)) +
      (mset (ack_ids (wrPending (coWriter c))) + mset (ack_ids (wrQueue (coWriter c))) + batch_acks (wrWorkers (coWriter c))) \<and>
    coInFlight c = length (wrPending (coWriter c))"
proof -
  from cinv_reach[OF assms] have i: "distinct (map fst (coMsgs c))"
    "mset (map fst (coMsgs c)) = mset (map fst (coTerms c)) +
      (mset (ack_ids (wrPending (coWriter c))) + mset (ack_ids (wrQueue (coWriter c))) + batch_acks (wrWorkers (coWriter c)))"
    "coInFlight c = length (wrPending (coWriter c))" unfolding cinv_def by (auto simp: ac_simps)
  then show ?thesis using at_most_once(1)[OF i(2,1)] by blast
qed

lemma ended_right:
  assumes "c_reach cfg env um db c" and "db_ok db" and "(k, t) \<in> set (coTerms c)" and "(k, payload, now, now') \<in> set (coMsgs c)"
  shows "end_ok env um (wrDb (coWriter c)) payload now' t"
proof -
  from cinv_reach[OF assms(1,2)] have i: "distinct (map fst (coMsgs c))" "list_all (ended_ok env um c) (coTerms c)" by (simp_all add: cinv_def)
  from i(2) assms(3) obtain p n n' where e: "(k, p, n, n') \<in> set (coMsgs c)" "end_ok env um (wrDb (coWriter c)) p n' t"
    by (fastforce simp: list_all_iff ended_ok_def)
  have "p = payload \<and> n' = now'" using eq_key_imp_eq_value[OF i(1) e(1) assms(4)] by simp
  then show ?thesis using e(2) by simp
qed

text \<open>What an ending says. An acknowledged delivery was decoded, and every one of its records that was valid when the writer
  looked at it is in the database; a terminated one could not be decoded or has labels that do not validate.\<close>

theorem consumer_ends_right:
  assumes "c_reach cfg env um db c" and "db_ok db" and "(k, t) \<in> set (coTerms c)" and "(k, payload, now, now') \<in> set (coMsgs c)"
  shows "case t of
      TAck \<Rightarrow> (case um payload of
          None \<Rightarrow> False
        | Some b \<Rightarrow> list_all (\<lambda>r. record_Validate now' r = None \<longrightarrow> stored env (wrDb (coWriter c)) r) (batch_records env b))
    | TTerm \<Rightarrow> (case um payload of None \<Rightarrow> True | Some b \<Rightarrow> labels_Validate (LabelSetFromProto (pbLabels b)) \<noteq> None)
    | TNak \<Rightarrow> True"
  using ended_right[OF assms] by (simp add: end_ok_def)

text \<open>A run: one batch is written and acknowledged, one payload cannot be decoded.\<close>

definition pb_w :: "int \<Rightarrow> pb_LogRecord" where
  "pb_w t = \<lparr>pbTimeUnixNano = t, pbSeq = 1, pbLevel = 0, pbMessage = ''m'', pbTraceId = [], pbSpanId = [], pbFields = []\<rparr>"

definition batch_w :: pb_LogBatch where
  "batch_w = \<lparr>pbBatchId = ''b'', pbLabels = Some \<lparr>pbService = ''s'', pbHost = ''h'', pbEnv = ''e'', pbExtra = []\<rparr>,
     pbRecords = [pb_w 1], pbTraceContext = []\<rparr>"

definition um_w :: "bytes \<Rightarrow> pb_LogBatch option" where
  "um_w payload = (if payload = ''b'' then Some batch_w else None)"

definition drain_w :: "clabel list" where
  "drain_w = [CDeliver 7 ''b'' 0 0, CDeliver 8 ''?'' 0 0, CSent 0, CWriter (LTake 0 0), CWriter (LTimer 0),
     CWriter (LSort 0 [(rec_w 1 ''m'')\<lparr>rTime := 1\<rparr>]), CWriter (LStreams 0 TxOk), CWriter (LMark 0 0), CWriter (LRecords 0 [] TxOk)]"

lemmas c_eval = on_delivery_def enter_def handle_def leave_def terminate_def um_w_def batch_w_def pb_w_def batch_shipment_def batch_records_def
  NewStream_def LabelSetFromProto_def LogRecordFromProto_def NewConsumer_def submit_sent_def writer_moves_def finish_def

lemma drain_w_run:
  "map_option (\<lambda>c. (coTerms c, coMsgs c)) (c_run cfg_w env_w um_w drain_w (NewConsumer start_w)) =
     Some ([(8, TTerm), (7, TAck)], [(7, ''b'', 0, 0), (8, ''?'', 0, 0)])"
  by (simp add: drain_w_def c_eval w_eval wrap16_def Let_def markUpserted_def lru_Put_def lru_insert_def)

lemma c_run_reach: "c_reach cfg env um db c \<Longrightarrow> c_run cfg env um ls c = Some c' \<Longrightarrow> c_reach cfg env um db c'"
  by (induction cfg env um ls c rule: c_run.induct) (auto split: option.splits intro: c_more)

lemma consumer_w_reach: "c_reach cfg_w env_w um_w db_w (NewConsumer start_w)"
proof -
  have "NewWriter cfg_w db_w = Inr \<lparr>wrStarted = False, wrClosing = False, wrQuit = False, wrCtxDone = False, wrClosed = False,
        wrQueue = [], wrDepth = 0, wrPending = [], wrWorkers = [], wrCache = newStreamCache 4 1, wrDb = db_w,
        wrAcks = [], wrDrops = (\<lambda>_. 0), wrResults = [], wrSent = []\<rparr>"
    by (simp add: NewWriter_def writer_Validate_def cfg_w_def)
  from c_init[OF this] show ?thesis by (simp add: start_w_def)
qed

lemma drain_w_state:
  obtains c where "c_reach cfg_w env_w um_w db_w c" "coTerms c = [(8, TTerm), (7, TAck)]" "coMsgs c = [(7, ''b'', 0, 0), (8, ''?'', 0, 0)]"
  using drain_w_run c_run_reach[OF consumer_w_reach, of drain_w] by (cases "c_run cfg_w env_w um_w drain_w (NewConsumer start_w)") auto

theorem consumer_ends_once_witness:
  "\<exists>c. c_reach cfg_w env_w um_w db_w c \<and> coTerms c = [(8, TTerm), (7, TAck)] \<and> coInFlight c = 0 \<and> batch_acks (wrWorkers (coWriter c)) = {#}"
proof -
  obtain c where c: "c_reach cfg_w env_w um_w db_w c" "coTerms c = [(8, TTerm), (7, TAck)]" "coMsgs c = [(7, ''b'', 0, 0), (8, ''?'', 0, 0)]"
    by (rule drain_w_state)
  from consumer_ends_once[OF c(1) db_w_ok] c(2,3) have m: "ack_ids (wrPending (coWriter c)) = []" "batch_acks (wrWorkers (coWriter c)) = {#}"
    "coInFlight c = length (wrPending (coWriter c))" by (simp_all add: add_mset_commute)
  have "wrPending (coWriter c) = []"
    using cinv_reach[OF c(1) db_w_ok] m(1) by (cases "wrPending (coWriter c)") (auto simp: cinv_def msg_of_def)
  then show ?thesis using c m by (intro exI[of _ c]) simp
qed

theorem consumer_ends_right_witness:
  "\<exists>c. c_reach cfg_w env_w um_w db_w c \<and> coTerms c = [(8, TTerm), (7, TAck)] \<and>
     stored env_w (wrDb (coWriter c)) ((rec_w 1 ''m'')\<lparr>rTime := 1\<rparr>)"
proof -
  obtain c where c: "c_reach cfg_w env_w um_w db_w c" "coTerms c = [(8, TTerm), (7, TAck)]" "coMsgs c = [(7, ''b'', 0, 0), (8, ''?'', 0, 0)]"
    by (rule drain_w_state)
  have "batch_records env_w batch_w = [(rec_w 1 ''m'')\<lparr>rTime := 1\<rparr>]" "record_Validate 0 ((rec_w 1 ''m'')\<lparr>rTime := 1\<rparr>) = None"
    by (simp_all add: c_eval w_eval wrap16_def)
  then have "stored env_w (wrDb (coWriter c)) ((rec_w 1 ''m'')\<lparr>rTime := 1\<rparr>)"
    using consumer_ends_right[OF c(1) db_w_ok, of 7 TAck "''b''" 0 0] c by (simp add: um_w_def)
  then show ?thesis using c by blast
qed

end
