(* ===== verification/Collector.thy ===== *)
theory Collector
  imports Ingest_Runs Consumer
begin

text \<open>
  The collector process (\<^verbatim>\<open>cmd/collector/main.go\<close>): the ingest service, the broker's stream, the consumer and the storage writer
  in one state, and the order in which \<^verbatim>\<open>run\<close> shuts them down. The steps of the components interleave freely within that order.
\<close>

record collector =
  clIngest :: ingest
  clConsumer :: consumer
  clStopping :: bool
  clExpired :: bool

definition collector_start :: "wconfig \<Rightarrow> int \<Rightarrow> wstate \<Rightarrow> collector" where
  "collector_start cfg workers w =
     \<lparr>clIngest = newPipeline workers, clConsumer = NewConsumer (writer_Start cfg w), clStopping = False, clExpired = False\<rparr>"

text \<open>The servers end: by a signal, which cancels the context the writer was started with, or by a failure of one of them, which
  does not. Either way the shutdown of the components begins, with a deadline.\<close>

datatype glabel =
    GSignal
  | GFailed
  | GDeadline
  | GIngest ilabel
  | GDeliver nat bytes gotime gotime
  | GConsumer clabel

definition shutdown_order :: "clabel \<Rightarrow> collector \<Rightarrow> bool" where
  "shutdown_order l g =
     (case l of
        CDeliver _ _ _ _ \<Rightarrow> False
      | CStop \<Rightarrow> inQuit (clIngest g) \<and> pipeline_stopped (clIngest g) \<or> clExpired g
      | CWriter LClose \<Rightarrow> coClosing (clConsumer g) \<and> (coInFlight (clConsumer g) = 0 \<or> clExpired g)
      | CWriter LCancel \<Rightarrow> False
      | _ \<Rightarrow> True)"

definition set_consumer :: "collector \<Rightarrow> consumer option \<Rightarrow> collector option" where
  "set_consumer g c = map_option (\<lambda>c'. g\<lparr>clConsumer := c'\<rparr>) c"

fun g_step :: "wconfig \<Rightarrow> wenv \<Rightarrow> ienv \<Rightarrow> (bytes \<Rightarrow> pb_LogBatch option) \<Rightarrow> int \<Rightarrow> glabel \<Rightarrow> collector \<Rightarrow> collector option" where
  "g_step cfg env ienv um cap GSignal g = set_consumer (g\<lparr>clStopping := True\<rparr>) (c_step cfg env um (CWriter LCancel) (clConsumer g))"
| "g_step cfg env ienv um cap GFailed g = Some (g\<lparr>clStopping := True\<rparr>)"
| "g_step cfg env ienv um cap GDeadline g = (if clStopping g then Some (g\<lparr>clExpired := True\<rparr>) else None)"
| "g_step cfg env ienv um cap (GIngest l) g =
     (if l = IShut \<longrightarrow> clStopping g then map_option (\<lambda>i. g\<lparr>clIngest := i\<rparr>) (i_step ienv cap l (clIngest g)) else None)"
| "g_step cfg env ienv um cap (GDeliver k payload now now') g =
     (if payload \<in> snd ` set (inBroker (clIngest g)) then set_consumer g (c_step cfg env um (CDeliver k payload now now') (clConsumer g)) else None)"
| "g_step cfg env ienv um cap (GConsumer l) g =
     (if shutdown_order l g then set_consumer g (c_step cfg env um l (clConsumer g)) else None)"

fun g_run :: "wconfig \<Rightarrow> wenv \<Rightarrow> ienv \<Rightarrow> (bytes \<Rightarrow> pb_LogBatch option) \<Rightarrow> int \<Rightarrow> glabel list \<Rightarrow> collector \<Rightarrow> collector option" where
  "g_run cfg env ienv um cap [] g = Some g"
| "g_run cfg env ienv um cap (l # ls) g = (case g_step cfg env ienv um cap l g of None \<Rightarrow> None | Some g1 \<Rightarrow> g_run cfg env ienv um cap ls g1)"

inductive g_reach :: "wconfig \<Rightarrow> wenv \<Rightarrow> ienv \<Rightarrow> (bytes \<Rightarrow> pb_LogBatch option) \<Rightarrow> int \<Rightarrow> int \<Rightarrow> database \<Rightarrow> collector \<Rightarrow> bool"
  for cfg env ienv um cap workers db where
  g_init: "NewWriter cfg db = Inr w \<Longrightarrow> g_reach cfg env ienv um cap workers db (collector_start cfg workers w)"
| g_more: "g_reach cfg env ienv um cap workers db g \<Longrightarrow> g_step cfg env ienv um cap l g = Some g' \<Longrightarrow> g_reach cfg env ienv um cap workers db g'"

subsection \<open>The components in the composition\<close>

lemma set_consumer_Some: "set_consumer g c = Some g' \<longleftrightarrow> (\<exists>c'. c = Some c' \<and> g' = g\<lparr>clConsumer := c'\<rparr>)"
  by (cases c) (auto simp: set_consumer_def)

lemma g_step_parts:
  assumes "g_step cfg env ienv um cap l g = Some g'"
  shows "clIngest g' = clIngest g \<or> (\<exists>l'. i_step ienv cap l' (clIngest g) = Some (clIngest g'))"
    and "clConsumer g' = clConsumer g \<or> (\<exists>l'. c_step cfg env um l' (clConsumer g) = Some (clConsumer g'))"
proof -
  show "clIngest g' = clIngest g \<or> (\<exists>l'. i_step ienv cap l' (clIngest g) = Some (clIngest g'))"
    using assms by (cases l) (auto simp: set_consumer_Some split: if_splits)
  have "(\<exists>l' c'. c_step cfg env um l' (clConsumer g) = Some c' \<and> clConsumer g' = c') \<or> clConsumer g' = clConsumer g"
  proof (cases l)
    case GSignal
    then show ?thesis using assms by (auto simp: set_consumer_Some simp del: c_step.simps)
  qed (use assms in \<open>auto simp: set_consumer_Some split: if_splits simp del: c_step.simps\<close>)
  then show "clConsumer g' = clConsumer g \<or> (\<exists>l'. c_step cfg env um l' (clConsumer g) = Some (clConsumer g'))" by blast
qed

lemma g_reach_parts:
  assumes "g_reach cfg env ienv um cap workers db g"
  shows "i_reach ienv cap workers (clIngest g)" "c_reach cfg env um db (clConsumer g)"
proof -
  have "i_reach ienv cap workers (clIngest g) \<and> c_reach cfg env um db (clConsumer g)"
    using assms
  proof (induction rule: g_reach.induct)
    case (g_init w)
    then show ?case by (simp add: collector_start_def i_init c_init)
  next
    case (g_more g l g')
    then show ?case using g_step_parts[OF g_more.hyps(2)] i_reach.i_more c_reach.c_more by metis
  qed
  then show "i_reach ienv cap workers (clIngest g)" "c_reach cfg env um db (clConsumer g)" by blast+
qed

subsection \<open>From the agent's answer to the database\<close>

text \<open>The documented behaviour of protobuf: what is encoded decodes to itself.\<close>

definition proto_law :: "ienv \<Rightarrow> (bytes \<Rightarrow> pb_LogBatch option) \<Rightarrow> bool" where
  "proto_law ienv um \<longleftrightarrow> (\<forall>b p. igMarshal ienv b = Some p \<longrightarrow> um p = Some b)"

lemma forwarded_end:
  assumes "forwards ienv b valid payload" and "proto_law ienv um" and "igLib ienv = weLib env" and "end_ok env um db payload now' t"
  shows "t \<noteq> TTerm" "t = TAck \<Longrightarrow>
    list_all (\<lambda>r. record_Validate now' r = None \<longrightarrow> stored env db r) (map (\<lambda>pb. LogRecordFromProto (stream_id ienv b) (Some pb)) valid)"
proof -
  let ?b = "\<lparr>pbBatchId = pbBatchId b, pbLabels = pbLabels b, pbRecords = valid, pbTraceContext = []\<rparr>"
  have um: "um payload = Some ?b" using assms(1,2) by (auto simp: forwards_def proto_law_def)
  have recs: "batch_records env ?b = map (\<lambda>pb. LogRecordFromProto (stream_id ienv b) (Some pb)) valid"
    by (simp add: batch_records_def stream_id_def assms(3))
  show "t \<noteq> TTerm" using assms(1,4) by (auto simp: end_ok_def um forwards_def)
  show "list_all (\<lambda>r. record_Validate now' r = None \<longrightarrow> stored env db r) (map (\<lambda>pb. LogRecordFromProto (stream_id ienv b) (Some pb)) valid)"
    if "t = TAck" using assms(4) that recs by (simp add: end_ok_def um)
qed


subsection \<open>Stopping on a signal\<close>

definition workers_stopped :: "wstate \<Rightarrow> bool" where
  "workers_stopped s \<longleftrightarrow> list_all (\<lambda>w. wkMode w = Stopped) (wrWorkers s)"

lemma stopped_idle:
  assumes "winv cfg env s" and "workers_stopped s"
  shows "m \<noteq> Stopped \<Longrightarrow> idle_worker i m s = None" "flushing_worker i s = None"
proof -
  show "m \<noteq> Stopped \<Longrightarrow> idle_worker i m s = None" using assms(2) by (auto simp: idle_worker_def workers_stopped_def list_all_length)
  have "wkFlush w = None" if "w \<in> set (wrWorkers s)" for w
    using assms that by (auto simp: winv_def worker_ok_def stage_ok_def workers_stopped_def list_all_iff split: option.splits)
  then show "flushing_worker i s = None" by (auto simp: flushing_worker_def)
qed

text \<open>With every worker stopped nothing is read from the channel but by the end of \<^verbatim>\<open>Close\<close>, and no callback succeeds.\<close>

lemma stopped_step:
  assumes inv: "winv cfg env s" and st: "workers_stopped s" and f: "w_step cfg env l s = Some s'"
  shows "workers_stopped s' \<and> (\<forall>k. (k, None) \<in> set (wrAcks s') \<longrightarrow> (k, None) \<in> set (wrAcks s)) \<and>
    (l \<noteq> LQuit \<or> \<not> wrClosing s \<longrightarrow> wrQuit s' = wrQuit s) \<and> (l \<noteq> LClose \<longrightarrow> wrClosing s' = wrClosing s) \<and>
    (\<not> wrQuit s \<longrightarrow> length (wrQueue s) \<le> length (wrQueue s')) \<and>
    (\<not> wrQuit s \<and> int (length (wrQueue s)) = wcQueueDepth cfg \<and> (\<forall>j. l \<noteq> LSubmitCtx j) \<longrightarrow> length (wrPending s) \<le> length (wrPending s'))"
  using f st stopped_idle[OF inv st]
  by (cases l) (auto simp: workers_stopped_def writer_Submit_def submit_return_def writer_drop_def submit_send_def take_pending_def submit_quit_def
      submit_ctx_def submit_refuse_def worker_take_def worker_timer_def worker_stop_def drain_take_def drain_end_def flush_sort_def
      commitStreams_def mark_streams_def commitRecords_def close_begin_def close_quit_def drainAbandoned_def drained_def Let_def
      split: option.splits if_splits list.splits)

lemma handle_writer:
  "coWriter (handle env um k payload now now' c) = coWriter c \<or>
     (\<exists>sh. coWriter (handle env um k payload now now' c) = writer_Submit env sh now' (coWriter c))"
proof (cases "um payload")
  case (Some b)
  then show ?thesis
    by (cases "labels_Validate (LabelSetFromProto (pbLabels b)) = None")
      (auto simp: handle_def Let_def leave_def terminate_def split: sum.splits)
qed (simp add: handle_def)

lemma c_step_writer:
  assumes "c_step cfg env um l c = Some c'"
  obtains "coWriter c' = coWriter c" | l' where "w_step cfg env l' (coWriter c) = Some (coWriter c')" "l' \<in> {LClose, LQuit} \<longrightarrow> l = CWriter l'" "\<forall>j. l' \<noteq> LSubmitCtx j"
proof (cases l)
  case (CDeliver k payload now now')
  then have c': "c' = on_delivery env um k payload now now' c" using assms by (auto split: if_splits)
  show thesis
  proof (cases "coClosing c")
    case True
    then show thesis using that(1) by (simp add: c' on_delivery_def enter_def)
  next
    case False
    then have e: "c' = handle env um k payload now now' (c\<lparr>coInFlight := coInFlight c + 1, coMsgs := coMsgs c @ [(k, payload, now, now')]\<rparr>)"
      by (simp add: c' on_delivery_def enter_def)
    from handle_writer[of env um k payload now now' "c\<lparr>coInFlight := coInFlight c + 1, coMsgs := coMsgs c @ [(k, payload, now, now')]\<rparr>"]
    show thesis
    proof
      assume "coWriter (handle env um k payload now now' (c\<lparr>coInFlight := coInFlight c + 1, coMsgs := coMsgs c @ [(k, payload, now, now')]\<rparr>)) =
        coWriter (c\<lparr>coInFlight := coInFlight c + 1, coMsgs := coMsgs c @ [(k, payload, now, now')]\<rparr>)"
      then show thesis using that(1) e by simp
    next
      assume "\<exists>sh. coWriter (handle env um k payload now now' (c\<lparr>coInFlight := coInFlight c + 1, coMsgs := coMsgs c @ [(k, payload, now, now')]\<rparr>)) =
        writer_Submit env sh now' (coWriter (c\<lparr>coInFlight := coInFlight c + 1, coMsgs := coMsgs c @ [(k, payload, now, now')]\<rparr>))"
      then obtain sh where "w_step cfg env (LSubmit sh now') (coWriter c) = Some (coWriter c')" using e by auto
      then show thesis using that(2) by blast
    qed
  qed
next
  case (CSent j)
  then have "w_step cfg env (LSend j) (coWriter c) = Some (coWriter c')" using assms by (auto simp: submit_sent_def split: option.splits)
  then show thesis using that(2) by blast
next
  case (CRefused j)
  then have "w_step cfg env (LSubmitQuit j) (coWriter c) = Some (coWriter c')"
    using assms by (auto simp: submit_refused_def Let_def split: option.splits)
  then show thesis using that(2) by blast
next
  case (CWriter l')
  then have "w_step cfg env l' (coWriter c) = Some (coWriter c')" "\<forall>j. l' \<noteq> LSubmitCtx j"
    using assms by (auto simp: writer_moves_own split: if_splits)
  then show thesis using that(2) CWriter by blast
next
  case CStop
  then show thesis using that(1) assms by (auto simp: consumer_stop_def)
qed

lemma g_step_writer:
  assumes "g_step cfg env ienv um cap l g = Some g'"
  obtains "coWriter (clConsumer g') = coWriter (clConsumer g)"
    | l' where "w_step cfg env l' (coWriter (clConsumer g)) = Some (coWriter (clConsumer g'))" "l' \<in> {LClose, LQuit} \<longrightarrow> l = GConsumer (CWriter l')" "\<forall>j. l' \<noteq> LSubmitCtx j"
proof (cases l)
  case GSignal
  then show thesis using assms that(2)[of LCancel] by (auto simp: set_consumer_Some writer_moves_own split: if_splits)
next
  case (GDeliver k payload now now')
  then obtain c' where c': "c_step cfg env um (CDeliver k payload now now') (clConsumer g) = Some c'" "clConsumer g' = c'"
    using assms by (auto simp: set_consumer_Some simp del: c_step.simps split: if_splits)
  show thesis by (rule c_step_writer[OF c'(1)]) (use that c'(2) in auto)
next
  case (GConsumer l1)
  then obtain c' where c': "c_step cfg env um l1 (clConsumer g) = Some c'" "clConsumer g' = c'"
    using assms by (auto simp: set_consumer_Some simp del: c_step.simps split: if_splits)
  show thesis by (rule c_step_writer[OF c'(1)]) (use that c'(2) GConsumer in auto)
qed (use assms that(1) in \<open>auto split: if_splits\<close>)

lemma g_reach_winv:
  assumes "g_reach cfg env ienv um cap workers db g" and "db_ok db"
  shows "winv cfg env (coWriter (clConsumer g))"
  using cinv_reach[OF g_reach_parts(2)[OF assms(1)] assms(2)] winv_reach[OF _ assms(2)] by (simp add: cinv_def)


definition blocked :: "wconfig \<Rightarrow> nat \<Rightarrow> collector \<Rightarrow> bool" where
  "blocked cfg n g \<longleftrightarrow>
     (let w = coWriter (clConsumer g) in
      \<not> clExpired g \<and> \<not> wrClosing w \<and> \<not> wrQuit w \<and> workers_stopped w \<and> int (length (wrQueue w)) = wcQueueDepth cfg \<and> n \<le> length (wrPending w))"

lemma blocked_step:
  assumes reach: "g_reach cfg env ienv um cap workers db g" and ok: "db_ok db" and f: "g_step cfg env ienv um cap l g = Some g'"
    and l: "l \<noteq> GDeadline" and b: "blocked cfg n g" and n: "0 < n"
  shows "blocked cfg n g'"
proof -
  let ?w = "coWriter (clConsumer g)" let ?w' = "coWriter (clConsumer g')"
  have b': "\<not> clExpired g" "\<not> wrClosing ?w" "\<not> wrQuit ?w" "workers_stopped ?w" "int (length (wrQueue ?w)) = wcQueueDepth cfg"
    "n \<le> length (wrPending ?w)" using b by (simp_all add: blocked_def Let_def)
  have e: "\<not> clExpired g'" using f l b'(1) by (cases l) (auto simp: set_consumer_Some split: if_splits)
  have inv': "winv cfg env ?w'" using g_reach_winv[OF g_more[OF reach f] ok] .
  have "coInFlight (clConsumer g) \<noteq> 0"
    using cinv_reach[OF g_reach_parts(2)[OF reach] ok] b'(6) n by (auto simp: cinv_def)
  then have nl: "l \<noteq> GConsumer (CWriter LClose)" using f b'(1) by (auto simp: shutdown_order_def)
  from f show ?thesis
  proof (rule g_step_writer)
    assume "?w' = ?w"
    then show ?thesis using b' e by (simp add: blocked_def)
  next
    fix l' assume l': "w_step cfg env l' ?w = Some ?w'" "l' \<in> {LClose, LQuit} \<longrightarrow> l = GConsumer (CWriter l')" "\<forall>j. l' \<noteq> LSubmitCtx j"
    then have "l' \<noteq> LClose" using nl by blast
    with stopped_step[OF g_reach_winv[OF reach ok] b'(4) l'(1)] b' l'(3)
    have s: "workers_stopped ?w'" "\<not> wrQuit ?w'" "\<not> wrClosing ?w'" "length (wrQueue ?w) \<le> length (wrQueue ?w')"
      "length (wrPending ?w) \<le> length (wrPending ?w')" by auto
    moreover have "int (length (wrQueue ?w')) \<le> wcQueueDepth cfg" using inv' by (simp add: winv_def)
    ultimately show ?thesis using b' e by (simp add: blocked_def Let_def)
  qed
qed

text \<open>C36. A signal can make shutdown hang until its deadline. With the workers stopped by the signal, the channel full and a handler
  waiting in \<^verbatim>\<open>Submit\<close>, the handler neither sends nor is refused in any continuation within the deadline: the consumer's \<^verbatim>\<open>Stop\<close>
  waits for it, and the writer, whose \<^verbatim>\<open>Close\<close> would refuse it, is only closed after \<^verbatim>\<open>Stop\<close> has returned.\<close>

theorem signal_blocks_stop:
  assumes "g_reach cfg env ienv um cap workers db g" and "db_ok db" and "blocked cfg n g" and "0 < n"
    and "g_run cfg env ienv um cap ls g = Some g'" and "GDeadline \<notin> set ls"
  shows "n \<le> coInFlight (clConsumer g') \<and> \<not> wrClosing (coWriter (clConsumer g'))"
  using assms
proof (induction ls arbitrary: g)
  case Nil
  then show ?case using cinv_reach[OF g_reach_parts(2)[OF Nil.prems(1)] Nil.prems(2)] by (simp add: cinv_def blocked_def Let_def)
next
  case (Cons l ls)
  then obtain g1 where g1: "g_step cfg env ienv um cap l g = Some g1" "g_run cfg env ienv um cap ls g1 = Some g'" by (auto split: option.splits)
  have "blocked cfg n g1" using blocked_step[OF Cons.prems(1,2) g1(1) _ Cons.prems(3,4)] Cons.prems(6) by auto
  then show ?case using Cons.IH[OF g_more[OF Cons.prems(1) g1(1)] Cons.prems(2) _ Cons.prems(4) g1(2)] Cons.prems(6) by simp
qed

subsection \<open>Runs\<close>

text \<open>One batch goes through ingest and the broker; the delivery of the message comes at once, eight days later, or after a signal.\<close>

definition env_g :: ienv where
  "env_g = env_i\<lparr>igMarshal := (\<lambda>b. if b = batch_w then Some ''b'' else None)\<rparr>"

definition start_g :: collector where
  "start_g = \<lparr>clIngest = newPipeline 1, clConsumer = NewConsumer start_w, clStopping = False, clExpired = False\<rparr>"

definition ingest_g :: "glabel list" where
  "ingest_g = map GIngest [IOpen, IRecv 0 batch_w 0 True, ITake 0, IPublish 0 PubOk, IReply 0 True]"

lemma start_g_reach: "g_reach cfg_w env_w env_g um_w 1 1 db_w start_g"
proof -
  have "NewWriter cfg_w db_w = Inr \<lparr>wrStarted = False, wrClosing = False, wrQuit = False, wrCtxDone = False, wrClosed = False,
        wrQueue = [], wrDepth = 0, wrPending = [], wrWorkers = [], wrCache = newStreamCache 4 1, wrDb = db_w,
        wrAcks = [], wrDrops = (\<lambda>_. 0), wrResults = [], wrSent = []\<rparr>"
    by (simp add: NewWriter_def writer_Validate_def cfg_w_def)
  from g_init[OF this] show ?thesis by (simp add: collector_start_def start_g_def start_w_def)
qed

lemma g_run_reach:
  "g_reach cfg env ienv um cap workers db g \<Longrightarrow> g_run cfg env ienv um cap ls g = Some g' \<Longrightarrow> g_reach cfg env ienv um cap workers db g'"
  by (induction cfg env ienv um cap ls g rule: g_run.induct) (auto split: option.splits intro: g_more simp del: g_step.simps)

lemma g_run_append:
  "g_run cfg env ienv um cap (ls @ ls') g = (case g_run cfg env ienv um cap ls g of None \<Rightarrow> None | Some g1 \<Rightarrow> g_run cfg env ienv um cap ls' g1)"
  by (induction ls arbitrary: g) (auto split: option.splits simp del: g_step.simps)

lemma batch_g_simps:
  "labels_Validate (LabelSetFromProto (pbLabels batch_w)) = None" "acceptable_pb 5 0 [pb_w 1] = [pb_w 1]" "pbRecords batch_w = [pb_w 1]"
  "label_ID (igLib env_g) ls = 5" "pbBatchId batch_w = ''b''" "igMarshal env_g b = (if b = batch_w then Some ''b'' else None)"
  "\<lparr>pbBatchId = ''b'', pbLabels = pbLabels batch_w, pbRecords = [pb_w 1], pbTraceContext = []\<rparr> = batch_w"
  by (simp_all add: batch_w_def pb_w_def env_g_def i_eval)

text \<open>The state after ingest: the agent has its answer, the broker the message.\<close>

definition ingested_g :: collector where
  "ingested_g = start_g\<lparr>clIngest := (newPipeline 1)\<lparr>
     inStreams := [\<lparr>hsWait = None, hsEnded = False,
       hsAcks = [\<lparr>akBatchId = ''b'', akCode = ACCEPTED, akAccepted = 1, akRejected = 0, akDetail = []\<rparr>], hsBatches = [batch_w]\<rparr>],
     inNext := 1, inBroker := [(subject_of env_g batch_w, ''b'')],
     inFanout := [(Subject ''tail'' ''e'' ''s'', ''b'')], inReceived := 1, inAccepted := 1, inAckCount := (\<lambda>_. 0)(''accepted'' := 1)\<rparr>\<rparr>"

lemma ingested_g_run: "g_run cfg_w env_w env_g um_w 1 ingest_g start_g = Some ingested_g"
proof -
  have u: "uint32 0 = 0" by (simp add: uint32_def)
  have l: "Env (LabelSetFromProto (pbLabels batch_w)) = ''e''" "Service (LabelSetFromProto (pbLabels batch_w)) = ''s''" "igTailPrefix env_g = ''tail''"
    by (simp_all add: batch_w_def LabelSetFromProto_def env_g_def env_i_def)
  show ?thesis
    by (simp add: ingest_g_def start_g_def ingested_g_def i_step_eval batch_g_simps subject_of_def l u Let_def fun_eq_iff)
qed

lemma ingested_g_reach: "g_reach cfg_w env_w env_g um_w 1 1 db_w ingested_g"
  using g_run_reach[OF start_g_reach ingested_g_run] .

lemma proto_law_w: "proto_law env_g um_w"
  by (auto simp: proto_law_def env_g_def um_w_def)

definition written_g :: "glabel list" where
  "written_g = GDeliver 7 ''b'' 0 0 # map GConsumer [CSent 0, CWriter (LTake 0 0), CWriter (LTimer 0),
     CWriter (LSort 0 [(rec_w 1 ''m'')\<lparr>rTime := 1\<rparr>]), CWriter (LStreams 0 TxOk), CWriter (LMark 0 0), CWriter (LRecords 0 [] TxOk)]"

lemmas g_eval = shutdown_order_def set_consumer_def ingested_g_def start_g_def c_eval w_eval wrap16_def Let_def

lemma written_g_run:
  "map_option (\<lambda>g. (coTerms (clConsumer g), coMsgs (clConsumer g), map hsBatches (inStreams (clIngest g)), map (map akCode \<circ> hsAcks) (inStreams (clIngest g)),
       inBroker (clIngest g)))
     (g_run cfg_w env_w env_g um_w 1 written_g ingested_g) =
   Some ([(7, TAck)], [(7, ''b'', 0, 0)], [[batch_w]], [[ACCEPTED]], [(subject_of env_g batch_w, ''b'')])"
  by (simp add: written_g_def g_eval markUpserted_def lru_Put_def lru_insert_def)



text \<open>Runs after a signal: the worker stops, one shipment is left in the channel and a second handler waits.\<close>

definition signaled_g :: "glabel list" where
  "signaled_g = [GSignal, GConsumer (CWriter (LStop 0)), GConsumer (CWriter (LDrainEnd 0)), GDeliver 7 ''b'' 0 0, GConsumer (CSent 0), GDeliver 8 ''b'' 0 0]"

lemma signaled_g_run:
  "map_option (\<lambda>g. (blocked cfg_w 1 g, wrResults (coWriter (clConsumer g)), wrAcks (coWriter (clConsumer g)))) (g_run cfg_w env_w env_g um_w 1 signaled_g ingested_g) =
     Some (True, [Inr 1], [])"
  by (simp add: signaled_g_def blocked_def workers_stopped_def g_eval)

lemma signaled_g_state:
  obtains g where "g_run cfg_w env_w env_g um_w 1 signaled_g ingested_g = Some g" "g_reach cfg_w env_w env_g um_w 1 1 db_w g" "blocked cfg_w 1 g"
    "wrAcks (coWriter (clConsumer g)) = []"
  using signaled_g_run g_run_reach[OF ingested_g_reach, of signaled_g] by (cases "g_run cfg_w env_w env_g um_w 1 signaled_g ingested_g") auto


theorem signal_blocks_stop_witness:
  "\<exists>g g'. g_run cfg_w env_w env_g um_w 1 signaled_g ingested_g = Some g \<and>
     g_run cfg_w env_w env_g um_w 1 [GIngest IShut, GIngest (IEnd 0), GIngest IClose, GIngest (IPubQuit 0), GIngest (IPubDone 0), GConsumer CStop] g = Some g' \<and>
     1 \<le> coInFlight (clConsumer g')"
proof -
  let ?ls = "[GIngest IShut, GIngest (IEnd 0), GIngest IClose, GIngest (IPubQuit 0), GIngest (IPubDone 0), GConsumer CStop]"
  obtain g where g: "g_run cfg_w env_w env_g um_w 1 signaled_g ingested_g = Some g" "g_reach cfg_w env_w env_g um_w 1 1 db_w g" "blocked cfg_w 1 g"
    by (rule signaled_g_state)
  have "g_run cfg_w env_w env_g um_w 1 (signaled_g @ ?ls) ingested_g \<noteq> None"
    by (simp add: signaled_g_def g_eval i_step_eval publisher_quit_def publisher_done_def pipeline_stopped_def consumer_stop_def)
  then obtain g' where g': "g_run cfg_w env_w env_g um_w 1 ?ls g = Some g'" unfolding g_run_append g(1) by auto
  from signal_blocks_stop[OF g(2) db_w_ok g(3) _ g'] g(1) g' show ?thesis by auto
qed

end
