(* ===== verification/Extract.thy ===== *)
theory Extract
  imports Records
begin

text \<open>
  Field extraction of the agent (\<^verbatim>\<open>internal/agent/extract.go\<close>): named groups of a pattern and the keys of a JSON object become
  fields of a record, within the limits the collector will check. A pattern is its group names and its matches; JSON is a
  parameter: the keys and raw values of the object a text starts with, or failure, compaction and unquoting.
\<close>

record pattern =
  rxNames :: "string list"
  rxSubmatch :: "bytes \<Rightarrow> (nat \<times> nat) option list option"

record jsonlib =
  jsObject :: "bytes \<Rightarrow> (string \<times> bytes) list option"
  jsCompact :: "bytes \<Rightarrow> bytes option"
  jsUnquote :: "bytes \<Rightarrow> string option"

record field_extractor =
  exPattern :: "pattern option"
  exJson :: bool
  exLib :: jsonlib

record extract_counters =
  ecMismatches :: nat
  ecUnparsed :: nat
  ecTruncated :: nat
  ecNameSkipped :: nat
  ecOverflow :: nat

definition hasNamedGroup :: "pattern \<Rightarrow> bool" where
  "hasNamedGroup re \<longleftrightarrow> list_ex (\<lambda>n. n \<noteq> []) (rxNames re)"

definition NewExtractor :: "jsonlib \<Rightarrow> pattern option \<Rightarrow> bool \<Rightarrow> field_extractor option" where
  "NewExtractor js re json =
     (case re of
        Some r \<Rightarrow> if \<not> hasNamedGroup r then None else Some \<lparr>exPattern = re, exJson = json, exLib = js\<rparr>
      | None \<Rightarrow> Some \<lparr>exPattern = re, exJson = json, exLib = js\<rparr>)"

definition truncateAtRuneBoundary :: "string \<Rightarrow> nat \<Rightarrow> string" where
  "truncateAtRuneBoundary s limit = (if length s \<le> limit then s else take (cut_back s limit) s)"

text \<open>A map that is nil is empty.\<close>

type_synonym efields = "string gomap \<times> extract_counters"

definition addField :: "string \<Rightarrow> string \<Rightarrow> efields \<Rightarrow> efields" where
  "addField name value = (\<lambda>(fields, c).
     if name = [] \<or> length name > MaxFieldNameLen then (fields, c\<lparr>ecNameSkipped := ecNameSkipped c + 1\<rparr>)
     else if name \<notin> fst ` set fields \<and> length fields \<ge> MaxFields then (fields, c\<lparr>ecOverflow := ecOverflow c + 1\<rparr>)
     else if length value > MaxFieldValueLen
       then (AList.update name (truncateAtRuneBoundary value MaxFieldValueLen) fields, c\<lparr>ecTruncated := ecTruncated c + 1\<rparr>)
     else (AList.update name value fields, c))"

fun regex_fields :: "bytes \<Rightarrow> string list \<Rightarrow> (nat \<times> nat) option list \<Rightarrow> efields \<Rightarrow> efields" where
  "regex_fields b (name # names) (loc # locs) f =
     regex_fields b names locs
       (if name = [] then f
        else case loc of None \<Rightarrow> f | Some (s, e) \<Rightarrow> addField name (take (e - s) (drop s b)) f)"
| "regex_fields b names locs f = f"

definition extractRegex :: "pattern \<Rightarrow> bytes \<Rightarrow> efields \<Rightarrow> efields" where
  "extractRegex re b = (\<lambda>(fields, c).
     case rxSubmatch re b of
       None \<Rightarrow> (fields, c\<lparr>ecMismatches := ecMismatches c + 1\<rparr>)
     | Some locs \<Rightarrow> regex_fields b (rxNames re) locs (fields, c))"

definition jsonValueString :: "jsonlib \<Rightarrow> bytes \<Rightarrow> string" where
  "jsonValueString js raw =
     (let t = trim_space raw in
      case t of
        [] \<Rightarrow> []
      | ch # _ \<Rightarrow>
          if ch = CHR ''{'' \<or> ch = CHR ''['' then (case jsCompact js t of None \<Rightarrow> t | Some s \<Rightarrow> s)
          else if byte ch = (34::nat) then (case jsUnquote js t of None \<Rightarrow> t | Some s \<Rightarrow> s)
          else t)"

definition extractJSON :: "jsonlib \<Rightarrow> bytes \<Rightarrow> efields \<Rightarrow> efields" where
  "extractJSON js b = (\<lambda>(fields, c).
     case jsObject js b of
       None \<Rightarrow> (fields, c\<lparr>ecUnparsed := ecUnparsed c + 1\<rparr>)
     | Some pairs \<Rightarrow> fold (\<lambda>(k, raw). addField k (jsonValueString js raw)) pairs (fields, c))"

definition Fields :: "field_extractor \<Rightarrow> bytes \<Rightarrow> extract_counters \<Rightarrow> efields" where
  "Fields ex b c =
     (let f1 = (case exPattern ex of None \<Rightarrow> ([], c) | Some re \<Rightarrow> extractRegex re b ([], c))
      in if exJson ex then extractJSON (exLib ex) b f1 else f1)"

subsection \<open>Reference\<close>

text \<open>The candidates in the order they are tried: those of the pattern, then those of the object.\<close>

fun regex_cands :: "bytes \<Rightarrow> string list \<Rightarrow> (nat \<times> nat) option list \<Rightarrow> (string \<times> string) list" where
  "regex_cands b (name # names) (loc # locs) =
     (case loc of Some (s, e) \<Rightarrow> if name = [] then [] else [(name, take (e - s) (drop s b))] | None \<Rightarrow> []) @ regex_cands b names locs"
| "regex_cands b names locs = []"

definition candidates :: "field_extractor \<Rightarrow> bytes \<Rightarrow> (string \<times> string) list" where
  "candidates ex b =
     (case exPattern ex of
        None \<Rightarrow> []
      | Some re \<Rightarrow> (case rxSubmatch re b of None \<Rightarrow> [] | Some locs \<Rightarrow> regex_cands b (rxNames re) locs)) @
     (if exJson ex then (case jsObject (exLib ex) b of None \<Rightarrow> [] | Some ps \<Rightarrow> map (\<lambda>(k, raw). (k, jsonValueString (exLib ex) raw)) ps) else [])"

definition name_ok :: "string \<Rightarrow> bool" where
  "name_ok n \<longleftrightarrow> n \<noteq> [] \<and> length n \<le> MaxFieldNameLen"

lemma regex_fields_cands: "regex_fields b names locs f = fold (\<lambda>(n, v). addField n v) (regex_cands b names locs) f"
  by (induction b names locs f rule: regex_fields.induct) (auto split: option.splits prod.splits)

lemma addField_counters: "fst (addField n v (fs, c)) = fst (addField n v (fs, c'))"
  by (simp add: addField_def)

lemma fold_counters: "fst (fold (\<lambda>(n, v). addField n v) cs f) = fst (fold (\<lambda>(n, v). addField n v) cs (fst f, c'))"
proof (induction cs arbitrary: f c')
  case (Cons nv cs)
  obtain n v where nv: "nv = (n, v)" by (cases nv)
  obtain fs c where f: "f = (fs, c)" by (cases f)
  have "fst (addField n v f) = fst (addField n v (fst f, c'))" using addField_counters[of n v fs c c'] by (simp add: f)
  then show ?case using Cons.IH[of "addField n v f" "snd (addField n v (fst f, c'))"] by (simp add: nv)
qed simp

lemma Fields_candidates: "fst (Fields ex b c) = fst (fold (\<lambda>(n, v). addField n v) (candidates ex b) ([], c))"
proof -
  let ?add = "\<lambda>(n, v). addField n v"
  let ?re = "case exPattern ex of None \<Rightarrow> [] | Some re \<Rightarrow> (case rxSubmatch re b of None \<Rightarrow> [] | Some locs \<Rightarrow> regex_cands b (rxNames re) locs)"
  let ?f1 = "case exPattern ex of None \<Rightarrow> ([], c) | Some re \<Rightarrow> extractRegex re b ([], c)"
  have f1: "fst ?f1 = fst (fold ?add ?re ([], c))"
    by (auto simp: extractRegex_def regex_fields_cands split: option.splits)
  have js: "fst (extractJSON (exLib ex) b f) = fst (fold ?add (case jsObject (exLib ex) b of None \<Rightarrow> []
      | Some ps \<Rightarrow> map (\<lambda>(k, raw). (k, jsonValueString (exLib ex) raw)) ps) f)" for f
    by (cases f) (auto simp: extractJSON_def fold_map comp_def case_prod_beta' split: option.splits)
  show ?thesis
  proof (cases "exJson ex")
    case True
    have "fst (fold ?add xs ?f1) = fst (fold ?add xs (fold ?add ?re ([], c)))" for xs
      using fold_counters[of xs ?f1 c] fold_counters[of xs "fold ?add ?re ([], c)" c] f1 by metis
    then show ?thesis using True js[of ?f1] by (simp add: Fields_def candidates_def Let_def)
  next
    case False
    then show ?thesis using f1 by (simp add: Fields_def candidates_def)
  qed
qed

lemma trunc_length: "length (truncateAtRuneBoundary v n) \<le> n"
  using cut_back_spec[of v n] by (auto simp: truncateAtRuneBoundary_def)

lemma addField_simp:
  "fst (addField n v (fs, c)) =
     (if name_ok n \<and> (n \<in> fst ` set fs \<or> length fs < MaxFields) then AList.update n (truncateAtRuneBoundary v MaxFieldValueLen) fs else fs)"
  by (auto simp: addField_def name_ok_def truncateAtRuneBoundary_def)

lemma update_length: "length (AList.update k v al) = (if k \<in> fst ` set al then length al else Suc (length al))"
  by (induction al) auto

lemma addField_ok:
  assumes "fields_ok fs" and "gomap_ok fs"
  shows "fields_ok (fst (addField n v (fs, c))) \<and> gomap_ok (fst (addField n v (fs, c)))"
proof -
  let ?v = "truncateAtRuneBoundary v MaxFieldValueLen"
  have len: "length ?v \<le> MaxFieldValueLen" by (rule trunc_length)
  have sub: "set (AList.update n ?v fs) \<subseteq> insert (n, ?v) (set fs)" by (induction fs) auto
  have "fields_ok (AList.update n ?v fs)" if "name_ok n" "n \<in> fst ` set fs \<or> length fs < MaxFields"
  proof -
    let ?P = "\<lambda>(n, v). n \<noteq> [] \<and> length n \<le> MaxFieldNameLen \<and> length v \<le> MaxFieldValueLen"
    have "\<forall>x\<in>insert (n, ?v) (set fs). ?P x" using assms(1) that(1) len by (simp add: fields_ok_def list_all_iff name_ok_def)
    then have "list_all ?P (AList.update n ?v fs)" using sub unfolding list_all_iff by blast
    moreover have "length (AList.update n ?v fs) \<le> MaxFields" using assms(1) that(2) by (auto simp: fields_ok_def update_length)
    ultimately show ?thesis by (simp add: fields_ok_def)
  qed
  moreover have "gomap_ok (AList.update n ?v fs)" using assms(2) by (rule distinct_update)
  ultimately show ?thesis using assms by (simp add: addField_simp)
qed

lemma fold_ok:
  assumes "fields_ok fs" and "gomap_ok fs"
  shows "fields_ok (fst (fold (\<lambda>(n, v). addField n v) cs (fs, c))) \<and> gomap_ok (fst (fold (\<lambda>(n, v). addField n v) cs (fs, c)))"
  using assms
proof (induction cs arbitrary: fs c)
  case (Cons nv cs)
  obtain n v where nv: "nv = (n, v)" by (cases nv)
  obtain fs' c' where f: "addField n v (fs, c) = (fs', c')" by (cases "addField n v (fs, c)")
  then show ?case using Cons.IH[of fs' c'] addField_ok[OF Cons.prems, of n v c] by (simp add: nv)
qed simp

lemma fold_exact:
  assumes "card {n \<in> fst ` set cs. name_ok n} \<le> MaxFields"
  shows "map_of (fst (fold (\<lambda>(n, v). addField n v) cs ([], c))) m =
    (if name_ok m then map_option (\<lambda>v. truncateAtRuneBoundary v MaxFieldValueLen) (map_of (rev cs) m) else None)"
  using assms
proof (induction cs arbitrary: m rule: rev_induct)
  case (snoc nv cs)
  obtain n v where nv: "nv = (n, v)" by (cases nv)
  obtain fs c1 where f: "fold (\<lambda>(n, v). addField n v) cs ([], c) = (fs, c1)" by (cases "fold (\<lambda>(n, v). addField n v) cs ([], c)")
  let ?names = "{n \<in> fst ` set cs. name_ok n}"
  have fin: "finite ?names" by simp
  have "card ?names \<le> card {n \<in> fst ` set (cs @ [nv]). name_ok n}" by (rule card_mono) auto
  then have IH: "map_of fs m = (if name_ok m then map_option (\<lambda>v. truncateAtRuneBoundary v MaxFieldValueLen) (map_of (rev cs) m) else None)" for m
    using snoc.IH[of m] snoc.prems f by simp
  have dom: "fst ` set fs = ?names"
  proof (rule set_eqI)
    fix x
    have "x \<in> fst ` set fs \<longleftrightarrow> map_of fs x \<noteq> None" by (simp only: map_of_eq_None_iff) blast
    also have "\<dots> \<longleftrightarrow> name_ok x \<and> map_of (rev cs) x \<noteq> None" by (simp add: IH)
    also have "map_of (rev cs) x \<noteq> None \<longleftrightarrow> x \<in> fst ` set cs" by (simp only: map_of_eq_None_iff set_rev) blast
    finally show "x \<in> fst ` set fs \<longleftrightarrow> x \<in> ?names" by blast
  qed
  have "gomap_ok fs" using fold_ok[of "[]" cs c] by (simp add: f fields_ok_def)
  then have len: "length fs = card ?names" using distinct_card[of "map fst fs"] dom by simp
  have room: "n \<in> fst ` set fs \<or> length fs < MaxFields" if "name_ok n"
  proof (cases "n \<in> ?names")
    case False
    have "{n \<in> fst ` set (cs @ [nv]). name_ok n} = insert n ?names" using that nv by auto
    then show ?thesis using snoc.prems len False card_insert_disjoint[OF fin False] by simp
  qed (simp add: dom)
  have "fst (fold (\<lambda>(n, v). addField n v) (cs @ [nv]) ([], c)) =
      (if name_ok n then AList.update n (truncateAtRuneBoundary v MaxFieldValueLen) fs else fs)"
    using room by (simp add: f nv addField_simp)
  then show ?case using IH[of m] by (auto simp: nv update_conv)
qed simp


text \<open>A line whose object has a field of the same name as a group of the pattern.\<close>

definition ex_e :: field_extractor where
  "ex_e = \<lparr>exPattern = Some \<lparr>rxNames = [[], ''lvl'', ''user''], rxSubmatch = (\<lambda>b. Some [Some (0, length b), Some (0, 2), None])\<rparr>,
     exJson = True, exLib = \<lparr>jsObject = (\<lambda>_. Some [(''lvl'', '' 7 '')]), jsCompact = (\<lambda>_. None), jsUnquote = (\<lambda>_. None)\<rparr>\<rparr>"

definition rec_e :: LogRecord where
  "rec_e = \<lparr>rStreamID = 5, rTime = 0, rSeq = 1, rLevel = 0, rMessage = ''{}'', rTraceID = [], rSpanID = [], rFields = []\<rparr>"

definition cnt_e :: extract_counters where
  "cnt_e = \<lparr>ecMismatches = 0, ecUnparsed = 0, ecTruncated = 0, ecNameSkipped = 0, ecOverflow = 0\<rparr>"


end
