(* ===== verification/Docker.thy ===== *)
theory Docker
  imports Lines Ship_Runs Writer_Runs
begin

text \<open>
  The docker source of the agent (\<^verbatim>\<open>internal/agent/docker.go\<close>): one stream of one container, read line by line with the time the
  daemon put in front of each, and reconnected from the last time seen. Parameters: the parser of times, the demultiplexer of
  framed streams, the clock, and what each connection delivers.
\<close>

definition DockerStdout :: string where "DockerStdout = ''stdout''"
definition DockerStderr :: string where "DockerStderr = ''stderr''"

record docker_config =
  dcContainer :: string
  dcStream :: string
  dcHasClient :: bool
  dcResume :: Cursor

datatype docker_err = NilConfig | EmptyContainer | InvalidDockerStream string | ClientBuild

record docker =
  dkContainer :: string
  dkStream :: string
  dkOwnsClient :: bool
  dkResume :: Cursor

definition NewDockerSource :: "bool \<Rightarrow> docker_config option \<Rightarrow> docker_err + docker" where
  "NewDockerSource client_ok cfg =
     (case cfg of
        None \<Rightarrow> Inl NilConfig
      | Some c \<Rightarrow>
          if dcContainer c = [] then Inl EmptyContainer
          else if dcStream c \<noteq> DockerStdout \<and> dcStream c \<noteq> DockerStderr then Inl (InvalidDockerStream (dcStream c))
          else if \<not> dcHasClient c \<and> \<not> client_ok then Inl ClientBuild
          else Inr \<lparr>dkContainer = dcContainer c, dkStream = dcStream c, dkOwnsClient = \<not> dcHasClient c, dkResume = dcResume c\<rparr>)"

definition docker_Name :: "docker \<Rightarrow> string" where
  "docker_Name s = ''docker/'' @ dkContainer s @ ''/'' @ dkStream s"

text \<open>\<^verbatim>\<open>Close\<close>: a client of its own is closed at the first call, the answer of which later calls repeat; \<open>don\<close> is what
  \<^verbatim>\<open>closeOnce\<close> and \<^verbatim>\<open>closeErr\<close> remember, and the flag says whether the client is closed now.\<close>

definition docker_Close :: "docker \<Rightarrow> bool \<Rightarrow> bool option \<Rightarrow> bool \<times> bool option \<times> bool" where
  "docker_Close s client_fails don =
     (case don of
        Some err \<Rightarrow> (err, don, False)
      | None \<Rightarrow> (let err = dkOwnsClient s \<and> client_fails in (err, Some err, dkOwnsClient s)))"

lemma docker_Close_once: "fst (docker_Close s f' (fst (snd (docker_Close s f None)))) = fst (docker_Close s f None) \<and>
    \<not> snd (snd (docker_Close s f' (fst (snd (docker_Close s f None))))) \<and> (\<not> dkOwnsClient s \<longrightarrow> \<not> snd (snd (docker_Close s f None)))"
  by (simp add: docker_Close_def Let_def)

text \<open>\<open>deDemux\<close> is \<^verbatim>\<open>stdcopy.StdCopy\<close>: the bytes of one stream in what was read, and how reading it ends; \<open>deClock n\<close> is the time
  at which line number \<open>n\<close> of a connection is handled.\<close>

record docker_env =
  deParse :: "string \<Rightarrow> gotime option"
  deDemux :: "bool \<Rightarrow> bufreader \<Rightarrow> bufreader"
  deClock :: "nat \<Rightarrow> gotime"

definition splitDockerTimestamp :: "docker_env \<Rightarrow> bytes \<Rightarrow> bytes \<times> gotime option" where
  "splitDockerTimestamp env line =
     (let idx = length (takeWhile (\<lambda>c. c \<noteq> CHR '' '') line) in
      if idx = length line then (line, None)
      else case deParse env (take idx line) of
        None \<Rightarrow> (line, None)
      | Some t \<Rightarrow> (drop (idx + 1) line, Some t))"

definition toLine :: "docker_env \<Rightarrow> docker \<Rightarrow> nat \<Rightarrow> bytes \<Rightarrow> Line" where
  "toLine env s n raw =
     (let (rest, ts) = (case splitDockerTimestamp env raw of (rest, Some t) \<Rightarrow> (rest, t) | (_, None) \<Rightarrow> (raw, deClock env n));
          nanos = wrap64 ts
      in \<lparr>lnSource = docker_Name s, lnTime = ts, lnBytes = rest,
          lnCursor = \<lparr>curStart = nanos, curOffset = nanos, curFile = noFile, curHead = noFingerprint\<rparr>\<rparr>)"

definition isStdcopyHeader :: "bytes \<Rightarrow> bool" where
  "isStdcopyHeader b \<longleftrightarrow> byte (b ! 0) \<le> (3::nat) \<and> byte (b ! 1) = (0::nat) \<and> byte (b ! 2) = (0::nat) \<and> byte (b ! 3) = (0::nat)"

definition isFramedStream :: "bufreader \<Rightarrow> bool" where
  "isFramedStream rd \<longleftrightarrow> length (rdData rd) \<ge> 8 \<and> isStdcopyHeader (take 8 (rdData rd))"

text \<open>The loop of \<^verbatim>\<open>readLines\<close>; \<open>stop\<close> is the number of lines handed on before the connection is abandoned, if it is.\<close>

function docker_read :: "docker_env \<Rightarrow> docker \<Rightarrow> nat option \<Rightarrow> nat \<Rightarrow> bufreader \<Rightarrow> Line list \<times> read_err option" where
  "docker_read env s stop n rd =
     (case assembler_next rd of
        (line, consumed, terminated, err, rd') \<Rightarrow>
          if consumed > 0 \<and> stop = Some 0 then ([], None)
          else
            let out = (if consumed > 0 then [toLine env s n line] else []) in
            case err of
              Some e \<Rightarrow> (out, Some e)
            | None \<Rightarrow> (case docker_read env s (map_option (\<lambda>k. k - 1) stop) (n + 1) rd' of (ls, r) \<Rightarrow> (out @ ls, r)))"
  by pat_completeness auto
termination
  by (relation "measure (\<lambda>(env, s, stop, n, rd). length (rdData rd))")
    (auto simp: next_spec Let_def first_line_def split: if_splits)

declare docker_read.simps [simp del]

text \<open>The reader the lines come from: what was received, demultiplexed when it is framed.\<close>

definition demuxed :: "docker_env \<Rightarrow> docker \<Rightarrow> bufreader \<Rightarrow> bufreader" where
  "demuxed env s raw = (if isFramedStream raw then deDemux env (dkStream s = DockerStdout) raw else raw)"

definition readLines :: "docker_env \<Rightarrow> docker \<Rightarrow> nat option \<Rightarrow> bufreader \<Rightarrow> Line list \<times> read_err option" where
  "readLines env s stop raw = docker_read env s stop 0 (demuxed env s raw)"

text \<open>\<open>logs\<close> answers a request for the logs: whether stdout and stderr are shown and the time asked for; it refuses, or
  delivers bytes.\<close>

type_synonym logs = "bool \<Rightarrow> bool \<Rightarrow> int option \<Rightarrow> bufreader option"

definition docker_connect :: "docker \<Rightarrow> logs \<Rightarrow> int \<Rightarrow> bufreader option" where
  "docker_connect s logs since =
     logs (dkStream s = DockerStdout) (dkStream s = DockerStderr) (if since > 0 then Some since else None)"

definition readOnce :: "docker_env \<Rightarrow> docker \<Rightarrow> logs \<Rightarrow> nat option \<Rightarrow> int \<Rightarrow> Line list \<times> int \<times> bool" where
  "readOnce env s logs stop since =
     (case docker_connect s logs since of
        None \<Rightarrow> ([], since, False)
      | Some raw \<Rightarrow>
          (let ls = fst (readLines env s stop raw)
           in (ls, if ls = [] then since else curOffset (lnCursor (last ls)), True)))"

text \<open>\<^verbatim>\<open>Run\<close>: the lines handed on, where to go on from, the failed attempts in a row, the reconnections, and whether it has returned.
  A round is what the daemon answers and whether, and after how many lines, the context is canceled during it.\<close>

record docker_run =
  drOut :: "Line list"
  drSince :: int
  drAttempt :: nat
  drReconnects :: nat
  drReturned :: bool

definition docker_start :: "docker \<Rightarrow> docker_run" where
  "docker_start s = \<lparr>drOut = [], drSince = curOffset (dkResume s), drAttempt = 0, drReconnects = 0, drReturned = False\<rparr>"

definition docker_round :: "docker_env \<Rightarrow> docker \<Rightarrow> logs \<times> nat option \<Rightarrow> docker_run \<Rightarrow> docker_run" where
  "docker_round env s = (\<lambda>(logs, stop) r.
     if drReturned r then r
     else case readOnce env s logs stop (drSince r) of
       (ls, since, connected) \<Rightarrow>
         (let r1 = r\<lparr>drOut := drOut r @ ls, drSince := since\<rparr> in
          if stop \<noteq> None then r1\<lparr>drReturned := True\<rparr>
          else r1\<lparr>drAttempt := (if connected then 0 else drAttempt r1) + 1, drReconnects := drReconnects r1 + 1\<rparr>))"

definition docker_Run :: "docker_env \<Rightarrow> docker \<Rightarrow> (logs \<times> nat option) list \<Rightarrow> docker_run" where
  "docker_Run env s rounds = fold (docker_round env s) rounds (docker_start s)"

subsection \<open>Every line of a connection\<close>

text \<open>The lines of a text with their terminators.\<close>

function chunks :: "bytes \<Rightarrow> bytes list" where
  "chunks b = (if b = [] then [] else take (first_line b) b # chunks (drop (first_line b) b))"
  by pat_completeness auto
termination
  by (relation "measure length") (use first_line_pos in auto)

declare chunks.simps [simp del]

lemma concat_chunks: "concat (chunks b) = b"
  by (induction b rule: chunks.induct) (subst chunks.simps, simp)

lemma chunks_lines: "x \<in> set (chunks b) \<Longrightarrow> x \<noteq> [] \<and> newline \<notin> set (butlast x)"
proof (induction b rule: chunks.induct)
  case (1 b)
  show ?case
  proof (cases "b = []")
    case True
    then show ?thesis using 1 by (simp add: chunks.simps)
  next
    case False
    then have "x = take (first_line b) b \<or> x \<in> set (chunks (drop (first_line b) b))" using 1(2) by (subst (asm) chunks.simps) auto
    then show ?thesis using 1(1)[OF False] first_line_no_newline[of b] first_line_pos[OF False] False by auto
  qed
qed

lemma docker_read_all:
  "docker_read env s None n rd = (map2 (toLine env s) [n..<n + length (chunks (rdData rd))] (map cut (chunks (rdData rd))), Some (rdErr rd))"
proof (induction "length (rdData rd)" arbitrary: n rd rule: less_induct)
  case less
  let ?b = "rdData rd"
  show ?case
  proof (cases "line_len ?b < length ?b")
    case False
    then have n: "first_line ?b = length ?b" by (simp add: first_line_def)
    have c: "chunks ?b = (if ?b = [] then [] else [?b])" by (subst chunks.simps) (simp add: n chunks.simps)
    have "docker_read env s None n rd = (if 0 < length ?b then [toLine env s n (cut ?b)] else [], Some (rdErr rd))"
      using False by (subst docker_read.simps) (simp add: next_spec Let_def n)
    then show ?thesis by (simp add: c)
  next
    case True
    let ?m = "first_line ?b"
    have ne: "?b \<noteq> []" "0 < ?m" using True by (auto simp: first_line_def)
    have c: "chunks ?b = take ?m ?b # chunks (drop ?m ?b)" using ne by (subst chunks.simps) simp
    let ?rd = "rd\<lparr>rdData := drop ?m ?b\<rparr>"
    have lt: "length (rdData ?rd) < length ?b" using ne by simp
    have "docker_read env s None n rd =
        (case docker_read env s None (n + 1) ?rd of (ls, r) \<Rightarrow> (toLine env s n (cut (take ?m ?b)) # ls, r))"
      using True ne by (subst docker_read.simps) (simp add: next_spec Let_def split: prod.splits)
    also have "\<dots> = (toLine env s n (cut (take ?m ?b)) # map2 (toLine env s) [n + 1..<n + 1 + length (chunks (drop ?m ?b))]
        (map cut (chunks (drop ?m ?b))), Some (rdErr rd))"
      using less.hyps[OF lt, of "n + 1"] by simp
    also have "toLine env s n (cut (take ?m ?b)) # map2 (toLine env s) [n + 1..<n + 1 + length (chunks (drop ?m ?b))] (map cut (chunks (drop ?m ?b))) =
        map2 (toLine env s) (n # [n + 1..<n + 1 + length (chunks (drop ?m ?b))]) (map cut (chunks ?b))" by (simp add: c)
    also have "n # [n + 1..<n + 1 + length (chunks (drop ?m ?b))] = [n..<n + length (chunks ?b)]"
      by (subst upt_conv_Cons[of n]) (simp_all add: c del: upt_Suc)
    finally show ?thesis .
  qed
qed

lemma takeWhile_upto: "x \<notin> set xs \<Longrightarrow> takeWhile (\<lambda>c. c \<noteq> x) (xs @ x # ys) = xs"
  by (induction xs) auto

lemma toLine_stamped:
  assumes "deParse env ts = Some t" and "CHR '' '' \<notin> set ts"
  shows "toLine env s n (ts @ CHR '' '' # m) = \<lparr>lnSource = docker_Name s, lnTime = t, lnBytes = m,
    lnCursor = \<lparr>curStart = wrap64 t, curOffset = wrap64 t, curFile = noFile, curHead = noFingerprint\<rparr>\<rparr>"
  using assms by (simp add: toLine_def splitDockerTimestamp_def takeWhile_upto Let_def)

lemma docker_read_stop: "fst (docker_read env s (Some k) n rd) = take k (fst (docker_read env s None n rd))"
proof (induction "length (rdData rd)" arbitrary: k n rd rule: less_induct)
  case less
  let ?b = "rdData rd" and ?rd = "rd\<lparr>rdData := drop (first_line (rdData rd)) (rdData rd)\<rparr>"
  show ?case
  proof (cases "line_len ?b < length ?b \<and> 0 < k")
    case True
    then have lt: "length (rdData ?rd) < length ?b" and p: "0 < first_line ?b" by (auto simp: first_line_def)
    have "docker_read env s stop n rd = (case docker_read env s (map_option (\<lambda>k. k - 1) stop) (n + 1) ?rd of
        (ls, r) \<Rightarrow> (toLine env s n (cut (take (first_line ?b) ?b)) # ls, r))" if "stop \<noteq> Some 0" for stop
      using True p that by (subst docker_read.simps) (simp add: next_spec Let_def)
    from this[of "Some k"] this[of None] show ?thesis
      using True less.hyps[OF lt, of "k - 1" "n + 1"] by (auto simp: take_Cons' split: prod.splits)
  next
    case False
    then show ?thesis
      by (subst (1 2) docker_read.simps) (auto simp: next_spec Let_def first_line_def split: prod.splits)
  qed
qed

subsection \<open>Reconnecting loses nothing\<close>

text \<open>What a container wrote: lines with the time the daemon puts in front of them, their instant and their message.\<close>

record docker_entry =
  deStamp :: bytes
  deTime :: gotime
  deMsg :: bytes

definition entry_bytes :: "docker_entry \<Rightarrow> bytes" where
  "entry_bytes e = (deStamp e @ CHR '' '' # deMsg e) @ [newline]"

definition entry_ok :: "docker_env \<Rightarrow> docker_entry \<Rightarrow> bool" where
  "entry_ok env e \<longleftrightarrow> deParse env (deStamp e) = Some (deTime e) \<and> CHR '' '' \<notin> set (deStamp e) \<and>
     newline \<notin> set (deStamp e @ deMsg e) \<and> (deMsg e = [] \<or> last (deMsg e) \<noteq> carriage) \<and>
     length (entry_bytes e) \<le> MaxMessageLen \<and> 0 < deTime e \<and> int64_ok (deTime e)"

definition entry_line :: "docker \<Rightarrow> docker_entry \<Rightarrow> Line" where
  "entry_line s e = \<lparr>lnSource = docker_Name s, lnTime = deTime e, lnBytes = deMsg e,
     lnCursor = \<lparr>curStart = deTime e, curOffset = deTime e, curFile = noFile, curHead = noFingerprint\<rparr>\<rparr>"

lemma entry_line_cut:
  assumes "entry_ok env e"
  shows "toLine env s n (cut (entry_bytes e)) = entry_line s e"
proof -
  have "strip_last carriage (deStamp e @ CHR '' '' # deMsg e) = deStamp e @ CHR '' '' # deMsg e"
    using assms by (auto simp: strip_last_def entry_ok_def carriage_def)
  moreover have "take MaxMessageLen (entry_bytes e) = entry_bytes e" using assms by (simp add: entry_ok_def)
  moreover have "strip_last newline (entry_bytes e) = deStamp e @ CHR '' '' # deMsg e"
    unfolding entry_bytes_def strip_last_def by (simp only: last_snoc butlast_snoc) simp
  ultimately have "cut (entry_bytes e) = deStamp e @ CHR '' '' # deMsg e" by (simp add: cut_def)
  then show ?thesis using assms toLine_stamped[of env "deStamp e" "deTime e" s n "deMsg e"]
    by (simp add: entry_ok_def entry_line_def wrap64_id)
qed

lemma chunks_entries: "list_all (entry_ok env) es \<Longrightarrow> chunks (concat (map entry_bytes es)) = map entry_bytes es"
proof (induction es)
  case Nil
  then show ?case by (simp add: chunks.simps)
next
  case (Cons e es)
  let ?l = "deStamp e @ CHR '' '' # deMsg e" and ?r = "concat (map entry_bytes es)"
  have "newline \<notin> set ?l" using Cons.prems by (auto simp: entry_ok_def newline_def)
  then have "line_len (?l @ newline # ?r) = length ?l" unfolding line_len_def by (simp add: takeWhile_upto del: append_assoc)
  then have "first_line (?l @ newline # ?r) = length (?l @ [newline])" by (simp add: first_line_def)
  moreover have c: "concat (map entry_bytes (e # es)) = ?l @ newline # ?r" by (simp add: entry_bytes_def)
  ultimately have "chunks (concat (map entry_bytes (e # es))) = (?l @ [newline]) # chunks ?r"
    by (subst chunks.simps) simp
  also have "\<dots> = map entry_bytes (e # es)" using Cons by (simp add: entry_bytes_def[of e])
  finally show ?case .
qed

lemma docker_read_entries:
  assumes "list_all (entry_ok env) es" and "rdData rd = concat (map entry_bytes es)"
  shows "fst (docker_read env s None n rd) = map (entry_line s) es"
  using assms by (auto simp: docker_read_all chunks_entries list_all_length entry_line_cut intro!: nth_equalityI)

text \<open>The daemon answers a request for this stream with what it has from the instant asked for on, in order, up to where the
  connection breaks.\<close>

definition asked :: "int option \<Rightarrow> docker_entry \<Rightarrow> bool" where
  "asked since e = (case since of None \<Rightarrow> True | Some t \<Rightarrow> t \<le> deTime e)"

definition delivers :: "docker_env \<Rightarrow> docker \<Rightarrow> docker_entry list \<Rightarrow> logs \<Rightarrow> bool" where
  "delivers env s log logs \<longleftrightarrow> (\<forall>since raw. logs (dkStream s = DockerStdout) (dkStream s = DockerStderr) since = Some raw \<longrightarrow>
     (\<exists>j. rdData (demuxed env s raw) = concat (map entry_bytes (take j (filter (asked since) log)))))"

text \<open>It answers completely when no connection breaks.\<close>

definition delivers_all :: "docker_env \<Rightarrow> docker \<Rightarrow> docker_entry list \<Rightarrow> logs \<Rightarrow> bool" where
  "delivers_all env s log logs \<longleftrightarrow> (\<forall>since. \<exists>raw. logs (dkStream s = DockerStdout) (dkStream s = DockerStderr) since = Some raw \<and>
     rdData (demuxed env s raw) = concat (map entry_bytes (filter (asked since) log)))"

lemma asked_since:
  "list_all (entry_ok env) log \<Longrightarrow> filter (asked (if since > 0 then Some since else None)) log = filter (\<lambda>e. since \<le> deTime e) log"
  by (intro filter_cong) (auto simp: asked_def list_all_iff entry_ok_def)

lemma connect_delivers:
  assumes "list_all (entry_ok env) log"
  shows "delivers env s log logs \<Longrightarrow> docker_connect s logs since = Some raw \<Longrightarrow>
      \<exists>j. rdData (demuxed env s raw) = concat (map entry_bytes (take j (filter (\<lambda>e. since \<le> deTime e) log)))"
    and "delivers_all env s log logs \<Longrightarrow> \<exists>raw. docker_connect s logs since = Some raw \<and>
      rdData (demuxed env s raw) = concat (map entry_bytes (filter (\<lambda>e. since \<le> deTime e) log))"
  unfolding delivers_def delivers_all_def docker_connect_def asked_since[OF assms, of since, symmetric] by blast+

definition upto_entry :: "docker_entry list \<Rightarrow> int \<Rightarrow> nat \<Rightarrow> int" where
  "upto_entry es since k = (if k = 0 then since else deTime (es ! (k - 1)))"

definition docker_ok :: "docker \<Rightarrow> docker_entry list \<Rightarrow> docker_run \<Rightarrow> nat \<Rightarrow> bool" where
  "docker_ok s es r k \<longleftrightarrow> k \<le> length es \<and> set (drOut r) = entry_line s ` set (take k es) \<and>
     drSince r = upto_entry es (curOffset (dkResume s)) k"

lemma filter_from: "sorted (map deTime es) \<Longrightarrow> filter (\<lambda>e. t \<le> deTime e) es = drop (length (takeWhile (\<lambda>e. deTime e < t) es)) es"
proof (induction es)
  case (Cons e es)
  show ?case
  proof (cases "t \<le> deTime e")
    case True
    then have "filter (\<lambda>e. t \<le> deTime e) es = es" using Cons.prems by (intro filter_True) auto
    with True show ?thesis by simp
  qed (use Cons in auto)
qed simp

text \<open>Asking again from the instant of the last line reaches back to it or before, so that what comes next fits on.\<close>

lemma resume_fits:
  fixes es :: "docker_entry list" and t0 :: int and k j :: nat
  assumes "sorted (map deTime es)" and "list_all (\<lambda>e. t0 \<le> deTime e) es" and "k \<le> length es"
  defines "got \<equiv> take j (filter (\<lambda>e. upto_entry es t0 k \<le> deTime e) es)"
  obtains k' where "k' \<le> length es" "set (take k es) \<union> set got = set (take k' es)"
    "upto_entry es t0 k' = (if got = [] then upto_entry es t0 k else deTime (last got))"
    "length es \<le> j \<Longrightarrow> k' = length es"
proof -
  let ?t = "upto_entry es t0 k"
  define i where "i = length (takeWhile (\<lambda>e. deTime e < ?t) es)"
  have got: "got = take j (drop i es)" unfolding got_def i_def using filter_from[OF assms(1)] by simp
  have g: "got = take (length got) (drop i es)" unfolding got by (auto simp: min_def)
  have ik: "i \<le> k - 1 \<and> (k = 0 \<longrightarrow> i = 0)"
  proof (cases "k = 0")
    case True
    then have "takeWhile (\<lambda>e. deTime e < ?t) es = []" using assms(2) by (cases es) (auto simp: upto_entry_def)
    then have "i = 0" by (simp add: i_def)
    then show ?thesis by simp
  next
    case False
    then have "\<not> deTime (es ! (k - 1)) < ?t" by (simp add: upto_entry_def)
    then have "\<not> k - 1 < i" unfolding i_def using set_takeWhileD nth_mem takeWhile_nth by metis
    then show ?thesis using False by simp
  qed
  show thesis
  proof (cases "i + length got \<le> k")
    case False
    then have n: "got \<noteq> []" "i + length got \<le> length es" using ik got by auto
    have "got ! a = es ! (i + a)" if "a < length got" for a using n that by (subst g) simp
    then have "last got = es ! (i + (length got - 1))" using n by (simp add: last_conv_nth)
    then have "last got = es ! (i + length got - 1)" using n by (cases got) simp_all
    moreover have "set (take k es) \<union> set got = set (take (i + length got) es)"
    proof -
      have "take (i + length got) es = take i es @ got" using g by (simp add: take_add)
      moreover have "set (take i es) \<subseteq> set (take k es)" "set (take k es) \<subseteq> set (take (i + length got) es)"
        using ik False by (auto intro!: set_take_subset_set_take)
      ultimately show ?thesis by auto
    qed
    ultimately show thesis using n False that[of "i + length got"] got by (auto simp: upto_entry_def)
  next
    case True
    have sub: "set got \<subseteq> set (take k es)"
    proof -
      have "take (i + length got) es = take i es @ got" using g by (simp add: take_add)
      then have "set got \<subseteq> set (take (i + length got) es)" by auto
      then show ?thesis using set_take_subset_set_take[OF True, of es] by blast
    qed
    have "deTime (last got) = ?t" if n: "got \<noteq> []"
    proof (rule antisym)
      show "?t \<le> deTime (last got)" using last_in_set[OF n] unfolding got_def by (auto dest!: in_set_takeD)
      have "last got \<in> set (take k es)" using sub last_in_set[OF n] by blast
      then obtain a where a: "a < k" "last got = es ! a" by (auto simp: in_set_conv_nth)
      then show "deTime (last got) \<le> ?t" using assms(1,3) by (auto simp: upto_entry_def sorted_iff_nth_mono)
    qed
    moreover have "k = length es" if "length es \<le> j" using that True got ik assms(3) by auto
    ultimately show thesis using sub assms(3) that[of k] by (auto simp: Un_absorb2)
  qed
qed

lemma readOnce_entries:
  assumes "delivers env s log logs" and "list_all (entry_ok env) log" and "readOnce env s logs stop since = (ls, since', connected)"
  obtains j where "ls = map (entry_line s) (take j (filter (\<lambda>e. since \<le> deTime e) log))"
    "since' = (if ls = [] then since else curOffset (lnCursor (last ls)))"
    "stop = None \<and> delivers_all env s log logs \<Longrightarrow> length log \<le> j"
proof (cases "docker_connect s logs since")
  case None
  then have "ls = []" "since' = since" using assms(3) by (simp_all add: readOnce_def)
  moreover have "\<not> delivers_all env s log logs" using None connect_delivers(2)[OF assms(2), of s logs since] by auto
  ultimately show thesis by (intro that[of 0]) simp_all
next
  case (Some raw)
  let ?es = "filter (\<lambda>e. since \<le> deTime e) log"
  obtain j where j: "rdData (demuxed env s raw) = concat (map entry_bytes (take j ?es))"
      "delivers_all env s log logs \<Longrightarrow> length log \<le> j"
  proof (cases "delivers_all env s log logs")
    case True
    then have "rdData (demuxed env s raw) = concat (map entry_bytes ?es)"
      using connect_delivers(2)[OF assms(2), of s logs since] Some by auto
    then have "rdData (demuxed env s raw) = concat (map entry_bytes (take (length log) ?es))" by simp
    then show thesis using that[of "length log"] by blast
  next
    case False
    then show thesis using connect_delivers(1)[OF assms(2,1) Some] that by blast
  qed
  have "list_all (entry_ok env) (take j ?es)" using assms(2) by (auto simp: list_all_iff dest: in_set_takeD)
  from docker_read_entries[OF this j(1)]
  have r: "fst (docker_read env s stop 0 (demuxed env s raw)) = take (case stop of None \<Rightarrow> j | Some k \<Rightarrow> k) (map (entry_line s) (take j ?es))"
    by (cases stop) (simp_all add: docker_read_stop)
  let ?n = "case stop of None \<Rightarrow> j | Some k \<Rightarrow> min k j"
  have "fst (docker_read env s stop 0 (demuxed env s raw)) = ls" and s': "since' = (if ls = [] then since else curOffset (lnCursor (last ls)))"
    using assms(3) Some by (auto simp: readOnce_def readLines_def Let_def)
  then have "ls = map (entry_line s) (take ?n ?es)" using r by (cases stop) (simp_all add: take_map)
  then show thesis using s' j(2) by (intro that[of ?n]) auto
qed

lemma docker_round_ok:
  assumes "sorted (map deTime log)" and "list_all (entry_ok env) log" and "delivers env s log logs"
    and "es = filter (\<lambda>e. curOffset (dkResume s) \<le> deTime e) log" and "docker_ok s es r k"
  obtains k' where "docker_ok s es (docker_round env s (logs, stop) r) k'"
    "\<not> drReturned r \<and> stop = None \<and> delivers_all env s log logs \<Longrightarrow> k' = length es"
proof (cases "drReturned r")
  case True
  then show thesis using that[of k] assms(5) by (simp add: docker_round_def)
next
  case False
  let ?t0 = "curOffset (dkResume s)"
  obtain ls since' c where o: "readOnce env s logs stop (drSince r) = (ls, since', c)" by (cases "readOnce env s logs stop (drSince r)")
  obtain j where j: "ls = map (entry_line s) (take j (filter (\<lambda>e. drSince r \<le> deTime e) log))"
      "since' = (if ls = [] then drSince r else curOffset (lnCursor (last ls)))"
      "stop = None \<and> delivers_all env s log logs \<Longrightarrow> length log \<le> j"
    using readOnce_entries[OF assms(3,2) o] by blast
  have srt: "sorted (map deTime es)" and low: "list_all (\<lambda>e. ?t0 \<le> deTime e) es"
    using assms(1,4) by (auto simp: list_all_iff sorted_filter)
  have k: "k \<le> length es" "set (drOut r) = entry_line s ` set (take k es)" "drSince r = upto_entry es ?t0 k"
    using assms(5) by (auto simp: docker_ok_def)
  have "?t0 \<le> drSince r"
    using k(1,3) low by (cases k) (auto simp: upto_entry_def list_all_length)
  then have f: "filter (\<lambda>e. drSince r \<le> deTime e) log = filter (\<lambda>e. upto_entry es ?t0 k \<le> deTime e) es"
    unfolding assms(4) k(3) filter_filter by (intro filter_cong) (auto simp: k(3)[symmetric])
  obtain k' where k': "k' \<le> length es"
      "set (take k es) \<union> set (take j (filter (\<lambda>e. upto_entry es ?t0 k \<le> deTime e) es)) = set (take k' es)"
      "upto_entry es ?t0 k' = (if take j (filter (\<lambda>e. upto_entry es ?t0 k \<le> deTime e) es) = [] then upto_entry es ?t0 k
         else deTime (last (take j (filter (\<lambda>e. upto_entry es ?t0 k \<le> deTime e) es))))"
      "length es \<le> j \<Longrightarrow> k' = length es"
    using resume_fits[OF srt low k(1), of j] by blast
  have out: "set (drOut r @ ls) = entry_line s ` set (take k' es)"
    using k(2) j(1) k'(2) unfolding f by (auto simp: image_Un[symmetric])
  have "since' = upto_entry es ?t0 k'"
    unfolding k'(3) using j(1,2) k(3) unfolding f by (auto simp: last_map entry_line_def)
  then have "docker_ok s es (docker_round env s (logs, stop) r) k'"
    using False o k'(1) out by (simp add: docker_ok_def docker_round_def Let_def)
  moreover have "length es \<le> length log" unfolding assms(4) by simp
  ultimately show thesis using that[of k'] k'(4) j(3) by fastforce
qed

lemma docker_running:
  "list_all (\<lambda>q. snd q = None) rounds \<Longrightarrow> \<not> drReturned r \<Longrightarrow> \<not> drReturned (fold (docker_round env s) rounds r)"
proof (induction rounds arbitrary: r)
  case (Cons q rounds)
  have "\<not> drReturned (docker_round env s q r)"
    using Cons.prems by (cases q) (auto simp: docker_round_def Let_def split: prod.splits)
  then show ?case using Cons by simp
qed simp

lemma docker_Run_ok:
  assumes "sorted (map deTime log)" and "list_all (entry_ok env) log" and "list_all (\<lambda>q. delivers env s log (fst q)) rounds"
    and "es = filter (\<lambda>e. curOffset (dkResume s) \<le> deTime e) log"
  shows "\<exists>k. docker_ok s es (docker_Run env s rounds) k \<and>
    (rounds \<noteq> [] \<and> list_all (\<lambda>q. snd q = None) rounds \<and> delivers_all env s log (fst (last rounds)) \<longrightarrow> k = length es)"
  using assms(3)
proof (induction rounds rule: rev_induct)
  case Nil
  show ?case by (intro exI[of _ 0]) (simp add: docker_ok_def docker_Run_def docker_start_def upto_entry_def)
next
  case (snoc q rounds)
  obtain logs stop where q: "q = (logs, stop)" by (cases q)
  obtain k where k: "docker_ok s es (docker_Run env s rounds) k" using snoc by auto
  have d: "delivers env s log logs" using snoc.prems q by simp
  obtain k' where k': "docker_ok s es (docker_round env s q (docker_Run env s rounds)) k'"
      "\<not> drReturned (docker_Run env s rounds) \<and> stop = None \<and> delivers_all env s log logs \<Longrightarrow> k' = length es"
    using docker_round_ok[OF assms(1,2) d assms(4) k, of stop] q by blast
  have "\<not> drReturned (docker_Run env s rounds)" if "list_all (\<lambda>q. snd q = None) rounds"
    using docker_running[OF that] by (simp add: docker_Run_def docker_start_def)
  then show ?case using k' q by (intro exI[of _ k']) (auto simp: docker_Run_def)
qed


text \<open>A connection that runs to its end loses nothing: the bytes read, after demultiplexing when they are framed, are cut at the
  newlines into lines, and each line is handed on once, in order, with its time split off; the next connection asks for what
  there is from the time of the last line on. A line with a time in front of it has that time as its position and the rest as its message.\<close>

theorem docker_lines:
  assumes "docker_connect s logs since = Some raw"
  shows "\<exists>cs. concat cs = rdData (demuxed env s raw) \<and> list_all (\<lambda>x. x \<noteq> [] \<and> newline \<notin> set (butlast x)) cs \<and>
    fst (readOnce env s logs None since) = map2 (toLine env s) [0..<length cs] (map cut cs) \<and>
    fst (snd (readOnce env s logs None since)) = (if cs = [] then since else curOffset (lnCursor (last (fst (readOnce env s logs None since))))) \<and>
    (\<forall>n ts t m. deParse env ts = Some t \<and> CHR '' '' \<notin> set ts \<longrightarrow>
       lnTime (toLine env s n (ts @ CHR '' '' # m)) = t \<and> lnBytes (toLine env s n (ts @ CHR '' '' # m)) = m)"
  using assms
  by (intro exI[of _ "chunks (rdData (demuxed env s raw))"])
    (auto simp: readOnce_def readLines_def docker_read_all Let_def concat_chunks list_all_iff toLine_stamped dest: chunks_lines)

text \<open>C40. Lines of the same instant are lost in storage. Two lines of one container with the same time get the same sequence number
  from it, whatever their messages, so the rows the writer makes of their records have the same key and the second is
  taken for a replay of the first. The same holds of a line cut short by a broken connection and the whole line delivered
  again: the cut one is kept.\<close>

theorem same_time_lines_collide:
  assumes "deParse denv ts = Some t" and "CHR '' '' \<notin> set ts"
    and "row1 = fill wenv (LogRecordFromProto sid (Some (record_Proto (line_record senv (toLine denv s i (ts @ CHR '' '' # m1)) sh))))"
    and "row2 = fill wenv (LogRecordFromProto sid (Some (record_Proto (line_record senv (toLine denv s j (ts @ CHR '' '' # m2)) sh))))"
  shows "row_key row1 = row_key row2 \<and> lrMessage row1 = m1 \<and> lrMessage row2 = m2 \<and> insert_new [row1, row2] [] = [row1]"
proof -
  have "row_key row1 = row_key row2" "lrMessage row1 = m1" "lrMessage row2 = m2"
    using assms(3,4) by (simp_all add: toLine_stamped[OF assms(1,2)] row_key_def fill_def LogRecordFromProto_def record_Proto_def line_record_def Let_def)
  then show ?thesis by simp
qed

text \<open>A container that wrote two lines at the instant 1, and a daemon that refuses at first.\<close>

definition denv_d :: docker_env where
  "denv_d = \<lparr>deParse = (\<lambda>ts. if ts = ''1'' then Some 1 else None), deDemux = (\<lambda>_ rd. rd), deClock = (\<lambda>_. 0)\<rparr>"

definition dsrc_d :: docker where
  "dsrc_d = \<lparr>dkContainer = ''c'', dkStream = DockerStdout, dkOwnsClient = False, dkResume = noCursor\<rparr>"

definition log_d :: "docker_entry list" where
  "log_d = [\<lparr>deStamp = ''1'', deTime = 1, deMsg = ''a''\<rparr>, \<lparr>deStamp = ''1'', deTime = 1, deMsg = ''b''\<rparr>]"

definition logs_d :: logs where
  "logs_d = (\<lambda>_ _ since. Some \<lparr>rdData = concat (map entry_bytes (filter (asked since) log_d)),
     rdErr = ReadEOF\<rparr>)"

lemma demuxed_d: "demuxed denv_d s raw = raw"
  by (simp add: demuxed_def denv_d_def)

lemma connect_d: "docker_connect s logs_d since = Some \<lparr>rdData = concat (map entry_bytes (filter (\<lambda>e. since \<le> deTime e) log_d)), rdErr = ReadEOF\<rparr>"
  by (auto simp: docker_connect_def logs_d_def log_d_def asked_def)

lemma delivers_d: "delivers denv_d s log_d logs_d" "delivers_all denv_d s log_d logs_d" "delivers denv_d s log_d (\<lambda>_ _ _. None)"
proof -
  show "delivers denv_d s log_d logs_d"
    unfolding delivers_def logs_d_def demuxed_d
    by (intro allI impI exI[of _ "length log_d"]) (auto simp: length_filter_le)
  show "delivers_all denv_d s log_d logs_d" by (simp add: delivers_all_def logs_d_def demuxed_d)
  show "delivers denv_d s log_d (\<lambda>_ _ _. None)" by (simp add: delivers_def)
qed

lemma log_d_ok: "sorted (map deTime log_d)" "list_all (entry_ok denv_d) log_d"
  by (simp_all add: log_d_def entry_ok_def entry_bytes_def denv_d_def newline_def carriage_def MaxMessageLen_def int64_ok_def)


theorem docker_lines_witness:
  "\<exists>cs. concat cs = concat (map entry_bytes log_d) \<and>
     fst (readOnce denv_d dsrc_d logs_d None 0) = map2 (toLine denv_d dsrc_d) [0..<length cs] (map cut cs)"
proof -
  have "filter (\<lambda>e. 0 \<le> deTime e) log_d = log_d" by (simp add: log_d_def)
  then show ?thesis using docker_lines[OF connect_d[of dsrc_d 0], of denv_d] by (auto simp: demuxed_d)
qed

theorem same_time_lines_collide_witness:
  "row_key (fill env_w (LogRecordFromProto 5 (Some (record_Proto (line_record env_ex (toLine denv_d dsrc_d 0 (''1'' @ CHR '' '' # ''a'')) (up_ex 1)))))) =
   row_key (fill env_w (LogRecordFromProto 5 (Some (record_Proto (line_record env_ex (toLine denv_d dsrc_d 1 (''1'' @ CHR '' '' # ''b'')) (up_ex 1))))))"
  by (rule same_time_lines_collide[of denv_d "''1''" 1, OF _ _ refl refl, THEN conjunct1]) (simp_all add: denv_d_def)

end
