(* ===== verification/Http_Api.thy ===== *)
theory Http_Api
  imports Cluster_Answer Tail
begin

text \<open>
  The public API (\<^verbatim>\<open>internal/httpapi\<close>, with the label lookups of \<^verbatim>\<open>internal/query/executor/labels.go\<close>): authentication,
  the query endpoint with its defaults and caps, the lookups, and live tail over a websocket. A request arrives with its
  endpoint already chosen by the router and its body decoded. A handler answers with a response and the calls it made on what
  lies behind it, so that what is never called can be stated. The runner of queries, the database, the clock and
  whether the client is still there are parameters.
\<close>

subsection \<open>Label lookups\<close>

type_synonym querier = "string \<Rightarrow> string list \<Rightarrow> exec_err + string list"

definition exec_Labels :: "querier \<Rightarrow> exec_err + string list" where
  "exec_Labels db =
     (case db ''SELECT DISTINCT jsonb_object_keys(labels) FROM streams'' [] of
        Inl e \<Rightarrow> Inl e
      | Inr keys \<Rightarrow> Inr (sort (keys @ [''level'', ''service'', ''host'', ''env''])))"

definition promotedValues :: "string \<Rightarrow> string option" where
  "promotedValues name =
     (if name = ''service'' then Some ''SELECT DISTINCT service FROM streams ORDER BY 1''
      else if name = ''host'' then Some ''SELECT DISTINCT host FROM streams ORDER BY 1''
      else if name = ''env'' then Some ''SELECT DISTINCT env FROM streams ORDER BY 1''
      else None)"

definition exec_LabelValues :: "querier \<Rightarrow> string \<Rightarrow> exec_err + string list" where
  "exec_LabelValues db name =
     (if name = ''level'' then Inr levelNames
      else case promotedValues name of
        Some sql \<Rightarrow> db sql []
      | None \<Rightarrow> db ''SELECT DISTINCT labels ->> $1 FROM streams WHERE labels ? $1 ORDER BY 1'' [name])"

subsection \<open>Requests and answers\<close>

definition maxQueryLen :: nat where "maxQueryLen = 8192"
definition defaultLimit :: int where "defaultLimit = 1000"
definition defaultRange :: duration where "defaultRange = hour"

record query_request =
  bqQuery :: string
  bqStart :: gotime
  bqEnd :: gotime
  bqLimit :: int
  bqDirection :: string

record wire_record =
  wiTime :: gotime
  wiStreamID :: u64
  wiSeq :: int
  wiLevel :: int
  wiMessage :: string
  wiTraceID :: string
  wiSpanID :: string
  wiFields :: "string gomap"

record 'f queryResponse =
  qpRecords :: "wire_record list"
  qpPoints :: "'f Point list"
  qpSource :: string
  qpStart :: gotime
  qpEnd :: gotime
  qpStreams :: nat
  qpTruncated :: bool
  qpWarnings :: "(string \<times> nat) list"

datatype api_error = BadBody | QueryTooLong | QueryRequired | ParseFailed parse_err | BadDirection | PlanFailed plan_err
  | TailUnsupported eval_err | ShuttingDown | SubscribeFailed | QueryFailed | LookupFailed | QueryDeadline | ApiDisabled | BadToken
  | NotFoundErr

datatype 'f api_answer = ApiErr nat api_error | QueryOk "'f queryResponse" | ValuesOk "string list" | ClusterOk | Upgraded nat
  | Probe | Silent

datatype api_call = CallRun Query Request | CallLabels | CallValues string | CallCluster | CallSubscribe Query

record 'f api_env =
  aeLib :: golib
  aeToken :: string
  aeMaxRows :: int
  aeNow :: gotime
  aeRun :: "Query \<Rightarrow> Request \<Rightarrow> exec_err + 'f Result"
  aeDb :: querier
  aeDeadline :: "exec_err \<Rightarrow> bool"
  aeGone :: bool
  aeTails :: "Registry option"
  aeSubOk :: bool
  aeSubId :: nat

text \<open>\<^verbatim>\<open>hex.EncodeToString\<close> and \<^verbatim>\<open>newRecord\<close>.\<close>

definition hex_digit :: "nat \<Rightarrow> char" where
  "hex_digit n = (if n < 10 then char_of (48 + n) else char_of (87 + n))"

definition hex_string :: "bytes \<Rightarrow> string" where
  "hex_string b = concat (map (\<lambda>c. [hex_digit (byte c div 16), hex_digit (byte c mod 16)]) b)"

definition newRecord :: "LogRecord \<Rightarrow> wire_record" where
  "newRecord r = \<lparr>wiTime = rTime r, wiStreamID = rStreamID r, wiSeq = rSeq r, wiLevel = rLevel r, wiMessage = rMessage r,
     wiTraceID = hex_string (rTraceID r), wiSpanID = hex_string (rSpanID r), wiFields = rFields r\<rparr>"

subsection \<open>Authentication\<close>

text \<open>\<^verbatim>\<open>strings.Cut\<close> at the first space, and \<^verbatim>\<open>strings.EqualFold\<close> with the scheme, whose letters have no other case variants.\<close>

definition cut_space :: "string \<Rightarrow> string \<times> string" where
  "cut_space s =
     (let n = length (takeWhile (\<lambda>c. c \<noteq> CHR '' '') s) in (take n s, drop (n + 1) s))"

definition ascii_lower :: "char \<Rightarrow> char" where
  "ascii_lower c = (if 65 \<le> byte c \<and> byte c \<le> (90::nat) then char_of (byte c + (32::nat)) else c)"

definition bearerAuth :: "string \<Rightarrow> string \<Rightarrow> api_error option" where
  "bearerAuth token header =
     (if token = [] then Some ApiDisabled
      else case cut_space header of
        (scheme, got) \<Rightarrow>
          if map ascii_lower scheme \<noteq> ''bearer'' \<or> got \<noteq> token then Some BadToken else None)"

subsection \<open>Handlers\<close>

definition api_request :: "int \<Rightarrow> gotime \<Rightarrow> query_request \<Rightarrow> api_error + Request" where
  "api_request maxRows now req =
     (let e = (if bqEnd req = zero_time then now else bqEnd req);
          s = (if bqStart req = zero_time then e - defaultRange else bqStart req);
          limit = min (if bqLimit req \<le> 0 then defaultLimit else bqLimit req) maxRows;
          qr = \<lparr>rqStart = s, rqEnd = e, rqLimit = limit, rqDirection = Backward\<rparr>
      in if bqDirection req = [] \<or> bqDirection req = ''backward'' then Inr qr
         else if bqDirection req = ''forward'' then Inr (qr\<lparr>rqDirection := Forward\<rparr>)
         else Inl BadDirection)"

definition api_fail :: "'f api_env \<Rightarrow> exec_err \<Rightarrow> api_error \<Rightarrow> 'f api_answer" where
  "api_fail env e msg = (if aeDeadline env e then ApiErr 504 QueryDeadline else if aeGone env then Silent else ApiErr 500 msg)"

definition queryResponse :: "Query \<Rightarrow> 'f Result \<Rightarrow> 'f queryResponse" where
  "queryResponse q res =
     \<lparr>qpRecords = (if qAgg q = None then map newRecord (reRecords res) else []), qpPoints = rePoints res, qpSource = reSource res,
      qpStart = reStart res, qpEnd = reEnd res, qpStreams = reStreams res, qpTruncated = reTruncated res, qpWarnings = reWarnings res\<rparr>"

definition api_query :: "'f api_env \<Rightarrow> query_request option \<Rightarrow> 'f api_answer \<times> api_call list" where
  "api_query env body =
     (case body of
        None \<Rightarrow> (ApiErr 400 BadBody, [])
      | Some req \<Rightarrow>
          if length (bqQuery req) > maxQueryLen then (ApiErr 400 QueryTooLong, [])
          else case Parse (aeLib env) (bqQuery req) of
            Inl e \<Rightarrow> (ApiErr 400 (ParseFailed e), [])
          | Inr q \<Rightarrow>
              (case api_request (aeMaxRows env) (aeNow env) req of
                 Inl e \<Rightarrow> (ApiErr 400 e, [])
               | Inr qr \<Rightarrow>
                   (case Compile (aeLib env) q qr of
                      Inl e \<Rightarrow> (ApiErr 400 (PlanFailed e), [])
                    | Inr _ \<Rightarrow>
                        (case aeRun env q qr of
                           Inl e \<Rightarrow> (api_fail env e QueryFailed, [CallRun q qr])
                         | Inr res \<Rightarrow> (QueryOk (queryResponse q res), [CallRun q qr])))))"

definition api_list :: "'f api_env \<Rightarrow> exec_err + string list \<Rightarrow> 'f api_answer" where
  "api_list env vs = (case vs of Inl e \<Rightarrow> api_fail env e LookupFailed | Inr values \<Rightarrow> ValuesOk values)"

text \<open>The handshake of live tail: the subscription is made before the connection is upgraded.\<close>

definition api_tail :: "'f api_env \<Rightarrow> Registry \<Rightarrow> string \<Rightarrow> 'f api_answer \<times> api_call list \<times> Registry" where
  "api_tail env reg src =
     (if src = [] then (ApiErr 400 QueryRequired, [], reg)
      else if length src > maxQueryLen then (ApiErr 400 QueryTooLong, [], reg)
      else case Parse (aeLib env) src of
        Inl e \<Rightarrow> (ApiErr 400 (ParseFailed e), [], reg)
      | Inr q \<Rightarrow>
          (case reg_Subscribe (aeLib env) (aeSubOk env) (aeSubId env) q reg of
             (Inl (TailQuery e), reg') \<Rightarrow> (ApiErr 400 (TailUnsupported e), [CallSubscribe q], reg')
           | (Inl TailClosed, reg') \<Rightarrow> (ApiErr 503 ShuttingDown, [CallSubscribe q], reg')
           | (Inl TailSubscribe, reg') \<Rightarrow> (ApiErr 500 SubscribeFailed, [CallSubscribe q], reg')
           | (Inr i, reg') \<Rightarrow> (Upgraded i, [CallSubscribe q], reg')))"

text \<open>The routes of \<^verbatim>\<open>New\<close>.\<close>

datatype endpoint = EHealthz | EReadyz | EQuery | ELabels | ELabelValues string | ECluster | ETail | EOther

record http_req =
  hrAuth :: string
  hrBody :: "query_request option"
  hrTail :: string

definition http_serve :: "'f api_env \<Rightarrow> endpoint \<Rightarrow> http_req \<Rightarrow> 'f api_answer \<times> api_call list \<times> Registry option" where
  "http_serve env ep req =
     (let tails = aeTails env;
          auth = (\<lambda>h. case bearerAuth (aeToken env) (hrAuth req) of Some e \<Rightarrow> (ApiErr 401 e, [], tails) | None \<Rightarrow> h) in
      case ep of
        EHealthz \<Rightarrow> (Probe, [], tails)
      | EReadyz \<Rightarrow> (Probe, [], tails)
      | EQuery \<Rightarrow> auth (case api_query env (hrBody req) of (ans, calls) \<Rightarrow> (ans, calls, tails))
      | ELabels \<Rightarrow> auth (api_list env (exec_Labels (aeDb env)), [CallLabels], tails)
      | ELabelValues name \<Rightarrow> auth (api_list env (exec_LabelValues (aeDb env) name), [CallValues name], tails)
      | ECluster \<Rightarrow> auth (ClusterOk, [CallCluster], tails)
      | ETail \<Rightarrow>
          (case tails of
             None \<Rightarrow> (ApiErr 404 NotFoundErr, [], tails)
           | Some reg \<Rightarrow> auth (case api_tail env reg (hrTail req) of (ans, calls, reg') \<Rightarrow> (ans, calls, Some reg')))
      | EOther \<Rightarrow> (ApiErr 404 NotFoundErr, [], tails))"

text \<open>\<^verbatim>\<open>Shutdown\<close> ends the subscriptions, which makes each tail handler send its close frame.\<close>

definition http_Shutdown :: "Registry option \<Rightarrow> Registry option" where
  "http_Shutdown tails = map_option reg_Close tails"

subsection \<open>The tail connection\<close>

text \<open>\<^verbatim>\<open>tailRecord\<close>: a matched record, the labels of its stream, and the matches dropped since the message before.\<close>

definition labelMap :: "LabelSet \<Rightarrow> string gomap" where
  "labelMap ls = AList.update ''env'' (Env ls) (AList.update ''host'' (Host ls) (AList.update ''service'' (Service ls) (Extra ls)))"

record tail_message =
  tmRecord :: wire_record
  tmLabels :: "string gomap"
  tmDropped :: int

datatype tail_end = PeerGone | GoingAway

record tail_conn =
  tcSub :: Subscription
  tcReported :: int
  tcPinging :: bool
  tcSent :: "tail_message list"
  tcEnd :: "tail_end option"

text \<open>What happens to a connection: a batch reaches the subscription, the loop takes a record, more batches may
  arrive before it reads the count of drops, and its write succeeds or fails, the ticker fires, a pong or its failure comes back, the loop sees that
  the subscription ended, the peer goes away. A failure says whether the subscription had ended by then.\<close>

datatype conn_res = ConnOk | ConnFail bool

datatype tail_event = TDeliver bytes | TRecord "bytes list" conn_res | TTick | TPong conn_res | TSubDone | TPeerDone

definition tail_goodbye :: "bool \<Rightarrow> tail_conn \<Rightarrow> tail_conn" where
  "tail_goodbye subDone c = c\<lparr>tcEnd := Some (if subDone then GoingAway else PeerGone)\<rparr>"

definition tail_step :: "golib \<Rightarrow> (bytes \<Rightarrow> pb_LogBatch option) \<Rightarrow> tail_event \<Rightarrow> tail_conn \<Rightarrow> tail_conn" where
  "tail_step L um ev c =
     (if tcEnd c \<noteq> None then c
      else case ev of
        TDeliver p \<Rightarrow> c\<lparr>tcSub := deliver L um p (tcSub c)\<rparr>
      | TRecord between res \<Rightarrow>
          (case receive (tcSub c) of
             (None, sub0) \<Rightarrow> c\<lparr>tcSub := fold (deliver L um) between sub0\<rparr>
           | (Some (labels, r), sub0) \<Rightarrow>
               (let sub = fold (deliver L um) between sub0; dropped = int (sbDropped sub); c1 = c\<lparr>tcSub := sub\<rparr> in
                case res of
                  ConnOk \<Rightarrow> c1\<lparr>tcSent := tcSent c1 @ [\<lparr>tmRecord = newRecord r, tmLabels = labelMap labels, tmDropped = dropped - tcReported c1\<rparr>],
                      tcReported := dropped\<rparr>
                | ConnFail subDone \<Rightarrow> tail_goodbye subDone c1))
      | TTick \<Rightarrow> if tcPinging c then c else c\<lparr>tcPinging := True\<rparr>
      | TPong res \<Rightarrow>
          (case res of ConnOk \<Rightarrow> c\<lparr>tcPinging := False\<rparr> | ConnFail subDone \<Rightarrow> tail_goodbye subDone (c\<lparr>tcPinging := False\<rparr>))
      | TSubDone \<Rightarrow> c\<lparr>tcEnd := Some GoingAway\<rparr>
      | TPeerDone \<Rightarrow> c\<lparr>tcEnd := Some PeerGone\<rparr>)"

definition conn_open :: "Evaluator \<Rightarrow> int \<Rightarrow> tail_conn" where
  "conn_open ev buffer = \<lparr>tcSub = new_sub ev buffer, tcReported = 0, tcPinging = False, tcSent = [], tcEnd = None\<rparr>"

subsection \<open>Nothing without the token\<close>

definition authorized :: "string \<Rightarrow> string \<Rightarrow> bool" where
  "authorized token header \<longleftrightarrow> token \<noteq> [] \<and> (\<exists>scheme. header = scheme @ CHR '' '' # token \<and> map ascii_lower scheme = ''bearer'')"

lemma bearer_letters: "map ascii_lower s = ''bearer'' \<Longrightarrow> CHR '' '' \<notin> set s"
proof
  assume s: "map ascii_lower s = ''bearer''" and "CHR '' '' \<in> set s"
  then have "ascii_lower (CHR '' '') \<in> set (map ascii_lower s)" by force
  then show False by (simp add: s ascii_lower_def)
qed

lemma takeWhile_space: "CHR '' '' \<notin> set s \<Longrightarrow> takeWhile (\<lambda>c. c \<noteq> CHR '' '') (s @ CHR '' '' # t) = s"
  by (induction s) auto

lemma takeWhile_all: "takeWhile (\<lambda>c. c \<noteq> CHR '' '') s = s \<or> (\<exists>r. s = takeWhile (\<lambda>c. c \<noteq> CHR '' '') s @ CHR '' '' # r)"
  by (induction s) auto

lemma bearerAuth_None: "bearerAuth token header = None \<longleftrightarrow> authorized token header"
proof
  assume a: "authorized token header"
  then obtain scheme where h: "header = scheme @ CHR '' '' # token" "map ascii_lower scheme = ''bearer''" "token \<noteq> []"
    by (auto simp: authorized_def)
  then have "cut_space header = (scheme, token)" using takeWhile_space[OF bearer_letters[OF h(2)]] by (simp add: cut_space_def Let_def)
  then show "bearerAuth token header = None" using h by (simp add: bearerAuth_def)
next
  assume a: "bearerAuth token header = None"
  define s where "s = takeWhile (\<lambda>c. c \<noteq> CHR '' '') header"
  have c: "token \<noteq> []" "map ascii_lower (take (length s) header) = ''bearer''" "drop (length s + 1) header = token"
    using a by (auto simp: s_def bearerAuth_def cut_space_def Let_def split: if_splits)
  have "s \<noteq> header" using c(1,3) by auto
  then obtain r where r: "header = s @ CHR '' '' # r" using takeWhile_all[of header] unfolding s_def[symmetric] by blast
  then have tk: "take (length s) header = s" and dr: "drop (length s + 1) header = r" by simp_all
  have "map ascii_lower s = ''bearer''" using c(2) unfolding tk .
  moreover have "r = token" using c(3) unfolding dr .
  ultimately have "header = s @ CHR '' '' # token \<and> map ascii_lower s = ''bearer''" using r by (simp only: simp_thms)
  then have "\<exists>scheme. header = scheme @ CHR '' '' # token \<and> map ascii_lower scheme = ''bearer''" by (rule exI[of _ s])
  then show "authorized token header" using c(1) unfolding authorized_def by (rule conjI[rotated])
qed

text \<open>The API is closed without the token. Of an endpoint under \<^verbatim>\<open>/v1\<close>, a request that does not carry the configured token in a bearer
  header gets 401 (or 404 where there is no tail) and calls nothing behind the API and subscribes
  to nothing; when no token is configured that is every request.\<close>

theorem api_guarded:
  assumes "ep \<in> {EQuery, ELabels, ELabelValues name, ECluster, ETail}" and "\<not> authorized (aeToken env) (hrAuth req)"
  shows "snd (http_serve env ep req) = ([], aeTails env) \<and> (\<exists>e. fst (http_serve env ep req) \<in> {ApiErr 401 e, ApiErr 404 e}) \<and> \<not> authorized [] h"
proof -
  obtain e where "bearerAuth (aeToken env) (hrAuth req) = Some e" using assms(2) bearerAuth_None by fastforce
  then show ?thesis using assms(1) by (auto simp: http_serve_def Let_def authorized_def split: option.splits)
qed

subsection \<open>Bounded answers\<close>

lemma Truncate_length: "0 \<le> limit \<Longrightarrow> length (reRecords (Truncate limit r)) \<le> nat limit \<and> length (rePoints (Truncate limit r)) \<le> nat limit"
  by (auto simp: Truncate_def Let_def)

lemma exec_Plan_limit: "exec_Plan L q r = Inr (plan, limit) \<Longrightarrow> limit = rqLimit r"
  by (auto simp: exec_Plan_def Let_def split: sum.splits)

lemma exec_Run_length:
  "exec_Run cenv q r = Inr res \<Longrightarrow> 0 \<le> rqLimit r \<Longrightarrow> length (reRecords res) \<le> nat (rqLimit r) \<and> length (rePoints res) \<le> nat (rqLimit r)"
  by (auto simp: exec_Run_def Let_def Truncate_length dest!: exec_Plan_limit split: sum.splits if_splits prod.splits)

lemma coord_Run_length:
  "coord_Run cenv fmt c q r = Inr res \<Longrightarrow> 0 \<le> rqLimit r \<Longrightarrow> length (reRecords res) \<le> nat (rqLimit r) \<and> length (rePoints res) \<le> nat (rqLimit r)"
  by (auto simp: coord_Run_def Let_def new_result_def dest!: exec_Plan_limit split: sum.splits if_splits prod.splits
    intro: Truncate_length[THEN conjunct1] Truncate_length[THEN conjunct2])

lemma api_request_limit:
  "api_request maxRows now req = Inr qr \<Longrightarrow> 0 < maxRows \<Longrightarrow> 0 < rqLimit qr \<and> rqLimit qr \<le> maxRows"
  by (auto simp: api_request_def Let_def defaultLimit_def split: if_splits)

text \<open>C33. Only a query that parses and compiles reaches the runner, whatever the client sent, and with a limit between one and the
  configured maximum; and an answer has no more records or points than that, on one node as in a cluster.\<close>

theorem query_bounded:
  assumes "http_serve env EQuery req = (ans, calls, tails)" and "0 < aeMaxRows env"
    and "aeRun env = exec_Run cenv \<or> aeRun env = coord_Run cenv fmt c"
  shows "(\<forall>q r. CallRun q r \<in> set calls \<longrightarrow> 0 < rqLimit r \<and> rqLimit r \<le> aeMaxRows env \<and>
      (\<exists>body plan. hrBody req = Some body \<and> length (bqQuery body) \<le> maxQueryLen \<and>
         Parse (aeLib env) (bqQuery body) = Inr q \<and> Compile (aeLib env) q r = Inr plan)) \<and>
    (\<forall>resp. ans = QueryOk resp \<longrightarrow> length (qpRecords resp) \<le> nat (aeMaxRows env) \<and> length (qpPoints resp) \<le> nat (aeMaxRows env))"
proof (cases "calls = []")
  case True
  then show ?thesis using assms(1)
    by (auto simp: http_serve_def Let_def api_query_def split: option.splits if_splits sum.splits prod.splits)
next
  case False
  then have a: "api_query env (hrBody req) = (ans, calls)" using assms(1) by (auto simp: http_serve_def Let_def split: option.splits prod.splits)
  obtain body q r plan where b: "hrBody req = Some body" "length (bqQuery body) \<le> maxQueryLen" "Parse (aeLib env) (bqQuery body) = Inr q"
      "api_request (aeMaxRows env) (aeNow env) body = Inr r" "Compile (aeLib env) q r = Inr plan" "calls = [CallRun q r]"
      "ans = (case aeRun env q r of Inl e \<Rightarrow> api_fail env e QueryFailed | Inr res \<Rightarrow> QueryOk (queryResponse q res))"
    using a False by (auto simp: api_query_def split: option.splits if_splits sum.splits)
  have lim: "0 < rqLimit r" "rqLimit r \<le> aeMaxRows env" using api_request_limit[OF b(4) assms(2)] by auto
  have "length (qpRecords resp) \<le> nat (aeMaxRows env) \<and> length (qpPoints resp) \<le> nat (aeMaxRows env)" if an: "ans = QueryOk resp" for resp
  proof -
    obtain res where res: "aeRun env q r = Inr res" "resp = queryResponse q res"
      using an b(7) by (auto simp: api_fail_def split: sum.splits if_splits)
    then have "length (reRecords res) \<le> nat (rqLimit r) \<and> length (rePoints res) \<le> nat (rqLimit r)"
      using assms(3) exec_Run_length[of cenv q r res] coord_Run_length[of cenv fmt c q r res] lim by auto
    then show ?thesis using lim by (auto simp: res(2) queryResponse_def)
  qed
  then show ?thesis using b lim by auto
qed

subsection \<open>What a tail client can account for\<close>

fun event_payloads :: "tail_event \<Rightarrow> bytes list" where
  "event_payloads (TDeliver p) = [p]"
| "event_payloads (TRecord between res) = between"
| "event_payloads ev = []"

definition conn_matches :: "golib \<Rightarrow> (bytes \<Rightarrow> pb_LogBatch option) \<Rightarrow> Evaluator \<Rightarrow> tail_event list \<Rightarrow> (LabelSet \<times> LogRecord) list" where
  "conn_matches L um ev evs = concat (map (matches L um ev) (concat (map event_payloads evs)))"

definition wire_match :: "LabelSet \<times> LogRecord \<Rightarrow> wire_record \<times> string gomap" where
  "wire_match m = (newRecord (snd m), labelMap (fst m))"

lemma fold_deliver:
  assumes "sub_ok s"
  shows "\<exists>kept. subseq kept (concat (map (matches L um (sbEv s)) ps)) \<and> sbCh (fold (deliver L um) ps s) = sbCh s @ kept \<and>
    sub_ok (fold (deliver L um) ps s) \<and> sbEv (fold (deliver L um) ps s) = sbEv s \<and>
    sbDropped (fold (deliver L um) ps s) + length kept = sbDropped s + length (concat (map (matches L um (sbEv s)) ps))"
  using assms
proof (induction ps arbitrary: s)
  case (Cons p ps)
  let ?s = "deliver L um p s"
  obtain k where k: "subseq k (matches L um (sbEv s) p)" "sbCh ?s = sbCh s @ k" "sub_ok ?s" "sbEv ?s = sbEv s"
      "sbDropped ?s + length k = sbDropped s + length (matches L um (sbEv s) p)"
    using fold_offer[of s "matches L um (sbEv s) p"] Cons.prems by (auto simp: deliver_fold sub_ok_def)
  from Cons.IH[OF k(3)] obtain j where j: "subseq j (concat (map (matches L um (sbEv s)) ps))" "sbCh (fold (deliver L um) ps ?s) = sbCh ?s @ j"
      "sub_ok (fold (deliver L um) ps ?s)" "sbEv (fold (deliver L um) ps ?s) = sbEv s"
      "sbDropped (fold (deliver L um) ps ?s) + length j = sbDropped ?s + length (concat (map (matches L um (sbEv s)) ps))"
    using k(4) by auto
  show ?case using k j by (intro exI[of _ "k @ j"]) (auto intro: list_emb_append_mono)
qed auto

text \<open>What holds of an open connection after the records \<open>ms\<close> were offered to it.\<close>

definition conn_ok :: "Evaluator \<Rightarrow> (LabelSet \<times> LogRecord) list \<Rightarrow> tail_conn \<Rightarrow> bool" where
  "conn_ok ev ms c \<longleftrightarrow> sub_ok (tcSub c) \<and> sbEv (tcSub c) = ev \<and>
     (\<exists>kept. subseq kept ms \<and> map (\<lambda>m. (tmRecord m, tmLabels m)) (tcSent c) @ map wire_match (sbCh (tcSub c)) = map wire_match kept \<and>
        sbDropped (tcSub c) + length kept = length ms) \<and>
     sum_list (map tmDropped (tcSent c)) = tcReported c \<and> tcReported c \<le> int (sbDropped (tcSub c)) \<and>
     list_all (\<lambda>m. 0 \<le> tmDropped m) (tcSent c)"

lemma conn_deliver:
  assumes "conn_ok ev ms c"
  shows "conn_ok ev (ms @ concat (map (matches L um ev) ps)) (c\<lparr>tcSub := fold (deliver L um) ps (tcSub c)\<rparr>)"
proof -
  obtain kept where k: "subseq kept ms" "map (\<lambda>m. (tmRecord m, tmLabels m)) (tcSent c) @ map wire_match (sbCh (tcSub c)) = map wire_match kept"
      "sbDropped (tcSub c) + length kept = length ms" and ok: "sub_ok (tcSub c)" "sbEv (tcSub c) = ev"
    using assms by (auto simp: conn_ok_def)
  let ?new = "concat (map (matches L um ev) ps)" and ?s = "fold (deliver L um) ps (tcSub c)"
  obtain j where j: "subseq j ?new" "sbCh ?s = sbCh (tcSub c) @ j" "sub_ok ?s" "sbEv ?s = ev"
      "sbDropped ?s + length j = sbDropped (tcSub c) + length ?new"
    using fold_deliver[OF ok(1), of L um ps] ok(2) by auto
  have "\<exists>kept. subseq kept (ms @ ?new) \<and> map (\<lambda>m. (tmRecord m, tmLabels m)) (tcSent c) @ map wire_match (sbCh ?s) = map wire_match kept \<and>
      sbDropped ?s + length kept = length (ms @ ?new)"
    using k j by (intro exI[of _ "kept @ j"]) (auto intro: list_emb_append_mono)
  moreover have "sbDropped (tcSub c) \<le> sbDropped ?s" using j(1,5) list_emb_length[OF j(1)] by linarith
  ultimately show ?thesis using assms j(3,4) by (auto simp: conn_ok_def)
qed

lemma conn_step:
  assumes "conn_ok ev ms c" and "tcEnd (tail_step L um e c) = None"
  shows "conn_ok ev (ms @ concat (map (matches L um ev) (event_payloads e))) (tail_step L um e c)"
proof (cases e)
  case (TRecord between res)
  have open': "tcEnd c = None" using assms(2) by (cases "tcEnd c") (simp_all add: tail_step_def)
  show ?thesis
  proof (cases "sbCh (tcSub c)")
    case Nil
    then show ?thesis using conn_deliver[OF assms(1), of L um between] open' TRecord by (simp add: tail_step_def receive_def)
  next
    case (Cons m q)
    obtain labels r where m: "m = (labels, r)" by (cases m)
    let ?c = "c\<lparr>tcSub := fold (deliver L um) between (tcSub c)\<rparr>"
    let ?sub0 = "(tcSub c)\<lparr>sbCh := q\<rparr>"
    have ok: "res = ConnOk" using assms(2) open' TRecord Cons m
      by (auto simp: tail_step_def receive_def tail_goodbye_def Let_def split: conn_res.splits)
    have s0: "sub_ok ?sub0" "sbEv ?sub0 = ev" using assms(1) Cons by (auto simp: conn_ok_def sub_ok_def)
    obtain kept where k: "subseq kept ms" "map (\<lambda>m. (tmRecord m, tmLabels m)) (tcSent c) @ map wire_match (m # q) = map wire_match kept"
        "sbDropped (tcSub c) + length kept = length ms" using assms(1) Cons by (auto simp: conn_ok_def)
    let ?new = "concat (map (matches L um ev) between)" and ?s = "fold (deliver L um) between ?sub0"
    obtain j where j: "subseq j ?new" "sbCh ?s = q @ j" "sub_ok ?s" "sbEv ?s = ev" "sbDropped ?s + length j = sbDropped (tcSub c) + length ?new"
      using fold_deliver[OF s0(1), of L um between] s0(2) by auto
    let ?msg = "\<lparr>tmRecord = newRecord r, tmLabels = labelMap labels, tmDropped = int (sbDropped ?s) - tcReported c\<rparr>"
    have st: "tail_step L um e c = c\<lparr>tcSub := ?s, tcSent := tcSent c @ [?msg], tcReported := int (sbDropped ?s)\<rparr>"
      using open' TRecord Cons m ok by (simp add: tail_step_def receive_def Let_def)
    have le: "sbDropped (tcSub c) \<le> sbDropped ?s" using j(1,5) list_emb_length[OF j(1)] by linarith
    have sent: "\<exists>kept. subseq kept (ms @ ?new) \<and> map (\<lambda>m. (tmRecord m, tmLabels m)) (tcSent c @ [?msg]) @ map wire_match (sbCh ?s) = map wire_match kept \<and>
        sbDropped ?s + length kept = length (ms @ ?new)"
      using k j m by (intro exI[of _ "kept @ j"]) (auto simp: wire_match_def intro: list_emb_append_mono)
    have rest: "sum_list (map tmDropped (tcSent c)) = tcReported c" "tcReported c \<le> int (sbDropped (tcSub c))"
        "list_all (\<lambda>m. 0 \<le> tmDropped m) (tcSent c)" using assms(1) by (auto simp: conn_ok_def)
    have new: "conn_ok ev (ms @ ?new) (c\<lparr>tcSub := ?s, tcSent := tcSent c @ [?msg], tcReported := int (sbDropped ?s)\<rparr>)"
      unfolding conn_ok_def using sent j(3,4) le rest by simp
    have "event_payloads e = between" using TRecord by simp
    then show ?thesis unfolding st using new by simp
  qed
next
  case (TDeliver p)
  then show ?thesis using conn_deliver[OF assms(1), of L um "[p]"] assms(2) by (auto simp: tail_step_def)
qed (use assms in \<open>auto simp: tail_step_def tail_goodbye_def conn_ok_def split: if_splits conn_res.splits\<close>)

lemma step_ended: "tcEnd (tail_step L um e c) = None \<Longrightarrow> tcEnd c = None"
  by (cases "tcEnd c") (simp_all add: tail_step_def)

lemma conn_run:
  assumes "tcEnd (fold (tail_step L um) evs (conn_open ev buffer)) = None"
  shows "conn_ok ev (conn_matches L um ev evs) (fold (tail_step L um) evs (conn_open ev buffer))"
  using assms
proof (induction evs rule: rev_induct)
  case Nil
  then show ?case by (simp add: conn_ok_def conn_open_def new_sub_def sub_ok_def conn_matches_def)
next
  case (snoc e evs)
  let ?c = "fold (tail_step L um) evs (conn_open ev buffer)"
  have "conn_ok ev (conn_matches L um ev evs) ?c" using snoc step_ended by simp
  from conn_step[OF this, of L um e] snoc.prems show ?case by (simp add: conn_matches_def)
qed

text \<open>C34. A tail client can account for every match. Whatever the interleaving of deliveries, writes and heartbeats, as long as the
  connection is up: the messages sent, followed by what is buffered, are records the query matches, in order; the
  drop counts on the messages are not negative; and messages, buffer, reported drops and drops not yet reported add up to the
  matches so far.\<close>

theorem tail_client_accounts:
  assumes "c = fold (tail_step L um) evs (conn_open ev buffer)" and "tcEnd c = None"
  shows "(\<exists>kept. subseq kept (conn_matches L um ev evs) \<and>
      map (\<lambda>m. (tmRecord m, tmLabels m)) (tcSent c) @ map wire_match (sbCh (tcSub c)) = map wire_match kept) \<and>
    list_all (\<lambda>m. 0 \<le> tmDropped m) (tcSent c) \<and> tcReported c \<le> int (sbDropped (tcSub c)) \<and>
    int (length (conn_matches L um ev evs)) = int (length (tcSent c)) + int (length (sbCh (tcSub c))) +
      sum_list (map tmDropped (tcSent c)) + (int (sbDropped (tcSub c)) - tcReported c)"
proof -
  have ok: "conn_ok ev (conn_matches L um ev evs) c" using conn_run assms by blast
  then obtain kept where k: "subseq kept (conn_matches L um ev evs)"
      "map (\<lambda>m. (tmRecord m, tmLabels m)) (tcSent c) @ map wire_match (sbCh (tcSub c)) = map wire_match kept"
      "sbDropped (tcSub c) + length kept = length (conn_matches L um ev evs)" by (auto simp: conn_ok_def)
  have "length kept = length (tcSent c) + length (sbCh (tcSub c))" using arg_cong[OF k(2), of length] by simp
  then show ?thesis using k ok by (auto simp: conn_ok_def)
qed

text \<open>A client whose buffer holds one record while three match.\<close>

definition batch_h :: pb_LogBatch where
  "batch_h = \<lparr>pbBatchId = ''b'', pbLabels = None,
     pbRecords = replicate 3 \<lparr>pbTimeUnixNano = 1, pbSeq = 1, pbLevel = 3, pbMessage = ''m'', pbTraceId = [], pbSpanId = [], pbFields = []\<rparr>,
     pbTraceContext = []\<rparr>"

definition ev_h :: Evaluator where "ev_h = \<lparr>evStream = [], evRecord = []\<rparr>"

definition conn_h :: tail_conn where
  "conn_h = fold (tail_step lib0 (\<lambda>_. Some batch_h)) [TDeliver ''x'', TTick, TRecord [] ConnOk, TPong ConnOk] (conn_open ev_h 1)"

theorem tail_client_accounts_witness:
  "int (length (conn_matches lib0 (\<lambda>_. Some batch_h) ev_h [TDeliver ''x'', TTick, TRecord [] ConnOk, TPong ConnOk])) =
     int (length (tcSent conn_h)) + int (length (sbCh (tcSub conn_h))) + sum_list (map tmDropped (tcSent conn_h)) +
     (int (sbDropped (tcSub conn_h)) - tcReported conn_h) \<and> map tmDropped (tcSent conn_h) = [2]"
proof -
  have c: "tcEnd conn_h = None" "map tmDropped (tcSent conn_h) = [2]"
    by (simp_all add: conn_h_def batch_h_def ev_h_def conn_open_def new_sub_def tail_step_def deliver_def receive_def offer_def
      MatchStream_def MatchRecord_def Let_def numeral_3_eq_3)
  then show ?thesis using tail_client_accounts[OF conn_h_def] by blast
qed

definition env_h :: "int api_env" where
  "env_h = \<lparr>aeLib = lib0, aeToken = ''s3cret'', aeMaxRows = 100, aeNow = 1700000000 * second, aeRun = exec_Run env_q,
     aeDb = (\<lambda>_ _. Inr []), aeDeadline = (\<lambda>_. False), aeGone = False, aeTails = None, aeSubOk = True, aeSubId = 0\<rparr>"

definition req_h :: "string \<Rightarrow> http_req" where
  "req_h auth = \<lparr>hrAuth = auth, hrBody = Some \<lparr>bqQuery = src3, bqStart = zero_time, bqEnd = zero_time, bqLimit = 0, bqDirection = []\<rparr>, hrTail = []\<rparr>"

theorem api_guarded_witness: "snd (http_serve env_h EQuery (req_h ''Bearer guess'')) = ([], None)"
proof -
  have "bearerAuth ''s3cret'' ''Bearer guess'' \<noteq> None" by code_simp
  then have "\<not> authorized (aeToken env_h) (hrAuth (req_h ''Bearer guess''))" by (simp add: bearerAuth_None[symmetric] env_h_def req_h_def)
  with api_guarded[of EQuery "[]" env_h "req_h ''Bearer guess''"] show ?thesis by (simp add: env_h_def)
qed

theorem query_bounded_witness:
  "\<exists>r. CallRun q3 r \<in> set (fst (snd (http_serve env_h EQuery (req_h ''Bearer s3cret'')))) \<and> 0 < rqLimit r \<and> rqLimit r \<le> 100"
proof -
  let ?req = "req_h ''Bearer s3cret''"
  let ?r = "\<lparr>rqStart = 1700000000 * second - hour, rqEnd = 1700000000 * second, rqLimit = 100, rqDirection = Backward\<rparr>"
  have auth: "bearerAuth ''s3cret'' ''Bearer s3cret'' = None" by code_simp
  have "\<exists>p. Compile lib0 q3 ?r = Inr p"
    by (simp add: Compile_def q3_def Let_def duration_defs zero_time_def promoted_def split: prod.splits)
  moreover have "api_request 100 (1700000000 * second) (the (hrBody ?req)) = Inr ?r"
    by (simp add: api_request_def req_h_def Let_def defaultLimit_def defaultRange_def)
  moreover have "length src3 \<le> maxQueryLen" by (simp add: src3_def maxQueryLen_def)
  ultimately have "CallRun q3 ?r \<in> set (fst (snd (http_serve env_h EQuery ?req)))"
    using auth q3_parses by (auto simp: http_serve_def Let_def api_query_def env_h_def req_h_def split: sum.splits)
  moreover have "0 < aeMaxRows env_h" "aeRun env_h = exec_Run env_q" by (simp_all add: env_h_def)
  ultimately show ?thesis
    using query_bounded[of env_h ?req "fst (http_serve env_h EQuery ?req)" "fst (snd (http_serve env_h EQuery ?req))"
        "snd (snd (http_serve env_h EQuery ?req))" env_q undefined undefined]
    by (auto simp: env_h_def)
qed

end
