(* ===== verification/Spec2Isabelle.thy ===== *)
theory Spec2Isabelle
  imports Query_Shape Tail Hash_Ring Streams Spool_Recover Tail_File Ship_Runs Cluster_Answer Collector Extract Docker Config Http_Api
begin

text \<open>
  Verification of a distributed log aggregator written in Go. This theory holds the overview and collects the others.

  \<^bold>\<open>The program.\<close> An agent on every host reads log files, standard input and the output of containers, joins continuation lines, batches lines
  by label set and streams the batches to a collector; what is not acknowledged stays in a spool on disk, and what is
  acknowledged moves a checkpoint. A collector validates each batch, publishes it to a broker and answers the agent; the
  consumer of the same or another collector takes messages from the broker and hands them to the storage writer, which
  puts them into two tables of a database and only then ends the message. Queries are parsed, compiled to SQL, run on
  the node or fanned out to the peers that own the streams, and merged; a live tail evaluates the same queries in
  memory on the copies that ingest sends to tail subscribers.

  \<^bold>\<open>Conventions.\<close> A Go string or byte slice is a list of bytes, a struct a record with the fields of the source under a
  short prefix, a sentinel error a constructor of an error datatype, a map an association list without duplicate keys, so
  that its order can be left open. \<^verbatim>\<open>StreamID\<close> and ring positions are 64-bit words; times and durations are integers of
  nanoseconds, with the conversions that can overflow written out. Code outside the repository is a parameter: the record
  \<open>golib\<close> of library functions (case mapping, hashing, regular expressions, JSON), the protobuf codec, the broker, the
  file system and the database, the last two explicit states whose operations fail as the caller's choice says. Where a
  theorem needs a law of such a parameter, the law is a hypothesis with a name (\<open>proto_law\<close>, \<open>cursor_law\<close>)
  and the theorem's witness instantiates it. Goroutines are components of one state; a step is what happens between two
  points where others can run, a function of the state that returns \<open>None\<close> when it is not enabled, and runs are lists of
  labels. Theorems about runs hold for every interleaving and every choice of failures.

  \<^bold>\<open>Shared theories.\<close> \<open>Prelude\<close>: Go's values, arithmetic and library parameters, with the generic lemmas. \<open>Utf8\<close>: decoding and
  validity of UTF-8. \<open>Draining\<close>: the interface \<open>draining\<close> of a component whose own steps use up its work, and what
  follows for its shutdown; the writer and the ingest pipeline are instances.

  \<^bold>\<open>Data model\<close> (\<^verbatim>\<open>internal/model\<close>). \<open>Levels\<close>, \<open>Labels\<close>, \<open>Records\<close>: validation, canonical encoding, stream identities,
  conversion from and to the wire. The encoding that is hashed determines the label set, and validated records survive the wire.

  \<^bold>\<open>Agent\<close> (\<^verbatim>\<open>internal/agent\<close>).
  \<^item> \<open>Disk\<close>, \<open>Checkpoint\<close>: \<^verbatim>\<open>writeAtomic\<close> on a directory that can crash at any call, and the checkpoint store on it.
  \<^item> \<open>Spool_Entry\<close>, \<open>Spool\<close>, \<open>Spool_Fifo\<close>, \<open>Spool_Recover\<close>: \<^verbatim>\<open>spool.go\<close> with its segments, cursor file, eviction and recovery. The
    interface \<open>fifo\<close> says what a queue of entries promises; the spool is an instance, and a restart finds what was there.
  \<^item> \<open>Lines\<close>, \<open>Multiline\<close>, \<open>Tail_File\<close>: line assembly, the multiline joiner, and the file source with rotation and truncation. No
    byte of a followed file is skipped or shipped twice in a run.
  \<^item> \<open>Docker\<close>: the docker source (\<^verbatim>\<open>docker.go\<close>), from the bytes of a connection to lines, over any number of refused and broken
    connections. With a daemon that answers from the instant asked for on (\<open>delivers\<close>), reconnecting leaves no gap.
  \<^item> \<open>Extract\<close>: field extraction (\<^verbatim>\<open>extract.go\<close>). What is extracted is the candidates of the pattern and the object within the
    limits the collector checks, so that it never makes a record invalid.
  \<^item> \<open>Shipper\<close>, \<open>Ship_Safety\<close>, \<open>Ship_Runs\<close>: every handler of the select loop of \<^verbatim>\<open>shipper.go\<close>. The interface \<open>ship_invariant\<close> lists
    what a predicate has to satisfy to hold in every state a run reaches. The spool and the list of cursor maps beside it
    stay aligned, only an acceptance moves a checkpoint, the limits hold, and the loop always has a next step.

  \<^bold>\<open>Collector\<close> (\<^verbatim>\<open>internal/ingest\<close>, \<^verbatim>\<open>internal/storage\<close>, \<^verbatim>\<open>internal/queue\<close>, \<^verbatim>\<open>cmd/collector\<close>).
  \<^item> \<open>Queue_Subject\<close>: the subjects of the broker.
  \<^item> \<open>Ingest\<close>, \<open>Ingest_Safety\<close>, \<open>Ingest_Runs\<close>: \<^verbatim>\<open>handler.go\<close> and \<^verbatim>\<open>pipeline.go\<close>; streams, publishers and shutdown. Answers come in
    order and are honest, every record is accounted for, closing publishes what is queued.
  \<^item> \<open>Lru\<close>, \<open>Streams\<close>: the cache of known streams, with the pointers of its linked list, refining a list in order of use.
  \<^item> \<open>Writer\<close>, \<open>Writer_Safety\<close>, \<open>Writer_Runs\<close>: \<^verbatim>\<open>writer.go\<close>; \<^verbatim>\<open>Submit\<close>, workers, flush with retries, both copy paths, \<^verbatim>\<open>Close\<close>. The
    invariant \<open>winv\<close> gives that a successful callback means stored rows, that every callback is made at most once and none is
    lost, that streams are stored before the records that refer to them, and that closing ends.
  \<^item> \<open>Consumer\<close>: \<^verbatim>\<open>consumer.go\<close> on top of the writer; each delivery is ended at most once, and rightly.
  \<^item> \<open>Collector\<close>: ingest, broker, consumer and writer together under the shutdown order of \<^verbatim>\<open>main.go\<close>: what an acceptance tells
    an agent about the database, and what a signal does to the writer.

  \<^bold>\<open>Queries\<close> (\<^verbatim>\<open>internal/query\<close>, \<^verbatim>\<open>internal/tail\<close>, \<^verbatim>\<open>internal/cluster\<close>).
  \<^item> \<open>Query_Lexer\<close>, \<open>Query_Parser\<close>: tokens, syntax tree, recursive descent. The lexer advances at every token, so the parser's
    fuel, the length of what is left, is always enough; parsed queries satisfy what later stages rely on.
  \<^item> \<open>Query_Plan\<close>, \<open>Query_Shape\<close>: compilation to SQL and the guard \<^verbatim>\<open>CheckSQL\<close>. The text of a statement depends on the shape of
    the query alone, so nothing a user writes reaches it, and the guard accepts it.
  \<^item> \<open>Query_Match\<close>, \<open>Tail\<close>: the evaluator and the subscriptions of live tail; the interface \<open>subject_routing\<close> is what the
    registry needs of subjects.
  \<^item> \<open>Hash_Ring\<close>, \<open>Membership\<close>: the consistent hash ring, its differences, and the view of the members.
  \<^item> \<open>Record_Merge\<close>, \<open>Coordinator\<close>, \<open>Cluster_Answer\<close>: the executor of one node, the fan-out, and the merge with its heap (the interface
    \<open>keyed\<close> is what the heap needs of an order). A clustered answer is the answer of one node over the reachable streams.

  \<^bold>\<open>Configuration and the public API\<close> (\<^verbatim>\<open>internal/config\<close>, \<^verbatim>\<open>internal/httpapi\<close>).
  \<^item> \<open>Config\<close>: reading the environment in a state monad that collects the problems, and the rules. Every problem is reported; what
    loads is safe to start from, and keeps live tail outside the durable stream.
  \<^item> \<open>Http_Api\<close>: authentication, the query and lookup endpoints and the tail connection, on top of the parser, the planner, the
    executors and the subscriptions. Nothing is called without the token, answers are bounded, and a tail client can account
    for every match.

  \<^bold>\<open>Deviations.\<close> The properties marked as errors are runs in which the code does less than its comments promise: an acknowledgement
  that settles the wrong batch, writing that stops at a signal while the consumer still runs, shutdown
  that waits for its deadline, an accepted record that is dropped for its age, a submission accepted after the last drain,
  and lines of a container that take each other's place in the table. More of them stand beside the components they
  concern: a record that fails the batches it is in, a spool that cannot read past a torn append, replay out of order, a
  recovery that deletes on a read error, keys of groups that collide.

  \<^bold>\<open>Bounds and fuel.\<close> Recursive functions terminate by a measure or by structure; the parser's fuel is computed from
  the input and shown to suffice. Machine integers keep their width where the code narrows them (levels to 16 bits on the
  wire, acknowledgement counts to 32 bits, stream identities and ring positions 64 bits). Channels have the capacities of
  the configuration. Shutdown arguments use ranks in the number of shipments, jobs, modes and attempts left.

  \<^bold>\<open>Not modelled.\<close> The NATS client (\<^verbatim>\<open>internal/queue/nats.go\<close>, \<^verbatim>\<open>consumer.go\<close>), gRPC dialing and serving, TLS, the router and the
  websocket frames of the public API, the connection pool and migrations, metrics, logging and tracing: calls of libraries
  whose code is not here, or output. Of the docker source, the frames of the docker API and the waits between connections are
  left out; a line cut inside by a broken connection is outside the law \<open>delivers\<close>. The commands are left out besides the
  collector's order of shutdown. Generated protobuf code is represented by the records it describes.
\<close>

end
